(* ===== verification/Zuo_Prelude.thy ===== *)
theory Zuo_Prelude
  imports Main "HOL-Library.Word" "HOL-Library.List_Lexorder"
begin

text \<open>
  Shared vocabulary of the Zuo development: the width-carrying integer types of
  \<^verbatim>\<open>zuo.c\<close>, the result type of fallible C functions with its sequencing combinator,
  C library routines on bytes (\<^verbatim>\<open>isdigit\<close>, \<^verbatim>\<open>isspace\<close>, \<^verbatim>\<open>strcmp\<close>, ...) in the
  "C" locale, and the generic lemmas on lists and integers that the component theories
  share. Strings are lists of bytes, written as HOL \<^typ>\<open>char\<close>s.
\<close>

unbundle bit_operations_syntax

named_theorems zuo_defs \<open>definitions unfolded by the component proofs\<close>
named_theorems zuo_ctype \<open>C character classification\<close>

section \<open>Machine integers\<close>

type_synonym zuo_int = "64 word"
type_synonym zuo_int32 = "32 word"

abbreviation int_min :: int where "int_min \<equiv> - (2 ^ 63)"
abbreviation int_max :: int where "int_max \<equiv> 2 ^ 63 - 1"

lemma sint_zuo_int_range: "int_min \<le> sint (w :: zuo_int) \<and> sint w \<le> int_max"
  using sint_greater_eq [of w] sint_less [of w] by simp

lemma sint_of_int_zuo_int:
  "int_min \<le> i \<Longrightarrow> i \<le> int_max \<Longrightarrow> sint (word_of_int i :: zuo_int) = i"
  by (simp add: sint_sbintrunc' signed_take_bit_int_eq_self)

lemma word_of_int_sint [simp]: "word_of_int (sint (w :: zuo_int)) = w"
  by simp

section \<open>Results of fallible operations\<close>

text \<open>
  A C function that may end in \<^verbatim>\<open>zuo_fail\<close> returns \<^term>\<open>Inl e\<close>; otherwise \<^term>\<open>Inr x\<close>.
\<close>

definition rbind :: "'e + 'a \<Rightarrow> ('a \<Rightarrow> 'e + 'b) \<Rightarrow> 'e + 'b" where
  "rbind m f = (case m of Inl e \<Rightarrow> Inl e | Inr x \<Rightarrow> f x)"

lemma rbind_simps [simp, code]:
  "rbind (Inl e) f = Inl e"
  "rbind (Inr x) f = f x"
  by (simp_all add: rbind_def)

lemma rbind_eq_Inr_iff: "rbind m f = Inr y \<longleftrightarrow> (\<exists>x. m = Inr x \<and> f x = Inr y)"
  by (cases m) auto

lemma rbind_eq_Inl_iff: "rbind m f = Inl e \<longleftrightarrow> m = Inl e \<or> (\<exists>x. m = Inr x \<and> f x = Inl e)"
  by (cases m) auto

lemma rbind_cong [fundef_cong]:
  "m = m' \<Longrightarrow> (\<And>x. m' = Inr x \<Longrightarrow> f x = f' x) \<Longrightarrow> rbind m f = rbind m' f'"
  by (cases m') auto

lemma rbind_assoc: "rbind (rbind m f) g = rbind m (\<lambda>x. rbind (f x) g)"
  by (cases m) auto

definition rguard :: "bool \<Rightarrow> 'e \<Rightarrow> 'e + unit" where
  "rguard b e = (if b then Inr () else Inl e)"

lemma rguard_simps [simp]:
  "rguard b e = Inr u \<longleftrightarrow> b"
  "rguard b e = Inl e' \<longleftrightarrow> \<not> b \<and> e = e'"
  "rguard True e = Inr ()"
  "rguard False e = Inl e"
  by (auto simp: rguard_def)

text \<open>Case analysis on one conditional at a time, for long chains of tests.\<close>

lemma ite_E:
  assumes "(if b then x else y) = z"
  obtains "b" "x = z" | "\<not> b" "y = z"
  using assms by (cases b) auto

section \<open>Bytes and the C character classes\<close>

abbreviation byte :: "char \<Rightarrow> nat" where "byte c \<equiv> of_char c"

abbreviation NUL :: char where "NUL \<equiv> CHR 0x00"

lemma byte_inject: "byte c = byte d \<longleftrightarrow> c = d"
  by simp

lemma byte_eq_0_iff: "byte c = 0 \<longleftrightarrow> c = NUL"
proof -
  have "byte NUL = 0" by code_simp
  then show ?thesis by (metis byte_inject)
qed

lemma byte_le_neq: "byte c \<le> byte d \<longleftrightarrow> byte c < byte d \<or> c = d"
  by (auto simp: le_less)

definition isdigit :: "char \<Rightarrow> bool" where
  "isdigit c \<longleftrightarrow> 48 \<le> byte c \<and> byte c \<le> 57"

definition isalpha :: "char \<Rightarrow> bool" where
  "isalpha c \<longleftrightarrow> (65 \<le> byte c \<and> byte c \<le> 90) \<or> (97 \<le> byte c \<and> byte c \<le> 122)"

definition isspace :: "char \<Rightarrow> bool" where
  "isspace c \<longleftrightarrow> byte c = 32 \<or> (9 \<le> byte c \<and> byte c \<le> 13)"

definition isprint :: "char \<Rightarrow> bool" where
  "isprint c \<longleftrightarrow> 32 \<le> byte c \<and> byte c \<le> 126"

definition tolower :: "char \<Rightarrow> char" where
  "tolower c = (if 65 \<le> byte c \<and> byte c \<le> 90 then char_of (byte c + 32) else c)"

lemmas [zuo_ctype] = isdigit_def isalpha_def isspace_def isprint_def

lemma not_isdigit_NUL [simp]: "\<not> isdigit NUL" and not_isalpha_NUL [simp]: "\<not> isalpha NUL"
  and not_isspace_NUL [simp]: "\<not> isspace NUL"
  by (simp_all add: zuo_ctype)

text \<open>
  The contents of a Zuo string followed by the terminator that
  \<^verbatim>\<open>zuo_sized_string\<close> stores: reading at the length yields \<^term>\<open>NUL\<close>. Reading beyond
  the terminator is outside the object; such reads are modelled where they occur.
\<close>

definition char_at :: "string \<Rightarrow> nat \<Rightarrow> char" where
  "char_at s i = (if i < length s then s ! i else NUL)"

lemma char_at_simps [simp]:
  "char_at [] i = NUL"
  "char_at (c # s) 0 = c"
  "char_at (c # s) (Suc i) = char_at s i"
  by (simp_all add: char_at_def)

lemma char_at_append: "char_at (s @ t) i = (if i < length s then s ! i else char_at t (i - length s))"
  by (auto simp: char_at_def nth_append)

section \<open>C strings\<close>

text \<open>The bytes \<^verbatim>\<open>strcmp\<close> sees: everything before the first \<^term>\<open>NUL\<close>.\<close>

definition cbytes :: "string \<Rightarrow> nat list" where
  "cbytes s = map of_char (takeWhile (\<lambda>c. c \<noteq> NUL) s)"

text \<open>\<^verbatim>\<open>strcmp\<close>: only the sign of its result is used.\<close>

fun strcmp :: "string \<Rightarrow> string \<Rightarrow> int" where
  "strcmp [] t = (case t of [] \<Rightarrow> 0 | d # _ \<Rightarrow> - int (byte d))"
| "strcmp (c # s) t =
     (let b = (case t of [] \<Rightarrow> 0 | d # _ \<Rightarrow> byte d) in
      if byte c \<noteq> b then int (byte c) - int b
      else if c = NUL then 0
      else strcmp s (tl t))"

lemma cbytes_simps [simp]:
  "cbytes [] = []"
  "cbytes (c # s) = (if c = NUL then [] else byte c # cbytes s)"
  by (simp_all add: cbytes_def)

lemma strcmp_le_iff: "strcmp s t \<le> 0 \<longleftrightarrow> cbytes s \<le> cbytes t"
proof (induction s t rule: strcmp.induct)
  case (1 t)
  show ?case by (auto split: list.split)
next
  case (2 c s t)
  show ?case
  proof (cases t)
    case Nil
    then show ?thesis using byte_eq_0_iff [of c] by auto
  next
    case (Cons d t')
    with "2.IH" [OF refl] show ?thesis
      using byte_eq_0_iff [of c] byte_eq_0_iff [of d] by (auto simp: byte_le_neq)
  qed
qed

section \<open>Lists\<close>

lemma set_update_Some_cases:
  "i < length xs \<Longrightarrow> x \<in> set (xs[i := y]) \<Longrightarrow> x = y \<or> x \<in> set xs"
  by (metis insert_iff set_update_subset_insert subset_iff)

lemma sum_list_update_nat:
  "i < length (xs :: int list) \<Longrightarrow> sum_list (xs[i := y]) = sum_list xs + y - xs ! i"
  by (induction xs arbitrary: i) (auto split: nat.split)

end
