(* ===== verification/Zuo_Trie.thy ===== *)
theory Zuo_Trie
  imports Zuo_Prelude
begin

text \<open>
  The tries of \<^verbatim>\<open>zuo.c\<close>: 16-way nodes that serve as symbol-keyed persistent maps
  ("hash tables"), as the root environment, and as the symbol table. A symbol's sid is
  consumed four bits at a time, lowest bits first, until it is 0. The singleton
  \<^verbatim>\<open>z.o_undefined\<close>, which the C code stores for an absent key, value or child, is
  \<^term>\<open>None\<close>.

  The theory models lookup, in-place set, persistent extend and remove, key listing and
  the key-subset test, and shows that the persistent operations implement a finite map
  with a correct element count (locale \<open>symbol_map\<close>). Pointer comparisons between tries
  are modelled by structural equality; \<open>trie_remove_same_iff\<close> and \<open>subset_refl\<close> show
  that the two tests cannot be told apart.
\<close>

section \<open>Symbols and trie nodes\<close>

datatype symbol = Symbol (sym_id: int) (sym_str: string)

datatype 'v trie =
  Trie_Node (trie_count: int) (trie_key: "symbol option") (trie_val: "'v option")
    (trie_next: "'v trie option list")

abbreviation BFACTOR :: nat where "BFACTOR \<equiv> 16"

definition trie_slot :: "int \<Rightarrow> nat" where
  "trie_slot sid = nat (sid AND 15)"

definition trie_shift :: "int \<Rightarrow> int" where
  "trie_shift sid = drop_bit 4 sid"

lemma trie_slot_mod: "trie_slot sid = nat (sid mod 16)"
proof -
  have "sid AND 15 = take_bit 4 sid"
    by (simp add: take_bit_eq_mask mask_eq_exp_minus_1)
  then show ?thesis by (simp add: trie_slot_def take_bit_eq_mod)
qed

lemma trie_shift_div: "trie_shift sid = sid div 16"
  by (simp add: trie_shift_def drop_bit_eq_div)

lemma trie_slot_less [simp]: "trie_slot sid < 16"
  by (simp add: trie_slot_mod nat_less_iff)

lemma trie_shift_less [simp]: "0 < sid \<Longrightarrow> trie_shift sid < sid"
  by (simp add: trie_shift_div)

lemma trie_shift_nonneg [simp]: "0 \<le> sid \<Longrightarrow> 0 \<le> trie_shift sid"
  by (simp add: trie_shift_div pos_imp_zdiv_nonneg_iff)

lemma trie_id_eq: "sid = 16 * trie_shift sid + int (trie_slot sid)"
  by (simp add: trie_slot_mod trie_shift_div)

lemma trie_digits [simp]:
  assumes "i < 16"
  shows "trie_slot (16 * j + int i) = i" and "trie_shift (16 * j + int i) = j"
  using assms by (simp_all add: trie_slot_mod trie_shift_div)

lemma trie_id_eqI: "trie_slot a = trie_slot b \<Longrightarrow> trie_shift a = trie_shift b \<Longrightarrow> a = b"
  by (metis trie_id_eq)

section \<open>Operations\<close>

definition zuo_trie_node :: "'v trie" where
  "zuo_trie_node = Trie_Node 0 None None (replicate BFACTOR None)"

function trie_lookup :: "'v trie \<Rightarrow> int \<Rightarrow> 'v option" where
  "trie_lookup trie sid =
     (if sid > 0 then
        (case trie_next trie ! trie_slot sid of
           None \<Rightarrow> None
         | Some next \<Rightarrow> trie_lookup next (trie_shift sid))
      else trie_val trie)"
  by pat_completeness auto
termination by (relation "measure (\<lambda>(t, sid). nat sid)") auto

declare trie_lookup.simps [simp del]

definition zuo_trie_lookup :: "'v trie \<Rightarrow> symbol \<Rightarrow> 'v option" where
  "zuo_trie_lookup trie symb = trie_lookup trie (sym_id symb)"

text \<open>In-place update, used only for the initial environment: inner counts stay as they are.\<close>

function trie_set :: "'v trie \<Rightarrow> int \<Rightarrow> symbol \<Rightarrow> 'v \<Rightarrow> 'v trie" where
  "trie_set trie sid key v =
     (if sid > 0 then
        (let i = trie_slot sid;
             next = (case trie_next trie ! i of None \<Rightarrow> zuo_trie_node | Some n \<Rightarrow> n)
         in Trie_Node (trie_count trie) (trie_key trie) (trie_val trie)
              ((trie_next trie)[i := Some (trie_set next (trie_shift sid) key v)]))
      else Trie_Node (trie_count trie) (Some key) (Some v) (trie_next trie))"
  by pat_completeness auto
termination by (relation "measure (\<lambda>(t, sid, k, v). nat sid)") auto

declare trie_set.simps [simp del]

definition zuo_trie_set :: "'v trie \<Rightarrow> symbol \<Rightarrow> 'v \<Rightarrow> 'v trie" where
  "zuo_trie_set trie symb v =
     (let t = trie_set trie (sym_id symb) symb v
      in Trie_Node (trie_count t + 1) (trie_key t) (trie_val t) (trie_next t))"

text \<open>
  \<^verbatim>\<open>trie_extend\<close> receives and updates \<^verbatim>\<open>*added\<close>: the model takes it as an argument and
  returns it with the new node.
\<close>

function trie_extend :: "'v trie option \<Rightarrow> int \<Rightarrow> symbol \<Rightarrow> 'v \<Rightarrow> int \<Rightarrow> 'v trie \<times> int" where
  "trie_extend trie sid key v added =
     (let (new_trie, added) =
            (case trie of None \<Rightarrow> (zuo_trie_node, 1) | Some t \<Rightarrow> (t, added))
      in if sid > 0 then
           (let i = trie_slot sid;
                (sub, added) = trie_extend (trie_next new_trie ! i) (trie_shift sid) key v added
            in (Trie_Node (trie_count new_trie + added) (trie_key new_trie) (trie_val new_trie)
                  ((trie_next new_trie)[i := Some sub]), added))
         else
           (let added = (if trie_val new_trie = None then 1 else added)
            in (Trie_Node (trie_count new_trie + added) (Some key) (Some v)
                  (trie_next new_trie), added)))"
  by pat_completeness auto
termination by (relation "measure (\<lambda>(t, sid, k, v, a). nat sid)") auto

declare trie_extend.simps [simp del]

definition zuo_trie_extend :: "'v trie \<Rightarrow> symbol \<Rightarrow> 'v \<Rightarrow> 'v trie" where
  "zuo_trie_extend trie symb v = fst (trie_extend (Some trie) (sym_id symb) symb v 0)"

text \<open>The tail of \<^verbatim>\<open>trie_remove\<close>: below the root, a node with nothing left is dropped.\<close>

definition trie_prune :: "nat \<Rightarrow> 'v trie \<Rightarrow> 'v trie option" where
  "trie_prune depth new_trie =
     (if depth > 0 \<and> list_all (\<lambda>n. n = None) (trie_next new_trie) then None
      else Some new_trie)"

function trie_remove :: "'v trie option \<Rightarrow> int \<Rightarrow> nat \<Rightarrow> 'v trie option" where
  "trie_remove trie sid depth =
     (case trie of
        None \<Rightarrow> None
      | Some t \<Rightarrow>
          if sid > 0 then
            (let i = trie_slot sid;
                 sub_trie = trie_remove (trie_next t ! i) (trie_shift sid) (depth + 1)
             in if sub_trie = trie_next t ! i then Some t
                else
                  (let new_trie = Trie_Node (trie_count t - 1) (trie_key t) (trie_val t)
                                    ((trie_next t)[i := sub_trie])
                   in if sub_trie \<noteq> None \<or> trie_val new_trie \<noteq> None then Some new_trie
                      else trie_prune depth new_trie))
          else if trie_val t = None then Some t
          else trie_prune depth (Trie_Node (trie_count t - 1) None None (trie_next t)))"
  by pat_completeness auto
termination by (relation "measure (\<lambda>(t, sid, d). nat sid)") auto

declare trie_remove.simps [simp del]

definition zuo_trie_remove :: "'v trie \<Rightarrow> symbol \<Rightarrow> 'v trie" where
  "zuo_trie_remove trie symb =
     (case trie_remove (Some trie) (sym_id symb) 0 of None \<Rightarrow> zuo_trie_node | Some t \<Rightarrow> t)"

text \<open>
  At depth 0 the result is always a node (\<open>trie_remove_depth_0\<close> below), so the first
  branch of \<^const>\<open>zuo_trie_remove\<close> is never taken.
\<close>

fun zuo_trie_keys :: "'v trie \<Rightarrow> symbol list \<Rightarrow> symbol list" where
  "zuo_trie_keys (Trie_Node c k v nx) accum =
     fold (\<lambda>n accum. case n of None \<Rightarrow> accum | Some t \<Rightarrow> zuo_trie_keys t accum) nx
       (case k of None \<Rightarrow> accum | Some key \<Rightarrow> key # accum)"

lemma trie_next_size: "n \<in> set nx \<Longrightarrow> size_option size n \<le> size_list (size_option size) nx"
  by (intro size_list_estimation') auto

function zuo_trie_keys_subset_p :: "'v trie option \<Rightarrow> 'v trie option \<Rightarrow> bool" where
  "zuo_trie_keys_subset_p trie1_in trie2_in =
     (if trie1_in = trie2_in then True
      else case trie1_in of
        None \<Rightarrow> True
      | Some (Trie_Node c1 k1 v1 nx1) \<Rightarrow>
          (case trie2_in of
             None \<Rightarrow> False
           | Some (Trie_Node c2 k2 v2 nx2) \<Rightarrow>
               if c1 > c2 then False
               else list_all (\<lambda>(n1, n2). zuo_trie_keys_subset_p n1 n2) (zip nx1 nx2)))"
  by pat_completeness auto
termination
  by (relation "measure (\<lambda>(a, b). size_option size a)")
    (auto dest!: set_zip_leftD intro!: le_imp_less_Suc le_SucI trans_le_add2 trie_next_size)

declare zuo_trie_keys_subset_p.simps [simp del]

section \<open>Well-formed tries\<close>

text \<open>
  The number of values stored in a trie, and the representation invariant: every node has
  16 children, its count is the number of values at and below it, a key is present exactly
  when a value is, no child is empty, and the child at slot 0 has no value of its own
  (no id has a leading zero digit).
\<close>

fun trie_card :: "'v trie \<Rightarrow> int" where
  "trie_card (Trie_Node c k v nx) =
     (if v = None then 0 else 1)
     + sum_list (map (\<lambda>n. case n of None \<Rightarrow> 0 | Some t \<Rightarrow> trie_card t) nx)"

definition slot0_ok :: "'v trie option list \<Rightarrow> bool" where
  "slot0_ok nx = (case nx ! 0 of None \<Rightarrow> True | Some t \<Rightarrow> trie_val t = None)"

fun trie_wf :: "'v trie \<Rightarrow> bool" where
  "trie_wf (Trie_Node c k v nx) \<longleftrightarrow>
     length nx = BFACTOR \<and> c = trie_card (Trie_Node c k v nx) \<and> (k = None \<longleftrightarrow> v = None)
     \<and> slot0_ok nx
     \<and> list_all (\<lambda>n. case n of None \<Rightarrow> True | Some t \<Rightarrow> trie_wf t \<and> 0 < trie_card t) nx"

declare trie_wf.simps [simp del] trie_card.simps [simp del]

definition ocard :: "'v trie option \<Rightarrow> int" where
  "ocard n = (case n of None \<Rightarrow> 0 | Some t \<Rightarrow> trie_card t)"

definition onode :: "'v trie option \<Rightarrow> 'v trie" where
  "onode n = (case n of None \<Rightarrow> zuo_trie_node | Some t \<Rightarrow> t)"

lemma ocard_simps [simp]: "ocard None = 0" "ocard (Some t) = trie_card t"
  by (simp_all add: ocard_def)

lemma onode_simps [simp]: "onode None = zuo_trie_node" "onode (Some t) = t"
  by (simp_all add: onode_def)

lemma trie_card_node:
  "trie_card t = (if trie_val t = None then 0 else 1) + sum_list (map ocard (trie_next t))"
  by (cases t) (simp add: trie_card.simps ocard_def [abs_def])

lemma trie_wf_node:
  "trie_wf t \<longleftrightarrow> length (trie_next t) = 16 \<and> trie_count t = trie_card t
     \<and> (trie_key t = None \<longleftrightarrow> trie_val t = None) \<and> slot0_ok (trie_next t)
     \<and> (\<forall>c. Some c \<in> set (trie_next t) \<longrightarrow> trie_wf c \<and> 0 < trie_card c)"
proof (cases t)
  case (Trie_Node c k v nx)
  have "list_all (\<lambda>n. case n of None \<Rightarrow> True | Some t \<Rightarrow> trie_wf t \<and> 0 < trie_card t) nx
    \<longleftrightarrow> (\<forall>c. Some c \<in> set nx \<longrightarrow> trie_wf c \<and> 0 < trie_card c)"
    by (auto simp: list_all_iff split: option.splits)
  then show ?thesis by (simp add: Trie_Node trie_wf.simps)
qed

lemma zuo_trie_node_simps [simp]:
  "trie_count zuo_trie_node = 0" "trie_key zuo_trie_node = None"
  "trie_val zuo_trie_node = None" "trie_next zuo_trie_node = replicate 16 None"
  by (simp_all add: zuo_trie_node_def)

lemma trie_card_empty [simp]: "trie_card zuo_trie_node = 0"
  by (simp add: trie_card_node sum_list_replicate map_replicate)

lemmas trie_wfI = trie_wf_node [THEN iffD2, OF conjI, OF _ conjI, OF _ _ conjI, OF _ _ _ conjI]

lemma trie_wf_length: "trie_wf t \<Longrightarrow> length (trie_next t) = 16"
  and trie_wf_count: "trie_wf t \<Longrightarrow> trie_count t = trie_card t"
  and trie_wf_key: "trie_wf t \<Longrightarrow> trie_key t = None \<longleftrightarrow> trie_val t = None"
  and trie_wf_slot0: "trie_wf t \<Longrightarrow> slot0_ok (trie_next t)"
  and trie_wf_children: "trie_wf t \<Longrightarrow> Some c \<in> set (trie_next t) \<Longrightarrow> trie_wf c \<and> 0 < trie_card c"
  using trie_wf_node [of t] by blast+

lemma trie_wf_empty [simp]: "trie_wf zuo_trie_node"
  by (rule trie_wfI) (simp_all add: slot0_ok_def)

lemma trie_wf_child:
  "trie_wf t \<Longrightarrow> i < 16 \<Longrightarrow> trie_next t ! i = Some c \<Longrightarrow> trie_wf c \<and> 0 < trie_card c"
  by (metis trie_wf_children trie_wf_length nth_mem)

lemma trie_wf_onode: "trie_wf t \<Longrightarrow> i < 16 \<Longrightarrow> trie_wf (onode (trie_next t ! i))"
  by (cases "trie_next t ! i") (auto dest: trie_wf_child)

lemma trie_children_nonneg: "trie_wf t \<Longrightarrow> n \<in> set (trie_next t) \<Longrightarrow> 0 \<le> ocard n"
  by (cases n) (auto dest: trie_wf_children)

lemma trie_children_sum_nonneg: "trie_wf t \<Longrightarrow> 0 \<le> sum_list (map ocard (trie_next t))"
  by (rule sum_list_nonneg) (auto dest: trie_children_nonneg)

lemma trie_card_nonneg: "trie_wf t \<Longrightarrow> 0 \<le> trie_card t"
  using trie_children_sum_nonneg [of t] by (simp add: trie_card_node)

lemma trie_child_card_le:
  assumes "trie_wf t" "i < 16"
  shows "ocard (trie_next t ! i) \<le> sum_list (map ocard (trie_next t))"
  using assms by (intro member_le_sum_list) (auto simp: trie_wf_length dest: trie_children_nonneg)

lemma trie_slot0_val: "trie_wf t \<Longrightarrow> trie_val (onode (trie_next t ! 0)) = None"
  using trie_wf_slot0 [of t] by (cases "trie_next t ! 0") (auto simp: slot0_ok_def)

text \<open>Changing one child of a well-formed node.\<close>

lemma trie_card_update:
  assumes "length nx = 16" "i < 16"
  shows "trie_card (Trie_Node c k v (nx[i := n]))
    = trie_card (Trie_Node c' k' v nx) + ocard n - ocard (nx ! i)"
  using assms by (simp add: trie_card_node map_update sum_list_update_nat)

lemma trie_wf_update:
  assumes wf: "trie_wf t" and i: "i < 16"
    and n: "\<And>c. n = Some c \<Longrightarrow> trie_wf c \<and> 0 < trie_card c \<and> (i = 0 \<longrightarrow> trie_val c = None)"
    and cnt: "cnt = trie_count t + ocard n - ocard (trie_next t ! i)"
  shows "trie_wf (Trie_Node cnt (trie_key t) (trie_val t) ((trie_next t)[i := n]))" (is "trie_wf ?t")
proof -
  have len: "length (trie_next t) = 16" using wf by (rule trie_wf_length)
  have card: "trie_card ?t = cnt"
    using trie_card_update [OF len i, of cnt "trie_key t" "trie_val t" n "trie_count t" "trie_key t"]
    by (simp add: cnt trie_wf_count [OF wf, symmetric])
  have "slot0_ok (trie_next ?t)"
    using trie_wf_slot0 [OF wf] n len i
    by (auto simp: slot0_ok_def nth_list_update split: option.split)
  moreover have "trie_wf c \<and> 0 < trie_card c" if "Some c \<in> set (trie_next ?t)" for c
    using trie_wf_children [OF wf, of c] n [of c] that len i set_update_Some_cases [of i "trie_next t"]
    by auto
  ultimately show ?thesis using len card trie_wf_key [OF wf] by (intro trie_wfI) auto
qed

section \<open>Lookup\<close>

text \<open>What the node for an id holds: key and value (an absent node holds nothing).\<close>

function trie_entry :: "'v trie \<Rightarrow> int \<Rightarrow> symbol option \<times> 'v option" where
  "trie_entry t sid =
     (if sid > 0 then trie_entry (onode (trie_next t ! trie_slot sid)) (trie_shift sid)
      else (trie_key t, trie_val t))"
  by pat_completeness auto
termination by (relation "measure (\<lambda>(t, sid). nat sid)") auto

declare trie_entry.simps [simp del]

lemma trie_entry_nonpos [simp]: "sid \<le> 0 \<Longrightarrow> trie_entry t sid = (trie_key t, trie_val t)"
  and trie_entry_pos: "0 < sid \<Longrightarrow> trie_entry t sid
    = trie_entry (onode (trie_next t ! trie_slot sid)) (trie_shift sid)"
  by (simp_all add: trie_entry.simps)

lemma trie_entry_empty [simp]: "trie_entry zuo_trie_node sid = (None, None)"
  by (induction "zuo_trie_node :: 'a trie" sid rule: trie_entry.induct) (simp add: trie_entry.simps)

lemma trie_lookup_entry: "trie_lookup t sid = snd (trie_entry t sid)"
  by (induction t sid rule: trie_lookup.induct)
    (subst trie_lookup.simps, auto simp: trie_entry_pos split: option.split)

lemma trie_lookup_nonpos [simp]: "sid \<le> 0 \<Longrightarrow> trie_lookup t sid = trie_val t"
  and trie_lookup_empty [simp]: "trie_lookup zuo_trie_node sid = None"
  and trie_lookup_pos:
    "0 < sid \<Longrightarrow> trie_lookup t sid = trie_lookup (onode (trie_next t ! trie_slot sid)) (trie_shift sid)"
  by (simp_all add: trie_lookup_entry trie_entry_pos)

text \<open>Two positive ids that share the lowest digit differ in the rest.\<close>

lemma trie_shift_neq: "a \<noteq> b \<Longrightarrow> trie_slot a = trie_slot b \<Longrightarrow> trie_shift a \<noteq> trie_shift b"
  using trie_id_eqI by blast

lemma trie_shift_pos: "0 < sid \<Longrightarrow> trie_slot sid = 0 \<Longrightarrow> 0 < trie_shift sid"
  using trie_id_eq [of sid] by simp

section \<open>Extend\<close>

lemma trie_extend_pos:
  assumes "0 < sid"
  shows "trie_extend n sid key v a =
    (let (sub, a') = trie_extend (trie_next (onode n) ! trie_slot sid) (trie_shift sid) key v
           (if n = None then 1 else a)
     in (Trie_Node (trie_count (onode n) + a') (trie_key (onode n)) (trie_val (onode n))
           ((trie_next (onode n))[trie_slot sid := Some sub]), a'))"
  using assms by (subst trie_extend.simps) (auto simp: Let_def split: option.split prod.split)

lemma trie_extend_zero:
  assumes "sid \<le> 0"
  shows "trie_extend n sid key v a =
    (let a' = (if trie_val (onode n) = None then 1 else a)
     in (Trie_Node (trie_count (onode n) + a') (Some key) (Some v) (trie_next (onode n)), a'))"
  using assms by (subst trie_extend.simps) (auto simp: Let_def split: option.split)

lemma trie_extend_entry:
  assumes "trie_wf (onode n)" "0 \<le> sid" "0 \<le> sid'"
  shows "trie_entry (fst (trie_extend n sid key v a)) sid'
    = (if sid' = sid then (Some key, Some v) else trie_entry (onode n) sid')"
  using assms
proof (induction n sid key v a arbitrary: sid' rule: trie_extend.induct)
  case (1 n sid key v a)
  show ?case
  proof (cases "0 < sid")
    case False
    with "1.prems" show ?thesis
      by (cases "sid' = 0") (auto simp: trie_extend_zero Let_def trie_entry_pos)
  next
    case True
    let ?i = "trie_slot sid" and ?a = "if n = None then 1 else a"
    have wf: "trie_wf (onode (trie_next (onode n) ! ?i))"
      using "1.prems"(1) by (rule trie_wf_onode) simp
    have len: "length (trie_next (onode n)) = 16"
      using "1.prems"(1) by (rule trie_wf_length)
    have IH: "trie_entry (fst (trie_extend (trie_next (onode n) ! ?i) (trie_shift sid) key v ?a)) j
        = (if j = trie_shift sid then (Some key, Some v)
           else trie_entry (onode (trie_next (onode n) ! ?i)) j)" if "0 \<le> j" for j
      using "1.IH" [of "(onode n, ?a)" "onode n" ?a ?i j] wf True "1.prems"(2) that
      by (cases n) auto
    show ?thesis
    proof (cases "sid' = 0")
      case True
      with \<open>0 < sid\<close> show ?thesis by (simp add: trie_extend_pos Let_def split: prod.split)
    next
      case False
      with "1.prems"(3) have pos: "0 < sid'" by simp
      show ?thesis
      proof (cases "trie_slot sid' = ?i")
        case True
        then show ?thesis
          using IH [of "trie_shift sid'"] pos \<open>0 < sid\<close> len trie_shift_neq [of sid' sid]
          by (auto simp: trie_extend_pos trie_entry_pos Let_def split: prod.split if_splits)
      next
        case False
        then show ?thesis
          using pos \<open>0 < sid\<close> len
          by (auto simp: trie_extend_pos trie_entry_pos Let_def split: prod.split)
      qed
    qed
  qed
qed

lemma trie_extend_lookup:
  assumes "trie_wf (onode n)" "0 \<le> sid" "0 \<le> sid'"
  shows "trie_lookup (fst (trie_extend n sid key v a)) sid'
    = (if sid' = sid then Some v else trie_lookup (onode n) sid')"
  by (simp add: trie_lookup_entry trie_extend_entry [OF assms])

lemma trie_extend_val: "0 < sid \<Longrightarrow> trie_val (fst (trie_extend n sid key v a)) = trie_val (onode n)"
  by (simp add: trie_extend_pos Let_def split: prod.split)

text \<open>
  Where \<^verbatim>\<open>*added\<close> is 0 on entry, or the path is already missing, it is 1 on return exactly
  when the key is new, and counts stay right all along the path.
\<close>

lemma trie_extend_wf:
  assumes "trie_wf (onode n)" "0 \<le> sid" "n = None \<or> a = 0"
  shows "snd (trie_extend n sid key v a) = (if trie_lookup (onode n) sid = None then 1 else 0)
    \<and> trie_wf (fst (trie_extend n sid key v a))
    \<and> trie_card (fst (trie_extend n sid key v a))
        = trie_card (onode n) + (if trie_lookup (onode n) sid = None then 1 else 0)
    \<and> 0 < trie_card (fst (trie_extend n sid key v a))"
  using assms
proof (induction n sid key v a rule: trie_extend.induct)
  case (1 n sid key v a)
  let ?t = "onode n" and ?a = "if n = None then 1 else a" and ?i = "trie_slot sid"
  have len: "length (trie_next ?t) = 16" and cnt: "trie_count ?t = trie_card ?t"
    and nonneg: "0 \<le> trie_card ?t"
    using "1.prems"(1) by (auto intro: trie_wf_length trie_wf_count trie_card_nonneg)
  show ?case
  proof (cases "0 < sid")
    case False
    let ?new = "fst (trie_extend n sid key v a)"
    let ?d = "if trie_val ?t = None then 1 else 0"
    have d: "snd (trie_extend n sid key v a) = ?d"
      using False "1.prems"(3) by (auto simp: trie_extend_zero Let_def)
    have card: "trie_card ?new = trie_card ?t + ?d"
      using False by (auto simp: trie_extend_zero Let_def trie_card_node)
    have "trie_count ?new = trie_count ?t + ?d"
      using False d by (simp add: trie_extend_zero Let_def)
    with card cnt have "trie_count ?new = trie_card ?new" by simp
    moreover have "trie_next ?new = trie_next ?t" "trie_key ?new \<noteq> None" "trie_val ?new \<noteq> None"
      using False by (simp_all add: trie_extend_zero Let_def)
    ultimately have wf: "trie_wf ?new"
      using len trie_wf_slot0 [OF "1.prems"(1)] trie_wf_children [OF "1.prems"(1)]
      by (intro trie_wfI) auto
    have "0 < trie_card ?new"
      using False trie_children_sum_nonneg [OF "1.prems"(1)]
      by (simp add: trie_extend_zero Let_def trie_card_node)
    with d card wf False show ?thesis by simp
  next
    case True
    let ?c = "trie_next ?t ! ?i"
    obtain sub d where ext: "trie_extend ?c (trie_shift sid) key v ?a = (sub, d)"
      by (cases "trie_extend ?c (trie_shift sid) key v ?a") auto
    have "?c = None \<or> ?a = 0"
      using "1.prems"(3) by (cases n) auto
    then have IH: "d = (if trie_lookup (onode ?c) (trie_shift sid) = None then 1 else 0)"
      "trie_wf sub" "trie_card sub = trie_card (onode ?c) + d" "0 < trie_card sub"
      using "1.IH" [of "(?t, ?a)" ?t ?a ?i] ext True "1.prems" trie_wf_onode [of ?t ?i]
      by (cases n; auto)+
    have oc: "ocard ?c = trie_card (onode ?c)" by (cases ?c) auto
    have val: "trie_val sub = None" if "?i = 0"
    proof -
      have "trie_val (onode ?c) = None"
        using trie_slot0_val [OF "1.prems"(1)] that by simp
      with trie_extend_val [of "trie_shift sid" ?c key v ?a] ext True that trie_shift_pos
      show ?thesis by auto
    qed
    have new: "trie_extend n sid key v a
        = (Trie_Node (trie_count ?t + d) (trie_key ?t) (trie_val ?t) ((trie_next ?t)[?i := Some sub]), d)"
      using True ext by (simp add: trie_extend_pos)
    have wf: "trie_wf (fst (trie_extend n sid key v a))"
      unfolding new fst_conv
      by (rule trie_wf_update [OF "1.prems"(1)]) (use IH val oc in auto)
    have card: "trie_card (fst (trie_extend n sid key v a)) = trie_card ?t + d"
      using trie_wf_count [OF wf] cnt by (simp add: new)
    have "0 < trie_card ?t + d"
    proof (cases "d = 0")
      case True
      then have "0 < ocard ?c" using IH(3,4) oc by simp
      with trie_child_card_le [OF "1.prems"(1), of ?i] show ?thesis
        using True by (simp add: trie_card_node)
    qed (use IH(1) nonneg in \<open>simp split: if_splits\<close>)
    with new wf card IH(1) show ?thesis
      by (simp add: trie_lookup_pos [OF True])
  qed
qed

section \<open>Remove\<close>

lemma trie_remove_None [simp]: "trie_remove None sid d = None"
  by (simp add: trie_remove.simps)

lemma trie_remove_zero:
  "sid \<le> 0 \<Longrightarrow> trie_remove (Some t) sid d =
     (if trie_val t = None then Some t
      else trie_prune d (Trie_Node (trie_count t - 1) None None (trie_next t)))"
  by (simp add: trie_remove.simps)

lemma trie_remove_pos:
  "0 < sid \<Longrightarrow> trie_remove (Some t) sid d =
     (let i = trie_slot sid; sub = trie_remove (trie_next t ! i) (trie_shift sid) (Suc d);
          new = Trie_Node (trie_count t - 1) (trie_key t) (trie_val t) ((trie_next t)[i := sub])
      in if sub = trie_next t ! i then Some t
         else if sub \<noteq> None \<or> trie_val t \<noteq> None then Some new else trie_prune d new)"
  by (subst trie_remove.simps) (simp add: Let_def)

lemma trie_all_None_card: "list_all (\<lambda>n. n = None) nx \<Longrightarrow> sum_list (map ocard nx) = 0"
  by (induction nx) auto

lemma trie_all_None_entry:
  assumes "list_all (\<lambda>n. n = None) (trie_next t)" "length (trie_next t) = 16" "0 < sid"
  shows "trie_entry t sid = (None, None)"
  using assms by (simp add: trie_entry_pos list_all_length)

lemma trie_prune_entry:
  assumes "length (trie_next t) = 16" "trie_key t = None" "trie_val t = None"
  shows "trie_entry (onode (trie_prune d t)) sid = trie_entry t sid"
  using assms trie_all_None_entry [of t sid]
  by (cases "0 < sid") (auto simp: trie_prune_def)

lemma trie_prune_wf:
  assumes "trie_wf t" "trie_val t = None"
  shows "trie_wf (onode (trie_prune d t)) \<and> ocard (trie_prune d t) = trie_card t
    \<and> (\<forall>c. trie_prune d t = Some c \<longrightarrow> 0 < d \<longrightarrow> 0 < trie_card c)
    \<and> trie_val (onode (trie_prune d t)) = None"
proof (cases "list_all (\<lambda>n. n = None) (trie_next t)")
  case True
  with assms show ?thesis by (auto simp: trie_prune_def trie_card_node trie_all_None_card)
next
  case False
  then obtain i where i: "i < length (trie_next t)" "trie_next t ! i \<noteq> None"
    by (auto simp: list_all_length)
  then obtain c where "trie_next t ! i = Some c" by auto
  with assms i have "0 < ocard (trie_next t ! i)"
    using trie_wf_child [of t i c] by (simp add: trie_wf_length)
  also have "\<dots> \<le> trie_card t"
    using trie_child_card_le [of t i] assms i by (simp add: trie_card_node trie_wf_length)
  finally show ?thesis using assms False by (auto simp: trie_prune_def)
qed

lemma trie_remove_spec:
  assumes "trie_wf (onode n)" "0 \<le> sid" "\<And>t. n = Some t \<Longrightarrow> 0 < d \<Longrightarrow> 0 < trie_card t"
    and "trie_lookup (onode n) sid \<noteq> None"
  shows "trie_wf (onode (trie_remove n sid d))
    \<and> ocard (trie_remove n sid d) = ocard n - 1
    \<and> (\<forall>c. trie_remove n sid d = Some c \<longrightarrow> 0 < d \<longrightarrow> 0 < trie_card c)
    \<and> (0 < sid \<longrightarrow> trie_val (onode (trie_remove n sid d)) = trie_val (onode n))
    \<and> (\<forall>sid'\<ge>0. trie_entry (onode (trie_remove n sid d)) sid'
         = (if sid' = sid then (None, None) else trie_entry (onode n) sid'))"
  using assms
proof (induction n sid d rule: trie_remove.induct)
  case (1 n sid d)
  from "1.prems"(4) obtain t where n: "n = Some t" by (cases n) auto
  with "1.prems" have wf: "trie_wf t" and look: "trie_lookup t sid \<noteq> None" by auto
  have len: "length (trie_next t) = 16" using wf by (rule trie_wf_length)
  show ?case
  proof (cases "0 < sid")
    case False
    let ?new = "Trie_Node (trie_count t - 1) None None (trie_next t)"
    have val: "trie_val t \<noteq> None" using look False by simp
    have card: "trie_card ?new = trie_card t - 1"
      using val by (simp add: trie_card_node)
    have wf': "trie_wf ?new"
      using card len trie_wf_slot0 [OF wf] trie_wf_children [OF wf] trie_wf_count [OF wf]
      by (intro trie_wfI) auto
    have "trie_entry ?new sid' = (if sid' = sid then (None, None) else trie_entry t sid')"
      if "0 \<le> sid'" for sid'
      using that False "1.prems"(2) by (cases "sid' = 0") (auto simp: trie_entry_pos)
    then show ?thesis
      using trie_prune_wf [OF wf', of d] trie_prune_entry [of ?new d] False val n card len
      by (simp add: trie_remove_zero)
  next
    case True
    let ?i = "trie_slot sid" let ?c = "trie_next t ! ?i"
    let ?sub = "trie_remove ?c (trie_shift sid) (Suc d)"
    let ?new = "Trie_Node (trie_count t - 1) (trie_key t) (trie_val t) ((trie_next t)[?i := ?sub])"
    have lookc: "trie_lookup (onode ?c) (trie_shift sid) \<noteq> None"
      using look True by (simp add: trie_lookup_pos)
    have IH: "trie_wf (onode ?sub)" "ocard ?sub = ocard ?c - 1"
      "\<And>c. ?sub = Some c \<Longrightarrow> 0 < trie_card c"
      "0 < trie_shift sid \<Longrightarrow> trie_val (onode ?sub) = trie_val (onode ?c)"
      "\<And>j. 0 \<le> j \<Longrightarrow> trie_entry (onode ?sub) j
         = (if j = trie_shift sid then (None, None) else trie_entry (onode ?c) j)"
      using "1.IH" [OF n True refl] trie_wf_onode [OF wf, of ?i] lookc True
        trie_wf_child [OF wf, of ?i]
      by auto
    have neq: "?sub \<noteq> ?c" using IH(2) by auto
    have wf': "trie_wf ?new"
    proof (rule trie_wf_update [OF wf])
      fix c assume c: "?sub = Some c"
      then have "trie_val c = None" if "?i = 0"
        using IH(4) trie_shift_pos [OF True that] trie_slot0_val [OF wf] that by simp
      with c IH(1,3) show "trie_wf c \<and> 0 < trie_card c \<and> (?i = 0 \<longrightarrow> trie_val c = None)"
        by simp
    qed (use IH(2) in simp_all)
    have card: "trie_card ?new = trie_card t - 1"
      using trie_wf_count [OF wf'] trie_wf_count [OF wf] by simp
    have entry: "trie_entry ?new sid' = (if sid' = sid then (None, None) else trie_entry t sid')"
      if "0 \<le> sid'" for sid'
    proof (cases "0 < sid'")
      case False
      with that True show ?thesis by simp
    next
      case pos: True
      then show ?thesis
        using IH(5) [of "trie_shift sid'"] len trie_shift_neq [of sid' sid] True
        by (cases "trie_slot sid' = ?i") (auto simp: trie_entry_pos)
    qed
    show ?thesis
    proof (cases "?sub \<noteq> None \<or> trie_val t \<noteq> None")
      case keep: True
      then have res: "trie_remove n sid d = Some ?new"
        using n True neq by (simp add: trie_remove_pos Let_def)
      have "0 < trie_card ?new"
      proof (cases ?sub)
        case None
        with keep trie_children_sum_nonneg [OF wf'] show ?thesis by (auto simp: trie_card_node)
      next
        case (Some c)
        with IH(3) trie_child_card_le [OF wf', of ?i] len show ?thesis
          by (simp add: trie_card_node)
      qed
      with res wf' card entry n show ?thesis by simp
    next
      case drop: False
      then have res: "trie_remove n sid d = trie_prune d ?new"
        using n True neq by (simp add: trie_remove_pos Let_def)
      have "trie_key t = None" using drop trie_wf_key [OF wf] by simp
      then have "trie_entry (onode (trie_prune d ?new)) sid' = trie_entry ?new sid'" for sid'
        using drop len by (intro trie_prune_entry) auto
      with res trie_prune_wf [OF wf', of d] card entry n drop show ?thesis by simp
    qed
  qed
qed

lemma trie_remove_absent: "trie_lookup (onode n) sid = None \<Longrightarrow> trie_remove n sid d = n"
proof (induction n sid d rule: trie_remove.induct)
  case (1 n sid d)
  then show ?case
    by (cases n; cases "0 < sid") (auto simp: trie_remove_zero trie_remove_pos Let_def trie_lookup_pos)
qed

text \<open>
  The result equals the argument exactly when the key is absent, which is exactly when
  the C code returns the same pointer: comparing results structurally is comparing
  pointers.
\<close>

lemma trie_remove_same_iff:
  assumes "trie_wf t" "0 \<le> sid" "0 < trie_card t"
  shows "trie_remove (Some t) sid d = Some t \<longleftrightarrow> trie_lookup t sid = None"
proof
  assume eq: "trie_remove (Some t) sid d = Some t"
  show "trie_lookup t sid = None"
  proof (rule ccontr)
    assume "trie_lookup t sid \<noteq> None"
    with trie_remove_spec [of "Some t" sid d] assms eq show False by simp
  qed
qed (simp add: trie_remove_absent)

lemma trie_remove_depth_0: "\<exists>t'. trie_remove (Some t) sid 0 = Some t'"
  by (cases "0 < sid")
    (auto simp: trie_remove_zero trie_remove_pos trie_prune_def Let_def)

section \<open>The ids a trie holds\<close>

definition trie_ids :: "'v trie \<Rightarrow> int set" where
  "trie_ids t = {sid. 0 \<le> sid \<and> trie_lookup t sid \<noteq> None}"

lemma trie_ids_empty [simp]: "trie_ids zuo_trie_node = {}"
  by (simp add: trie_ids_def)

lemma trie_ids_child:
  assumes "trie_wf t" "i < 16"
  shows "j \<in> trie_ids (onode (trie_next t ! i)) \<longleftrightarrow> 16 * j + int i \<in> trie_ids t \<and> 0 < 16 * j + int i"
proof (cases "0 < 16 * j + int i")
  case True
  then have "0 \<le> j" using assms(2) by simp
  with True assms(2) show ?thesis by (simp add: trie_ids_def trie_lookup_pos)
next
  case False
  have "j \<notin> trie_ids (onode (trie_next t ! i))"
  proof
    assume "j \<in> trie_ids (onode (trie_next t ! i))"
    then have j: "0 \<le> j" "trie_lookup (onode (trie_next t ! i)) j \<noteq> None"
      by (auto simp: trie_ids_def)
    with False have "j = 0" "i = 0" by auto
    with j have "trie_val (onode (trie_next t ! 0)) \<noteq> None" by simp
    with trie_slot0_val [OF assms(1)] show False by simp
  qed
  with False show ?thesis by simp
qed

lemma trie_ids_node:
  assumes "trie_wf t"
  shows "trie_ids t = (if trie_val t = None then {} else {0})
    \<union> (\<Union>i<16. (\<lambda>j. 16 * j + int i) ` trie_ids (onode (trie_next t ! i)))"
    (is "_ = ?zero \<union> ?rest")
proof (rule set_eqI)
  fix sid
  show "sid \<in> trie_ids t \<longleftrightarrow> sid \<in> ?zero \<union> ?rest"
  proof (cases "0 < sid")
    case True
    have "sid \<in> trie_ids t \<longleftrightarrow> trie_shift sid \<in> trie_ids (onode (trie_next t ! trie_slot sid))"
      using trie_ids_child [OF assms, of "trie_slot sid" "trie_shift sid"] True trie_id_eq [of sid]
      by simp
    moreover have "sid \<in> ?rest \<longleftrightarrow> trie_shift sid \<in> trie_ids (onode (trie_next t ! trie_slot sid))"
    proof
      assume "trie_shift sid \<in> trie_ids (onode (trie_next t ! trie_slot sid))"
      then show "sid \<in> ?rest" using trie_id_eq [of sid] by (intro UN_I [of "trie_slot sid"]) auto
    qed auto
    ultimately show ?thesis using True by auto
  next
    case False
    moreover have "sid \<notin> ?rest"
      using False trie_ids_child [OF assms] by auto
    ultimately show ?thesis by (auto simp: trie_ids_def)
  qed
qed

lemma onode_induct [case_names node]:
  assumes "\<And>t. (\<And>c. Some c \<in> set (trie_next t) \<Longrightarrow> P c) \<Longrightarrow> P t"
  shows "P t"
  by (induction t) (rule assms, auto)

lemma trie_card_ids:
  "trie_wf t \<Longrightarrow> finite (trie_ids t) \<and> trie_card t = int (card (trie_ids t))"
proof (induction t rule: onode_induct)
  case (node t)
  let ?f = "\<lambda>i. (\<lambda>j. 16 * j + int i) ` trie_ids (onode (trie_next t ! i))"
  have child: "finite (trie_ids (onode (trie_next t ! i)))
      \<and> ocard (trie_next t ! i) = int (card (trie_ids (onode (trie_next t ! i))))" if "i < 16" for i
  proof (cases "trie_next t ! i")
    case (Some c)
    with that node.prems have "Some c \<in> set (trie_next t)"
      by (metis nth_mem trie_wf_length)
    with node.IH Some trie_wf_children [OF node.prems] show ?thesis by simp
  qed simp
  have fin: "finite (?f i)" if "i < 16" for i using child that by blast
  have disj: "?f i \<inter> ?f k = {}" if "i < 16" "k < 16" "i \<noteq> k" for i k
    using that trie_digits(1) by (auto dest: arg_cong [where f = trie_slot])
  have "card (\<Union>i<16. ?f i) = (\<Sum>i<16. card (?f i))"
    using fin disj by (intro card_UN_disjoint) auto
  also have "\<dots> = (\<Sum>i<16. card (trie_ids (onode (trie_next t ! i))))"
    by (intro sum.cong refl card_image inj_onI) simp
  finally have rest: "int (card (\<Union>i<16. ?f i)) = sum_list (map ocard (trie_next t))"
    using child trie_wf_length [OF node.prems]
    by (simp add: sum_list_sum_nth lessThan_atLeast0)
  have "0 \<notin> (\<Union>i<16. ?f i)"
    using trie_ids_child [OF node.prems] by auto
  then show ?case
    using fin rest by (simp add: trie_ids_node [OF node.prems] trie_card_node)
qed

lemma trie_count_ids: "trie_wf t \<Longrightarrow> trie_count t = int (card (trie_ids t))"
  using trie_card_ids [of t] trie_wf_count [of t] by simp

section \<open>Listing keys\<close>

text \<open>Every stored key carries the id it is stored under.\<close>

definition trie_keyed :: "'v trie \<Rightarrow> bool" where
  "trie_keyed t \<longleftrightarrow> (\<forall>sid\<ge>0. \<forall>k. fst (trie_entry t sid) = Some k \<longrightarrow> sym_id k = sid)"

lemma trie_keyed_empty [simp]: "trie_keyed zuo_trie_node"
  by (simp add: trie_keyed_def)

lemma trie_entry_key:
  "trie_wf t \<Longrightarrow> 0 \<le> sid \<Longrightarrow> fst (trie_entry t sid) = None \<longleftrightarrow> trie_lookup t sid = None"
proof (induction t sid rule: trie_entry.induct)
  case (1 t sid)
  then show ?case
    using trie_wf_key [of t] trie_wf_onode [of t "trie_slot sid"]
    by (cases "0 < sid") (simp_all add: trie_entry_pos trie_lookup_pos)
qed

lemma zuo_trie_keys_node:
  "zuo_trie_keys t accum =
     fold (\<lambda>n accum. case n of None \<Rightarrow> accum | Some t \<Rightarrow> zuo_trie_keys t accum) (trie_next t)
       (case trie_key t of None \<Rightarrow> accum | Some key \<Rightarrow> key # accum)"
  by (cases t) simp

declare zuo_trie_keys.simps [simp del]

lemma fold_trie_keys:
  assumes "\<And>c accum. Some c \<in> set nx \<Longrightarrow> length (zuo_trie_keys c accum) = nat (trie_card c) + length accum
      \<and> set (zuo_trie_keys c accum) = {k. \<exists>sid\<ge>0. fst (trie_entry c sid) = Some k} \<union> set accum
      \<and> 0 \<le> trie_card c"
  shows "length (fold (\<lambda>n accum. case n of None \<Rightarrow> accum | Some t \<Rightarrow> zuo_trie_keys t accum) nx accum)
      = nat (sum_list (map ocard nx)) + length accum
    \<and> set (fold (\<lambda>n accum. case n of None \<Rightarrow> accum | Some t \<Rightarrow> zuo_trie_keys t accum) nx accum)
      = {k. \<exists>n\<in>set nx. \<exists>sid\<ge>0. fst (trie_entry (onode n) sid) = Some k} \<union> set accum
    \<and> 0 \<le> sum_list (map ocard nx)"
  using assms
proof (induction nx arbitrary: accum)
  case Nil
  then show ?case by simp
next
  case (Cons n nx)
  show ?case
  proof (cases n)
    case None
    with Cons show ?thesis by auto
  next
    case (Some c)
    note c = Cons.prems [of c accum]
    have IH: "length (fold (\<lambda>n accum. case n of None \<Rightarrow> accum | Some t \<Rightarrow> zuo_trie_keys t accum) nx a)
      = nat (sum_list (map ocard nx)) + length a
    \<and> set (fold (\<lambda>n accum. case n of None \<Rightarrow> accum | Some t \<Rightarrow> zuo_trie_keys t accum) nx a)
      = {k. \<exists>n\<in>set nx. \<exists>sid\<ge>0. fst (trie_entry (onode n) sid) = Some k} \<union> set a
    \<and> 0 \<le> sum_list (map ocard nx)" for a
      using Cons by simp
    show ?thesis using c IH [of "zuo_trie_keys c accum"] Some by auto
  qed
qed

lemma trie_entry_children:
  assumes "trie_wf t"
  shows "(\<exists>sid\<ge>0. fst (trie_entry t sid) = Some k) \<longleftrightarrow>
    trie_key t = Some k \<or> (\<exists>n\<in>set (trie_next t). \<exists>sid\<ge>0. fst (trie_entry (onode n) sid) = Some k)"
    (is "?L \<longleftrightarrow> ?R")
proof
  assume ?L
  then obtain sid where sid: "0 \<le> sid" "fst (trie_entry t sid) = Some k" by auto
  show ?R
  proof (cases "0 < sid")
    case True
    with sid have "fst (trie_entry (onode (trie_next t ! trie_slot sid)) (trie_shift sid)) = Some k"
      by (simp add: trie_entry_pos)
    moreover have "trie_next t ! trie_slot sid \<in> set (trie_next t)"
      using trie_wf_length [OF assms] by simp
    moreover have "0 \<le> trie_shift sid" using sid by simp
    ultimately show ?thesis by blast
  qed (use sid in auto)
next
  assume ?R
  then consider "trie_key t = Some k"
    | i j where "i < 16" "0 \<le> j" "fst (trie_entry (onode (trie_next t ! i)) j) = Some k"
    using trie_wf_length [OF assms] by (auto simp: in_set_conv_nth)
  then show ?L
  proof cases
    case 1
    then show ?thesis by (intro exI [of _ 0]) simp
  next
    case (2 i j)
    then have "trie_lookup (onode (trie_next t ! i)) j \<noteq> None"
      using trie_entry_key [OF trie_wf_onode [OF assms 2(1)] 2(2)] by simp
    with 2 trie_ids_child [OF assms 2(1), of j] have "0 < 16 * j + int i"
      by (simp add: trie_ids_def)
    with 2 show ?thesis by (intro exI [of _ "16 * j + int i"]) (simp add: trie_entry_pos)
  qed
qed

lemma zuo_trie_keys_spec:
  "trie_wf t \<Longrightarrow> length (zuo_trie_keys t accum) = nat (trie_card t) + length accum
     \<and> set (zuo_trie_keys t accum) = {k. \<exists>sid\<ge>0. fst (trie_entry t sid) = Some k} \<union> set accum
     \<and> 0 \<le> trie_card t"
proof (induction t arbitrary: accum rule: onode_induct)
  case (node t)
  let ?a = "case trie_key t of None \<Rightarrow> accum | Some key \<Rightarrow> key # accum"
  have "length (zuo_trie_keys t accum) = nat (sum_list (map ocard (trie_next t))) + length ?a
    \<and> set (zuo_trie_keys t accum)
      = {k. \<exists>n\<in>set (trie_next t). \<exists>sid\<ge>0. fst (trie_entry (onode n) sid) = Some k} \<union> set ?a
    \<and> 0 \<le> sum_list (map ocard (trie_next t))"
    unfolding zuo_trie_keys_node [of t]
    by (rule fold_trie_keys) (use node trie_wf_children [OF node.prems] in blast)
  with trie_entry_children [OF node.prems] trie_wf_key [OF node.prems] show ?case
    by (auto simp: trie_card_node nat_add_distrib split: option.split)
qed

lemma zuo_trie_keys_ids:
  assumes "trie_wf t" "trie_keyed t"
  shows "sym_id ` set (zuo_trie_keys t []) = trie_ids t"
    and "distinct (map sym_id (zuo_trie_keys t []))"
proof -
  note spec = zuo_trie_keys_spec [OF assms(1), of "[]"]
  have "sid \<in> trie_ids t \<longleftrightarrow> (\<exists>k. 0 \<le> sid \<and> fst (trie_entry t sid) = Some k)" for sid
    using trie_entry_key [OF assms(1), of sid] by (auto simp: trie_ids_def)
  then show eq: "sym_id ` set (zuo_trie_keys t []) = trie_ids t"
    using spec assms(2) by (force simp: trie_keyed_def image_iff)
  then show "distinct (map sym_id (zuo_trie_keys t []))"
    using spec trie_card_ids [OF assms(1)] by (intro card_distinct) simp
qed

section \<open>The key-subset test\<close>

lemma zuo_trie_keys_subset_p_refl [simp]: "zuo_trie_keys_subset_p n n"
  by (subst zuo_trie_keys_subset_p.simps) simp

lemma zuo_trie_keys_subset_p_None [simp]: "zuo_trie_keys_subset_p None n"
  by (subst zuo_trie_keys_subset_p.simps) (simp split: option.split)

lemma zuo_trie_keys_subset_p_Some:
  "zuo_trie_keys_subset_p (Some a) (Some b) \<longleftrightarrow> a = b \<or>
     trie_count a \<le> trie_count b
     \<and> list_all (\<lambda>(n1, n2). zuo_trie_keys_subset_p n1 n2) (zip (trie_next a) (trie_next b))"
  by (cases a; cases b) (subst zuo_trie_keys_subset_p.simps, auto)

text \<open>
  On equal tries the recursive comparison succeeds as well, so the early exit for equal
  pointers never changes the result.
\<close>

lemma subset_refl:
  "trie_count a \<le> trie_count a
     \<and> list_all (\<lambda>(n1, n2). zuo_trie_keys_subset_p n1 n2) (zip (trie_next a) (trie_next a))"
  by (auto simp: list_all_length)

text \<open>The test never rejects an inclusion that holds.\<close>

lemma zuo_trie_keys_subset_p_complete:
  "trie_wf a \<Longrightarrow> trie_wf b \<Longrightarrow> trie_ids a \<subseteq> trie_ids b \<Longrightarrow> zuo_trie_keys_subset_p (Some a) (Some b)"
proof (induction a arbitrary: b rule: onode_induct)
  case (node a)
  have len: "length (trie_next a) = 16" "length (trie_next b) = 16"
    using node.prems by (auto intro: trie_wf_length)
  have "card (trie_ids a) \<le> card (trie_ids b)"
    using node.prems trie_card_ids [of b] by (intro card_mono) auto
  then have "trie_count a \<le> trie_count b"
    using trie_count_ids [OF node.prems(1)] trie_count_ids [OF node.prems(2)] by simp
  moreover have "zuo_trie_keys_subset_p (trie_next a ! i) (trie_next b ! i)" if i: "i < 16" for i
  proof (cases "trie_next a ! i")
    case (Some c)
    have sub: "trie_ids c \<subseteq> trie_ids (onode (trie_next b ! i))"
      using trie_ids_child [OF node.prems(1) i] trie_ids_child [OF node.prems(2) i]
        node.prems(3) Some by auto
    have c: "trie_wf c" "0 < trie_card c"
      using trie_wf_child [OF node.prems(1) i Some] by auto
    then have "trie_ids c \<noteq> {}" using trie_card_ids [of c] by auto
    with sub obtain d where d: "trie_next b ! i = Some d" by (cases "trie_next b ! i") auto
    have "Some c \<in> set (trie_next a)" using Some i len by (metis nth_mem)
    then show ?thesis
      using node.IH [of c d] c sub d trie_wf_child [OF node.prems(2) i d] Some by simp
  qed simp
  ultimately show ?case
    by (simp add: zuo_trie_keys_subset_p_Some list_all_length len)
qed

section \<open>In-place set\<close>

lemma trie_set_pos:
  "0 < sid \<Longrightarrow> trie_set t sid key v =
     Trie_Node (trie_count t) (trie_key t) (trie_val t)
       ((trie_next t)[trie_slot sid :=
          Some (trie_set (onode (trie_next t ! trie_slot sid)) (trie_shift sid) key v)])"
  and trie_set_zero:
  "sid \<le> 0 \<Longrightarrow> trie_set t sid key v = Trie_Node (trie_count t) (Some key) (Some v) (trie_next t)"
  by (subst trie_set.simps, simp add: onode_def Let_def)+

text \<open>Every node reachable in the trie has its 16 slots.\<close>

fun trie_shape :: "'v trie \<Rightarrow> bool" where
  "trie_shape (Trie_Node c k v nx) \<longleftrightarrow>
     length nx = BFACTOR \<and> list_all (\<lambda>n. case n of None \<Rightarrow> True | Some t \<Rightarrow> trie_shape t) nx"

lemma trie_shape_node:
  "trie_shape t \<longleftrightarrow> length (trie_next t) = 16 \<and> (\<forall>i<16. trie_shape (onode (trie_next t ! i)))"
  if "trie_shape (zuo_trie_node :: 'v trie)" for t :: "'v trie"
  using that by (cases t) (auto simp: list_all_length onode_def split: option.splits)

declare trie_shape.simps [simp del]

lemma trie_shape_empty [simp]: "trie_shape zuo_trie_node"
  by (simp add: zuo_trie_node_def trie_shape.simps list_all_length)

lemmas trie_shape_iff = trie_shape_node [OF trie_shape_empty]

lemma trie_shape_length: "trie_shape t \<Longrightarrow> length (trie_next t) = 16"
  and trie_shape_child: "trie_shape t \<Longrightarrow> i < 16 \<Longrightarrow> trie_shape (onode (trie_next t ! i))"
  using trie_shape_iff [of t] by blast+

lemma trie_wf_shape: "trie_wf t \<Longrightarrow> trie_shape t"
proof (induction t rule: onode_induct)
  case (node t)
  have "trie_shape (onode (trie_next t ! i))" if "i < 16" for i
    using node trie_wf_child [OF node.prems that] trie_wf_length [OF node.prems] that
    by (cases "trie_next t ! i") (auto, metis nth_mem)
  with trie_wf_length [OF node.prems] trie_shape_iff [of t] show ?case by blast
qed

lemma trie_set_spec:
  assumes "trie_shape t" "0 \<le> sid"
  shows "trie_shape (trie_set t sid key v)
    \<and> (\<forall>sid'\<ge>0. trie_entry (trie_set t sid key v) sid'
         = (if sid' = sid then (Some key, Some v) else trie_entry t sid'))"
  using assms
proof (induction t sid key v rule: trie_set.induct)
  case (1 t sid key v)
  have len: "length (trie_next t) = 16" using "1.prems"(1) by (rule trie_shape_length)
  show ?case
  proof (cases "0 < sid")
    case False
    have "trie_shape (trie_set t sid key v)"
      using False trie_shape_iff [of t] "1.prems"(1) by (subst trie_shape_iff) (simp add: trie_set_zero)
    moreover have "trie_entry (trie_set t sid key v) sid'
        = (if sid' = sid then (Some key, Some v) else trie_entry t sid')" if "0 \<le> sid'" for sid'
      using that False "1.prems"(2) by (cases "sid' = 0") (auto simp: trie_set_zero trie_entry_pos)
    ultimately show ?thesis by blast
  next
    case True
    let ?i = "trie_slot sid" let ?c = "onode (trie_next t ! ?i)"
    have IH: "trie_shape (trie_set ?c (trie_shift sid) key v)"
      "\<And>j. 0 \<le> j \<Longrightarrow> trie_entry (trie_set ?c (trie_shift sid) key v) j
         = (if j = trie_shift sid then (Some key, Some v) else trie_entry ?c j)"
      using "1.IH" [OF True refl refl] trie_shape_child [OF "1.prems"(1), of ?i] True
      by (simp_all add: onode_def)
    have "trie_shape (trie_set t sid key v)"
      using True IH(1) len trie_shape_child [OF "1.prems"(1)]
      by (subst trie_shape_iff) (simp add: trie_set_pos nth_list_update)
    moreover have "trie_entry (trie_set t sid key v) sid'
        = (if sid' = sid then (Some key, Some v) else trie_entry t sid')" if "0 \<le> sid'" for sid'
    proof (cases "0 < sid'")
      case False
      with that True show ?thesis by (simp add: trie_set_pos)
    next
      case pos: True
      then show ?thesis
        using IH(2) [of "trie_shift sid'"] len trie_shift_neq [of sid' sid] True
        by (cases "trie_slot sid' = ?i") (auto simp: trie_set_pos trie_entry_pos)
    qed
    ultimately show ?thesis by blast
  qed
qed

section \<open>The interface: symbol-keyed maps\<close>

text \<open>
  What the rest of the interpreter relies on. Symbols are compared by id, which is never
  negative; \<open>keys\<close> lists each key once and \<open>count\<close> is their number.
\<close>

locale symbol_map =
  fixes empty :: "'m"
    and lookup :: "'m \<Rightarrow> symbol \<Rightarrow> 'v option"
    and extend :: "'m \<Rightarrow> symbol \<Rightarrow> 'v \<Rightarrow> 'm"
    and remove :: "'m \<Rightarrow> symbol \<Rightarrow> 'm"
    and keys :: "'m \<Rightarrow> symbol list"
    and count :: "'m \<Rightarrow> int"
    and inv :: "'m \<Rightarrow> bool"
  assumes inv_empty: "inv empty"
    and inv_extend: "inv m \<Longrightarrow> 0 \<le> sym_id s \<Longrightarrow> inv (extend m s v)"
    and inv_remove: "inv m \<Longrightarrow> 0 \<le> sym_id s \<Longrightarrow> inv (remove m s)"
    and lookup_empty: "lookup empty s = None"
    and lookup_extend: "inv m \<Longrightarrow> 0 \<le> sym_id s \<Longrightarrow> 0 \<le> sym_id s' \<Longrightarrow>
      lookup (extend m s v) s' = (if sym_id s' = sym_id s then Some v else lookup m s')"
    and lookup_remove: "inv m \<Longrightarrow> 0 \<le> sym_id s \<Longrightarrow> 0 \<le> sym_id s' \<Longrightarrow>
      lookup (remove m s) s' = (if sym_id s' = sym_id s then None else lookup m s')"
    and keys_lookup: "inv m \<Longrightarrow> 0 \<le> sym_id s \<Longrightarrow>
      sym_id s \<in> sym_id ` set (keys m) \<longleftrightarrow> lookup m s \<noteq> None"
    and keys_nonneg: "inv m \<Longrightarrow> s \<in> set (keys m) \<Longrightarrow> 0 \<le> sym_id s"
    and keys_distinct: "inv m \<Longrightarrow> distinct (map sym_id (keys m))"
    and count_keys: "inv m \<Longrightarrow> count m = int (length (keys m))"
begin

lemma count_card: "inv m \<Longrightarrow> count m = int (card (sym_id ` set (keys m)))"
  using keys_distinct [of m] count_keys [of m] distinct_card [of "map sym_id (keys m)"] by simp

lemma ids_eq: "inv m \<Longrightarrow> sym_id ` set (keys m) = {i. 0 \<le> i \<and> lookup m (Symbol i []) \<noteq> None}"
  using keys_lookup [of m "Symbol i []" for i] keys_nonneg [of m] by auto

lemma lookup_cong:
  assumes "inv m" "0 \<le> sym_id s" "sym_id s = sym_id s'"
  shows "lookup m s = None \<longleftrightarrow> lookup m s' = None"
  using keys_lookup [of m s] keys_lookup [of m s'] assms by metis

lemma count_empty: "count empty = 0"
  using count_card [OF inv_empty] ids_eq [OF inv_empty] by (simp add: lookup_empty)

lemma ids_extend:
  assumes "inv m" "0 \<le> sym_id s"
  shows "sym_id ` set (keys (extend m s v)) = insert (sym_id s) (sym_id ` set (keys m))"
  using assms ids_eq [OF inv_extend [OF assms]] ids_eq [of m] by (auto simp: lookup_extend)

lemma ids_remove:
  assumes "inv m" "0 \<le> sym_id s"
  shows "sym_id ` set (keys (remove m s)) = sym_id ` set (keys m) - {sym_id s}"
  using assms ids_eq [OF inv_remove [OF assms]] ids_eq [of m]
  by (auto simp: lookup_remove split: if_splits)

lemma count_extend:
  assumes "inv m" "0 \<le> sym_id s"
  shows "count (extend m s v) = count m + (if lookup m s = None then 1 else 0)"
  using count_card [OF inv_extend [OF assms]] count_card [OF assms(1)] ids_extend [OF assms]
    keys_lookup [OF assms] by (simp add: card_insert_if)

lemma count_remove:
  assumes "inv m" "0 \<le> sym_id s"
  shows "count (remove m s) = count m - (if lookup m s = None then 0 else 1)"
proof (cases "lookup m s = None")
  case True
  then show ?thesis
    using count_card [OF inv_remove [OF assms]] count_card [OF assms(1)] ids_remove [OF assms]
      keys_lookup [OF assms] by simp
next
  case False
  then have mem: "sym_id s \<in> sym_id ` set (keys m)" using keys_lookup [OF assms] by simp
  then have "0 < card (sym_id ` set (keys m))" by (auto simp: card_gt_0_iff)
  with mem False show ?thesis
    using count_card [OF inv_remove [OF assms]] count_card [OF assms(1)] ids_remove [OF assms]
    by (simp add: of_nat_diff)
qed

text \<open>A run of updates: the last binding of a key wins, older keys stay.\<close>

lemma fold_extend:
  assumes "inv m" "\<forall>(s, v)\<in>set kvs. 0 \<le> sym_id s"
  shows "inv (fold (\<lambda>(s, v) m. extend m s v) kvs m)
    \<and> (\<forall>s. 0 \<le> sym_id s \<longrightarrow> lookup (fold (\<lambda>(s, v) m. extend m s v) kvs m) s
         = (case map_of (rev (map (\<lambda>(s, v). (sym_id s, v)) kvs)) (sym_id s) of
              None \<Rightarrow> lookup m s | Some v \<Rightarrow> Some v))"
  using assms
proof (induction kvs arbitrary: m)
  case Nil
  then show ?case by simp
next
  case (Cons kv kvs)
  obtain k v where kv: "kv = (k, v)" by (cases kv)
  with Cons.prems have k: "0 \<le> sym_id k" "inv (extend m k v)"
    by (auto intro: inv_extend)
  with Cons.IH [of "extend m k v"] Cons.prems kv show ?case
    by (auto simp: lookup_extend map_add_def split: option.split)
qed

end

lemma trie_keyed_update:
  assumes "trie_keyed t" "\<And>k. fst e = Some k \<Longrightarrow> sym_id k = sid"
    and "\<And>sid'. 0 \<le> sid' \<Longrightarrow> trie_entry t' sid' = (if sid' = sid then e else trie_entry t sid')"
  shows "trie_keyed t'"
  unfolding trie_keyed_def
proof (intro allI impI)
  fix sid' k assume "0 \<le> sid'" "fst (trie_entry t' sid') = Some k"
  with assms(2) [of k] assms(3) [of sid'] assms(1) show "sym_id k = sid'"
    by (cases "sid' = sid") (simp_all add: trie_keyed_def)
qed

lemma zuo_trie_extend_wf:
  assumes "trie_wf t" "0 \<le> sym_id s"
  shows "trie_wf (zuo_trie_extend t s v)"
  using assms trie_extend_wf [of "Some t" "sym_id s" 0 s v] by (simp add: zuo_trie_extend_def)

lemma zuo_trie_extend_keyed:
  assumes "trie_wf t" "trie_keyed t" "0 \<le> sym_id s"
  shows "trie_keyed (zuo_trie_extend t s v)"
proof (rule trie_keyed_update [OF assms(2), of "(Some s, Some v)" "sym_id s"])
  fix sid' :: int assume "0 \<le> sid'"
  then show "trie_entry (zuo_trie_extend t s v) sid'
      = (if sid' = sym_id s then (Some s, Some v) else trie_entry t sid')"
    using trie_extend_entry [of "Some t" "sym_id s" sid' s v 0] assms
    by (simp add: zuo_trie_extend_def)
qed simp

lemma zuo_trie_remove_entry:
  assumes "trie_wf t" "0 \<le> sym_id s" "0 \<le> sid"
  shows "trie_wf (zuo_trie_remove t s)"
    and "trie_entry (zuo_trie_remove t s) sid
      = (if sid = sym_id s then (None, None) else trie_entry t sid)"
proof -
  obtain t' where t': "trie_remove (Some t) (sym_id s) 0 = Some t'"
    using trie_remove_depth_0 by blast
  then have eq: "zuo_trie_remove t s = t'" by (simp add: zuo_trie_remove_def)
  have "trie_wf t' \<and> trie_entry t' sid = (if sid = sym_id s then (None, None) else trie_entry t sid)"
  proof (cases "trie_lookup t (sym_id s) = None")
    case True
    then have "t' = t" using t' trie_remove_absent [of "Some t"] by simp
    moreover have "trie_entry t (sym_id s) = (None, None)"
      using True trie_entry_key [OF assms(1,2)] by (simp add: trie_lookup_entry prod_eq_iff)
    ultimately show ?thesis using assms by simp
  next
    case False
    with trie_remove_spec [of "Some t" "sym_id s" 0] t' assms show ?thesis by simp
  qed
  with eq show "trie_wf (zuo_trie_remove t s)"
    and "trie_entry (zuo_trie_remove t s) sid
      = (if sid = sym_id s then (None, None) else trie_entry t sid)" by simp_all
qed

lemma zuo_trie_remove_keyed:
  assumes "trie_wf t" "trie_keyed t" "0 \<le> sym_id s"
  shows "trie_keyed (zuo_trie_remove t s)"
  by (rule trie_keyed_update [OF assms(2) _ zuo_trie_remove_entry(2) [OF assms(1,3)]]) simp_all

interpretation trie_map: symbol_map zuo_trie_node zuo_trie_lookup zuo_trie_extend zuo_trie_remove
  "\<lambda>t. zuo_trie_keys t []" trie_count "\<lambda>t. trie_wf t \<and> trie_keyed t"
proof (unfold_locales, goal_cases)
  case (2 m s v)
  then show ?case by (simp add: zuo_trie_extend_wf zuo_trie_extend_keyed)
next
  case (3 m s)
  then show ?case using zuo_trie_remove_entry(1) [of m s 0] by (simp add: zuo_trie_remove_keyed)
next
  case (5 m s s' v)
  then show ?case
    using trie_extend_lookup [of "Some m" "sym_id s" "sym_id s'"]
    by (simp add: zuo_trie_extend_def zuo_trie_lookup_def)
next
  case (6 m s s')
  then show ?case
    using zuo_trie_remove_entry(2) [of m s "sym_id s'"]
    by (simp add: zuo_trie_lookup_def trie_lookup_entry)
next
  case (7 m s)
  then show ?case
    using zuo_trie_keys_ids(1) [of m] by (simp add: trie_ids_def zuo_trie_lookup_def)
next
  case (8 m s)
  then have "sym_id s \<in> trie_ids m" using zuo_trie_keys_ids(1) [of m] by blast
  then show ?case by (simp add: trie_ids_def)
next
  case (9 m)
  then show ?case by (simp add: zuo_trie_keys_ids(2))
next
  case (10 m)
  then show ?case using zuo_trie_keys_spec [of m "[]"] trie_wf_count [of m] by simp
qed (simp_all add: zuo_trie_lookup_def)

section \<open>Histories of updates\<close>

text \<open>
  A run of \<^verbatim>\<open>hash-set\<close> and \<^verbatim>\<open>hash-remove\<close> on tries, and the same run on maps from ids to values.
\<close>

datatype 'v trie_op = Op_Extend symbol 'v | Op_Remove symbol

fun op_key :: "'v trie_op \<Rightarrow> symbol" where
  "op_key (Op_Extend s v) = s"
| "op_key (Op_Remove s) = s"

fun trie_apply :: "'v trie_op \<Rightarrow> 'v trie \<Rightarrow> 'v trie" where
  "trie_apply (Op_Extend s v) t = zuo_trie_extend t s v"
| "trie_apply (Op_Remove s) t = zuo_trie_remove t s"

fun map_apply :: "'v trie_op \<Rightarrow> (int \<rightharpoonup> 'v) \<Rightarrow> (int \<rightharpoonup> 'v)" where
  "map_apply (Op_Extend s v) m = m(sym_id s \<mapsto> v)"
| "map_apply (Op_Remove s) m = m(sym_id s := None)"

definition trie_abs :: "'v trie \<Rightarrow> int \<rightharpoonup> 'v" where
  "trie_abs t = (\<lambda>sid. if 0 \<le> sid then trie_lookup t sid else None)"

lemma trie_abs_empty [simp]: "trie_abs zuo_trie_node = Map.empty"
  by (simp add: trie_abs_def fun_eq_iff)

lemma trie_ids_extend:
  assumes "trie_wf t" "0 \<le> sym_id s"
  shows "trie_ids (zuo_trie_extend t s v) = insert (sym_id s) (trie_ids t)"
  using assms trie_extend_lookup [of "Some t" "sym_id s" _ s v 0]
  by (auto simp: trie_ids_def zuo_trie_extend_def split: if_splits)

lemma trie_abs_apply:
  assumes "trie_wf t \<and> trie_keyed t" "0 \<le> sym_id (op_key q)"
  shows "(trie_wf (trie_apply q t) \<and> trie_keyed (trie_apply q t)) \<and> trie_abs (trie_apply q t) = map_apply q (trie_abs t)"
proof (cases q)
  case (Op_Extend s v)
  then have "trie_lookup (zuo_trie_extend t s v) i = (if i = sym_id s then Some v else trie_lookup t i)"
    if "0 \<le> i" for i
    using trie_map.lookup_extend [OF assms(1), of s "Symbol i []" v] assms(2) that
    by (simp add: zuo_trie_lookup_def)
  with Op_Extend assms trie_map.inv_extend [OF assms(1), of s v] show ?thesis
    by (auto simp: trie_abs_def fun_eq_iff)
next
  case (Op_Remove s)
  then have "trie_lookup (zuo_trie_remove t s) i = (if i = sym_id s then None else trie_lookup t i)"
    if "0 \<le> i" for i
    using trie_map.lookup_remove [OF assms(1), of s "Symbol i []"] assms(2) that
    by (simp add: zuo_trie_lookup_def)
  with Op_Remove assms trie_map.inv_remove [OF assms(1), of s] show ?thesis
    by (auto simp: trie_abs_def fun_eq_iff)
qed

lemma trie_abs_run:
  assumes "trie_wf t \<and> trie_keyed t" "\<forall>q\<in>set ops. 0 \<le> sym_id (op_key q)"
  shows "(trie_wf (fold trie_apply ops t) \<and> trie_keyed (fold trie_apply ops t))
    \<and> trie_abs (fold trie_apply ops t) = fold map_apply ops (trie_abs t)"
  using assms by (induction ops arbitrary: t) (simp_all add: trie_abs_apply)

lemma trie_abs_dom:
  assumes "trie_wf t \<and> trie_keyed t"
  shows "dom (trie_abs t) = sym_id ` set (zuo_trie_keys t [])" "trie_count t = int (card (dom (trie_abs t)))"
  using zuo_trie_keys_ids(1) [of t] trie_count_ids [of t] assms
  by (auto simp: trie_abs_def trie_ids_def dom_def split: if_splits intro!: arg_cong [where f = card])

text \<open>
  C4: A hash table made by any sequence of extensions and removals behaves as the finite map
  from symbol ids to values with the same history: look-up agrees with it on every symbol, the
  count is the size of its domain, and the key list enumerates the domain without repetition.
  The sharing of nodes, the pruning of empty ones and the counts kept in the nodes are invisible.
\<close>

theorem trie_refines_map:
  assumes "\<forall>q\<in>set ops. 0 \<le> sym_id (op_key q)"
  shows "(0 \<le> sym_id s \<longrightarrow> zuo_trie_lookup (fold trie_apply ops zuo_trie_node) s = fold map_apply ops Map.empty (sym_id s))
    \<and> trie_count (fold trie_apply ops zuo_trie_node) = int (card (dom (fold map_apply ops Map.empty)))
    \<and> sym_id ` set (zuo_trie_keys (fold trie_apply ops zuo_trie_node) []) = dom (fold map_apply ops Map.empty)
    \<and> distinct (map sym_id (zuo_trie_keys (fold trie_apply ops zuo_trie_node) []))"
proof -
  have run: "trie_wf (fold trie_apply ops zuo_trie_node) \<and> trie_keyed (fold trie_apply ops zuo_trie_node)"
    "trie_abs (fold trie_apply ops zuo_trie_node) = fold map_apply ops Map.empty"
    using trie_abs_run [OF trie_map.inv_empty assms] by simp_all
  then show ?thesis
    using trie_abs_dom [OF run(1)] trie_map.keys_distinct [OF run(1)]
    by (auto simp: zuo_trie_lookup_def trie_abs_def dest: fun_cong [of _ _ "sym_id s"])
qed

theorem trie_refines_map_witness:
  "zuo_trie_lookup (fold trie_apply [Op_Extend (Symbol 17 ''b'') (5::nat), Op_Extend (Symbol 1 ''a'') 7,
     Op_Remove (Symbol 17 ''b'')] zuo_trie_node) (Symbol 1 ''a'') = Some 7
   \<and> trie_count (fold trie_apply [Op_Extend (Symbol 17 ''b'') (5::nat), Op_Extend (Symbol 1 ''a'') 7,
     Op_Remove (Symbol 17 ''b'')] zuo_trie_node) = 1"
proof -
  let ?ops = "[Op_Extend (Symbol 17 ''b'') (5::nat), Op_Extend (Symbol 1 ''a'') 7, Op_Remove (Symbol 17 ''b'')]"
  have "fold map_apply ?ops Map.empty = [1 \<mapsto> 7]" by (auto simp: fun_eq_iff)
  with trie_refines_map [of ?ops "Symbol 1 ''a''"] show ?thesis by simp
qed

text \<open>
  The recursive test behind \<^verbatim>\<open>hash-keys-subset?\<close> accepts every inclusion of key sets, for any
  two tables built by the map operations.
\<close>

theorem keys_subset_complete:
  assumes "trie_wf a" "trie_wf b" "trie_ids a \<subseteq> trie_ids b"
  shows "zuo_trie_keys_subset_p (Some a) (Some b)"
  using assms by (rule zuo_trie_keys_subset_p_complete)

theorem keys_subset_complete_witness:
  "zuo_trie_keys_subset_p (Some (zuo_trie_extend zuo_trie_node (Symbol 3 ''c'') (0::nat)))
     (Some (zuo_trie_extend (zuo_trie_extend zuo_trie_node (Symbol 3 ''c'') 1) (Symbol 19 ''d'') 2))"
proof (rule keys_subset_complete)
  show "trie_wf (zuo_trie_extend zuo_trie_node (Symbol 3 ''c'') (0::nat))"
    "trie_wf (zuo_trie_extend (zuo_trie_extend zuo_trie_node (Symbol 3 ''c'') (1::nat)) (Symbol 19 ''d'') 2)"
    by (simp_all add: zuo_trie_extend_wf)
  show "trie_ids (zuo_trie_extend zuo_trie_node (Symbol 3 ''c'') (0::nat)) \<subseteq>
      trie_ids (zuo_trie_extend (zuo_trie_extend zuo_trie_node (Symbol 3 ''c'') (1::nat)) (Symbol 19 ''d'') 2)"
    by (simp add: trie_ids_extend zuo_trie_extend_wf)
qed

text \<open>
  The test also accepts inclusions that do not hold: it compares the counts and the subtries
  but never the key of a node, so the keys with ids 1 and 17, which share a path, are confused.
\<close>

theorem keys_subset_unsound:
  "zuo_trie_keys_subset_p (Some (zuo_trie_extend zuo_trie_node (Symbol 1 ''a'') (0::nat)))
     (Some (zuo_trie_extend zuo_trie_node (Symbol 17 ''b'') 0))
   \<and> zuo_trie_lookup (zuo_trie_extend zuo_trie_node (Symbol 17 ''b'') (0::nat)) (Symbol 1 ''a'') = None"
  by code_simp

text \<open>
  A table filled in place, as the initial environment is, keeps its inner counts at zero, and
  the same test then rejects an inclusion that holds.
\<close>

theorem keys_subset_of_set_table:
  "zuo_trie_lookup (zuo_trie_set zuo_trie_node (Symbol 1 ''a'') (0::nat)) (Symbol 1 ''a'') = Some 0
   \<and> \<not> zuo_trie_keys_subset_p (Some (zuo_trie_extend zuo_trie_node (Symbol 1 ''a'') (0::nat)))
     (Some (zuo_trie_set zuo_trie_node (Symbol 1 ''a'') 0))"
  by code_simp

end
