(* ===== verification/Zuo_Symbols.thy ===== *)
theory Zuo_Symbols
  imports Zuo_Trie "HOL-Library.Multiset"
begin

text \<open>
  Symbols of \<^verbatim>\<open>zuo.c\<close>: the merge sort that orders symbol lists by name, and the intern
  table (\<^verbatim>\<open>zuo_symbol_from_string\<close>), a trie that follows each byte of a name in two
  4-bit steps. The sort returns an ordered permutation; the table gives one symbol per
  name and a fresh id to each new symbol (locale \<open>interner\<close>).
\<close>

section \<open>Sorting symbol lists\<close>

text \<open>The loop that moves the first half onto \<^verbatim>\<open>left\<close>, in reverse.\<close>

fun sort_split :: "nat \<Rightarrow> symbol list \<Rightarrow> symbol list \<Rightarrow> symbol list \<times> symbol list" where
  "sort_split 0 l left = (left, l)"
| "sort_split (Suc i) [] left = (left, [])"
| "sort_split (Suc i) (x # l) left = sort_split i l (x # left)"

lemma sort_split_eq: "sort_split i l left = (rev (take i l) @ left, drop i l)"
  by (induction i l left rule: sort_split.induct) auto

fun symbol_merge :: "symbol list \<Rightarrow> symbol list \<Rightarrow> symbol list" where
  "symbol_merge [] right = right"
| "symbol_merge left [] = left"
| "symbol_merge (a # left) (b # right) =
     (if strcmp (sym_str a) (sym_str b) < 1 then a # symbol_merge left (b # right)
      else b # symbol_merge (a # left) right)"

function zuo_symbol_list_sort :: "symbol list \<Rightarrow> symbol list" where
  "zuo_symbol_list_sort l =
     (let len = length l in
      if len < 2 then l
      else let (left, right) = sort_split (drop_bit 1 len) l []
           in symbol_merge (zuo_symbol_list_sort left) (zuo_symbol_list_sort right))"
  by pat_completeness auto
termination
  by (relation "measure length") (auto simp: sort_split_eq drop_bit_Suc)

declare zuo_symbol_list_sort.simps [simp del]

definition zuo_trie_sorted_keys :: "'v trie \<Rightarrow> symbol list \<Rightarrow> symbol list" where
  "zuo_trie_sorted_keys trie accum = zuo_symbol_list_sort (zuo_trie_keys trie accum)"

abbreviation name_sorted :: "symbol list \<Rightarrow> bool" where
  "name_sorted l \<equiv> sorted (map (\<lambda>s. cbytes (sym_str s)) l)"

lemma mset_symbol_merge: "mset (symbol_merge l r) = mset l + mset r"
  by (induction l r rule: symbol_merge.induct) auto

lemma set_symbol_merge: "set (symbol_merge l r) = set l \<union> set r"
  by (metis mset_symbol_merge set_mset_mset set_mset_union)

lemma sorted_symbol_merge: "name_sorted l \<Longrightarrow> name_sorted r \<Longrightarrow> name_sorted (symbol_merge l r)"
proof (induction l r rule: symbol_merge.induct)
  case (3 a l b r)
  show ?case
  proof (cases "strcmp (sym_str a) (sym_str b) \<le> 0")
    case True
    then have "cbytes (sym_str a) \<le> cbytes (sym_str b)" by (simp add: strcmp_le_iff)
    with 3 True show ?thesis by (auto simp: set_symbol_merge)
  next
    case False
    then have "cbytes (sym_str b) \<le> cbytes (sym_str a)" by (simp add: strcmp_le_iff)
    with 3 False show ?thesis by (auto simp: set_symbol_merge)
  qed
qed auto

lemma zuo_symbol_list_sort_spec:
  "mset (zuo_symbol_list_sort l) = mset l \<and> name_sorted (zuo_symbol_list_sort l)"
proof (induction l rule: zuo_symbol_list_sort.induct)
  case (1 l)
  show ?case
  proof (cases "length l < 2")
    case True
    then have "name_sorted l" by (cases l; cases "tl l") auto
    with True show ?thesis by (subst (1 2) zuo_symbol_list_sort.simps) simp
  next
    case False
    let ?h = "drop_bit 1 (length l)"
    have IH: "mset (zuo_symbol_list_sort (rev (take ?h l))) = mset (take ?h l)"
      "name_sorted (zuo_symbol_list_sort (rev (take ?h l)))"
      "mset (zuo_symbol_list_sort (drop ?h l)) = mset (drop ?h l)"
      "name_sorted (zuo_symbol_list_sort (drop ?h l))"
      using "1.IH" [OF refl False refl, of "rev (take ?h l)" "drop ?h l"] by (simp_all add: sort_split_eq)
    have "zuo_symbol_list_sort l
        = symbol_merge (zuo_symbol_list_sort (rev (take ?h l))) (zuo_symbol_list_sort (drop ?h l))"
      using False by (subst zuo_symbol_list_sort.simps) (simp add: sort_split_eq Let_def)
    moreover have "mset (take ?h l) + mset (drop ?h l) = mset l"
      by (metis append_take_drop_id mset_append)
    ultimately show ?thesis using IH by (simp add: mset_symbol_merge sorted_symbol_merge)
  qed
qed

section \<open>The intern table\<close>

text \<open>
  The \<^verbatim>\<open>str_obj\<close> argument of \<^verbatim>\<open>zuo_symbol_from_string\<close>: undefined (allocate the string
  as needed), false (look up only), or a string object to use for a new symbol.
\<close>

datatype str_mode = Str_Undefined | Str_False | Str_Obj string

record symtab =
  intern_table :: "symbol trie"
  symbol_count :: int

definition zuo_make_symbol_from_string :: "string \<Rightarrow> symtab \<Rightarrow> symbol \<times> symtab" where
  "zuo_make_symbol_from_string str st =
     (Symbol (symbol_count st) str, st\<lparr>symbol_count := symbol_count st + 1\<rparr>)"

text \<open>
  The walk over the bytes of the name, with the intern table's node updated on the way
  back, as the assignments to \<^verbatim>\<open>node->next[lo]\<close> and \<^verbatim>\<open>node->next[hi]\<close> do. In look-up mode
  a missing low-nibble node ends the search, but a missing high-nibble node is created.
\<close>

fun symbol_walk :: "symbol trie \<Rightarrow> string \<Rightarrow> str_mode \<Rightarrow> string \<Rightarrow> int \<Rightarrow>
    symbol option \<times> symbol trie \<times> int" where
  "symbol_walk node [] str_obj in_str cnt =
     (case trie_val node of
        Some s \<Rightarrow> (Some s, node, cnt)
      | None \<Rightarrow>
          (case str_obj of
             Str_False \<Rightarrow> (None, node, cnt)
           | Str_Undefined \<Rightarrow>
               let s = Symbol cnt in_str
               in (Some s, Trie_Node (trie_count node) (trie_key node) (Some s) (trie_next node), cnt + 1)
           | Str_Obj str \<Rightarrow>
               let s = Symbol cnt str
               in (Some s, Trie_Node (trie_count node) (trie_key node) (Some s) (trie_next node), cnt + 1)))"
| "symbol_walk node (c # cs) str_obj in_str cnt =
     (let lo = byte c AND 15; hi = drop_bit 4 (byte c) in
      if trie_next node ! lo = None \<and> str_obj = Str_False then (None, node, cnt)
      else
        let n1 = onode (trie_next node ! lo); n2 = onode (trie_next n1 ! hi);
            (r, n2', cnt') = symbol_walk n2 cs str_obj in_str cnt;
            n1' = Trie_Node (trie_count n1) (trie_key n1) (trie_val n1) ((trie_next n1)[hi := Some n2'])
        in (r, Trie_Node (trie_count node) (trie_key node) (trie_val node)
                 ((trie_next node)[lo := Some n1']), cnt'))"

definition cstr :: "string \<Rightarrow> string" where
  "cstr s = takeWhile (\<lambda>c. c \<noteq> NUL) s"

definition zuo_symbol_from_string :: "string \<Rightarrow> str_mode \<Rightarrow> symtab \<Rightarrow> symbol option \<times> symtab" where
  "zuo_symbol_from_string in_str str_obj st =
     (let (r, table, cnt) =
            symbol_walk (intern_table st) (cstr in_str) str_obj (cstr in_str) (symbol_count st)
      in (r, \<lparr>intern_table = table, symbol_count = cnt\<rparr>))"

definition zuo_symbol :: "string \<Rightarrow> symtab \<Rightarrow> symbol \<times> symtab" where
  "zuo_symbol in_str st =
     (case zuo_symbol_from_string in_str Str_Undefined st of
        (Some s, st') \<Rightarrow> (s, st')
      | (None, st') \<Rightarrow> (Symbol 0 [], st'))"

text \<open>
  With a mode other than look-up the result is always a symbol (\<open>symbol_walk_total\<close>), so
  the last branch of \<^const>\<open>zuo_symbol\<close> is never taken.
\<close>

section \<open>What the table holds\<close>

fun intern_find :: "symbol trie \<Rightarrow> string \<Rightarrow> symbol option" where
  "intern_find node [] = trie_val node"
| "intern_find node (c # cs) =
     intern_find (onode (trie_next (onode (trie_next node ! (byte c AND 15))) ! drop_bit 4 (byte c))) cs"

lemma byte_lo_mod: "byte c AND 15 = byte c mod 16"
proof -
  have "byte c AND 15 = take_bit 4 (byte c)"
    by (simp add: take_bit_eq_mask mask_eq_exp_minus_1)
  then show ?thesis by (simp add: take_bit_eq_mod)
qed

lemma byte_hi_div: "drop_bit 4 (byte c) = byte c div 16"
  by (simp add: drop_bit_eq_div)

lemma byte_nibbles_less [simp]: "byte c AND 15 < 16" "drop_bit 4 (byte c) < 16"
  using nat_of_char_less_256 [of c] unfolding byte_lo_mod byte_hi_div by linarith+

lemma byte_nibbles_inject:
  assumes "byte c AND 15 = byte d AND 15" "drop_bit 4 (byte c) = drop_bit 4 (byte d)"
  shows "c = d"
proof -
  have "byte c = byte d"
    using assms div_mult_mod_eq [of "byte c" 16] div_mult_mod_eq [of "byte d" 16]
    unfolding byte_lo_mod byte_hi_div by linarith
  then show ?thesis by simp
qed

lemma intern_find_empty [simp]: "intern_find zuo_trie_node s = None"
  by (induction s) auto

definition new_symbol :: "str_mode \<Rightarrow> string \<Rightarrow> int \<Rightarrow> symbol option" where
  "new_symbol m name cnt =
     (case m of Str_False \<Rightarrow> None | Str_Undefined \<Rightarrow> Some (Symbol cnt name) | Str_Obj s \<Rightarrow> Some (Symbol cnt s))"

lemma trie_shape_set_next:
  "trie_shape t \<Longrightarrow> i < 16 \<Longrightarrow> trie_shape n \<Longrightarrow> trie_shape (Trie_Node c k v ((trie_next t)[i := Some n]))"
  by (subst trie_shape_iff) (simp add: trie_shape_length trie_shape_child nth_list_update)

lemma trie_shape_set_val: "trie_shape t \<Longrightarrow> trie_shape (Trie_Node c k v (trie_next t))"
  by (subst trie_shape_iff) (simp add: trie_shape_length trie_shape_child)

lemma symbol_walk_spec:
  assumes "trie_shape node" "symbol_walk node cs m name cnt = (r, node', cnt')"
  shows "trie_shape node'
    \<and> r = (case intern_find node cs of Some x \<Rightarrow> Some x | None \<Rightarrow> new_symbol m name cnt)
    \<and> cnt' = cnt + (if intern_find node cs = None \<and> m \<noteq> Str_False then 1 else 0)
    \<and> (\<forall>s. intern_find node' s = (if s = cs then r else intern_find node s))"
  using assms
proof (induction cs arbitrary: node node')
  case Nil
  have "intern_find (Trie_Node (trie_count node) (trie_key node) v (trie_next node)) s
      = (if s = [] then v else intern_find node s)" for v s
    by (cases s) auto
  with Nil show ?case
    by (auto simp: new_symbol_def Let_def trie_shape_set_val split: option.splits str_mode.splits)
next
  case (Cons c cs)
  let ?lo = "byte c AND 15" and ?hi = "drop_bit 4 (byte c)"
  let ?n1 = "onode (trie_next node ! ?lo)" let ?n2 = "onode (trie_next ?n1 ! ?hi)"
  note shape = Cons.prems(1)
  have n1: "trie_shape ?n1" using shape by (rule trie_shape_child) simp
  then have n2: "trie_shape ?n2" by (rule trie_shape_child) simp
  show ?case
  proof (cases "trie_next node ! ?lo = None \<and> m = Str_False")
    case True
    with Cons.prems show ?thesis by (auto simp: new_symbol_def)
  next
    case False
    obtain n2' where walk: "symbol_walk ?n2 cs m name cnt = (r, n2', cnt')"
      and node': "node' = Trie_Node (trie_count node) (trie_key node) (trie_val node)
        ((trie_next node)[?lo := Some (Trie_Node (trie_count ?n1) (trie_key ?n1) (trie_val ?n1)
           ((trie_next ?n1)[?hi := Some n2']))])"
      using Cons.prems(2) False
      by (cases "symbol_walk ?n2 cs m name cnt") (simp add: Let_def split: if_splits)
    note IH = Cons.IH [OF n2 walk]
    have "intern_find node' (d # ds) = (if d = c then intern_find n2' ds else intern_find node (d # ds))"
      for d ds
      using byte_nibbles_inject [of d c] trie_shape_length [OF shape] trie_shape_length [OF n1]
      by (cases "byte d AND 15 = ?lo"; cases "drop_bit 4 (byte d) = ?hi") (auto simp: node')
    then have "intern_find node' s = (if s = c # cs then r else intern_find node s)" for s
      using IH by (cases s) (auto simp: node')
    moreover have "trie_shape node'"
      unfolding node' using IH n1 shape by (intro trie_shape_set_next) auto
    ultimately show ?thesis using IH by simp
  qed
qed

lemma symbol_walk_total:
  "trie_shape node \<Longrightarrow> m \<noteq> Str_False \<Longrightarrow> \<exists>x. fst (symbol_walk node cs m name cnt) = Some x"
  using symbol_walk_spec [of node cs m name cnt]
  by (cases "symbol_walk node cs m name cnt")
    (auto simp: new_symbol_def split: option.splits str_mode.splits)

section \<open>The interface: interning\<close>

definition symtab_find :: "string \<Rightarrow> symtab \<Rightarrow> symbol option" where
  "symtab_find s st = intern_find (intern_table st) (cstr s)"

text \<open>Every interned symbol is found under its own name and ids are below the counter.\<close>

definition symtab_ok :: "symtab \<Rightarrow> bool" where
  "symtab_ok st \<longleftrightarrow> trie_shape (intern_table st) \<and> 0 \<le> symbol_count st
     \<and> (\<forall>s x. symtab_find s st = Some x \<longrightarrow>
          cstr (sym_str x) = cstr s \<and> 0 \<le> sym_id x \<and> sym_id x < symbol_count st)
     \<and> (\<forall>s s' x y. symtab_find s st = Some x \<longrightarrow> symtab_find s' st = Some y \<longrightarrow>
          sym_id x = sym_id y \<longrightarrow> x = y)"

lemma cstr_idem [simp]: "cstr (cstr s) = cstr s"
  by (simp add: cstr_def takeWhile_idem)

lemma symtab_find_cstr: "cstr s = cstr s' \<Longrightarrow> symtab_find s st = symtab_find s' st"
  by (simp add: symtab_find_def)

lemma zuo_symbol_from_string_spec:
  assumes "symtab_ok st" "zuo_symbol_from_string s m st = (r, st')"
    and "\<And>str. m = Str_Obj str \<Longrightarrow> cstr str = cstr s"
  shows "symtab_ok st'"
    and "r = (case symtab_find s st of Some x \<Rightarrow> Some x | None \<Rightarrow> new_symbol m (cstr s) (symbol_count st))"
    and "symtab_find s' st' = (if cstr s' = cstr s then r else symtab_find s' st)"
    and "symbol_count st' = symbol_count st + (if symtab_find s st = None \<and> m \<noteq> Str_False then 1 else 0)"
proof -
  obtain tab cnt where walk:
    "symbol_walk (intern_table st) (cstr s) m (cstr s) (symbol_count st) = (r, tab, cnt)"
    and st': "st' = \<lparr>intern_table = tab, symbol_count = cnt\<rparr>"
    using assms(2) by (auto simp: zuo_symbol_from_string_def split: prod.splits)
  have "trie_shape (intern_table st)" using assms(1) by (simp add: symtab_ok_def)
  note spec = symbol_walk_spec [OF this walk]
  show r: "r = (case symtab_find s st of Some x \<Rightarrow> Some x
      | None \<Rightarrow> new_symbol m (cstr s) (symbol_count st))"
    using spec by (simp add: symtab_find_def)
  have find: "symtab_find s' st' = (if cstr s' = cstr s then r else symtab_find s' st)" for s'
    using spec by (simp add: symtab_find_def st')
  then show "symtab_find s' st' = (if cstr s' = cstr s then r else symtab_find s' st)" .
  show cnt: "symbol_count st'
      = symbol_count st + (if symtab_find s st = None \<and> m \<noteq> Str_False then 1 else 0)"
    using spec by (simp add: symtab_find_def st')
  have new: "sym_id x = symbol_count st \<and> cstr (sym_str x) = cstr s \<and> m \<noteq> Str_False"
    if "symtab_find s st = None" "r = Some x" for x
    using that r assms(3) by (auto simp: new_symbol_def split: str_mode.splits)
  have old: "x = y" if "symtab_find s1 st = Some x" "symtab_find s2 st = Some y" "sym_id x = sym_id y"
    for s1 s2 x y
    using that assms(1) unfolding symtab_ok_def by blast
  have oldid: "cstr (sym_str x) = cstr s1 \<and> 0 \<le> sym_id x \<and> sym_id x < symbol_count st"
    if "symtab_find s1 st = Some x" for s1 x
    using that assms(1) unfolding symtab_ok_def by blast
  have src: "symtab_find s1 st = Some x \<or> (symtab_find s st = None \<and> r = Some x \<and> cstr s1 = cstr s)"
    if "symtab_find s1 st' = Some x" for s1 x
    using that find [of s1] r symtab_find_cstr [of s1 s st]
    by (cases "symtab_find s st") (auto split: if_splits)
  show "symtab_ok st'"
    unfolding symtab_ok_def
  proof (intro conjI allI impI)
    show "trie_shape (intern_table st')" using spec by (simp add: st')
    show "0 \<le> symbol_count st'" using assms(1) cnt by (simp add: symtab_ok_def)
  next
    fix s1 x assume "symtab_find s1 st' = Some x"
    from src [OF this] have "cstr (sym_str x) = cstr s1 \<and> 0 \<le> sym_id x \<and> sym_id x < symbol_count st'"
    proof
      assume "symtab_find s1 st = Some x"
      from oldid [OF this] cnt show ?thesis by simp
    next
      assume "symtab_find s st = None \<and> r = Some x \<and> cstr s1 = cstr s"
      with new [of x] cnt assms(1) show ?thesis by (auto simp: symtab_ok_def)
    qed
    then show "cstr (sym_str x) = cstr s1" "0 \<le> sym_id x" "sym_id x < symbol_count st'" by auto
  next
    fix s1 s2 x y
    assume "symtab_find s1 st' = Some x" "symtab_find s2 st' = Some y" and eq: "sym_id x = sym_id y"
    from src [OF this(1)] src [OF this(2)] show "x = y"
    proof (elim disjE conjE)
      assume "symtab_find s1 st = Some x" "symtab_find s2 st = Some y"
      then show ?thesis using eq by (rule old)
    next
      assume "symtab_find s1 st = Some x" "symtab_find s st = None" "r = Some y"
      with oldid [of s1 x] new [of y] eq show ?thesis by simp
    next
      assume "symtab_find s st = None" "r = Some x" "symtab_find s2 st = Some y"
      with oldid [of s2 y] new [of x] eq show ?thesis by simp
    qed simp
  qed
qed

text \<open>
  The provider's promises: interning returns the symbol already known for the name or a
  symbol with a fresh id, changes no other name, and fresh uninterned symbols leave every
  name as it was.
\<close>

locale interner =
  fixes intern :: "string \<Rightarrow> 'st \<Rightarrow> symbol \<times> 'st"
    and fresh :: "string \<Rightarrow> 'st \<Rightarrow> symbol \<times> 'st"
    and find :: "string \<Rightarrow> 'st \<Rightarrow> symbol option"
    and next_id :: "'st \<Rightarrow> int"
    and ok :: "'st \<Rightarrow> bool"
  assumes intern_ok: "ok st \<Longrightarrow> ok (snd (intern s st))"
    and fresh_ok: "ok st \<Longrightarrow> ok (snd (fresh s st))"
    and intern_known: "ok st \<Longrightarrow> find s st = Some x \<Longrightarrow> fst (intern s st) = x"
    and intern_find: "ok st \<Longrightarrow> find s (snd (intern s st)) = Some (fst (intern s st))"
    and intern_keeps: "ok st \<Longrightarrow> find s' st = Some x \<Longrightarrow> find s' (snd (intern s st)) = Some x"
    and fresh_keeps: "ok st \<Longrightarrow> find s' (snd (fresh s st)) = find s' st"
    and fresh_id: "ok st \<Longrightarrow> sym_id (fst (fresh s st)) = next_id st"
    and find_name: "ok st \<Longrightarrow> find s st = Some x \<Longrightarrow> cstr (sym_str x) = cstr s \<and> sym_id x < next_id st"
    and find_inj: "ok st \<Longrightarrow> find s st = Some x \<Longrightarrow> find s' st = Some y \<Longrightarrow> sym_id x = sym_id y \<Longrightarrow> x = y"
    and find_cong: "cstr s = cstr s' \<Longrightarrow> find s st = find s' st"
begin

text \<open>Any later mix of interning and fresh symbols: True interns the name, False does not.\<close>

definition after :: "(bool \<times> string) list \<Rightarrow> 'st \<Rightarrow> 'st" where
  "after ops st = fold (\<lambda>(b, s) st. snd (if b then intern s st else fresh s st)) ops st"

lemma after_keeps:
  "ok st \<Longrightarrow> find s st = Some x \<Longrightarrow> ok (after ops st) \<and> find s (after ops st) = Some x"
proof (induction ops arbitrary: st)
  case Nil
  then show ?case by (simp add: after_def)
next
  case (Cons op ops)
  obtain b s' where op: "op = (b, s')" by (cases op)
  let ?st = "snd (if b then intern s' st else fresh s' st)"
  have "ok ?st" "find s ?st = Some x"
    using Cons.prems by (auto simp: intern_ok fresh_ok intern_keeps fresh_keeps)
  with Cons.IH [of ?st] show ?case by (simp add: after_def op)
qed

lemma intern_again:
  "ok st \<Longrightarrow> intern s st = (x, st') \<Longrightarrow> fst (intern s (after ops st')) = x"
  using after_keeps [of st' s x ops] intern_ok [of st s] intern_find [of st s] intern_known by fastforce

lemma intern_distinct:
  assumes "ok st" "intern s st = (x, st')" "fst (intern s' (after ops st')) = y"
  shows "sym_id x = sym_id y \<longleftrightarrow> cstr s = cstr s'"
proof -
  have st': "ok st'" "find s st' = Some x"
    using assms intern_ok [of st s] intern_find [of st s] by auto
  let ?st = "after ops st'"
  let ?st2 = "snd (intern s' ?st)"
  have st: "ok ?st" "find s ?st = Some x" using after_keeps [OF st'] by auto
  have ok2: "ok ?st2" "find s ?st2 = Some x" "find s' ?st2 = Some y"
    using st assms(3) intern_find [of ?st s'] by (auto simp: intern_ok intern_keeps)
  show ?thesis
  proof
    assume "sym_id x = sym_id y"
    then have "x = y" using find_inj ok2 by blast
    then show "cstr s = cstr s'" using find_name [OF ok2(1)] ok2(2,3) by metis
  next
    assume "cstr s = cstr s'"
    then have "find s ?st2 = find s' ?st2" by (rule find_cong)
    with ok2 show "sym_id x = sym_id y" by simp
  qed
qed

lemma fresh_differs:
  assumes "ok st" "find s st = Some x"
  shows "sym_id (fst (fresh s' st)) \<noteq> sym_id x"
  using fresh_id [OF assms(1)] find_name [OF assms] by simp

end

lemma zuo_symbol_spec:
  assumes "symtab_ok st"
  shows "symtab_ok (snd (zuo_symbol s st))"
    and "symtab_find s' (snd (zuo_symbol s st))
      = (if cstr s' = cstr s then Some (fst (zuo_symbol s st)) else symtab_find s' st)"
    and "fst (zuo_symbol s st) = (case symtab_find s st of Some x \<Rightarrow> x
      | None \<Rightarrow> Symbol (symbol_count st) (cstr s))"
    and "symbol_count (snd (zuo_symbol s st))
      = symbol_count st + (if symtab_find s st = None then 1 else 0)"
proof -
  obtain r st' where eq: "zuo_symbol_from_string s Str_Undefined st = (r, st')" by fastforce
  note spec = zuo_symbol_from_string_spec [OF assms eq]
  have "r = Some (case symtab_find s st of Some x \<Rightarrow> x | None \<Rightarrow> Symbol (symbol_count st) (cstr s))"
    using spec(2) by (auto simp: new_symbol_def split: option.split)
  then show "symtab_ok (snd (zuo_symbol s st))"
    and "symtab_find s' (snd (zuo_symbol s st))
      = (if cstr s' = cstr s then Some (fst (zuo_symbol s st)) else symtab_find s' st)"
    and "fst (zuo_symbol s st) = (case symtab_find s st of Some x \<Rightarrow> x
      | None \<Rightarrow> Symbol (symbol_count st) (cstr s))"
    and "symbol_count (snd (zuo_symbol s st))
      = symbol_count st + (if symtab_find s st = None then 1 else 0)"
    using spec(1,3,4) by (simp_all add: zuo_symbol_def eq)
qed

lemma zuo_make_symbol_ok: "symtab_ok st \<Longrightarrow> symtab_ok (snd (zuo_make_symbol_from_string s st))"
  by (auto simp: symtab_ok_def symtab_find_def zuo_make_symbol_from_string_def)
    (meson add_increasing2 less_add_one less_trans order_less_imp_le)+

interpretation symtab: interner zuo_symbol zuo_make_symbol_from_string symtab_find symbol_count symtab_ok
proof (unfold_locales, goal_cases)
  case (8 st s x)
  then show ?case unfolding symtab_ok_def by blast
next
  case (9 st s x s' y)
  then show ?case unfolding symtab_ok_def by blast
next
  case (10 s s' st)
  then show ?case by (rule symtab_find_cstr)
next
  case (5 st s' x s)
  then show ?case
    using zuo_symbol_spec(2,3) [of st] symtab_find_cstr [of s' s st] by (auto split: option.splits)
next
  case (1 st s)
  then show ?case by (rule zuo_symbol_spec(1))
next
  case (2 st s)
  then show ?case by (rule zuo_make_symbol_ok)
next
  case (4 st s)
  then show ?case using zuo_symbol_spec(2) [of st s s] by simp
qed (simp_all add: zuo_symbol_spec(3) zuo_make_symbol_from_string_def symtab_find_def)

text \<open>The table at start-up is empty.\<close>

lemma symtab_ok_init: "symtab_ok \<lparr>intern_table = zuo_trie_node, symbol_count = 0\<rparr>"
  by (simp add: symtab_ok_def symtab_find_def)

section \<open>Symbols over a run of the program\<close>

text \<open>A later mix of \<^verbatim>\<open>zuo_symbol\<close> (True) and \<^verbatim>\<open>zuo_make_symbol\<close> (False) calls.\<close>

definition symtab_run :: "(bool \<times> string) list \<Rightarrow> symtab \<Rightarrow> symtab" where
  "symtab_run calls st =
     fold (\<lambda>(b, s) st. snd (if b then zuo_symbol s st else zuo_make_symbol_from_string s st)) calls st"

lemma symtab_run_after: "symtab_run calls st = symtab.after calls st"
  by (simp add: symtab_run_def symtab.after_def)



text \<open>
  C21: The keys that \<^verbatim>\<open>hash-keys\<close> and the printer list come from the merge sort as a permutation of
  the keys of the table, each once, in the order of \<^verbatim>\<open>strcmp\<close> on their names.
\<close>

theorem sorted_keys_correct:
  assumes "trie_wf t" "trie_keyed t"
  shows "mset (zuo_trie_sorted_keys t []) = mset (zuo_trie_keys t [])
    \<and> sorted_wrt (\<lambda>a b. strcmp (sym_str a) (sym_str b) \<le> 0) (zuo_trie_sorted_keys t [])
    \<and> distinct (map sym_id (zuo_trie_sorted_keys t []))"
proof -
  note spec = zuo_symbol_list_sort_spec [of "zuo_trie_keys t []"]
  have "mset (map sym_id (zuo_trie_sorted_keys t [])) = mset (map sym_id (zuo_trie_keys t []))"
    using spec by (simp add: zuo_trie_sorted_keys_def)
  then have "distinct (map sym_id (zuo_trie_sorted_keys t []))"
    using zuo_trie_keys_ids(2) [OF assms] mset_eq_imp_distinct_iff by blast
  with spec show ?thesis
    by (simp add: zuo_trie_sorted_keys_def strcmp_le_iff sorted_map)
qed

theorem sorted_keys_correct_witness:
  "sorted_wrt (\<lambda>a b. strcmp (sym_str a) (sym_str b) \<le> 0)
     (zuo_trie_sorted_keys (zuo_trie_extend (zuo_trie_extend zuo_trie_node (Symbol 0 ''b'') ()) (Symbol 1 ''a'') ()) [])"
  using sorted_keys_correct [of "zuo_trie_extend (zuo_trie_extend zuo_trie_node (Symbol 0 ''b'') ()) (Symbol 1 ''a'') ()"]
  by (simp add: zuo_trie_extend_wf zuo_trie_extend_keyed)

end
