(* ===== verification/Zuo_Value.thy ===== *)
theory Zuo_Value
  imports Zuo_Symbols
begin

text \<open>
  The values of \<^verbatim>\<open>zuo.c\<close> as the interpreter and its primitives see them, the failures an
  operation can end in, and the type checks that guard the primitives.

  Immutable objects (integers, strings, pairs, tries, closures, opaque values,
  continuations) are modelled by their contents. Objects whose identity the interpreter
  depends on carry it: a symbol by its id, a variable by its index in the variable store,
  a handle by its id; each singleton is a constructor of its own. Primitives that observe the
  identity of other objects (\<^verbatim>\<open>eq?\<close> and the tag test of \<^verbatim>\<open>opaque-ref\<close>) take the comparison as a
  parameter \<open>same\<close>; that a collection keeps different objects different is a theorem of
  theory \<open>Zuo_Collect\<close>.
\<close>

section \<open>Values\<close>

datatype cont_tag = Apply_Cont | Begin_Cont | Let_Cont | If_Cont

datatype zval =
    VUndefined | VTrue | VFalse | VNull | VEof | VVoid
  | VInteger zuo_int
  | VString string
  | VSymbol symbol
  | VPair zval zval
  | VTrie "zval trie"
  | VVariable nat
  | VPrimitive (prim_proc: string) (prim_arity_mask: zuo_int32) (prim_name: zval)
  | VClosure zval zval
  | VHandle int
  | VOpaque zval zval
  | VCont cont
  | VApply | VCallCC | VCallPrompt | VKernelEval
and cont =
    Done_K
  | Cont (cont_tag: cont_tag) (cont_data: zval) (cont_env: zval) (cont_in_proc: zval) (cont_next: cont)

fun is_pair :: "zval \<Rightarrow> bool" where
  "is_pair (VPair a d) = True"
| "is_pair v = False"

fun is_string :: "zval \<Rightarrow> bool" where
  "is_string (VString s) = True"
| "is_string v = False"

fun is_symbol :: "zval \<Rightarrow> bool" where
  "is_symbol (VSymbol s) = True"
| "is_symbol v = False"

fun is_integer :: "zval \<Rightarrow> bool" where
  "is_integer (VInteger i) = True"
| "is_integer v = False"

definition zbool :: "bool \<Rightarrow> zval" where
  "zbool b = (if b then VTrue else VFalse)"

lemma zbool_simps [simp]:
  "zbool True = VTrue" "zbool False = VFalse"
  "zbool b = VTrue \<longleftrightarrow> b" "zbool b = VFalse \<longleftrightarrow> \<not> b" "zbool b \<noteq> VUndefined"
  by (simp_all add: zbool_def)

lemma is_pair_iff: "is_pair v \<longleftrightarrow> (\<exists>a d. v = VPair a d)"
  by (cases v) auto

lemma is_string_iff: "is_string v \<longleftrightarrow> (\<exists>s. v = VString s)"
  by (cases v) auto

lemma is_symbol_iff: "is_symbol v \<longleftrightarrow> (\<exists>s. v = VSymbol s)"
  by (cases v) auto

lemma is_integer_iff: "is_integer v \<longleftrightarrow> (\<exists>i. v = VInteger i)"
  by (cases v) auto

section \<open>Failures\<close>

text \<open>
  Each constructor is one way for the C code to stop: the reporting functions
  \<^verbatim>\<open>zuo_fail_arg\<close>, \<^verbatim>\<open>zuo_fail1w\<close>, \<^verbatim>\<open>zuo_fail1\<close>, \<^verbatim>\<open>zuo_fail\<close>, \<^verbatim>\<open>bad_form\<close>,
  \<^verbatim>\<open>zuo_read_fail\<close> and \<^verbatim>\<open>zuo_fail_arity\<close> with their arguments, a normal exit, a panic,
  and \<open>UB\<close>: behaviour the C standard leaves undefined (an unchecked access to an object of
  another type, a read outside an object, a signed overflow).
\<close>

datatype zerror =
    Fail_Arg string string zval
  | Fail1w string string zval
  | Fail1 string zval
  | Fail string
  | Fail_Error zval
  | Bad_Form zval
  | Read_Fail string nat
  | Fail_Var_Undefined zval
  | Fail_Arity zval zval
  | Exit int
  | Panic string
  | UB string

type_synonym 'a res = "zerror + 'a"

section \<open>Type checks and accessors\<close>

definition check_string :: "string \<Rightarrow> zval \<Rightarrow> string res" where
  "check_string who obj =
     (case obj of VString s \<Rightarrow> Inr s | _ \<Rightarrow> Inl (Fail_Arg who ''string'' obj))"

definition check_symbol :: "string \<Rightarrow> zval \<Rightarrow> symbol res" where
  "check_symbol who obj =
     (case obj of VSymbol s \<Rightarrow> Inr s | _ \<Rightarrow> Inl (Fail_Arg who ''symbol'' obj))"

definition check_integer :: "string \<Rightarrow> zval \<Rightarrow> zuo_int res" where
  "check_integer who n =
     (case n of VInteger i \<Rightarrow> Inr i | _ \<Rightarrow> Inl (Fail_Arg who ''integer'' n))"

definition check_hash :: "string \<Rightarrow> zval \<Rightarrow> zval trie res" where
  "check_hash who obj =
     (case obj of VTrie t \<Rightarrow> Inr t | _ \<Rightarrow> Inl (Fail_Arg who ''hash table'' obj))"

lemma check_simps [simp]:
  "check_string who (VString s) = Inr s"
  "check_symbol who (VSymbol y) = Inr y"
  "check_integer who (VInteger i) = Inr i"
  "check_hash who (VTrie t) = Inr t"
  by (simp_all add: check_string_def check_symbol_def check_integer_def check_hash_def)

lemma check_Inr_iff [simp]:
  "check_string who v = Inr s \<longleftrightarrow> v = VString s"
  "check_symbol who v = Inr y \<longleftrightarrow> v = VSymbol y"
  "check_integer who v = Inr i \<longleftrightarrow> v = VInteger i"
  "check_hash who v = Inr t \<longleftrightarrow> v = VTrie t"
  by (auto simp: check_string_def check_symbol_def check_integer_def check_hash_def
      split: zval.splits)

text \<open>\<^verbatim>\<open>_zuo_car\<close> and \<^verbatim>\<open>_zuo_cdr\<close> do not check the tag: on anything but a pair they are undefined.\<close>

definition ucar :: "zval \<Rightarrow> zval res" where
  "ucar p = (case p of VPair a d \<Rightarrow> Inr a | _ \<Rightarrow> Inl (UB ''car''))"

definition ucdr :: "zval \<Rightarrow> zval res" where
  "ucdr p = (case p of VPair a d \<Rightarrow> Inr d | _ \<Rightarrow> Inl (UB ''cdr''))"

lemma ucar_simps [simp]: "ucar (VPair a d) = Inr a"
  and ucdr_simps [simp]: "ucdr (VPair a d) = Inr d"
  by (simp_all add: ucar_def ucdr_def)

section \<open>Zuo lists\<close>

fun zlist :: "zval list \<Rightarrow> zval" where
  "zlist [] = VNull"
| "zlist (x # xs) = VPair x (zlist xs)"

text \<open>The elements of a pair chain and what ends it.\<close>

fun zelems :: "zval \<Rightarrow> zval list" where
  "zelems (VPair a d) = a # zelems d"
| "zelems v = []"

fun zend :: "zval \<Rightarrow> zval" where
  "zend (VPair a d) = zend d"
| "zend v = v"

fun zlist_onto :: "zval list \<Rightarrow> zval \<Rightarrow> zval" where
  "zlist_onto [] d = d"
| "zlist_onto (x # xs) d = VPair x (zlist_onto xs d)"

lemma zlist_onto_null: "zlist_onto xs VNull = zlist xs"
  by (induction xs) auto

lemma zlist_onto_append: "zlist_onto (xs @ ys) d = zlist_onto xs (zlist_onto ys d)"
  by (induction xs) auto

lemma zelems_zlist [simp]: "zelems (zlist xs) = xs"
  and zend_zlist [simp]: "zend (zlist xs) = VNull"
  by (induction xs) auto

lemma zlist_onto_elems: "zlist_onto (zelems v) (zend v) = v"
  by (induction v rule: zelems.induct) auto

lemma zend_not_pair [simp]: "\<not> is_pair (zend v)"
  by (induction v rule: zend.induct) auto

lemma zend_idem [simp]: "\<not> is_pair v \<Longrightarrow> zend v = v" and zelems_atom [simp]: "\<not> is_pair v \<Longrightarrow> zelems v = []"
  by (cases v; simp)+

lemma zend_null_iff: "zend v = VNull \<longleftrightarrow> (\<exists>xs. v = zlist xs)"
  by (metis zend_zlist zlist_onto_elems zlist_onto_null)

lemma zlist_inject [simp]: "zlist xs = zlist ys \<longleftrightarrow> xs = ys"
  by (metis zelems_zlist)

lemma zlist_eq_null_iff [simp]: "zlist xs = VNull \<longleftrightarrow> xs = []" "VNull = zlist xs \<longleftrightarrow> xs = []"
  by (cases xs; simp)+

lemma zlist_not_undefined [simp]: "zlist xs \<noteq> VUndefined" "VUndefined \<noteq> zlist xs"
  by (cases xs; simp)+

section \<open>Mutable memory\<close>

text \<open>
  The mutable part of the heap that values refer to: the symbol table and the variables,
  each with its name and its current value (\<^const>\<open>VUndefined\<close> until it is set). The text that
  \<^verbatim>\<open>alert\<close> has written to standard output is kept with it.
\<close>

record zvar =
  var_name :: zval
  var_val :: zval

record zmem =
  mem_symtab :: symtab
  mem_vars :: "zvar list"
  mem_out :: string

text \<open>The memory before any symbol or variable is made.\<close>

definition mem_init :: zmem where
  "mem_init = \<lparr>mem_symtab = \<lparr>intern_table = zuo_trie_node, symbol_count = 0\<rparr>, mem_vars = [], mem_out = []\<rparr>"

end
