(* ===== verification/Zuo_Print.thy ===== *)
theory Zuo_Print
  imports Zuo_Value
begin

text \<open>
  The printer of \<^verbatim>\<open>zuo.c\<close>: the growable output buffer, \<^verbatim>\<open>zuo_out\<close> with its explicit stack
  of pending work, and \<^verbatim>\<open>zuo_to_string\<close>, which \<^verbatim>\<open>~v\<close>, \<^verbatim>\<open>~s\<close> and \<^verbatim>\<open>~a\<close> use. The loop is a
  partial function; \<open>zuo_out_show\<close> shows that it returns on every value whose tables have the
  right shape, and that the output is that of the structural function \<open>show_obj\<close>, which the
  round-trip theorem of theory \<open>Zuo_Round_Trip\<close> builds on.
\<close>

datatype print_mode = Print_Mode | Write_Mode | Display_Mode

section \<open>The output buffer\<close>

text \<open>\<^verbatim>\<open>zuo_out_t\<close>: the bytes written so far and the capacity of the allocation.\<close>

record out_buf =
  out_s :: string
  out_size :: nat

definition out_init :: out_buf where
  "out_init = \<lparr>out_s = [], out_size = 32\<rparr>"

definition out_char :: "out_buf \<Rightarrow> char \<Rightarrow> out_buf" where
  "out_char b c =
     (let b = (if length (out_s b) = out_size b then b\<lparr>out_size := out_size b * 2\<rparr> else b)
      in b\<lparr>out_s := out_s b @ [c]\<rparr>)"

fun out_string :: "out_buf \<Rightarrow> string \<Rightarrow> out_buf" where
  "out_string b [] = b"
| "out_string b (c # cs) = (if c = NUL then b else out_string (out_char b c) cs)"

text \<open>Every write lands inside the allocation.\<close>

definition out_ok :: "out_buf \<Rightarrow> bool" where
  "out_ok b \<longleftrightarrow> 0 < out_size b \<and> length (out_s b) \<le> out_size b"

lemma out_init_ok: "out_ok out_init"
  by (simp add: out_ok_def out_init_def)

lemma out_char_ok: "out_ok b \<Longrightarrow> out_ok (out_char b c) \<and> out_s (out_char b c) = out_s b @ [c]"
  by (auto simp: out_ok_def out_char_def Let_def)

lemma fold_out_char: "out_ok b \<Longrightarrow> out_ok (foldl out_char b cs) \<and> out_s (foldl out_char b cs) = out_s b @ cs"
  by (induction cs arbitrary: b) (auto simp: out_char_ok)

lemma out_string_eq: "NUL \<notin> set cs \<Longrightarrow> out_string b cs = foldl out_char b cs"
  by (induction cs arbitrary: b) auto

text \<open>
  By the last two lemmas a sequence of writes appends its bytes, so the printer is
  modelled by the bytes it emits; the buffer is filled with them at the end.
\<close>

section \<open>Integers\<close>

text \<open>The loop that finds the largest power of ten not above the number.\<close>

function int_scale :: "int \<Rightarrow> int \<Rightarrow> int" where
  "int_scale di n = (if di \<ge> n \<and> n \<ge> 1 then int_scale di (n * 10) else n)"
  by pat_completeness auto
termination by (relation "measure (\<lambda>(di, n). nat (di + 1 - n))") auto

declare int_scale.simps [simp del]

function int_digits :: "int \<Rightarrow> int \<Rightarrow> int \<Rightarrow> string" where
  "int_digits i n add_back =
     (if n \<ge> 1 then
        char_of (nat (48 + i div n)) # int_digits (i - (i div n) * n + add_back) (n div 10) 0
      else [])"
  by pat_completeness auto
termination by (relation "measure (\<lambda>(i, n, a). nat n)") auto

declare int_digits.simps [simp del]

definition out_integer :: "zuo_int \<Rightarrow> string" where
  "out_integer w =
     (let i = sint w;
          neg = (i < 0);
          i = (if neg then sint (0 - w) else i);
          min_int = (i < 0);
          i = (if min_int then - (i + 1) else i)
      in (if neg then ''-'' else [])
         @ int_digits i (int_scale (i div 10) 1) (if min_int then 1 else 0))"

section \<open>Strings\<close>

definition out_str_char :: "char \<Rightarrow> char \<Rightarrow> string" where
  "out_str_char c nxt =
     (if c = CHR 0x22 \<or> c = CHR 0x5C then [CHR 0x5C, c]
      else if c = CHR 0x0A then [CHR 0x5C, CHR ''n'']
      else if c = CHR 0x0D then [CHR 0x5C, CHR ''r'']
      else if c = CHR 0x09 then [CHR 0x5C, CHR ''t'']
      else if isprint c then [c]
      else if c = NUL \<and> (byte nxt < 48 \<or> byte nxt > 55) then [CHR 0x5C, CHR ''0'']
      else [CHR 0x5C, char_of (48 + (drop_bit 6 (byte c) AND 7)),
            char_of (48 + (drop_bit 3 (byte c) AND 7)), char_of (48 + (byte c AND 7))])"

fun out_str_chars :: "string \<Rightarrow> string" where
  "out_str_chars [] = []"
| "out_str_chars (c # cs) = out_str_char c (char_at cs 0) @ out_str_chars cs"

definition out_str :: "print_mode \<Rightarrow> string \<Rightarrow> string" where
  "out_str mode s =
     (if mode = Display_Mode then s else [CHR 0x22] @ out_str_chars s @ [CHR 0x22])"

section \<open>Symbols and other objects\<close>

definition is_interned :: "zmem \<Rightarrow> symbol \<Rightarrow> bool" where
  "is_interned mem s =
     (fst (zuo_symbol_from_string (sym_str s) Str_False (mem_symtab mem)) = Some s)"

definition out_symbol :: "print_mode \<Rightarrow> zmem \<Rightarrow> symbol \<Rightarrow> string" where
  "out_symbol mode mem s =
     (if mode = Display_Mode \<or> is_interned mem s then
        (if mode = Print_Mode then [CHR 0x27] else []) @ sym_str s
      else ''#<symbol:'' @ sym_str s @ ''>'')"

text \<open>
  \<^verbatim>\<open>zuo_out\<close> on the name of a primitive or variable or on a tag, in display mode: a symbol
  or a string; the name of the module system's private primitives is the void value.
  No other value is ever used as a name.
\<close>

definition out_name :: "zval \<Rightarrow> string" where
  "out_name v =
     (case v of VSymbol s \<Rightarrow> sym_str s | VString s \<Rightarrow> s | VVoid \<Rightarrow> ''#<void>'' | _ \<Rightarrow> ''#<garbage>'')"

datatype out_frame =
    Out_Recur zval
  | Out_Pair zval
  | Out_Hash1 "symbol list" "zval trie"
  | Out_Hash "symbol list" "zval trie"

text \<open>One pass of the outer loop on an object: the bytes it emits and the frames it pushes.\<close>

definition pair_prefix :: "zval \<Rightarrow> string" where
  "pair_prefix p =
     (if zend p = VNull then ''list ''
      else case p of
        VPair a d \<Rightarrow> (if is_pair d then ''list* '' else ''cons '')
      | _ \<Rightarrow> ''cons '')"

fun out_obj :: "print_mode \<Rightarrow> zmem \<Rightarrow> zval \<Rightarrow> string \<times> out_frame list" where
  "out_obj mode mem VUndefined = (''#<undefined>'', [])"
| "out_obj mode mem VNull = ((if mode = Print_Mode then [CHR 0x27] else []) @ ''()'', [])"
| "out_obj mode mem VFalse = (''#f'', [])"
| "out_obj mode mem VTrue = (''#t'', [])"
| "out_obj mode mem VEof = (''#<eof>'', [])"
| "out_obj mode mem VVoid = (''#<void>'', [])"
| "out_obj mode mem (VInteger w) = (out_integer w, [])"
| "out_obj mode mem (VString s) = (out_str mode s, [])"
| "out_obj mode mem (VSymbol s) = (out_symbol mode mem s, [])"
| "out_obj mode mem (VPair a d) =
     (''('' @ (if mode = Print_Mode then pair_prefix (VPair a d) else []),
      [Out_Recur a, Out_Pair d])"
| "out_obj mode mem (VPrimitive p m name) = (''#<procedure:'' @ out_name name @ ''>'', [])"
| "out_obj mode mem VApply = (''#<procedure:apply>'', [])"
| "out_obj mode mem VCallCC = (''#<procedure:call/cc>'', [])"
| "out_obj mode mem VCallPrompt = (''#<procedure:call/prompt>'', [])"
| "out_obj mode mem VKernelEval = (''#<procedure:kernel-eval>'', [])"
| "out_obj mode mem (VClosure lam env) =
     (''#<procedure'' @
        (case lam of
           VPair _ (VPair _ (VPair (VString name) _)) \<Rightarrow> '':'' @ name
         | _ \<Rightarrow> []) @ ''>'', [])"
| "out_obj mode mem (VOpaque tag v) =
     (''#<'' @ (if is_string tag \<or> is_symbol tag then out_name tag else ''opaque'') @ ''>'', [])"
| "out_obj mode mem (VTrie t) =
     (let keys = zuo_trie_sorted_keys t [] in
      ((if mode = Print_Mode then ''(hash'' @ (if keys \<noteq> [] then '' '' else [])
        else ''#hash(''), [Out_Hash1 keys t]))"
| "out_obj mode mem (VHandle h) = (''#<handle>'', [])"
| "out_obj mode mem (VCont k) = (''#<continuation>'', [])"
| "out_obj mode mem (VVariable i) =
     (''#<variable:'' @ (if i < length (mem_vars mem) then out_name (var_name (mem_vars mem ! i)) else [])
        @ ''>'', [])"

definition trie_value :: "zval trie \<Rightarrow> symbol \<Rightarrow> zval" where
  "trie_value t s = (case zuo_trie_lookup t s of None \<Rightarrow> VUndefined | Some v \<Rightarrow> v)"

text \<open>The inner loop: the bytes emitted while frames finish, then the next object to print.\<close>

fun out_pop :: "print_mode \<Rightarrow> zmem \<Rightarrow> out_frame list \<Rightarrow> string \<times> (zval \<times> out_frame list) option" where
  "out_pop mode mem [] = ([], None)"
| "out_pop mode mem (Out_Recur v # stack) = ([], Some (v, stack))"
| "out_pop mode mem (Out_Pair obj # stack) =
     (case obj of
        VPair a d \<Rightarrow> ('' '', Some (a, Out_Pair d # stack))
      | VNull \<Rightarrow> (let (s, r) = out_pop mode mem stack in ('')'' @ s, r))
      | _ \<Rightarrow> ((if mode \<noteq> Print_Mode then '' .'' else []) @ '' '', Some (obj, Out_Pair VNull # stack)))"
| "out_pop mode mem (Out_Hash1 keys ht # stack) =
     (case keys of
        key # keys \<Rightarrow>
          ((if mode \<noteq> Print_Mode then ''('' else []) @ out_symbol mode mem key
             @ (if mode = Print_Mode then '' '' else '' . ''),
           Some (trie_value ht key, Out_Hash keys ht # stack))
      | [] \<Rightarrow> (let (s, r) = out_pop mode mem stack in ('')'' @ s, r)))"
| "out_pop mode mem (Out_Hash keys ht # stack) =
     (let close = (if mode \<noteq> Print_Mode then '')'' else []) in
      case keys of
        key # keys \<Rightarrow>
          (close @ '' '' @ (if mode \<noteq> Print_Mode then ''('' else []) @ out_symbol mode mem key
             @ (if mode = Print_Mode then '' '' else '' . ''),
           Some (trie_value ht key, Out_Hash keys ht # stack))
      | [] \<Rightarrow> (let (s, r) = out_pop mode mem stack in (close @ '')'' @ s, r)))"

partial_function (option) out_loop ::
    "print_mode \<Rightarrow> zmem \<Rightarrow> zval \<Rightarrow> out_frame list \<Rightarrow> string \<Rightarrow> string option" where
  "out_loop mode mem obj stack acc =
     (case out_obj mode mem obj of
        (s, frames) \<Rightarrow>
          (case out_pop mode mem (frames @ stack) of
             (s', None) \<Rightarrow> Some (acc @ s @ s')
           | (s', Some (obj', stack')) \<Rightarrow> out_loop mode mem obj' stack' (acc @ s @ s')))"

declare out_loop.simps [code]

definition zuo_out :: "print_mode \<Rightarrow> zmem \<Rightarrow> zval \<Rightarrow> string option" where
  "zuo_out mode mem obj = out_loop mode mem obj [] []"

text \<open>\<^verbatim>\<open>zuo_to_string\<close>: the objects of a list, separated by spaces except in display mode.\<close>

fun zuo_to_string_bytes :: "print_mode \<Rightarrow> zmem \<Rightarrow> zval \<Rightarrow> string option" where
  "zuo_to_string_bytes mode mem (VPair a d) =
     (case zuo_out mode mem a of
        None \<Rightarrow> None
      | Some s \<Rightarrow>
          map_option (\<lambda>rest. s @ (if mode \<noteq> Display_Mode \<and> d \<noteq> VNull then '' '' else []) @ rest)
            (zuo_to_string_bytes mode mem d))"
| "zuo_to_string_bytes mode mem v = (if v = VNull then Some [] else zuo_out mode mem v)"

definition zuo_to_string :: "print_mode \<Rightarrow> zmem \<Rightarrow> zval \<Rightarrow> zval option" where
  "zuo_to_string mode mem objs =
     map_option (\<lambda>bs. VString (out_s (foldl out_char out_init bs))) (zuo_to_string_bytes mode mem objs)"

definition zuo_tilde_v :: "zmem \<Rightarrow> zval \<Rightarrow> zval option" where
  "zuo_tilde_v mem objs = zuo_to_string Print_Mode mem objs"

definition zuo_tilde_s :: "zmem \<Rightarrow> zval \<Rightarrow> zval option" where
  "zuo_tilde_s mem objs = zuo_to_string Write_Mode mem objs"

definition zuo_tilde_a :: "zmem \<Rightarrow> zval \<Rightarrow> zval option" where
  "zuo_tilde_a mem objs = zuo_to_string Display_Mode mem objs"

section \<open>What is printed\<close>

text \<open>
  The printed form by recursion on the value, against which the loop with its explicit stack
  is verified: \<open>show_obj\<close> is the form of an object, \<open>show_tail\<close> what follows the first element of a
  pair chain; the entries of a table follow its sorted keys. A table contributes only values it
  holds, which makes the recursion structural.
\<close>

definition key_open :: "print_mode \<Rightarrow> zmem \<Rightarrow> symbol \<Rightarrow> string" where
  "key_open mode mem key =
     (if mode \<noteq> Print_Mode then ''('' else []) @ out_symbol mode mem key
       @ (if mode = Print_Mode then '' '' else '' . '')"

definition key_close :: "print_mode \<Rightarrow> string" where
  "key_close mode = (if mode \<noteq> Print_Mode then '')'' else [])"

definition trie_member :: "zval trie \<Rightarrow> symbol \<Rightarrow> zval" where
  "trie_member t key = (if trie_value t key \<in> set_trie t then trie_value t key else VUndefined)"

lemma set_trie_size: "v \<in> set_trie t \<Longrightarrow> f v < size_trie f t"
proof (induction t)
  case (Trie_Node c k w nxt)
  from Trie_Node.prems consider "w = Some v" | t where "Some t \<in> set nxt" "v \<in> set_trie t"
    by (auto elim: option.set_cases)
  then show ?case
  proof cases
    case (2 t)
    then have "f v < size_option (size_trie f) (Some t)"
      using Trie_Node.IH [of "Some t" t] by simp
    with size_list_estimation [OF 2(1), of "f v"] show ?thesis by fastforce
  qed simp
qed

lemma trie_member_size: "size (trie_member t key) \<le> size_trie size t"
  unfolding trie_member_def using set_trie_size [of "trie_value t key" t size] by auto

lemma trie_member_measure: "2 * size (trie_member t key) < Suc (Suc (2 * size_trie size t))"
  using trie_member_size [of t key] by simp

fun show_sep :: "string \<Rightarrow> string list \<Rightarrow> string" where
  "show_sep sep [] = []"
| "show_sep sep [x] = x"
| "show_sep sep (x # xs) = x @ sep @ show_sep sep xs"

function (sequential) show_obj :: "print_mode \<Rightarrow> zmem \<Rightarrow> zval \<Rightarrow> string"
  and show_tail :: "print_mode \<Rightarrow> zmem \<Rightarrow> zval \<Rightarrow> string" where
  "show_obj mode mem (VPair a d) =
     ''('' @ (if mode = Print_Mode then pair_prefix (VPair a d) else [])
       @ show_obj mode mem a @ show_tail mode mem d"
| "show_obj mode mem (VTrie t) =
     fst (out_obj mode mem (VTrie t))
       @ show_sep (key_close mode @ '' '')
           (map (\<lambda>key. key_open mode mem key @ show_obj mode mem (trie_member t key))
             (zuo_trie_sorted_keys t []))
       @ (if zuo_trie_sorted_keys t [] \<noteq> [] then key_close mode else []) @ '')''"
| "show_obj mode mem v = fst (out_obj mode mem v)"
| "show_tail mode mem (VPair a d) = '' '' @ show_obj mode mem a @ show_tail mode mem d"
| "show_tail mode mem VNull = '')''"
| "show_tail mode mem v =
     (if mode \<noteq> Print_Mode then '' .'' else []) @ '' '' @ show_obj mode mem v @ '')''"
  by pat_completeness auto
termination
  by (relation "measure (case_sum (\<lambda>(m, mem, v). 2 * size v) (\<lambda>(m, mem, v). 2 * size v + 1))")
    (auto simp: trie_member_measure)

text \<open>Values whose tables have all their slots; the primitives build no others.\<close>

inductive printable :: "zval \<Rightarrow> bool" where
  printable_atom: "\<not> is_pair v \<Longrightarrow> (\<And>t. v \<noteq> VTrie t) \<Longrightarrow> printable v"
| printable_pair: "printable a \<Longrightarrow> printable d \<Longrightarrow> printable (VPair a d)"
| printable_trie: "trie_shape t \<Longrightarrow> (\<And>v. v \<in> set_trie t \<Longrightarrow> printable v) \<Longrightarrow> printable (VTrie t)"

inductive_simps printable_simps [simp]: "printable (VPair a d)" "printable VNull" "printable VUndefined"

lemma trie_shape_lookup: "trie_shape t \<Longrightarrow> trie_lookup t sid = Some v \<Longrightarrow> v \<in> set_trie t"
proof (induction t sid rule: trie_lookup.induct)
  case (1 t sid)
  obtain c k w nxt where t: "t = Trie_Node c k w nxt" by (cases t)
  show ?case
  proof (cases "sid > 0")
    case True
    then obtain n where n: "nxt ! trie_slot sid = Some n" "trie_lookup n (trie_shift sid) = Some v"
      using "1.prems"(2) [unfolded trie_lookup.simps [of t sid]] t by (auto split: option.splits)
    have slot: "trie_slot sid < length nxt"
      using trie_shape_length [OF "1.prems"(1)] t by simp
    have "trie_shape n"
      using trie_shape_child [OF "1.prems"(1), of "trie_slot sid"] t n(1) by simp
    then have "v \<in> set_trie n" using "1.IH" True t n by simp
    with n(1) slot t show ?thesis by (auto intro!: bexI [of _ "Some n"] simp: in_set_conv_nth)
  qed (use "1.prems" t in simp)
qed

lemma trie_member_value: "trie_shape t \<Longrightarrow> trie_member t key = trie_value t key"
  by (auto simp: trie_member_def trie_value_def zuo_trie_lookup_def dest: trie_shape_lookup split: option.splits)

lemma trie_member_printable: "(\<And>v. v \<in> set_trie t \<Longrightarrow> printable v) \<Longrightarrow> printable (trie_member t key)"
  by (auto simp: trie_member_def)

section \<open>The loop prints it\<close>

text \<open>What the loop does once an object is out: the frames on the stack take over.\<close>

definition out_resume :: "print_mode \<Rightarrow> zmem \<Rightarrow> out_frame list \<Rightarrow> string \<Rightarrow> string option" where
  "out_resume mode mem stack acc =
     (case out_pop mode mem stack of
        (s, None) \<Rightarrow> Some (acc @ s)
      | (s, Some (obj, stack')) \<Rightarrow> out_loop mode mem obj stack' (acc @ s))"

lemma out_loop_resume:
  "out_loop mode mem obj stack acc =
     out_resume mode mem (snd (out_obj mode mem obj) @ stack) (acc @ fst (out_obj mode mem obj))"
  by (subst out_loop.simps) (simp add: out_resume_def split: prod.split option.split)

lemma out_resume_simps:
  "out_resume mode mem [] acc = Some acc"
  "out_resume mode mem (Out_Recur v # stack) acc = out_loop mode mem v stack acc"
  "out_resume mode mem (Out_Pair (VPair a d) # stack) acc = out_loop mode mem a (Out_Pair d # stack) (acc @ '' '')"
  "out_resume mode mem (Out_Pair VNull # stack) acc = out_resume mode mem stack (acc @ '')'')"
  by (simp_all add: out_resume_def split: prod.split option.split)

lemma out_resume_dot:
  "\<not> is_pair v \<Longrightarrow> v \<noteq> VNull \<Longrightarrow> out_resume mode mem (Out_Pair v # stack) acc =
     out_loop mode mem v (Out_Pair VNull # stack) (acc @ (if mode \<noteq> Print_Mode then '' .'' else []) @ '' '')"
  by (cases v) (simp_all add: out_resume_def)

lemma out_resume_hash:
  "out_resume mode mem (Out_Hash1 [] t # stack) acc = out_resume mode mem stack (acc @ '')'')"
  "out_resume mode mem (Out_Hash [] t # stack) acc = out_resume mode mem stack (acc @ key_close mode @ '')'')"
  "out_resume mode mem (Out_Hash1 (key # keys) t # stack) acc =
     out_loop mode mem (trie_value t key) (Out_Hash keys t # stack) (acc @ key_open mode mem key)"
  "out_resume mode mem (Out_Hash (key # keys) t # stack) acc =
     out_loop mode mem (trie_value t key) (Out_Hash keys t # stack)
       (acc @ key_close mode @ '' '' @ key_open mode mem key)"
  by (simp_all add: out_resume_def key_open_def key_close_def split: prod.split option.split)

lemma show_tail_dot: "\<not> is_pair v \<Longrightarrow> v \<noteq> VNull \<Longrightarrow>
    show_tail mode mem v = (if mode \<noteq> Print_Mode then '' .'' else []) @ '' '' @ show_obj mode mem v @ '')''"
  by (cases v) simp_all

lemma out_obj_atom: "\<not> is_pair v \<Longrightarrow> (\<And>t. v \<noteq> VTrie t) \<Longrightarrow>
    snd (out_obj mode mem v) = [] \<and> fst (out_obj mode mem v) = show_obj mode mem v"
  by (cases v) auto

text \<open>The entries of a table, once every value in it is known to print.\<close>

lemma out_entries:
  assumes vals: "\<And>key stack acc. out_loop mode mem (trie_value t key) stack acc =
      out_resume mode mem stack (acc @ show_obj mode mem (trie_member t key))"
  shows "out_resume mode mem (Out_Hash keys t # stack) acc =
    out_resume mode mem stack (acc @
      concat (map (\<lambda>key. key_close mode @ '' '' @ key_open mode mem key @ show_obj mode mem (trie_member t key)) keys)
      @ key_close mode @ '')'')"
  by (induction keys arbitrary: acc) (simp_all add: out_resume_hash vals)

lemma show_sep_Cons: "show_sep sep (x # xs) = x @ concat (map ((@) sep) xs)"
  by (induction xs arbitrary: x) simp_all

lemma out_loop_show:
  assumes "printable v"
  shows "out_loop mode mem v stack acc = out_resume mode mem stack (acc @ show_obj mode mem v)"
    and "out_resume mode mem (Out_Pair v # stack) acc = out_resume mode mem stack (acc @ show_tail mode mem v)"
  using assms
proof (induction v arbitrary: stack acc)
  case (printable_atom v)
  note atom = out_obj_atom [OF printable_atom]
  { case 1 show ?case by (simp add: out_loop_resume [of _ _ v] atom)
  next
    case 2 show ?case
    proof (cases "v = VNull")
      case False
      with printable_atom show ?thesis
        by (simp add: out_resume_dot show_tail_dot out_loop_resume [of _ _ v] atom out_resume_simps)
    qed (simp add: out_resume_simps) }
next
  case (printable_pair a d)
  { case 1 show ?case
      by (simp add: out_loop_resume [of _ _ "VPair a d"] out_resume_simps printable_pair.IH)
  next
    case 2 show ?case by (simp add: out_resume_simps printable_pair.IH) }
next
  case (printable_trie t)
  have vals: "out_loop mode mem (trie_value t key) stack acc =
      out_resume mode mem stack (acc @ show_obj mode mem (trie_member t key))" for key stack acc
    using printable_trie.IH(1) [of "trie_value t key"]
    unfolding trie_member_value [OF printable_trie.hyps(1)]
    by (cases "trie_value t key \<in> set_trie t")
      (use trie_member_value [OF printable_trie.hyps(1), of key] in
        \<open>simp_all add: trie_member_def out_loop_resume [of _ _ VUndefined]\<close>)
  have main: "out_loop mode mem (VTrie t) stack acc = out_resume mode mem stack (acc @ show_obj mode mem (VTrie t))"
    for stack acc
  proof (cases "zuo_trie_sorted_keys t []")
    case Nil
    then show ?thesis by (simp add: out_loop_resume [of _ _ "VTrie t"] Let_def out_resume_hash)
  next
    case (Cons key keys)
    then show ?thesis
      by (simp add: out_loop_resume [of _ _ "VTrie t"] Let_def out_resume_hash vals out_entries [OF vals]
          show_sep_Cons comp_def)
  qed
  { case 1 show ?case by (rule main)
  next
    case 2 show ?case by (simp add: out_resume_dot show_tail_dot main out_resume_simps del: show_obj.simps(2)) }
qed

lemma zuo_out_printable: "printable v \<Longrightarrow> zuo_out mode mem v = Some (show_obj mode mem v)"
  by (simp add: zuo_out_def out_loop_show out_resume_simps)

lemma zuo_out_atom: "\<not> is_pair v \<Longrightarrow> (\<And>t. v \<noteq> VTrie t) \<Longrightarrow> zuo_out mode mem v = Some (show_obj mode mem v)"
  by (simp add: zuo_out_printable printable_atom)

text \<open>
  C22: On every value whose tables have their sixteen slots per node, the printer's stack
  machine returns, in each of the three modes, and what it has written is the form that
  \<open>show_obj\<close> defines by recursion on the value: nothing of the pending work is lost, repeated
  or closed in the wrong order.
\<close>

theorem zuo_out_show:
  assumes "printable v"
  shows "zuo_out mode mem v = Some (show_obj mode mem v)"
  using assms by (rule zuo_out_printable)

theorem zuo_out_show_witness:
  "zuo_out Write_Mode mem_init (VPair (VInteger 5) (VPair (VString ''a'') VTrue))
     = Some (''(5 '' @ [CHR 0x22] @ ''a'' @ [CHR 0x22] @ '' . #t)'')"
proof -
  have "show_obj Write_Mode mem_init (VPair (VInteger 5) (VPair (VString ''a'') VTrue))
    = ''(5 '' @ [CHR 0x22] @ ''a'' @ [CHR 0x22] @ '' . #t)''"
    by code_simp
  then show ?thesis
    by (subst zuo_out_show) (simp_all add: printable_atom)
qed

end
