(* ===== verification/Zuo_Read.thy ===== *)
theory Zuo_Read
  imports Zuo_Print
begin

text \<open>
  The reader of \<^verbatim>\<open>zuo.c\<close>: \<^verbatim>\<open>zuo_in\<close> with its explicit stack, \<^verbatim>\<open>zuo_string_read\<close> and
  \<^verbatim>\<open>zuo_read_language\<close>. The input buffer with the offset \<^verbatim>\<open>*_o\<close> is represented by the
  bytes that remain; past the end the terminating \<^term>\<open>NUL\<close> is read. Interning threads the
  symbol table. A failure carries the offset the C code reports.
\<close>

section \<open>Character classes and look-ahead\<close>

definition symbol_chars :: string where
  "symbol_chars = ''~!@#$%^&*-_=+:<>?/.''"

text \<open>\<^verbatim>\<open>strchr\<close> also finds the terminator.\<close>

definition strchr :: "string \<Rightarrow> char \<Rightarrow> bool" where
  "strchr str c \<longleftrightarrow> c = NUL \<or> c \<in> set str"

definition is_symchar :: "char \<Rightarrow> bool" where
  "is_symchar c \<longleftrightarrow> c \<noteq> NUL \<and> (isdigit c \<or> isalpha c \<or> strchr symbol_chars c)"

definition peek_input :: "string \<Rightarrow> string \<Rightarrow> bool" where
  "peek_input rest want \<longleftrightarrow>
     take (length want) rest = want \<and> \<not> is_symchar (char_at rest (length want))"

fun all_digits_before_delim :: "string \<Rightarrow> bool" where
  "all_digits_before_delim [] = True"
| "all_digits_before_delim (c # cs) =
     (if is_symchar c then (if isdigit c then all_digits_before_delim cs else False) else True)"

section \<open>Whitespace and comments\<close>

fun skip_line :: "string \<Rightarrow> string" where
  "skip_line [] = []"
| "skip_line (c # cs) = (if c \<noteq> CHR 0x0A \<and> c \<noteq> NUL then skip_line cs else c # cs)"

text \<open>
  A \<^verbatim>\<open>#!\<close> line continues past a newline that follows a backslash, or a backslash and a
  carriage return; the two previous bytes are carried along.
\<close>

fun skip_hashbang :: "char \<Rightarrow> char \<Rightarrow> string \<Rightarrow> string" where
  "skip_hashbang p2 p1 [] = []"
| "skip_hashbang p2 p1 (c # cs) =
     (if (c \<noteq> CHR 0x0A \<or> p1 = CHR 0x5C \<or> (p2 = CHR 0x5C \<and> p1 = CHR 0x0D)) \<and> c \<noteq> NUL
      then skip_hashbang p1 c cs else c # cs)"

lemma skip_line_length: "length (skip_line cs) \<le> length cs"
  by (induction cs) auto

lemma skip_hashbang_length: "length (skip_hashbang p2 p1 cs) \<le> length cs"
  by (induction p2 p1 cs rule: skip_hashbang.induct) auto

text \<open>Returns the rest and the number of \<^verbatim>\<open>#;\<close> frames pushed.\<close>

function in_skip :: "string \<Rightarrow> nat \<Rightarrow> string \<times> nat" where
  "in_skip [] n = ([], n)"
| "in_skip (c # cs) n =
     (if isspace c then in_skip cs n
      else if c = CHR '';'' then in_skip (skip_line cs) n
      else if c = CHR ''#'' \<and> char_at cs 0 = CHR ''!'' then in_skip (skip_hashbang NUL c cs) n
      else if c = CHR ''#'' \<and> char_at cs 0 = CHR '';'' then in_skip (tl cs) (n + 1)
      else (c # cs, n))"
  by pat_completeness auto
termination
  by (relation "measure (\<lambda>(s, n). length s)")
    (auto simp: le_imp_less_Suc skip_line_length skip_hashbang_length)

section \<open>String literals\<close>

text \<open>
  The bytes up to the closing quote, decoded. \<open>len\<close> is the length of the whole buffer, so
  that an error reports the offset of the byte at fault.
\<close>

definition octal :: "char \<Rightarrow> bool" where
  "octal c \<longleftrightarrow> 48 \<le> byte c \<and> byte c \<le> 55"

definition octal_val :: "char \<Rightarrow> nat" where
  "octal_val c = byte c - 48"

text \<open>The value after a backslash and the digit \<open>c2\<close>, and how many further digits it takes.\<close>

definition octal_escape :: "char \<Rightarrow> string \<Rightarrow> nat \<times> nat" where
  "octal_escape c2 cs =
     (let v = octal_val c2; c3 = char_at cs 0 in
      if octal c3 then
        (let v = push_bit 3 v + octal_val c3; c4 = char_at cs 1 in
         if byte c2 \<le> 51 \<and> octal c4 then (push_bit 3 v + octal_val c4, 2) else (v, 1))
      else (v, 0))"

function in_string :: "nat \<Rightarrow> string \<Rightarrow> string \<Rightarrow> (string \<times> string) res" where
  "in_string len [] s2 = Inl (Read_Fail ''missing closing doublequote'' len)"
| "in_string len (c # cs) s2 =
     (let pos = len - length (c # cs) in
      if c = NUL then Inl (Read_Fail ''missing closing doublequote'' pos)
      else if c = CHR 0x22 then Inr (s2, cs)
      else if c = CHR 0x5C then
        (let c2 = char_at cs 0 in
         if c2 = CHR 0x5C \<or> c2 = CHR 0x22 then in_string len (tl cs) (s2 @ [c2])
         else if c2 = CHR ''n'' then in_string len (tl cs) (s2 @ [CHR 0x0A])
         else if c2 = CHR ''r'' then in_string len (tl cs) (s2 @ [CHR 0x0D])
         else if c2 = CHR ''t'' then in_string len (tl cs) (s2 @ [CHR 0x09])
         else if octal c2 then
           (let (v, k) = octal_escape c2 (tl cs)
            in in_string len (drop k (tl cs)) (s2 @ [char_of v]))
         else Inl (Read_Fail ''bad character after backslash'' pos))
      else if c = CHR 0x0A then Inl (Read_Fail ''newline in string literal'' pos)
      else if c = CHR 0x0D then Inl (Read_Fail ''carriage return in string literal'' pos)
      else in_string len cs (s2 @ [c]))"
  by pat_completeness auto
termination
  by (relation "measure (\<lambda>(len, s, s2). length s)") (auto simp: less_Suc_eq_le)

section \<open>Integers\<close>

text \<open>Decimal accumulation in an unsigned 64-bit integer, with the overflow test of the code.\<close>

fun in_digits :: "nat \<Rightarrow> string \<Rightarrow> zuo_int \<Rightarrow> (zuo_int \<times> string) res" where
  "in_digits len [] n = Inr (n, [])"
| "in_digits len (c # cs) n =
     (if isdigit c then
        (let new_n = 10 * n + of_nat (byte c - 48) in
         if new_n < n then Inl (Read_Fail ''integer overflow'' (len - length (c # cs)))
         else in_digits len cs new_n)
      else Inr (n, c # cs))"

definition in_integer :: "nat \<Rightarrow> string \<Rightarrow> (zuo_int \<times> string) res" where
  "in_integer len rest =
     (let neg = (char_at rest 0 = CHR ''-'');
          rest = (if neg then tl rest else rest)
      in rbind (in_digits len (tl rest) (of_nat (byte (char_at rest 0) - 48))) (\<lambda>(n, rest).
           if neg then
             (if sint (0 - n) > 0 then Inl (Read_Fail ''integer overflow'' (len - length rest))
              else Inr (0 - n, rest))
           else
             (if sint n < 0 then Inl (Read_Fail ''integer overflow'' (len - length rest))
              else Inr (n, rest))))"

section \<open>One token\<close>

text \<open>
  Pending work on the stack; the flag tells a parenthesis (True) from a bracket. The C
  frame of a list holds its first and last pair and is extended in place: here, the
  elements so far.
\<close>

datatype in_frame =
    In_Discard
  | In_Quote symbol
  | In_List bool "zval list"
  | In_Pair bool "zval list"
  | In_End bool zval

definition closer :: "bool \<Rightarrow> char" where
  "closer paren = (if paren then CHR '')'' else CHR '']'')"

text \<open>
  What the outer loop does at the first byte after whitespace. An absent object
  (\<^verbatim>\<open>z.o_undefined\<close>) means that reading goes on.
\<close>

definition in_hash :: "nat \<Rightarrow> string \<Rightarrow> (zval \<times> string) res" where
  "in_hash len rest =
     (if peek_input rest ''true'' then Inr (VTrue, drop 4 rest)
      else if peek_input rest ''false'' then Inr (VFalse, drop 5 rest)
      else if peek_input rest ''t'' then Inr (VTrue, drop 1 rest)
      else if peek_input rest ''f'' then Inr (VFalse, drop 1 rest)
      else Inl (Read_Fail ''bad hash mark'' (len - length rest)))"

definition in_dot :: "in_frame list \<Rightarrow> in_frame list option" where
  "in_dot stack =
     (case stack of
        In_List paren elems # stack' \<Rightarrow>
          if elems \<noteq> [] then Some (In_Pair paren elems # stack') else None
      | _ \<Rightarrow> None)"

definition in_close :: "bool \<Rightarrow> in_frame list \<Rightarrow> (zval \<times> in_frame list) option" where
  "in_close paren stack =
     (case stack of
        In_List p elems # stack' \<Rightarrow> if p = paren then Some (zlist elems, stack') else None
      | In_Pair p elems # stack' \<Rightarrow> if p = paren then Some (zlist elems, stack') else None
      | _ \<Rightarrow> None)"

definition in_quote :: "string \<Rightarrow> string \<Rightarrow> in_frame list \<Rightarrow> symtab \<Rightarrow>
    (zval option \<times> string \<times> in_frame list \<times> symtab) res" where
  "in_quote name rest stack st =
     (let (q, st') = zuo_symbol name st in Inr (None, rest, In_Quote q # stack, st'))"

definition in_start :: "nat \<Rightarrow> string \<Rightarrow> in_frame list \<Rightarrow> symtab \<Rightarrow>
    (zval option \<times> string \<times> in_frame list \<times> symtab) res" where
  "in_start len rest stack st =
     (let c = char_at rest 0; c1 = char_at rest 1; pos = len - length rest in
      if c = NUL then Inr (Some VEof, rest, stack, st)
      else if c = CHR ''('' \<or> c = CHR ''['' then
        Inr (None, tl rest, In_List (c = CHR ''('') [] # stack, st)
      else if c = CHR '')'' \<or> c = CHR '']'' then
        (case in_close (c = CHR '')'') stack of
           None \<Rightarrow> Inl (Read_Fail ''unbalanced closer'' pos)
         | Some (obj, stack') \<Rightarrow> Inr (Some obj, tl rest, stack', st))
      else if c = CHR 0x22 \<or> (c = CHR ''#'' \<and> c1 = CHR 0x22) then
        rbind (in_string len (drop (if c = CHR ''#'' then 2 else 1) rest) []) (\<lambda>(s, rest').
          Inr (Some (VString s), rest', stack, st))
      else if c = CHR ''#'' then
        rbind (in_hash len (tl rest)) (\<lambda>(obj, rest'). Inr (Some obj, rest', stack, st))
      else if (isdigit c \<or> (c = CHR ''-'' \<and> isdigit c1)) \<and> all_digits_before_delim (tl rest) then
        rbind (in_integer len rest) (\<lambda>(n, rest'). Inr (Some (VInteger n), rest', stack, st))
      else if c = CHR 0x27 then in_quote ''quote'' (tl rest) stack st
      else if c = CHR 0x60 then in_quote ''quasiquote'' (tl rest) stack st
      else if c = CHR '','' then
        (if c1 = CHR ''@'' then in_quote ''unquote-splicing'' (drop 2 rest) stack st
         else in_quote ''unquote'' (tl rest) stack st)
      else if c = CHR ''.'' \<and> \<not> (isalpha c1 \<or> isdigit c1 \<or> strchr symbol_chars c1) then
        (case in_dot stack of
           None \<Rightarrow> Inl (Read_Fail ''misplaced `.`'' pos)
         | Some stack' \<Rightarrow> Inr (None, tl rest, stack', st))
      else if is_symchar c then
        (let (symb, st') = zuo_symbol (takeWhile is_symchar rest) st
         in Inr (Some (VSymbol symb), dropWhile is_symchar rest, stack, st'))
      else Inl (Fail1w ''read'' ''unrecognized character'' (VString [c])))"

text \<open>After the datum that follows a dot, only the matching closer is accepted.\<close>

fun in_token :: "nat \<Rightarrow> string \<Rightarrow> in_frame list \<Rightarrow> symtab \<Rightarrow>
    (zval option \<times> string \<times> in_frame list \<times> symtab) res" where
  "in_token len rest (In_End paren obj # stack) st =
     (if char_at rest 0 \<noteq> closer paren then
        Inl (Read_Fail ''expected closer after dot'' (len - length rest))
      else Inr (Some obj, tl rest, stack, st))"
| "in_token len rest stack st = in_start len rest stack st"

section \<open>Completing an object\<close>

text \<open>
  The inner loop, with a complete object: either it is the result (\<^term>\<open>Inl\<close>), or it is
  absorbed by the topmost frame and reading goes on (\<^term>\<open>Inr\<close>). The C loop has no branch
  for an \<open>In_End\<close> frame and would spin; \<open>in_pop_stack\<close> shows that it never meets one.
\<close>

fun in_pop :: "nat \<Rightarrow> zval \<Rightarrow> in_frame list \<Rightarrow> (zval + in_frame list) res" where
  "in_pop pos obj [] = Inr (Inl obj)"
| "in_pop pos obj (In_Quote q # stack) =
     (if obj = VEof then Inl (Read_Fail (''end of file after '' @ sym_str q) pos)
      else in_pop pos (zlist [VSymbol q, obj]) stack)"
| "in_pop pos obj (In_Discard # stack) =
     (if obj = VEof then Inl (Read_Fail ''end of file after comment hash-semicolon'' pos)
      else Inr (Inr stack))"
| "in_pop pos obj (In_List paren elems # stack) =
     (if obj = VEof then Inl (Read_Fail ''missing closer'' pos)
      else Inr (Inr (In_List paren (elems @ [obj]) # stack)))"
| "in_pop pos obj (In_Pair paren elems # stack) =
     (if obj = VEof then Inl (Read_Fail ''end of file after dot'' pos)
      else Inr (Inr (In_End paren (zlist_onto elems obj) # stack)))"
| "in_pop pos obj (In_End paren v # stack) = Inl (UB ''reader loop'')"

lemma in_pop_eof: "in_pop pos VEof stack \<noteq> Inr (Inr stack')"
  by (cases "(pos, VEof, stack)" rule: in_pop.cases) auto

section \<open>Every token consumes input\<close>

lemma in_string_length: "in_string len rest s2 = Inr (s, rest') \<Longrightarrow> length rest' < length rest"
proof (induction rest arbitrary: s2 rule: length_induct)
  case (1 rest)
  show ?case
  proof (cases rest)
    case (Cons c cs)
    have step: "length rest' < Suc (length cs)"
      if "in_string len ys s2' = Inr (s, rest')" "length ys \<le> length cs" for ys s2'
      using "1.IH" [rule_format, of ys s2'] that Cons by simp
    from "1.prems" Cons show ?thesis
      by (auto simp: Let_def split: if_splits prod.splits elim!: step)
  qed (use "1.prems" in simp)
qed

lemma in_digits_length: "in_digits len rest n = Inr (m, rest') \<Longrightarrow> length rest' \<le> length rest"
  by (induction len rest n rule: in_digits.induct) (auto simp: Let_def split: if_splits)

lemma in_integer_length:
  assumes "in_integer len rest = Inr (n, rest')" "isdigit (char_at rest 0) \<or> isdigit (char_at rest 1)"
  shows "length rest' < length rest"
proof -
  have "rest \<noteq> []" using assms(2) by auto
  then obtain c cs where rest: "rest = c # cs" by (cases rest) auto
  obtain m ys where digits: "in_digits len (tl (if c = CHR ''-'' then cs else rest)) m = Inr (ys, rest')"
    using assms(1) rest by (auto simp: in_integer_def Let_def rbind_eq_Inr_iff split: if_splits)
  have "length rest' \<le> length cs"
    using in_digits_length [OF digits] rest by (auto split: if_splits)
  then show ?thesis using rest by simp
qed

lemma in_hash_length: "in_hash len rest = Inr (v, rest') \<Longrightarrow> length rest' \<le> length rest \<and> v \<noteq> VEof"
  by (auto simp: in_hash_def split: if_splits)

lemma length_dropWhile_less: "P (char_at rest 0) \<Longrightarrow> rest \<noteq> [] \<Longrightarrow> length (dropWhile P rest) < length rest"
  by (cases rest) (auto simp: less_Suc_eq_le length_dropWhile_le)

lemma in_start_length:
  assumes "in_start len rest stack st = Inr (obj, rest', stack', st')"
  shows "length rest' < length rest \<or> (obj = Some VEof \<and> char_at rest 0 = NUL \<and> rest' = rest)"
proof (cases rest)
  case Nil
  with assms show ?thesis by (simp add: in_start_def Let_def)
next
  case (Cons c cs)
  have len: "length (tl rest) < length rest" "length (drop 2 rest) < length rest"
    "length (drop k rest) \<le> length rest" for k
    using Cons by auto
  show ?thesis
    using assms unfolding in_start_def Let_def
  proof (elim ite_E, goal_cases)
    case 3
    then show ?case using len(1) by (auto split: option.splits)
  next
    case 4
    then obtain k where "length rest' < length (drop k rest)"
      by (auto simp: rbind_eq_Inr_iff dest!: in_string_length)
    then have "length rest' < length rest" by simp
    then show ?case ..
  next
    case 5
    then have "length rest' \<le> length (tl rest)"
      by (auto simp: rbind_eq_Inr_iff dest!: in_hash_length)
    with len(1) show ?case by simp
  next
    case 6
    then show ?case
      using in_integer_length [of len rest _ rest'] by (auto simp: rbind_eq_Inr_iff)
  next
    case 11
    then show ?case using len(1) by (auto split: option.splits)
  next
    case 12
    with Cons show ?case by (auto simp: length_dropWhile_le less_Suc_eq_le split: prod.splits)
  qed (use len in \<open>auto simp: in_quote_def split: prod.splits\<close>)
qed

lemma in_token_length:
  assumes "in_token len rest stack st = Inr (obj, rest', stack', st')"
  shows "length rest' < length rest \<or> (obj = Some VEof \<and> char_at rest 0 = NUL \<and> rest' = rest)"
proof (cases "(len, rest, stack, st)" rule: in_token.cases)
  case (1 len rest paren obj stack st)
  with assms show ?thesis by (cases rest) (auto simp: closer_def split: if_splits)
qed (use assms in_start_length in simp_all)

lemma in_skip_length: "length (fst (in_skip rest n)) \<le> length rest"
proof (induction rest n rule: in_skip.induct)
  case (2 c cs n)
  then show ?case
    using skip_line_length [of cs] skip_hashbang_length [of NUL c cs] by auto
qed simp

section \<open>The reader loop\<close>

text \<open>
  One iteration: skip whitespace, read a token, complete objects. It ends with a datum, the
  rest of the input and the symbol table, or with the state of the next iteration.
\<close>

definition in_iter :: "nat \<Rightarrow> bool \<Rightarrow> string \<Rightarrow> in_frame list \<Rightarrow> symtab \<Rightarrow>
    ((zval \<times> string \<times> symtab) + (string \<times> in_frame list \<times> symtab)) res" where
  "in_iter len skip_whitespace_only input stack0 st =
     (let (rest, discards) = in_skip input 0; stack = replicate discards In_Discard @ stack0 in
      if stack = [] \<and> skip_whitespace_only then Inr (Inl (VNull, rest, st))
      else rbind (in_token len rest stack st) (\<lambda>(obj, rest', stack', st').
        case obj of
          None \<Rightarrow> Inr (Inr (rest', stack', st'))
        | Some v \<Rightarrow>
            rbind (in_pop (len - length rest') v stack') (\<lambda>r.
              case r of
                Inl v' \<Rightarrow> Inr (Inl (v', rest', st'))
              | Inr stack'' \<Rightarrow> Inr (Inr (rest', stack'', st')))))"

lemma in_iter_length:
  assumes "in_iter len b input stack0 st = Inr r"
  shows "case r of Inl (v, rest', st') \<Rightarrow> length rest' \<le> length input \<and> (b \<or> v = VEof \<or> length rest' < length input)
    | Inr (rest', stack', st') \<Rightarrow> length rest' < length input"
proof -
  obtain rest d where skip: "in_skip input 0 = (rest, d)" by fastforce
  let ?stack = "replicate d In_Discard @ stack0"
  have le: "length rest \<le> length input" using in_skip_length [of input 0] skip by simp
  show ?thesis
  proof (cases "?stack = [] \<and> b")
    case True
    with assms skip le show ?thesis by (auto simp: in_iter_def)
  next
    case False
    then obtain obj rest' stack' st' where tok: "in_token len rest ?stack st = Inr (obj, rest', stack', st')"
      using assms skip by (auto simp: in_iter_def rbind_eq_Inr_iff)
    note step = in_token_length [OF tok]
    show ?thesis
    proof (cases obj)
      case None
      with assms skip False tok step le show ?thesis by (auto simp: in_iter_def)
    next
      case (Some v)
      have "rbind (in_pop (len - length rest') v stack') (\<lambda>p. case p of Inl v' \<Rightarrow> Inr (Inl (v', rest', st'))
          | Inr stack'' \<Rightarrow> Inr (Inr (rest', stack'', st'))) = Inr r"
        using assms unfolding in_iter_def skip Let_def prod.case if_not_P [OF False]
        by (simp add: tok Some)
      then obtain p where p0: "in_pop (len - length rest') v stack' = Inr p"
        "(case p of Inl v' \<Rightarrow> Inr (Inl (v', rest', st')) | Inr stack'' \<Rightarrow> Inr (Inr (rest', stack'', st')))
          = (Inr r :: zerror + _)"
        unfolding rbind_eq_Inr_iff by blast
      then have p: "in_pop (len - length rest') v stack' = Inr p"
        "r = (case p of Inl v' \<Rightarrow> Inl (v', rest', st') | Inr stack'' \<Rightarrow> Inr (rest', stack'', st'))"
        by (cases p; simp)+
      show ?thesis
      proof (cases "v = VEof")
        case True
        then have "stack' = [] \<and> p = Inl VEof"
          using p(1) by (cases "(len - length rest', v, stack')" rule: in_pop.cases) auto
        with p(2) step le show ?thesis by auto
      qed (use p(2) step le Some in \<open>auto split: sum.splits\<close>)
    qed
  qed
qed

function in_loop :: "nat \<Rightarrow> bool \<Rightarrow> string \<Rightarrow> in_frame list \<Rightarrow> symtab \<Rightarrow> (zval \<times> string \<times> symtab) res" where
  "in_loop len b input stack st =
     (case in_iter len b input stack st of
        Inl e \<Rightarrow> Inl e
      | Inr (Inl r) \<Rightarrow> Inr r
      | Inr (Inr (rest, stack', st')) \<Rightarrow> in_loop len b rest stack' st')"
  by pat_completeness auto
termination
  by (relation "measure (\<lambda>(len, b, rest, stack, st). length rest)") (auto dest: in_iter_length)

declare in_loop.simps [simp del]

definition zuo_in :: "nat \<Rightarrow> bool \<Rightarrow> string \<Rightarrow> symtab \<Rightarrow> (zval \<times> string \<times> symtab) res" where
  "zuo_in len skip_whitespace_only rest st = in_loop len skip_whitespace_only rest [] st"

lemma in_loop_length:
  "in_loop len False input stack st = Inr (v, rest', st') \<Longrightarrow>
     length rest' \<le> length input \<and> (v = VEof \<or> length rest' < length input)"
proof (induction input arbitrary: stack st rule: length_induct)
  case (1 input)
  show ?case
  proof (cases "in_iter len False input stack st")
    case (Inl e)
    with "1.prems" show ?thesis by (simp add: in_loop.simps)
  next
    case (Inr r)
    note step = in_iter_length [OF Inr]
    show ?thesis
    proof (cases r)
      case (Inl x)
      with Inr "1.prems" step show ?thesis by (simp add: in_loop.simps)
    next
      case (Inr n)
      obtain rest stack' st'' where n: "n = (rest, stack', st'')" by (cases n) auto
      have "in_loop len False rest stack' st'' = Inr (v, rest', st')" "length rest < length input"
        using "1.prems" step \<open>in_iter len False input stack st = Inr r\<close> Inr n
        by (simp_all add: in_loop.simps)
      with "1.IH" show ?thesis by fastforce
    qed
  qed
qed

lemma zuo_in_length:
  "zuo_in len False input st = Inr (v, rest', st') \<Longrightarrow> v \<noteq> VEof \<Longrightarrow> length rest' < length input"
  using in_loop_length unfolding zuo_in_def by blast

section \<open>The reader's stack discipline\<close>

text \<open>
  An \<open>In_End\<close> frame waits for its closer, so only a \<^verbatim>\<open>#;\<close> comment may be pushed on it.
\<close>

fun in_ends :: "in_frame list \<Rightarrow> bool" where
  "in_ends (In_End paren v # stack) = True"
| "in_ends stack = False"

fun in_stack_ok :: "in_frame list \<Rightarrow> bool" where
  "in_stack_ok [] = True"
| "in_stack_ok (f # stack) \<longleftrightarrow> (f = In_Discard \<or> \<not> in_ends stack) \<and> in_stack_ok stack"

definition read_error :: "nat \<Rightarrow> zerror \<Rightarrow> bool" where
  "read_error len e \<longleftrightarrow>
     (\<exists>msg pos. e = Read_Fail msg pos \<and> pos \<le> len)
     \<or> (\<exists>c. e = Fail1w ''read'' ''unrecognized character'' (VString [c]))"

lemma read_errorI [simp]: "pos \<le> len \<Longrightarrow> read_error len (Read_Fail msg pos)"
  by (simp add: read_error_def)

lemma in_string_error: "in_string len rest s2 = Inl e \<Longrightarrow> read_error len e"
proof (induction rest arbitrary: s2 rule: length_induct)
  case (1 rest)
  show ?case
  proof (cases rest)
    case (Cons c cs)
    have step: "read_error len e"
      if "in_string len ys s2' = Inl e" "length ys \<le> length cs" for ys s2'
      using "1.IH" [rule_format, of ys s2'] that Cons by simp
    from "1.prems" Cons show ?thesis
      by (auto simp: Let_def split: if_splits prod.splits elim!: step)
  qed (use "1.prems" in auto)
qed

lemma in_digits_error: "in_digits len rest n = Inl e \<Longrightarrow> read_error len e"
  by (induction len rest n rule: in_digits.induct) (auto simp: Let_def split: if_splits)

lemma in_integer_error: "in_integer len rest = Inl e \<Longrightarrow> read_error len e"
  by (auto simp: in_integer_def Let_def rbind_eq_Inl_iff split: if_splits dest: in_digits_error)

lemma in_start_error: "in_start len rest stack st = Inl e \<Longrightarrow> read_error len e"
  unfolding in_start_def Let_def in_quote_def in_hash_def
  by (elim ite_E, goal_cases)
    (auto simp: rbind_eq_Inl_iff read_error_def [of _ "Fail1w _ _ _"] split: option.splits prod.splits if_splits
      dest: in_string_error in_integer_error)

text \<open>A token leaves a well-formed stack, and a complete object never meets an \<open>In_End\<close>.\<close>

lemma in_start_stack:
  assumes "in_start len rest stack st = Inr (obj, rest', stack', st')" "in_stack_ok stack" "\<not> in_ends stack"
  shows "in_stack_ok stack' \<and> \<not> in_ends stack'"
  using assms(1) unfolding in_start_def Let_def in_quote_def in_close_def in_dot_def
  by (elim ite_E, goal_cases)
    (use assms(2,3) in \<open>auto simp: rbind_eq_Inr_iff split: option.splits prod.splits list.splits
      in_frame.splits if_splits\<close>)

lemma in_token_stack:
  assumes "in_token len rest stack st = Inr (obj, rest', stack', st')" "in_stack_ok stack"
  shows "in_stack_ok stack' \<and> \<not> in_ends stack'"
  using assms
  by (cases "(len, rest, stack, st)" rule: in_token.cases)
    (auto dest: in_start_stack split: if_splits)

lemma in_token_error: "in_token len rest stack st = Inl e \<Longrightarrow> read_error len e"
  by (cases "(len, rest, stack, st)" rule: in_token.cases) (auto dest: in_start_error split: if_splits)

lemma in_pop_stack:
  "in_stack_ok stack \<Longrightarrow> \<not> in_ends stack \<Longrightarrow> pos \<le> len \<Longrightarrow>
     (case in_pop pos obj stack of Inl e \<Rightarrow> read_error len e
      | Inr (Inl v) \<Rightarrow> True | Inr (Inr stack') \<Rightarrow> in_stack_ok stack')"
  by (induction pos obj stack rule: in_pop.induct) auto

lemma in_stack_ok_discard: "in_stack_ok (replicate d In_Discard @ stack) = in_stack_ok stack"
  by (induction d) auto

lemma in_iter_stack:
  assumes "in_stack_ok stack0"
  shows "case in_iter len b input stack0 st of Inl e \<Rightarrow> read_error len e
    | Inr (Inl r) \<Rightarrow> True | Inr (Inr (rest, stack', st')) \<Rightarrow> in_stack_ok stack'"
proof -
  obtain rest d where skip: "in_skip input 0 = (rest, d)" by fastforce
  let ?stack = "replicate d In_Discard @ stack0"
  have ok: "in_stack_ok ?stack" using assms by (simp add: in_stack_ok_discard)
  show ?thesis
  proof (cases "in_token len rest ?stack st")
    case (Inl e)
    then show ?thesis using in_token_error [OF Inl] skip by (simp add: in_iter_def)
  next
    case (Inr t)
    obtain obj rest' stack' st' where t: "t = (obj, rest', stack', st')" by (cases t)
    note ok' = in_token_stack [OF Inr [unfolded t] ok]
    show ?thesis
    proof (cases obj)
      case None
      with Inr skip t ok' show ?thesis by (simp add: in_iter_def)
    next
      case (Some v)
      with in_pop_stack [of stack' "len - length rest'" len v] ok' Inr skip t show ?thesis
        by (auto simp: in_iter_def rbind_def split: sum.splits)
    qed
  qed
qed

lemma in_loop_error: "in_stack_ok stack \<Longrightarrow> in_loop len b input stack st = Inl e \<Longrightarrow> read_error len e"
proof (induction len b input stack st rule: in_loop.induct)
  case (1 len b input stack st)
  with in_iter_stack [of stack len b input st] show ?case
    by (auto simp: in_loop.simps [of len b input] split: sum.splits prod.splits)
qed

lemma zuo_in_error: "zuo_in len b input st = Inl e \<Longrightarrow> read_error len e"
  unfolding zuo_in_def by (rule in_loop_error) simp_all

text \<open>
  C23: Reading one datum always ends: with a datum and strictly less input left, with the
  end-of-file object, or with a read error whose position lies in the buffer. In particular
  the inner loop never meets the frame for which it has no branch, whatever the nesting of
  lists, dots, quotes and \<^verbatim>\<open>#;\<close> comments.
\<close>

theorem zuo_in_total:
  "case zuo_in len False input st of
     Inl e \<Rightarrow> read_error len e
   | Inr (v, rest, st') \<Rightarrow> v = VEof \<or> length rest < length input"
  using zuo_in_error [of len False input st] zuo_in_length [of len input st]
  by (auto split: sum.split)

section \<open>Reading all data of a string\<close>

function read_all :: "nat \<Rightarrow> string \<Rightarrow> zval list \<Rightarrow> symtab \<Rightarrow> (zval list \<times> symtab) res" where
  "read_all len rest acc st =
     rbind (zuo_in len False rest st) (\<lambda>(obj, rest', st').
       if obj = VEof then Inr (acc, st') else read_all len rest' (acc @ [obj]) st')"
  by pat_completeness auto
termination
  by (relation "measure (\<lambda>(len, rest, acc, st). length rest)") (auto dest: zuo_in_length)

declare read_all.simps [simp del]

definition zuo_string_read :: "zval \<Rightarrow> zval \<Rightarrow> symtab \<Rightarrow> (zval \<times> symtab) res" where
  "zuo_string_read str start_i st =
     (let who = ''string-read'' in
      rbind (check_string who str) (\<lambda>s.
      let len = int (length s) in
      rbind (if start_i = VUndefined then Inr 0
             else rbind (check_integer who start_i) (\<lambda>i.
               let start = sint i in
               if start < 0 \<or> start > len then
                 Inl (Fail1w who ''starting index is out of bounds'' start_i)
               else Inr (nat start))) (\<lambda>start.
      if NUL \<in> set (drop start s) then Inl (Fail1w who ''nul character in input'' str)
      else rbind (read_all (length s) (drop start s) [] st) (\<lambda>(vs, st'). Inr (zlist vs, st')))))"

section \<open>The language line of a module\<close>

definition zuo_is_symbol_module_char :: "char \<Rightarrow> bool" where
  "zuo_is_symbol_module_char c \<longleftrightarrow> c \<noteq> NUL \<and> (isalpha c \<or> isdigit c \<or> strchr ''-_+/'' c)"

definition zuo_read_language :: "string \<Rightarrow> symtab \<Rightarrow> (symbol \<times> nat \<times> symtab) res" where
  "zuo_read_language s st =
     (let len = length s; expect = ''#lang '' in
      rbind (zuo_in len True s st) (\<lambda>(_, rest, st1).
      let off = len - length rest; i = length expect in
      if take i rest \<noteq> expect then
        Inl (Read_Fail ''expected #lang followed by a space'' off)
      else
        let name = takeWhile zuo_is_symbol_module_char (drop i rest);
            j = length name; c = char_at rest (i + j) in
        if j = 0 \<or> \<not> (c = NUL \<or> isspace c) then
          Inl (Read_Fail ''expected module library path after #lang'' off)
        else
          (case zuo_symbol_from_string name (Str_Obj name) st1 of
             (Some r, st2) \<Rightarrow> Inr (r, off + i + j, st2)
           | (None, st2) \<Rightarrow> Inl (Panic ''symbol''))))"

end
