(* ===== verification/Zuo_Round_Trip.thy ===== *)
theory Zuo_Round_Trip
  imports Zuo_Read
begin

text \<open>
  The printer and the reader of \<^verbatim>\<open>zuo.c\<close> against each other: what \<^verbatim>\<open>~s\<close> writes for an integer, a
  string, a symbol or a structure of pairs is read back as the same value, whatever follows it.
  The proof runs the reader's stack machine on the printed bytes of each form.
\<close>

section \<open>Integers\<close>

lemma int_div_less: "0 < n \<Longrightarrow> i div n < m \<longleftrightarrow> i < m * n" for i m n :: int
proof -
  assume n: "0 < n"
  have i: "i = i div n * n + i mod n" by simp
  have mod: "0 \<le> i mod n" "i mod n < n" using n by simp_all
  show ?thesis
  proof
    assume "i div n < m"
    then have "i div n * n \<le> (m - 1) * n" using n by (intro mult_right_mono) auto
    then have "i div n * n + n \<le> m * n" by (simp add: left_diff_distrib)
    with i mod show "i < m * n" by linarith
  next
    assume less: "i < m * n"
    show "i div n < m"
    proof (rule ccontr)
      assume "\<not> i div n < m"
      then have "m * n \<le> i div n * n" using n by (intro mult_right_mono) auto
      with less i mod show False by linarith
    qed
  qed
qed


lemma int_scale_pow: "\<exists>k. int_scale di (10 ^ j) = 10 ^ k \<and> di < 10 ^ k"
proof (induction "nat (di + 1 - 10 ^ j)" arbitrary: j rule: less_induct)
  case less
  show ?case
  proof (cases "di \<ge> 10 ^ j")
    case True
    have "(10::int) ^ j \<ge> 1" by simp
    with True have "nat (di + 1 - 10 ^ Suc j) < nat (di + 1 - 10 ^ j)" by simp
    from less [OF this] True show ?thesis by (simp add: int_scale.simps [of di "10 ^ j"] mult.commute)
  next
    case False
    then show ?thesis by (auto simp: int_scale.simps [of di "10 ^ j"])
  qed
qed

lemma int_digits_add_back: "n \<ge> 1 \<Longrightarrow> (i + a) div n = i div n \<Longrightarrow> int_digits i n a = int_digits (i + a) n 0"
  by (simp add: int_digits.simps [of _ n] algebra_simps)

lemma digit_char: "0 \<le> d \<Longrightarrow> d \<le> 9 \<Longrightarrow> byte (char_of (nat (48 + d))) = 48 + nat d"
  by (simp add: nat_add_distrib)

lemma in_digits_step:
  fixes m :: zuo_int
  assumes "0 \<le> d" "d \<le> 9" "10 * uint m + d < 2 ^ 64"
  shows "in_digits len (char_of (nat (48 + d)) # cs) m = in_digits len cs (of_int (10 * uint m + d))"
    and "uint (of_int (10 * uint m + d) :: zuo_int) = 10 * uint m + d"
proof -
  have dig: "byte (char_of (nat (48 + d)) :: char) = 48 + nat d"
    using assms(1,2) by (simp add: nat_add_distrib)
  then have isd: "isdigit (char_of (nat (48 + d)))"
    using assms(1,2) by (simp only: isdigit_def) linarith
  show u: "uint (of_int (10 * uint m + d) :: zuo_int) = 10 * uint m + d"
    unfolding uint_word_of_int_eq using assms by (intro take_bit_int_eq_self) simp_all
  have new: "10 * m + of_nat (byte (char_of (nat (48 + d)) :: char) - 48) = (of_int (10 * uint m + d) :: zuo_int)"
    using assms(1) dig by simp
  have "\<not> (of_int (10 * uint m + d) :: zuo_int) < m"
    using u assms(1) uint_nonnegative [of m] unfolding word_less_alt by linarith
  with isd new show "in_digits len (char_of (nat (48 + d)) # cs) m = in_digits len cs (of_int (10 * uint m + d))"
    by (simp only: in_digits.simps Let_def if_True if_False)
qed

lemma int_digits_step: "int_digits i (10 ^ Suc k) 0 = char_of (nat (48 + i div 10 ^ Suc k)) # int_digits (i mod 10 ^ Suc k) (10 ^ k) 0"
proof -
  have "(1 :: int) \<le> 10 ^ Suc k" by (rule one_le_power) simp
  moreover have "10 ^ Suc k div 10 = (10 ^ k :: int)" by simp
  ultimately show ?thesis
    by (simp only: int_digits.simps [of i "10 ^ Suc k"] minus_div_mult_eq_mod if_True add_0_right)
qed

lemma int_digits_last: "int_digits i 1 0 = [char_of (nat (48 + i))]"
  by (simp add: int_digits.simps [of i 1] int_digits.simps [of _ 0])

lemma in_digits_stop: "\<not> isdigit (char_at rest 0) \<Longrightarrow> in_digits len rest m = Inr (m, rest)"
  by (cases rest) simp_all

lemma int_digits_read:
  assumes "0 \<le> i" "i < 10 ^ Suc k" "uint m * 10 ^ Suc k + i < 2 ^ 64" "\<not> isdigit (char_at rest 0)"
  shows "in_digits len (int_digits i (10 ^ k) 0 @ rest) m = Inr (of_int (uint m * 10 ^ Suc k + i), rest)"
  using assms(1-3)
proof (induction k arbitrary: i m)
  case 0
  with in_digits_step(1) [of i m len rest] in_digits_stop [OF assms(4)] show ?case
    by (simp add: int_digits_last mult.commute)
next
  case (Suc k)
  let ?p = "10 ^ Suc k :: int" let ?d = "i div ?p" let ?m = "of_int (10 * uint m + ?d) :: zuo_int"
  have i: "i = ?d * ?p + i mod ?p" by (simp only: div_mult_mod_eq)
  have "?d < 10" using Suc.prems(2) by (subst int_div_less) simp_all
  then have d: "0 \<le> ?d" "?d \<le> 9"
    using Suc.prems(1) by (simp_all add: pos_imp_zdiv_nonneg_iff)
  have total: "(10 * uint m + ?d) * ?p + i mod ?p = uint m * 10 ^ Suc (Suc k) + i"
    using i by (simp add: algebra_simps)
  have "10 * uint m + ?d \<le> (10 * uint m + ?d) * ?p + i mod ?p"
  proof -
    have "1 \<le> ?p" by (rule one_le_power) simp
    moreover have "0 \<le> 10 * uint m + ?d" using d(1) by simp
    ultimately have "(10 * uint m + ?d) * 1 \<le> (10 * uint m + ?d) * ?p" by (rule mult_left_mono)
    then have "10 * uint m + ?d \<le> (10 * uint m + ?d) * ?p" by (simp only: mult_1_right)
    then show ?thesis by (rule add_increasing2 [rotated]) simp
  qed
  then have small: "10 * uint m + ?d < 2 ^ 64" using total Suc.prems(3) by linarith
  note step = in_digits_step [OF d small]
  have "in_digits len (int_digits (i mod ?p) (10 ^ k) 0 @ rest) ?m
      = Inr (of_int (uint ?m * ?p + i mod ?p), rest)"
    by (rule Suc.IH) (use total Suc.prems(3) step(2) in simp_all)
  with step total show ?case by (simp only: int_digits_step append_Cons)
qed

lemma in_digits_zero: "isdigit c \<Longrightarrow> in_digits len (c # cs) 0 = in_digits len cs (of_nat (byte c - 48))"
  by (simp add: Let_def)

lemma int_digits_first:
  assumes "0 \<le> i" "i < 10 ^ Suc k"
  shows "\<exists>c cs. int_digits i (10 ^ k) 0 = c # cs \<and> isdigit c"
proof -
  have "i div 10 ^ k < 10" using assms(2) by (subst int_div_less) simp_all
  moreover have "0 \<le> i div 10 ^ k" using assms(1) by (simp add: pos_imp_zdiv_nonneg_iff)
  ultimately have "isdigit (char_of (nat (48 + i div 10 ^ k)))"
    by (simp add: isdigit_def nat_add_distrib)
  moreover have "(1 :: int) \<le> 10 ^ k" by (rule one_le_power) simp
  ultimately show ?thesis by (subst int_digits.simps) simp
qed

text \<open>The digits that \<^const>\<open>out_integer\<close> writes after the sign are those of the absolute value.\<close>

definition decimal :: "int \<Rightarrow> string" where
  "decimal i = int_digits i (int_scale (i div 10) 1) 0"

lemma decimal_scale:
  obtains k where "decimal i = int_digits i (10 ^ k) 0" "i < 10 ^ Suc k"
proof -
  obtain k where k: "int_scale (i div 10) 1 = 10 ^ k" "i div 10 < 10 ^ k"
    using int_scale_pow [of "i div 10" 0] by auto
  have "i < 10 ^ Suc k"
    using k(2) by (subst (asm) int_div_less) (simp_all add: mult.commute)
  with k(1) that show thesis by (simp add: decimal_def)
qed

lemma decimal_first: "0 \<le> i \<Longrightarrow> \<exists>c cs. decimal i = c # cs \<and> isdigit c"
  using decimal_scale [of i] int_digits_first by metis

lemma decimal_read:
  assumes "0 \<le> i" "i < 2 ^ 64" "\<not> isdigit (char_at rest 0)"
  shows "in_digits len (decimal i @ rest) 0 = Inr (of_int i, rest)"
  using decimal_scale [of i] int_digits_read [OF assms(1) _ _ assms(3), of _ 0 len] assms(2) by fastforce

lemma sint_of_int: "- (2 ^ 63) \<le> x \<Longrightarrow> x < 2 ^ 63 \<Longrightarrow> sint (of_int x :: zuo_int) = x"
  by (simp add: sint_sbintrunc' signed_take_bit_int_eq_self)

lemma sint_range: "- (2 ^ 63) \<le> sint w" "sint w < 2 ^ 63" for w :: zuo_int
  using sint_greater_eq [of w] sint_less [of w] by simp_all

lemma sint_uminus: "sint (0 - w) = (if sint w = - (2 ^ 63) then - (2 ^ 63) else - sint w)" for w :: zuo_int
proof -
  have w: "0 - w = of_int (- sint w)" by simp
  show ?thesis
  proof (cases "sint w = - (2 ^ 63)")
    case True
    then have "w = of_int (- (2 ^ 63))" by (metis word_of_int_sint)
    with True show ?thesis by simp
  next
    case False
    with sint_range [of w] show ?thesis unfolding w by (subst sint_of_int) auto
  qed
qed

lemma out_integer_decimal: "out_integer w = (if sint w < 0 then ''-'' else []) @ decimal \<bar>sint w\<bar>"
proof (cases "sint w = - (2 ^ 63)")
  case True
  have "int_scale 922337203685477580 1 = 1000000000000000000"
    by (simp add: int_scale.simps)
  with True sint_uminus [of w] int_digits_add_back [of 1000000000000000000 9223372036854775807 1]
  show ?thesis by (simp add: out_integer_def Let_def decimal_def)
next
  case False
  with sint_uminus [of w] show ?thesis by (simp add: out_integer_def Let_def decimal_def)
qed

lemma in_integer_out:
  assumes "\<not> isdigit (char_at rest 0)"
  shows "in_integer len (out_integer w @ rest) = Inr (w, rest)"
proof -
  obtain c cs where d: "decimal \<bar>sint w\<bar> = c # cs" "isdigit c"
    using decimal_first [of "\<bar>sint w\<bar>"] by auto
  have c: "c \<noteq> CHR ''-''" using d(2) by (auto simp: isdigit_def)
  have "in_digits len (cs @ rest) (of_nat (byte c - 48)) = Inr (of_int \<bar>sint w\<bar>, rest)"
    using decimal_read [of "\<bar>sint w\<bar>" rest len] assms sint_range [of w] d
      in_digits_zero [of c len "cs @ rest"] by auto
  then show ?thesis
    using c d(1) by (cases "sint w < 0") (auto simp: in_integer_def out_integer_decimal)
qed

section \<open>Strings\<close>

lemma and_7: "n AND 7 = n mod 8" for n :: nat
proof -
  have "n AND 7 = take_bit 3 n" by (simp add: take_bit_eq_mask mask_eq_exp_minus_1)
  then show ?thesis by (simp add: take_bit_eq_mod)
qed

lemma char_of_0: "char_of (0 :: nat) = NUL"
  by code_simp

lemma octal_digit:
  assumes "d < 8"
  shows "byte (char_of (48 + d)) = 48 + d" "octal (char_of (48 + d))" "octal_val (char_of (48 + d)) = d"
  using assms by (simp_all add: octal_def octal_val_def)

lemma octal_not_special:
  assumes "octal c"
  shows "c \<noteq> CHR 0x5C" "c \<noteq> CHR 0x22" "c \<noteq> CHR ''n''" "c \<noteq> CHR ''r''" "c \<noteq> CHR ''t''"
  using assms by (auto simp: octal_def)

lemma in_string_octal:
  assumes "octal c2" "octal_escape c2 ys = (v, k)"
  shows "in_string len (CHR 0x5C # c2 # ys) s2 = in_string len (drop k ys) (s2 @ [char_of v])"
  using assms octal_not_special [OF assms(1)] by (simp add: Let_def)

lemma in_string_char:
  assumes "octal (char_at ys 0) \<longrightarrow> octal nxt"
  shows "in_string len (out_str_char c nxt @ ys) s2 = in_string len ys (s2 @ [c])"
proof -
  have oct: "byte nxt < 48 \<or> byte nxt > 55 \<longleftrightarrow> \<not> octal nxt" by (auto simp: octal_def)
  let ?special = "c = CHR 0x22 \<or> c = CHR 0x5C \<or> c = CHR 0x0A \<or> c = CHR 0x0D \<or> c = CHR 0x09"
  consider ?special | "\<not> ?special" "isprint c" | "c = NUL" "\<not> octal nxt"
    | "\<not> ?special" "\<not> isprint c" "\<not> (c = NUL \<and> \<not> octal nxt)"
    by (cases ?special; cases "isprint c"; cases "c = NUL \<and> \<not> octal nxt") simp_all
  then show ?thesis
  proof cases
    case 1
    then show ?thesis by (elim disjE) (simp_all add: out_str_char_def Let_def)
  next
    case 2
    moreover have "c \<noteq> NUL" using 2 by (auto simp: isprint_def)
    ultimately show ?thesis by (simp add: out_str_char_def Let_def)
  next
    case 3
    then have "out_str_char c nxt = [CHR 0x5C, CHR ''0'']"
      by (simp add: out_str_char_def oct isprint_def)
    moreover have "octal_escape (CHR ''0'') ys = (0, 0)"
      using 3 assms by (simp add: octal_escape_def Let_def octal_val_def)
    ultimately show ?thesis
      using in_string_octal [of "CHR ''0''" ys 0 0] 3 by (simp add: octal_def char_of_0)
  next
    case 4
    then have out: "out_str_char c nxt = [CHR 0x5C, char_of (48 + byte c div 64 mod 8),
        char_of (48 + byte c div 8 mod 8), char_of (48 + byte c mod 8)]"
      by (simp add: out_str_char_def oct and_7 drop_bit_eq_div)
    let ?a = "byte c div 64" let ?b = "byte c div 8 mod 8" let ?d = "byte c mod 8"
    have a: "?a < 4" using nat_of_char_less_256 [of c] by linarith
    then have amod: "?a mod 8 = ?a" by simp
    have val: "push_bit 3 (push_bit 3 ?a + ?b) + ?d = byte c"
    proof -
      have "?a = byte c div 8 div 8" by (simp add: div_mult2_eq flip: div_mult2_eq)
      then show ?thesis
        using div_mult_mod_eq [of "byte c" 8] div_mult_mod_eq [of "byte c div 8" 8]
        unfolding push_bit_eq_mult by simp
    qed
    have esc: "octal_escape (char_of (48 + ?a)) (char_of (48 + ?b) # char_of (48 + ?d) # ys) = (byte c, 2)"
      using a val octal_digit [of ?a] octal_digit [of ?b] octal_digit [of ?d]
      by (simp add: octal_escape_def Let_def numeral_2_eq_2)
    have "octal (char_of (48 + ?a))" using a by (intro octal_digit) simp
    from in_string_octal [OF this esc, of len s2] show ?thesis
      using out amod by (simp del: in_string.simps)
  qed
qed

lemma out_str_chars_first: "octal (char_at (out_str_chars s @ [CHR 0x22] @ rest) 0) \<longrightarrow> octal (char_at s 0)"
  by (cases s) (auto simp: out_str_char_def octal_def)

lemma in_string_out:
  "in_string len (out_str_chars s @ [CHR 0x22] @ rest) s2 = Inr (s2 @ s, rest)"
proof (induction s arbitrary: s2)
  case (Cons c s)
  have "in_string len (out_str_chars (c # s) @ [CHR 0x22] @ rest) s2
      = in_string len (out_str_chars s @ [CHR 0x22] @ rest) (s2 @ [c])"
    using in_string_char [OF out_str_chars_first [of s rest]] by simp
  with Cons.IH [of "s2 @ [c]"] show ?case by simp
qed (simp add: Let_def)

section \<open>Symbols\<close>

text \<open>An interned name is found without changing the table.\<close>

lemma symbol_walk_found:
  "trie_shape node \<Longrightarrow> intern_find node cs = Some x \<Longrightarrow> symbol_walk node cs m name cnt = (Some x, node, cnt)"
proof (induction cs arbitrary: node)
  case (Cons c cs)
  let ?lo = "byte c AND 15" and ?hi = "drop_bit 4 (byte c)"
  obtain n1 where n1: "trie_next node ! ?lo = Some n1"
    using Cons.prems(2) by (cases "trie_next node ! ?lo") auto
  obtain n2 where n2: "trie_next n1 ! ?hi = Some n2"
    using Cons.prems(2) n1 by (cases "trie_next n1 ! ?hi") auto
  have "trie_shape n1" using trie_shape_child [OF Cons.prems(1), of ?lo] n1 by simp
  then have "trie_shape n2" using trie_shape_child [of n1 ?hi] n2 by simp
  with Cons n1 n2 have "symbol_walk n2 cs m name cnt = (Some x, n2, cnt)" by simp
  with n1 n2 have "symbol_walk node (c # cs) m name cnt =
      (Some x, Trie_Node (trie_count node) (trie_key node) (trie_val node)
        ((trie_next node)[?lo := Some (Trie_Node (trie_count n1) (trie_key n1) (trie_val n1)
           ((trie_next n1)[?hi := Some n2]))]), cnt)"
    by (simp add: Let_def)
  also have "(trie_next n1)[?hi := Some n2] = trie_next n1" using n2 by (metis list_update_id)
  also have "Trie_Node (trie_count n1) (trie_key n1) (trie_val n1) (trie_next n1) = n1" by simp
  also have "(trie_next node)[?lo := Some n1] = trie_next node" using n1 by (metis list_update_id)
  finally show ?case by simp
qed simp

lemma zuo_symbol_from_string_found:
  assumes "symtab_ok st" "symtab_find s st = Some x"
  shows "zuo_symbol_from_string s m st = (Some x, st)"
proof -
  have "trie_shape (intern_table st)" "intern_find (intern_table st) (cstr s) = Some x"
    using assms by (simp_all add: symtab_ok_def symtab_find_def)
  note found = symbol_walk_found [OF this, of m "cstr s" "symbol_count st"]
  show ?thesis by (simp add: zuo_symbol_from_string_def found)
qed

lemma zuo_symbol_found: "symtab_ok st \<Longrightarrow> symtab_find s st = Some x \<Longrightarrow> zuo_symbol s st = (x, st)"
  by (simp add: zuo_symbol_def zuo_symbol_from_string_found)

text \<open>A name that is read back as a symbol: its bytes are symbol characters and do not start a number.\<close>

definition plain_name :: "string \<Rightarrow> bool" where
  "plain_name s \<longleftrightarrow> s \<noteq> [] \<and> list_all is_symchar s \<and> hd s \<noteq> CHR ''#'' \<and> s \<noteq> ''.''
     \<and> \<not> ((isdigit (hd s) \<or> (hd s = CHR ''-'' \<and> isdigit (char_at s 1))) \<and> all_digits_before_delim (tl s))"

section \<open>Data\<close>

fun readable :: "symtab \<Rightarrow> zval \<Rightarrow> bool" where
  "readable st (VPair a d) \<longleftrightarrow> readable st a \<and> readable st d"
| "readable st (VSymbol s) \<longleftrightarrow> plain_name (sym_str s) \<and> symtab_find (sym_str s) st = Some s"
| "readable st VNull = True"
| "readable st VTrue = True"
| "readable st VFalse = True"
| "readable st (VInteger i) = True"
| "readable st (VString s) = True"
| "readable st v = False"

text \<open>What the reader does once it has an object: the frames on the stack take over.\<close>

definition in_resume :: "nat \<Rightarrow> zval \<Rightarrow> string \<Rightarrow> in_frame list \<Rightarrow> symtab \<Rightarrow> (zval \<times> string \<times> symtab) res" where
  "in_resume len v rest stack st =
     (case in_pop (len - length rest) v stack of
        Inl e \<Rightarrow> Inl e
      | Inr (Inl v') \<Rightarrow> Inr (v', rest, st)
      | Inr (Inr stack') \<Rightarrow> in_loop len False rest stack' st)"

lemma in_token_start: "\<not> in_ends stack \<Longrightarrow> in_token len rest stack st = in_start len rest stack st"
  by (cases "(len, rest, stack, st)" rule: in_token.cases) auto

lemma in_loop_token:
  assumes "in_skip input 0 = (rest, 0)" "in_token len rest stack st = Inr (Some v, rest', stack', st')"
  shows "in_loop len False input stack st = in_resume len v rest' stack' st'"
  by (subst in_loop.simps)
    (simp add: in_iter_def assms in_resume_def rbind_def split: sum.split)

lemma in_loop_push:
  assumes "in_skip input 0 = (rest, 0)" "in_token len rest stack st = Inr (None, rest', stack', st')"
  shows "in_loop len False input stack st = in_loop len False rest' stack' st'"
  by (subst in_loop.simps) (simp add: in_iter_def assms)

lemma in_skip_space: "in_skip (CHR '' '' # rest) n = in_skip rest n"
  by (simp add: isspace_def)

lemma in_loop_space: "in_loop len False (CHR '' '' # rest) stack st = in_loop len False rest stack st"
  by (subst (1 2) in_loop.simps) (simp only: in_iter_def in_skip_space)

lemma in_skip_stop:
  "\<not> isspace c \<Longrightarrow> c \<noteq> CHR '';'' \<Longrightarrow> c = CHR ''#'' \<longrightarrow> char_at cs 0 \<noteq> CHR ''!'' \<and> char_at cs 0 \<noteq> CHR '';'' \<Longrightarrow>
     in_skip (c # cs) n = (c # cs, n)"
  by auto

definition delimited :: "string \<Rightarrow> bool" where
  "delimited rest \<longleftrightarrow> \<not> is_symchar (char_at rest 0)"


lemma delimited_simps [simp]:
  "delimited (CHR '' '' # rest)" "delimited (CHR '')'' # rest)" "delimited []"
  by (simp_all add: delimited_def is_symchar_def isdigit_def isalpha_def strchr_def symbol_chars_def)

lemma delimited_not_digit: "delimited rest \<Longrightarrow> \<not> isdigit (char_at rest 0)"
  by (auto simp: delimited_def is_symchar_def)

lemma in_skip_digit: "isdigit c \<or> c = CHR ''-'' \<Longrightarrow> in_skip (c # cs) n = (c # cs, n)"
  by (rule in_skip_stop) (auto simp: isdigit_def isspace_def)

lemma is_symchar_not:
  assumes "is_symchar c"
  shows "c \<noteq> NUL" "\<not> isspace c" "c \<noteq> CHR '';''" "c \<noteq> CHR ''(''" "c \<noteq> CHR ''[''" "c \<noteq> CHR '')''" "c \<noteq> CHR '']''"
    "c \<noteq> CHR 0x22" "c \<noteq> CHR 0x27" "c \<noteq> CHR 0x60" "c \<noteq> CHR '',''"
  using assms
  by (auto simp: is_symchar_def isdigit_def isalpha_def isspace_def strchr_def symbol_chars_def)

lemma digit_not:
  assumes "isdigit c \<or> c = CHR ''-''"
  shows "is_symchar c" "c \<noteq> CHR ''#''"
  using assms by (auto simp: is_symchar_def isdigit_def strchr_def symbol_chars_def)

lemma all_digits_delim: "list_all isdigit ds \<Longrightarrow> delimited rest \<Longrightarrow> all_digits_before_delim (ds @ rest)"
proof (induction ds)
  case Nil
  then show ?case by (cases rest) (auto simp: delimited_def)
qed simp

lemma all_digits_append:
  "list_all is_symchar s \<Longrightarrow> delimited rest \<Longrightarrow> all_digits_before_delim (s @ rest) = all_digits_before_delim s"
proof (induction s)
  case Nil
  then show ?case by (cases rest) (auto simp: delimited_def)
qed simp

lemma int_digits_all: "0 \<le> i \<Longrightarrow> i < 10 ^ Suc k \<Longrightarrow> list_all isdigit (int_digits i (10 ^ k) 0)"
proof (induction k arbitrary: i)
  case 0
  then show ?case by (simp add: int_digits_last isdigit_def nat_add_distrib)
next
  case (Suc k)
  have "i div 10 ^ Suc k < 10" using Suc.prems(2) by (subst int_div_less) simp_all
  moreover have "0 \<le> i div 10 ^ Suc k" using Suc.prems(1) by (simp add: pos_imp_zdiv_nonneg_iff)
  ultimately have "isdigit (char_of (nat (48 + i div 10 ^ Suc k)))"
    by (simp only: isdigit_def digit_char) linarith
  with Suc.IH [of "i mod 10 ^ Suc k"] show ?case by (simp only: int_digits_step) simp
qed

lemma decimal_all: "0 \<le> i \<Longrightarrow> list_all isdigit (decimal i)"
  using decimal_scale [of i] int_digits_all by metis

text \<open>Each atom is one token.\<close>

lemma in_loop_integer:
  assumes "delimited rest" "\<not> in_ends stack"
  shows "in_loop len False (out_integer w @ rest) stack st = in_resume len (VInteger w) rest stack st"
proof -
  let ?s = "out_integer w @ rest"
  obtain c cs where c: "?s = c # cs" "isdigit c \<or> (c = CHR ''-'' \<and> isdigit (char_at cs 0))" "all_digits_before_delim cs"
  proof -
    obtain d ds where d: "decimal \<bar>sint w\<bar> = d # ds" "isdigit d"
      using decimal_first [of "\<bar>sint w\<bar>"] by auto
    have all: "list_all isdigit (d # ds)" using decimal_all [of "\<bar>sint w\<bar>"] d(1) by simp
    show thesis
    proof (cases "sint w < 0")
      case True
      show thesis
        by (rule that [of "CHR ''-''" "(d # ds) @ rest"])
          (use True d all_digits_delim [OF all assms(1)] in \<open>simp_all add: out_integer_decimal\<close>)
    next
      case False
      show thesis
        by (rule that [of d "ds @ rest"])
          (use False d all all_digits_delim [of ds, OF _ assms(1)] in \<open>simp_all add: out_integer_decimal\<close>)
    qed
  qed
  have tok: "in_token len ?s stack st = Inr (Some (VInteger w), rest, stack, st)"
    using c in_integer_out [OF delimited_not_digit [OF assms(1)], of len w] digit_not [of c] is_symchar_not [of c]
    by (auto simp: in_token_start [OF assms(2)] in_start_def)
  show ?thesis using in_skip_digit [of c cs 0] c by (intro in_loop_token [OF _ tok]) auto
qed

lemma in_loop_string:
  assumes "\<not> in_ends stack"
  shows "in_loop len False (out_str Write_Mode s @ rest) stack st = in_resume len (VString s) rest stack st"
proof -
  let ?s = "out_str Write_Mode s @ rest"
  have tok: "in_token len ?s stack st = Inr (Some (VString s), rest, stack, st)"
    using in_string_out [of len s rest "[]"]
    by (simp add: in_token_start [OF assms] in_start_def out_str_def)
  show ?thesis by (rule in_loop_token [OF _ tok]) (simp add: out_str_def isspace_def)
qed

lemma in_loop_symbol:
  assumes "delimited rest" "\<not> in_ends stack" "symtab_ok st" "readable st (VSymbol y)"
  shows "in_loop len False (sym_str y @ rest) stack st = in_resume len (VSymbol y) rest stack st"
proof -
  let ?s = "sym_str y @ rest"
  have plain: "plain_name (sym_str y)" using assms(4) by simp
  obtain c cs where c: "sym_str y = c # cs" using plain by (cases "sym_str y") (auto simp: plain_name_def)
  have chars: "list_all is_symchar (c # cs)" using plain c by (simp add: plain_name_def)
  have tw: "takeWhile is_symchar ?s = sym_str y" "dropWhile is_symchar ?s = rest"
    using chars assms(1) c by (auto simp: list_all_iff delimited_def takeWhile_append2 dropWhile_append2
        takeWhile_eq_Nil_iff dropWhile_eq_self_iff)
      (cases rest; simp add: dropWhile_eq_self_iff)+
  have num: "\<not> ((isdigit c \<or> c = CHR ''-'' \<and> isdigit (char_at ?s 1)) \<and> all_digits_before_delim (cs @ rest))"
    using plain chars c delimited_not_digit [OF assms(1)] all_digits_append [OF _ assms(1), of cs]
    by (cases cs) (auto simp: plain_name_def)
  have dot: "\<not> (c = CHR ''.'' \<and> \<not> (isalpha (char_at ?s 1) \<or> isdigit (char_at ?s 1) \<or> strchr symbol_chars (char_at ?s 1)))"
    using plain chars c by (cases cs) (auto simp: plain_name_def is_symchar_def)
  have e: "char_at ?s 0 = c" "tl ?s = cs @ rest" using c by simp_all
  have "c \<noteq> CHR ''#''" using plain c by (simp add: plain_name_def)
  moreover have "zuo_symbol (sym_str y) st = (y, st)" using assms(3,4) by (simp add: zuo_symbol_found)
  ultimately have tok: "in_token len ?s stack st = Inr (Some (VSymbol y), rest, stack, st)"
    using is_symchar_not [of c] chars tw
    unfolding in_token_start [OF assms(2)] in_start_def Let_def e if_not_P [OF num] if_not_P [OF dot]
    by simp
  show ?thesis
    using plain c is_symchar_not [of c]
    by (intro in_loop_token [OF _ tok]) (auto simp: plain_name_def)
qed

lemma in_loop_bool:
  assumes "delimited rest" "\<not> in_ends stack"
  shows "in_loop len False (CHR ''#'' # CHR ''t'' # rest) stack st = in_resume len VTrue rest stack st"
    and "in_loop len False (CHR ''#'' # CHR ''f'' # rest) stack st = in_resume len VFalse rest stack st"
proof -
  have sym: "is_symchar (CHR ''r'')" "is_symchar (CHR ''a'')" by (simp_all add: is_symchar_def isalpha_def)
  then have hash: "in_hash len (CHR ''t'' # rest) = Inr (VTrue, rest)" "in_hash len (CHR ''f'' # rest) = Inr (VFalse, rest)"
    using assms(1) by (cases rest; auto simp: in_hash_def peek_input_def delimited_def numeral_eq_Suc)+
  have skip: "in_skip (CHR ''#'' # CHR ''t'' # rest) 0 = (CHR ''#'' # CHR ''t'' # rest, 0)"
    "in_skip (CHR ''#'' # CHR ''f'' # rest) 0 = (CHR ''#'' # CHR ''f'' # rest, 0)"
    by (simp_all add: isspace_def)
  show "in_loop len False (CHR ''#'' # CHR ''t'' # rest) stack st = in_resume len VTrue rest stack st"
    by (rule in_loop_token [OF skip(1)]) (simp add: in_token_start [OF assms(2)] in_start_def hash)
  show "in_loop len False (CHR ''#'' # CHR ''f'' # rest) stack st = in_resume len VFalse rest stack st"
    by (rule in_loop_token [OF skip(2)]) (simp add: in_token_start [OF assms(2)] in_start_def hash)
qed

text \<open>Opening and closing a list, and the dot.\<close>

lemma in_loop_open:
  "\<not> in_ends stack \<Longrightarrow> in_loop len False (CHR ''('' # rest) stack st = in_loop len False rest (In_List True [] # stack) st"
  by (rule in_loop_push [of _ "CHR ''('' # rest"])
    (simp_all add: isspace_def in_token_start in_start_def)

lemma in_loop_close:
  "in_loop len False (CHR '')'' # rest) (In_List True elems # stack) st = in_resume len (zlist elems) rest stack st"
  "in_loop len False (CHR '')'' # rest) (In_End True v # stack) st = in_resume len v rest stack st"
  by (rule in_loop_token [of _ "CHR '')'' # rest"]; simp add: isspace_def in_start_def in_close_def closer_def)+

lemma in_loop_dot:
  "elems \<noteq> [] \<Longrightarrow> in_loop len False (CHR ''.'' # CHR '' '' # rest) (In_List True elems # stack) st
     = in_loop len False rest (In_Pair True elems # stack) st"
  using in_loop_push [of "CHR ''.'' # CHR '' '' # rest" "CHR ''.'' # CHR '' '' # rest" len
      "In_List True elems # stack" st "CHR '' '' # rest" "In_Pair True elems # stack" st]
  by (simp add: isspace_def in_start_def in_dot_def isdigit_def isalpha_def strchr_def symbol_chars_def
      in_loop_space)

lemma in_resume_frames:
  "v \<noteq> VEof \<Longrightarrow> in_resume len v rest (In_List p elems # stack) st = in_loop len False rest (In_List p (elems @ [v]) # stack) st"
  "v \<noteq> VEof \<Longrightarrow> in_resume len v rest (In_Pair p elems # stack) st = in_loop len False rest (In_End p (zlist_onto elems v) # stack) st"
  by (simp_all add: in_resume_def)

lemma readable_not_eof: "readable st v \<Longrightarrow> v \<noteq> VEof"
  by auto

lemma out_symbol_interned:
  "symtab_find (sym_str y) (mem_symtab mem) = Some y \<Longrightarrow> symtab_ok (mem_symtab mem) \<Longrightarrow> out_symbol Write_Mode mem y = sym_str y"
  by (simp add: out_symbol_def is_interned_def zuo_symbol_from_string_found)

lemma in_loop_atom:
  assumes "symtab_ok (mem_symtab mem)" "readable (mem_symtab mem) v" "\<not> is_pair v" "delimited rest" "\<not> in_ends stack"
  shows "in_loop len False (show_obj Write_Mode mem v @ rest) stack (mem_symtab mem)
        = in_resume len v rest stack (mem_symtab mem)"
  using assms(2,3)
  by (cases v) (simp_all add: in_loop_integer in_loop_string in_loop_symbol in_loop_bool in_loop_open in_loop_close
      out_symbol_interned assms(1,4,5))

lemma in_loop_tail_atom:
  assumes "symtab_ok (mem_symtab mem)" "readable (mem_symtab mem) v" "\<not> is_pair v" "elems \<noteq> []"
  shows "in_loop len False (show_tail Write_Mode mem v @ rest) (In_List True elems # stack) (mem_symtab mem)
        = in_resume len (zlist_onto elems v) rest stack (mem_symtab mem)"
proof (cases "v = VNull")
  case True
  then show ?thesis by (simp add: in_loop_close zlist_onto_null)
next
  case False
  have "in_loop len False (show_tail Write_Mode mem v @ rest) (In_List True elems # stack) (mem_symtab mem)
    = in_loop len False (show_obj Write_Mode mem v @ '')'' @ rest) (In_Pair True elems # stack) (mem_symtab mem)"
    using assms(4) by (simp add: show_tail_dot [OF assms(3) False] in_loop_space in_loop_dot)
  then show ?thesis
    using readable_not_eof [OF assms(2)]
    by (simp add: in_loop_atom [OF assms(1-3)] in_resume_frames in_loop_close)
qed

lemma show_tail_delimited: "delimited (show_tail mode mem v @ rest)"
  by (cases v) simp_all

lemma in_loop_show:
  assumes "symtab_ok (mem_symtab mem)"
  shows "readable (mem_symtab mem) v \<Longrightarrow>
    (\<forall>rest stack. delimited rest \<longrightarrow> \<not> in_ends stack \<longrightarrow>
      in_loop len False (show_obj Write_Mode mem v @ rest) stack (mem_symtab mem)
        = in_resume len v rest stack (mem_symtab mem)) \<and>
    (\<forall>rest stack elems. elems \<noteq> [] \<longrightarrow>
      in_loop len False (show_tail Write_Mode mem v @ rest) (In_List True elems # stack) (mem_symtab mem)
        = in_resume len (zlist_onto elems v) rest stack (mem_symtab mem))"
proof (induction v rule: measure_induct_rule [of size])
  case (less v)
  show ?case
  proof (cases "is_pair v")
    case True
    then obtain a d where v: "v = VPair a d" by (auto simp: is_pair_iff)
    with less.prems have r: "readable (mem_symtab mem) a" "readable (mem_symtab mem) d" by simp_all
    have a: "in_loop len False (show_obj Write_Mode mem a @ show_tail Write_Mode mem d @ rest)
          (In_List True elems # stack) (mem_symtab mem)
        = in_loop len False (show_tail Write_Mode mem d @ rest) (In_List True (elems @ [a]) # stack) (mem_symtab mem)"
      for rest elems stack
      using less.IH [of a] r(1) readable_not_eof [OF r(1)] show_tail_delimited [of Write_Mode mem d rest]
      by (simp add: v in_resume_frames)
    have d: "in_loop len False (show_tail Write_Mode mem d @ rest) (In_List True elems # stack) (mem_symtab mem)
        = in_resume len (zlist_onto elems d) rest stack (mem_symtab mem)" if "elems \<noteq> []" for rest elems stack
      using less.IH [of d] r(2) that by (simp add: v)
    show ?thesis
      by (simp add: v in_loop_open in_loop_space a d zlist_onto_append)
  qed (simp add: less.prems assms in_loop_atom in_loop_tail_atom)
qed

lemma zuo_in_written:
  assumes "symtab_ok (mem_symtab mem)" "readable (mem_symtab mem) v" "delimited rest"
  shows "zuo_in len False (show_obj Write_Mode mem v @ rest) (mem_symtab mem) = Inr (v, rest, mem_symtab mem)"
  using in_loop_show [OF assms(1,2)] assms(3) by (simp add: zuo_in_def in_resume_def)

lemma readable_printable: "readable st v \<Longrightarrow> printable v"
  by (induction st v rule: readable.induct) (auto intro: printable.intros)

text \<open>
  C2: A datum built from integers, strings, booleans, the empty list, pairs and interned
  symbols with plain names survives \<^verbatim>\<open>~s\<close> followed by \<^verbatim>\<open>string-read\<close>: the printer returns, and the
  reader, run on the printed bytes followed by anything that does not continue a symbol,
  consumes exactly these bytes, returns the same datum and leaves the symbol table as it was.
\<close>

theorem write_read_round_trip:
  assumes "symtab_ok (mem_symtab mem)" "readable (mem_symtab mem) v" "delimited rest"
  shows "\<exists>s. zuo_out Write_Mode mem v = Some s
    \<and> zuo_in (length (s @ rest)) False (s @ rest) (mem_symtab mem) = Inr (v, rest, mem_symtab mem)"
  using zuo_in_written [OF assms] zuo_out_printable [OF readable_printable [OF assms(2)]] by blast

text \<open>A memory in which \<^verbatim>\<open>ab\<close> is interned.\<close>

definition mem_ab :: zmem where
  "mem_ab = mem_init\<lparr>mem_symtab := snd (zuo_symbol ''ab'' (mem_symtab mem_init))\<rparr>"

lemma mem_ab_ok: "symtab_ok (mem_symtab mem_ab)"
  using zuo_symbol_spec(1) [OF symtab_ok_init, of "''ab''"] by (simp add: mem_ab_def mem_init_def)

theorem write_read_round_trip_witness:
  "\<exists>s. zuo_out Write_Mode mem_ab (zlist [VSymbol (Symbol 0 ''ab''), VInteger (-5), VString [CHR 0x0A], VTrue]) = Some s
    \<and> zuo_in (length (s @ '')'')) False (s @ '')'') (mem_symtab mem_ab)
      = Inr (zlist [VSymbol (Symbol 0 ''ab''), VInteger (-5), VString [CHR 0x0A], VTrue], '')'', mem_symtab mem_ab)"
proof -
  have "readable (mem_symtab mem_ab) (zlist [VSymbol (Symbol 0 ''ab''), VInteger (-5), VString [CHR 0x0A], VTrue])"
    by code_simp
  from write_read_round_trip [OF mem_ab_ok this, of "'')''"] show ?thesis by simp
qed

text \<open>
  The reader's test for integer overflow compares the new value with the old one, which
  misses wrap-arounds that land above the old value: a literal that does not fit in 64 bits
  is read as another integer.
\<close>

theorem read_integer_wraps:
  "zuo_in 20 False ''25000000000000000000'' (mem_symtab mem_init)
     = Inr (VInteger 6553255926290448384, [], mem_symtab mem_init)"
  by code_simp

text \<open>
  A dot directly before the closer is accepted: \<^verbatim>\<open>(1 . )\<close> is read as the list of its elements,
  and a dot at the end of the input is read as a symbol.
\<close>

theorem read_dangling_dot:
  "zuo_in 6 False ''(1 . )'' (mem_symtab mem_init) = Inr (zlist [VInteger 1], [], mem_symtab mem_init)
   \<and> (\<exists>st. zuo_in 1 False ''.'' (mem_symtab mem_init) = Inr (VSymbol (Symbol 0 ''.''), [], st))"
proof
  show "zuo_in 6 False ''(1 . )'' (mem_symtab mem_init) = Inr (zlist [VInteger 1], [], mem_symtab mem_init)"
    by code_simp
  have "map_sum id (\<lambda>(v, rest, st). (v, rest)) (zuo_in 1 False ''.'' (mem_symtab mem_init)) = Inr (VSymbol (Symbol 0 ''.''), [])"
    by code_simp
  then show "\<exists>st. zuo_in 1 False ''.'' (mem_symtab mem_init) = Inr (VSymbol (Symbol 0 ''.''), [], st)"
    by (cases "zuo_in 1 False ''.'' (mem_symtab mem_init)") auto
qed

end
