(* ===== verification/Zuo_Prims.thy ===== *)
theory Zuo_Prims
  imports Zuo_Round_Trip "HOL-Library.Signed_Division"
begin

text \<open>
  The object primitives of \<^verbatim>\<open>zuo.c\<close>: predicates, lists, integers, strings, symbols, hash tables,
  opaque values, variables, error reporting. Each definition is one C function, with the
  checks in the order of the code. A function that can fail returns a result, one that
  changes the symbol table or the variables takes and returns that part of the memory.
  A list argument is a chain of pairs; where the code follows it without a test, a
  chain that ends early is undefined behaviour.
\<close>

text \<open>
  The loops over \<^verbatim>\<open>append\<close>'s and \<^verbatim>\<open>hash\<close>'s arguments are written over the elements of the chain.
\<close>

section \<open>Predicates\<close>

definition zuo_pair_p :: "zval \<Rightarrow> zval" where
  "zuo_pair_p obj = zbool (is_pair obj)"

definition zuo_null_p :: "zval \<Rightarrow> zval" where
  "zuo_null_p obj = zbool (obj = VNull)"

definition zuo_integer_p :: "zval \<Rightarrow> zval" where
  "zuo_integer_p obj = zbool (is_integer obj)"

definition zuo_string_p :: "zval \<Rightarrow> zval" where
  "zuo_string_p obj = zbool (is_string obj)"

definition zuo_symbol_p :: "zval \<Rightarrow> zval" where
  "zuo_symbol_p obj = zbool (is_symbol obj)"

definition zuo_procedure_p :: "zval \<Rightarrow> zval" where
  "zuo_procedure_p obj =
     (case obj of
        VPrimitive _ _ _ \<Rightarrow> VTrue | VClosure _ _ \<Rightarrow> VTrue | VCont _ \<Rightarrow> VTrue
      | VApply \<Rightarrow> VTrue | VCallCC \<Rightarrow> VTrue | VCallPrompt \<Rightarrow> VTrue | VKernelEval \<Rightarrow> VTrue
      | _ \<Rightarrow> VFalse)"

definition zuo_hash_p :: "zval \<Rightarrow> zval" where
  "zuo_hash_p obj = (case obj of VTrie _ \<Rightarrow> VTrue | _ \<Rightarrow> VFalse)"

definition zuo_variable_p :: "zval \<Rightarrow> zval" where
  "zuo_variable_p obj = (case obj of VVariable _ \<Rightarrow> VTrue | _ \<Rightarrow> VFalse)"

definition zuo_handle_p :: "zval \<Rightarrow> zval" where
  "zuo_handle_p obj = (case obj of VHandle _ \<Rightarrow> VTrue | _ \<Rightarrow> VFalse)"

fun zuo_list_p :: "zval \<Rightarrow> zval" where
  "zuo_list_p (VPair a d) = zuo_list_p d"
| "zuo_list_p obj = zbool (obj = VNull)"

definition zuo_not :: "zval \<Rightarrow> zval" where
  "zuo_not obj = zbool (obj = VFalse)"

definition zuo_make_void :: "zval \<Rightarrow> zval" where
  "zuo_make_void args = VVoid"

section \<open>Pairs and lists\<close>

definition zuo_cons :: "zval \<Rightarrow> zval \<Rightarrow> zval" where
  "zuo_cons a d = VPair a d"

definition zuo_list :: "zval \<Rightarrow> zval" where
  "zuo_list objs = objs"

definition zuo_car :: "zval \<Rightarrow> zval res" where
  "zuo_car obj = (case obj of VPair a d \<Rightarrow> Inr a | _ \<Rightarrow> Inl (Fail_Arg ''car'' ''pair'' obj))"

definition zuo_cdr :: "zval \<Rightarrow> zval res" where
  "zuo_cdr obj = (case obj of VPair a d \<Rightarrow> Inr d | _ \<Rightarrow> Inl (Fail_Arg ''cdr'' ''pair'' obj))"

definition list_index :: "string \<Rightarrow> zval \<Rightarrow> nat res" where
  "list_index who index =
     (let i = (case index of VInteger w \<Rightarrow> sint w | _ \<Rightarrow> -1) in
      if i < 0 then Inl (Fail_Arg who ''not a nonnegative integer'' index) else Inr (nat i))"

primrec list_ref_loop :: "nat \<Rightarrow> zval \<Rightarrow> zval res" where
  "list_ref_loop 0 lst =
     (case lst of VPair a d \<Rightarrow> Inr a | _ \<Rightarrow> Inl (Fail1w ''list-ref'' ''encountered a non-pair'' lst))"
| "list_ref_loop (Suc i) lst =
     (case lst of VPair a d \<Rightarrow> list_ref_loop i d
      | _ \<Rightarrow> Inl (Fail1w ''list-ref'' ''encountered a non-pair'' lst))"

definition zuo_list_ref :: "zval \<Rightarrow> zval \<Rightarrow> zval res" where
  "zuo_list_ref lst index = rbind (list_index ''list-ref'' index) (\<lambda>i. list_ref_loop i lst)"

primrec list_set_loop :: "nat \<Rightarrow> zval \<Rightarrow> zval \<Rightarrow> zval res" where
  "list_set_loop 0 lst val =
     (case lst of VPair a d \<Rightarrow> Inr (VPair val d)
      | _ \<Rightarrow> Inl (Fail1w ''list-set'' ''encountered a non-pair'' lst))"
| "list_set_loop (Suc i) lst val =
     (case lst of VPair a d \<Rightarrow> rbind (list_set_loop i d val) (\<lambda>d'. Inr (VPair a d'))
      | _ \<Rightarrow> Inl (Fail1w ''list-set'' ''encountered a non-pair'' lst))"

definition zuo_list_set :: "zval \<Rightarrow> zval \<Rightarrow> zval \<Rightarrow> zval res" where
  "zuo_list_set lst index val = rbind (list_index ''list-set'' index) (\<lambda>i. list_set_loop i lst val)"

fun length_loop :: "zval \<Rightarrow> zuo_int \<Rightarrow> zuo_int \<times> zval" where
  "length_loop (VPair a d) len = length_loop d (len + 1)"
| "length_loop l len = (len, l)"

definition zuo_length_int :: "zval \<Rightarrow> zuo_int res" where
  "zuo_length_int in_l =
     (let (len, l) = length_loop in_l 0 in
      if l \<noteq> VNull then Inl (Fail_Arg ''length'' ''list'' in_l) else Inr len)"

definition zuo_length :: "zval \<Rightarrow> zval res" where
  "zuo_length in_l = rbind (zuo_length_int in_l) (\<lambda>len. Inr (VInteger len))"

fun reverse_loop :: "zval \<Rightarrow> zval \<Rightarrow> zval \<times> zval" where
  "reverse_loop (VPair a d) r = reverse_loop d (VPair a r)"
| "reverse_loop l r = (r, l)"

definition zuo_reverse :: "zval \<Rightarrow> zval res" where
  "zuo_reverse in_l =
     (let (r, l) = reverse_loop in_l VNull in
      if l \<noteq> VNull then Inl (Fail_Arg ''reverse'' ''list'' in_l) else Inr r)"

text \<open>All arguments but the last must be lists; the last one ends the result as it is.\<close>

function append_loop :: "zval list \<Rightarrow> zval list \<Rightarrow> zval res" where
  "append_loop (a # b # l) acc =
     (if zend a \<noteq> VNull then Inl (Fail_Arg ''append'' ''list'' a)
      else append_loop (b # l) (acc @ zelems a))"
| "append_loop [a] acc = Inr (zlist_onto acc a)"
| "append_loop [] acc = Inr (zlist_onto acc VNull)"
  by pat_completeness auto
termination by (relation "measure (\<lambda>(l, acc). length l)") auto

definition zuo_append :: "zval \<Rightarrow> zval res" where
  "zuo_append objs = append_loop (zelems objs) []"

section \<open>Integers\<close>

text \<open>The C code adds and multiplies the unsigned representations: arithmetic modulo \<open>2 ^ 64\<close>.\<close>

fun add_loop :: "zval \<Rightarrow> zuo_int \<Rightarrow> zuo_int res" where
  "add_loop VNull i = Inr i"
| "add_loop (VPair n ns) i = rbind (check_integer ''+'' n) (\<lambda>w. add_loop ns (i + w))"
| "add_loop ns i = Inl (UB ''car'')"

definition zuo_add :: "zval \<Rightarrow> zval res" where
  "zuo_add ns = rbind (add_loop ns 0) (\<lambda>i. Inr (VInteger i))"

fun subtract_loop :: "zval \<Rightarrow> zuo_int \<Rightarrow> zuo_int res" where
  "subtract_loop VNull i = Inr i"
| "subtract_loop (VPair n ns) i = rbind (check_integer ''-'' n) (\<lambda>w. subtract_loop ns (i - w))"
| "subtract_loop ns i = Inl (UB ''car'')"

definition zuo_subtract :: "zval \<Rightarrow> zval res" where
  "zuo_subtract ns =
     rbind (ucar ns) (\<lambda>n.
     rbind (check_integer ''-'' n) (\<lambda>i.
     rbind (ucdr ns) (\<lambda>ns.
     if ns = VNull then Inr (VInteger (- i))
     else rbind (subtract_loop ns i) (\<lambda>i. Inr (VInteger i)))))"

fun multiply_loop :: "zval \<Rightarrow> zuo_int \<Rightarrow> zuo_int res" where
  "multiply_loop VNull i = Inr i"
| "multiply_loop (VPair n ns) i = rbind (check_integer ''*'' n) (\<lambda>w. multiply_loop ns (i * w))"
| "multiply_loop ns i = Inl (UB ''car'')"

definition zuo_multiply :: "zval \<Rightarrow> zval res" where
  "zuo_multiply ns = rbind (multiply_loop ns 1) (\<lambda>i. Inr (VInteger i))"

definition check_ints :: "string \<Rightarrow> zval \<Rightarrow> zval \<Rightarrow> (zuo_int \<times> zuo_int) res" where
  "check_ints who n m =
     rbind (check_integer who n) (\<lambda>i. rbind (check_integer who m) (\<lambda>j. Inr (i, j)))"

definition zuo_quotient :: "zval \<Rightarrow> zval \<Rightarrow> zval res" where
  "zuo_quotient n m =
     rbind (check_ints ''quotient'' n m) (\<lambda>(i, j).
       if j = 0 then Inl (Fail1w ''quotient'' ''divide by zero'' m)
       else if sint j = -1 then Inr (VInteger (0 - i))
       else Inr (VInteger (of_int (sint i sdiv sint j))))"

definition zuo_remainder :: "zval \<Rightarrow> zval \<Rightarrow> zval res" where
  "zuo_remainder n m =
     rbind (check_ints ''remainder'' n m) (\<lambda>(i, j).
       if j = 0 then Inl (Fail1w ''remainder'' ''divide by zero'' m)
       else if sint j = -1 then Inr (VInteger 0)
       else Inr (VInteger (of_int (sint i smod sint j))))"

definition int_compare :: "string \<Rightarrow> (int \<Rightarrow> int \<Rightarrow> bool) \<Rightarrow> zval \<Rightarrow> zval \<Rightarrow> zval res" where
  "int_compare who f n m = rbind (check_ints who n m) (\<lambda>(i, j). Inr (zbool (f (sint i) (sint j))))"

definition zuo_eql :: "zval \<Rightarrow> zval \<Rightarrow> zval res" where
  "zuo_eql n m = int_compare ''='' (\<lambda>i j. i = j) n m"

definition zuo_lt :: "zval \<Rightarrow> zval \<Rightarrow> zval res" where
  "zuo_lt n m = int_compare ''<'' (\<lambda>i j. i < j) n m"

definition zuo_le :: "zval \<Rightarrow> zval \<Rightarrow> zval res" where
  "zuo_le n m = int_compare ''<='' (\<lambda>i j. i \<le> j) n m"

definition zuo_ge :: "zval \<Rightarrow> zval \<Rightarrow> zval res" where
  "zuo_ge n m = int_compare ''>='' (\<lambda>i j. i \<ge> j) n m"

definition zuo_gt :: "zval \<Rightarrow> zval \<Rightarrow> zval res" where
  "zuo_gt n m = int_compare ''>'' (\<lambda>i j. i > j) n m"

definition int_bitwise :: "string \<Rightarrow> (zuo_int \<Rightarrow> zuo_int \<Rightarrow> zuo_int) \<Rightarrow> zval \<Rightarrow> zval \<Rightarrow> zval res" where
  "int_bitwise who f n m = rbind (check_ints who n m) (\<lambda>(i, j). Inr (VInteger (f i j)))"

definition zuo_bitwise_and :: "zval \<Rightarrow> zval \<Rightarrow> zval res" where
  "zuo_bitwise_and n m = int_bitwise ''bitwise-and'' (\<lambda>i j. i AND j) n m"

definition zuo_bitwise_ior :: "zval \<Rightarrow> zval \<Rightarrow> zval res" where
  "zuo_bitwise_ior n m = int_bitwise ''bitwise-ior'' (\<lambda>i j. i OR j) n m"

definition zuo_bitwise_xor :: "zval \<Rightarrow> zval \<Rightarrow> zval res" where
  "zuo_bitwise_xor n m = int_bitwise ''bitwise-xor'' (\<lambda>i j. i XOR j) n m"

definition zuo_bitwise_not :: "zval \<Rightarrow> zval res" where
  "zuo_bitwise_not n = rbind (check_integer ''bitwise-not'' n) (\<lambda>i. Inr (VInteger (NOT i)))"

section \<open>Strings\<close>

fun build_chars :: "zval \<Rightarrow> string res" where
  "build_chars VNull = Inr []"
| "build_chars (VPair a l) =
     (if is_integer a then
        rbind (check_integer ''string'' a) (\<lambda>i.
          if sint i < 0 \<or> sint i > 255 then Inl (Fail_Arg ''string'' ''integer in [0, 255]'' a)
          else rbind (build_chars l) (\<lambda>s. Inr (char_of (nat (sint i)) # s)))
      else Inl (Fail_Arg ''string'' ''integer in [0, 255]'' a))"
| "build_chars l = Inl (UB ''car'')"

definition zuo_build_string :: "zval \<Rightarrow> zval res" where
  "zuo_build_string chars = rbind (build_chars chars) (\<lambda>s. Inr (VString s))"

definition zuo_string_length :: "zval \<Rightarrow> zval res" where
  "zuo_string_length obj = rbind (check_string ''string-length'' obj) (\<lambda>s. Inr (VInteger (of_nat (length s))))"

text \<open>The bounds test adds the width to the index, a signed addition that can overflow.\<close>

definition check_string_ref_index :: "string \<Rightarrow> zval \<Rightarrow> zval \<Rightarrow> int \<Rightarrow> (string \<times> nat) res" where
  "check_string_ref_index who obj i width =
     rbind (check_string who obj) (\<lambda>s.
     rbind (check_integer who i) (\<lambda>w.
     let idx = sint w in
     if idx < 0 then Inl (Fail1w who ''index out of bounds for string'' i)
     else if idx + width \<ge> 2 ^ 63 then Inl (UB ''index overflow'')
     else if idx + width > int (length s) then Inl (Fail1w who ''index out of bounds for string'' i)
     else Inr (s, nat idx)))"

definition zuo_string_ref :: "zval \<Rightarrow> zval \<Rightarrow> zval res" where
  "zuo_string_ref obj i =
     rbind (check_string_ref_index ''string-ref'' obj i 1) (\<lambda>(s, idx).
       Inr (VInteger (of_nat (byte (s ! idx)))))"

text \<open>Four bytes copied into an unsigned 32-bit integer, on a little-endian machine.\<close>

definition zuo_string_u32_ref :: "zval \<Rightarrow> zval \<Rightarrow> zval res" where
  "zuo_string_u32_ref obj i =
     rbind (check_string_ref_index ''string-u32-ref'' obj i 4) (\<lambda>(s, idx).
       Inr (VInteger (of_nat (byte (s ! idx) + 2 ^ 8 * byte (s ! (idx + 1))
              + 2 ^ 16 * byte (s ! (idx + 2)) + 2 ^ 24 * byte (s ! (idx + 3))))))"

definition zuo_substring :: "zval \<Rightarrow> zval \<Rightarrow> zval \<Rightarrow> zval res" where
  "zuo_substring obj start_i end_i =
     (let who = ''substring'' in
      rbind (check_string who obj) (\<lambda>s.
      let len = int (length s) in
      rbind (check_integer who start_i) (\<lambda>sw.
      let s_idx = sint sw in
      rbind (if end_i = VUndefined then Inr len
             else rbind (check_integer who end_i) (\<lambda>ew. Inr (sint ew))) (\<lambda>e_idx.
      if s_idx < 0 \<or> s_idx > len then Inl (Fail1w who ''starting index out of bounds for string'' start_i)
      else if e_idx < 0 \<or> e_idx > len then Inl (Fail1w who ''ending index out of bounds for string'' end_i)
      else if e_idx < s_idx then Inl (Fail1w who ''ending index less than starting index'' end_i)
      else Inr (VString (take (nat (e_idx - s_idx)) (drop (nat s_idx) s)))))))"

definition zuo_string_eql :: "zval \<Rightarrow> zval \<Rightarrow> zval res" where
  "zuo_string_eql n m =
     rbind (check_string ''string=?'' n) (\<lambda>s.
     rbind (check_string ''string=?'' m) (\<lambda>t.
       Inr (zbool (length s = length t \<and> take (length s) s = take (length s) t))))"

fun ci_loop :: "string \<Rightarrow> string \<Rightarrow> bool" where
  "ci_loop (c # s) (d # t) = (if tolower c \<noteq> tolower d then False else ci_loop s t)"
| "ci_loop s t = True"

definition zuo_string_ci_eql :: "zval \<Rightarrow> zval \<Rightarrow> zval res" where
  "zuo_string_ci_eql n m =
     rbind (check_string ''string-ci=?'' n) (\<lambda>s.
     rbind (check_string ''string-ci=?'' m) (\<lambda>t.
       Inr (if length s \<noteq> length t then VFalse else zbool (ci_loop s t))))"

text \<open>The loop of \<^verbatim>\<open>string-split\<close> over the index \<^verbatim>\<open>i\<close>, with the start of the current piece.\<close>

function split_loop :: "string \<Rightarrow> string \<Rightarrow> bool \<Rightarrow> nat \<Rightarrow> nat \<Rightarrow> string list \<Rightarrow> nat \<times> string list" where
  "split_loop str fs keep_empty i start l =
     (if fs \<noteq> [] \<and> i + length fs \<le> length str then
        (if take (length fs) (drop i str) = fs then
           split_loop str fs keep_empty (i + length fs) (i + length fs)
             (if start < i \<or> keep_empty then take (i - start) (drop start str) # l else l)
         else split_loop str fs keep_empty (i + 1) start l)
      else (start, l))"
  by pat_completeness auto
termination
  by (relation "measure (\<lambda>(str, fs, k, i, s, l). length str + 1 - i)") (auto simp: diff_less_mono2)

declare split_loop.simps [simp del]

definition split_string :: "string \<Rightarrow> string \<Rightarrow> bool \<Rightarrow> string list" where
  "split_string str fs keep_empty =
     (let (start, l) = split_loop str fs keep_empty 0 0 [] in
      rev (if start < length str \<or> keep_empty then drop start str # l else l))"

definition zuo_string_split :: "zval \<Rightarrow> zval \<Rightarrow> zval res" where
  "zuo_string_split str find_str =
     (let who = ''string-split'' in
      rbind (check_string who str) (\<lambda>s.
      if find_str \<noteq> VUndefined then
        (case find_str of
           VString fs \<Rightarrow>
             if fs = [] then Inl (Fail_Arg who ''nonempty string'' find_str)
             else Inr (zlist (map VString (split_string s fs True)))
         | _ \<Rightarrow> Inl (Fail_Arg who ''nonempty string'' find_str))
      else Inr (zlist (map VString (split_string s '' '' False)))))"

section \<open>Symbols\<close>

definition zuo_is_string_without_nul :: "zval \<Rightarrow> bool" where
  "zuo_is_string_without_nul obj = (case obj of VString s \<Rightarrow> s \<noteq> [] \<and> NUL \<notin> set s | _ \<Rightarrow> False)"

definition zuo_string_to_symbol :: "zval \<Rightarrow> symtab \<Rightarrow> (zval \<times> symtab) res" where
  "zuo_string_to_symbol obj st =
     (let who = ''string->symbol'' in
      if \<not> zuo_is_string_without_nul obj then
        rbind (check_string who obj) (\<lambda>_. Inl (Fail_Arg who ''string without a nul character'' obj))
      else
        rbind (check_string who obj) (\<lambda>s.
          case zuo_symbol_from_string s (Str_Obj s) st of
            (Some r, st') \<Rightarrow> Inr (VSymbol r, st')
          | (None, st') \<Rightarrow> Inl (Panic ''symbol'')))"

definition zuo_string_to_uninterned_symbol :: "zval \<Rightarrow> symtab \<Rightarrow> (zval \<times> symtab) res" where
  "zuo_string_to_uninterned_symbol obj st =
     rbind (check_string ''string->uninterned-symbol'' obj) (\<lambda>s.
       let (r, st') = zuo_make_symbol_from_string s st in Inr (VSymbol r, st'))"

definition zuo_symbol_to_string :: "zval \<Rightarrow> zval res" where
  "zuo_symbol_to_string obj = rbind (check_symbol ''symbol->string'' obj) (\<lambda>s. Inr (VString (sym_str s)))"

section \<open>Hash tables\<close>

fun hash_args :: "zval list \<Rightarrow> bool" where
  "hash_args (k # v # l) = (is_symbol k \<and> hash_args l)"
| "hash_args [k] = False"
| "hash_args [] = True"

fun hash_loop :: "zval list \<Rightarrow> zval trie \<Rightarrow> zval trie" where
  "hash_loop (k # v # l) ht =
     hash_loop l (case k of VSymbol s \<Rightarrow> zuo_trie_extend ht s v | _ \<Rightarrow> ht)"
| "hash_loop l ht = ht"

definition zuo_hash :: "zval \<Rightarrow> zval res" where
  "zuo_hash args =
     (if \<not> (hash_args (zelems args) \<and> zend args = VNull) then
        Inl (Fail1w ''hash'' ''arguments not symbol keys interleaved with values'' args)
      else Inr (VTrie (hash_loop (zelems args) zuo_trie_node)))"

definition zuo_hash_count :: "zval \<Rightarrow> zval res" where
  "zuo_hash_count ht = rbind (check_hash ''hash-count'' ht) (\<lambda>t. Inr (VInteger (of_int (trie_count t))))"

definition zuo_hash_ref :: "zval \<Rightarrow> zval \<Rightarrow> zval \<Rightarrow> zval res" where
  "zuo_hash_ref ht symb defval =
     (let who = ''hash-ref'' in
      rbind (check_hash who ht) (\<lambda>t.
      rbind (check_symbol who symb) (\<lambda>s.
      case zuo_trie_lookup t s of
        Some v \<Rightarrow> Inr v
      | None \<Rightarrow> if defval = VUndefined then Inl (Fail1w who ''key is not present'' symb) else Inr defval)))"

definition zuo_hash_set :: "zval \<Rightarrow> zval \<Rightarrow> zval \<Rightarrow> zval res" where
  "zuo_hash_set ht symb val =
     rbind (check_hash ''hash-set'' ht) (\<lambda>t.
     rbind (check_symbol ''hash-set'' symb) (\<lambda>s. Inr (VTrie (zuo_trie_extend t s val))))"

definition zuo_hash_remove :: "zval \<Rightarrow> zval \<Rightarrow> zval res" where
  "zuo_hash_remove ht symb =
     rbind (check_hash ''hash-remove'' ht) (\<lambda>t.
     rbind (check_symbol ''hash-remove'' symb) (\<lambda>s. Inr (VTrie (zuo_trie_remove t s))))"

definition zuo_hash_keys :: "zval \<Rightarrow> zval res" where
  "zuo_hash_keys ht =
     rbind (check_hash ''hash-keys'' ht) (\<lambda>t. Inr (zlist (map VSymbol (zuo_trie_sorted_keys t []))))"

definition zuo_hash_keys_subset_p :: "zval \<Rightarrow> zval \<Rightarrow> zval res" where
  "zuo_hash_keys_subset_p ht ht2 =
     rbind (check_hash ''hash-keys-subset?'' ht) (\<lambda>t.
     rbind (check_hash ''hash-keys-subset?'' ht2) (\<lambda>t2.
       Inr (zbool (zuo_trie_keys_subset_p (Some t) (Some t2)))))"

section \<open>Identity\<close>

text \<open>
  \<^verbatim>\<open>eq?\<close> and the tag test of \<^verbatim>\<open>opaque-ref\<close> compare addresses. Values carry no address, so the
  comparison is the argument \<open>same\<close>; on objects with one address per value (symbols, variables,
  handles, singletons) it is equality.
\<close>

definition zuo_eq :: "(zval \<Rightarrow> zval \<Rightarrow> bool) \<Rightarrow> zval \<Rightarrow> zval \<Rightarrow> zval" where
  "zuo_eq same n m = zbool (same n m)"

definition zuo_opaque :: "zval \<Rightarrow> zval \<Rightarrow> zval" where
  "zuo_opaque tag val = VOpaque tag val"

definition zuo_opaque_ref :: "(zval \<Rightarrow> zval \<Rightarrow> bool) \<Rightarrow> zval \<Rightarrow> zval \<Rightarrow> zval \<Rightarrow> zval" where
  "zuo_opaque_ref same tag obj defval =
     (case obj of VOpaque t v \<Rightarrow> if same t tag then v else defval | _ \<Rightarrow> defval)"

section \<open>Variables\<close>

definition zuo_make_variable :: "zval \<Rightarrow> zvar list \<Rightarrow> (zval \<times> zvar list) res" where
  "zuo_make_variable name vars =
     rbind (check_symbol ''variable'' name) (\<lambda>_.
       Inr (VVariable (length vars), vars @ [\<lparr>var_name = name, var_val = VUndefined\<rparr>]))"

definition zuo_variable_ref :: "zval \<Rightarrow> zvar list \<Rightarrow> zval res" where
  "zuo_variable_ref var vars =
     (case var of
        VVariable i \<Rightarrow>
          (if i < length vars then
             (let val = var_val (vars ! i) in
              if val = VUndefined then Inl (Fail_Var_Undefined (var_name (vars ! i))) else Inr val)
           else Inl (UB ''variable''))
      | _ \<Rightarrow> Inl (Fail_Arg ''variable-ref'' ''variable'' var))"

definition zuo_variable_set :: "zval \<Rightarrow> zval \<Rightarrow> zvar list \<Rightarrow> (zval \<times> zvar list) res" where
  "zuo_variable_set var val vars =
     (case var of
        VVariable i \<Rightarrow>
          (if i < length vars then
             (if var_val (vars ! i) \<noteq> VUndefined then
                Inl (Fail1w ''variable-set!'' ''variable already has a value'' var)
              else Inr (VVoid, vars[i := (vars ! i)\<lparr>var_val := val\<rparr>]))
           else Inl (UB ''variable''))
      | _ \<Rightarrow> Inl (Fail_Arg ''variable-set!'' ''variable'' var))"

section \<open>Reporting and exit\<close>

text \<open>A printer call inside a primitive; \<open>zuo_out_show\<close> excludes the second case.\<close>

definition printed :: "'a option \<Rightarrow> 'a res" where
  "printed r = (case r of Some s \<Rightarrow> Inr s | None \<Rightarrow> Inl (UB ''printer''))"

text \<open>The text of an alert: a leading string as it is, the other values as \<^verbatim>\<open>~v\<close> prints them.\<close>

definition zuo_falert :: "zmem \<Rightarrow> zval \<Rightarrow> string res" where
  "zuo_falert mem objs =
     (let (start, objs) =
        (case objs of
           VPair (VString s) d \<Rightarrow> (s @ (if d \<noteq> VNull then '': '' else []), d)
         | _ \<Rightarrow> ([], objs))
      in rbind (printed (zuo_to_string_bytes Print_Mode mem objs)) (\<lambda>s. Inr (start @ s)))"

definition zuo_error :: "zmem \<Rightarrow> zval \<Rightarrow> zval res" where
  "zuo_error mem objs = rbind (zuo_falert mem objs) (\<lambda>_. Inl (Fail_Error objs))"

definition zuo_alert :: "zval \<Rightarrow> zmem \<Rightarrow> (zval \<times> zmem) res" where
  "zuo_alert objs mem =
     rbind (zuo_falert mem objs) (\<lambda>s. Inr (VVoid, mem\<lparr>mem_out := mem_out mem @ s @ [CHR 0x0A]\<rparr>))"

definition zuo_arg_error :: "zval \<Rightarrow> zval \<Rightarrow> zval \<Rightarrow> zval res" where
  "zuo_arg_error name what arg =
     rbind (check_symbol ''arg-error'' name) (\<lambda>n.
     rbind (check_string ''arg-error'' what) (\<lambda>w. Inl (Fail_Arg (cstr (sym_str n)) (cstr w) arg)))"

definition zuo_arity_error :: "zmem \<Rightarrow> zval \<Rightarrow> zval \<Rightarrow> zval res" where
  "zuo_arity_error mem name args =
     (let who = ''arity-error'' in
      if name \<noteq> VFalse \<and> \<not> is_string name then Inl (Fail_Arg who ''string or #f'' name)
      else if zuo_list_p args \<noteq> VTrue then Inl (Fail_Arg who ''list'' args)
      else
        rbind (if args = VNull then Inr (VString ''[no arguments]'')
               else printed (zuo_tilde_v mem args)) (\<lambda>shown.
        rbind (printed (zuo_tilde_a mem (zlist
          [if name = VFalse then VString ''[procedure]'' else name,
           VString '': wrong number of arguments: '', shown]))) (\<lambda>msg.
        case msg of VString s \<Rightarrow> Inl (Fail (cstr s)) | _ \<Rightarrow> Inl (UB ''string''))))"

definition zuo_fail_arity :: "zmem \<Rightarrow> zval \<Rightarrow> zval \<Rightarrow> zval res" where
  "zuo_fail_arity mem rator args =
     rbind (case rator of
          VPrimitive _ _ name \<Rightarrow>
            (case name of VSymbol s \<Rightarrow> Inr (VString (sym_str s)) | _ \<Rightarrow> Inl (UB ''symbol''))
        | VApply \<Rightarrow> Inr (VString ''apply'')
        | VCallCC \<Rightarrow> Inr (VString ''call/cc'')
        | VCallPrompt \<Rightarrow> Inr (VString ''call/prompt'')
        | VKernelEval \<Rightarrow> Inr (VString ''kernel-eval'')
        | VClosure lam env \<Rightarrow>
            rbind (ucdr lam) (\<lambda>d. rbind (ucdr d) (\<lambda>body. rbind (ucdr body) (\<lambda>body_d.
              if body_d \<noteq> VNull then ucar body else Inr VFalse)))
        | _ \<Rightarrow> Inr VFalse)
       (\<lambda>name. zuo_arity_error mem name args)"

definition zuo_exit :: "zval \<Rightarrow> zval res" where
  "zuo_exit val =
     (if val = VUndefined then Inl (Exit 0)
      else case val of
        VInteger i \<Rightarrow>
          if sint i < 0 \<or> sint i > 255 then Inl (Fail_Arg ''exit'' ''integer in [0, 255]'' val)
          else Inl (Exit (sint i))
      | _ \<Rightarrow> Inl (Fail_Arg ''exit'' ''integer in [0, 255]'' val))"

section \<open>Splitting\<close>

fun join :: "string \<Rightarrow> string list \<Rightarrow> string" where
  "join sep [] = []"
| "join sep [p] = p"
| "join sep (p # ps) = p @ sep @ join sep ps"

lemma join_snoc: "join sep (ps @ [p]) = concat (map (\<lambda>q. q @ sep) ps) @ p"
proof (induction ps)
  case (Cons q ps)
  then show ?case by (cases ps) auto
qed simp

definition contains :: "string \<Rightarrow> string \<Rightarrow> bool" where
  "contains p sep \<longleftrightarrow> (\<exists>xs ys. p = xs @ sep @ ys)"

text \<open>The loop invariant: what has been cut off, and where the separator has not been seen.\<close>

definition split_inv :: "string \<Rightarrow> string \<Rightarrow> nat \<Rightarrow> nat \<Rightarrow> string list \<Rightarrow> bool" where
  "split_inv str fs i start l \<longleftrightarrow>
     start \<le> i \<and> i \<le> length str
     \<and> concat (map (\<lambda>p. p @ fs) (rev l)) = take start str
     \<and> (\<forall>p\<in>set l. \<not> contains p fs)
     \<and> (\<forall>j. start \<le> j \<longrightarrow> j < i \<longrightarrow> take (length fs) (drop j str) \<noteq> fs)"

lemma piece_not_contains:
  assumes "\<And>j. start \<le> j \<Longrightarrow> j + length fs \<le> e \<Longrightarrow> take (length fs) (drop j str) \<noteq> fs"
    and "start \<le> e"
  shows "\<not> contains (take (e - start) (drop start str)) fs"
proof
  assume "contains (take (e - start) (drop start str)) fs"
  then obtain xs ys where p: "take (e - start) (drop start str) = xs @ fs @ ys" by (auto simp: contains_def)
  then have "drop start str = xs @ fs @ ys @ drop (e - start) (drop start str)"
    by (metis append.assoc append_take_drop_id)
  then have "drop (start + length xs) str = fs @ ys @ drop (e - start) (drop start str)"
    by (metis add.commute append_eq_conv_conj drop_drop)
  then have at: "take (length fs) (drop (start + length xs) str) = fs" by simp
  have "length (xs @ fs) \<le> e - start" using arg_cong [OF p, of length] by simp
  with assms(2) have "start + length xs + length fs \<le> e" by simp
  with assms(1) [of "start + length xs"] at show False by simp
qed

lemma split_loop_inv:
  assumes "fs \<noteq> []" "split_inv str fs i start l" "split_loop str fs True i start l = (start', l')"
  shows "\<exists>i'. split_inv str fs i' start' l' \<and> length str < i' + length fs"
  using assms
proof (induction str fs True i start l rule: split_loop.induct)
  case (1 str fs i start l)
  show ?case
  proof (cases "i + length fs \<le> length str")
    case False
    with "1.prems" show ?thesis by (auto simp: split_loop.simps [of str fs True i])
  next
    case bound: True
    show ?thesis
    proof (cases "take (length fs) (drop i str) = fs")
      case True
      let ?p = "take (i - start) (drop start str)"
      have "\<not> contains ?p fs"
      proof (rule piece_not_contains)
        fix j assume "start \<le> j" "j + length fs \<le> i"
        moreover have "0 < length fs" using "1.prems"(1) by simp
        ultimately have "start \<le> j \<and> j < i" by linarith
        with "1.prems"(2) show "take (length fs) (drop j str) \<noteq> fs" by (simp add: split_inv_def)
      qed (use "1.prems"(2) in \<open>simp add: split_inv_def\<close>)
      moreover have "take start str @ ?p @ fs = take (i + length fs) str"
        using "1.prems"(2) True by (simp add: split_inv_def take_add) (metis append.assoc le_add_diff_inverse take_add)
      ultimately have "split_inv str fs (i + length fs) (i + length fs) (?p # l)"
        using "1.prems"(2) bound by (auto simp: split_inv_def)
      with "1.hyps"(1) "1.prems" bound True show ?thesis
        by (simp add: split_loop.simps [of str fs True i])
    next
      case False
      have "i < length str" using bound "1.prems"(1) by (cases fs) auto
      with False "1.prems"(2) have "split_inv str fs (i + 1) start l"
        by (auto simp: split_inv_def less_Suc_eq)
      with "1.hyps"(2) "1.prems" bound False show ?thesis
        by (simp add: split_loop.simps [of str fs True i])
    qed
  qed
qed

lemma split_string_spec:
  assumes "fs \<noteq> []"
  shows "join fs (split_string s fs True) = s \<and> (\<forall>p\<in>set (split_string s fs True). \<not> contains p fs)"
proof -
  obtain start l where loop: "split_loop s fs True 0 0 [] = (start, l)" by fastforce
  have "split_inv s fs 0 0 []" by (simp add: split_inv_def)
  from split_loop_inv [OF assms this loop] obtain i
    where inv: "split_inv s fs i start l" and i: "length s < i + length fs" by blast
  have "\<not> contains (take (length s - start) (drop start s)) fs"
    by (rule piece_not_contains) (use inv i in \<open>auto simp: split_inv_def\<close>)
  with inv show ?thesis
    by (auto simp: split_string_def loop join_snoc split_inv_def)
qed

lemma split_loop_filter:
  assumes "start \<le> i" "split_loop str fs True i start l = (start', l')"
  shows "split_loop str fs False i start (filter (\<lambda>p. p \<noteq> []) l) = (start', filter (\<lambda>p. p \<noteq> []) l')"
  using assms
proof (induction str fs True i start l rule: split_loop.induct)
  case (1 str fs i start l)
  show ?case
  proof (cases "fs \<noteq> [] \<and> i + length fs \<le> length str")
    case False
    with "1.prems" show ?thesis
      by (auto simp: split_loop.simps [of str fs True i] split_loop.simps [of str fs False i])
  next
    case bound: True
    show ?thesis
    proof (cases "take (length fs) (drop i str) = fs")
      case True
      let ?p = "take (i - start) (drop start str)"
      have "?p = [] \<longleftrightarrow> \<not> start < i" using "1.prems"(1) bound by auto
      then have p: "filter (\<lambda>p. p \<noteq> []) (?p # l) = (if start < i then ?p # filter (\<lambda>p. p \<noteq> []) l else filter (\<lambda>p. p \<noteq> []) l)"
        by simp
      have "split_loop str fs True (i + length fs) (i + length fs) (?p # l) = (start', l')"
        using "1.prems"(2) bound True by (simp add: split_loop.simps [of str fs True i])
      with "1.hyps"(1) [OF bound True] have
        "split_loop str fs False (i + length fs) (i + length fs) (filter (\<lambda>p. p \<noteq> []) (?p # l))
          = (start', filter (\<lambda>p. p \<noteq> []) l')" by simp
      then show ?thesis
        unfolding p using bound True by (subst split_loop.simps) simp
    next
      case False
      then show ?thesis
        using bound "1.hyps"(2) [OF bound False] "1.prems"
        by (simp add: split_loop.simps [of str fs True i] split_loop.simps [of str fs False i])
    qed
  qed
qed

lemma split_string_filter:
  "split_string s fs False = filter (\<lambda>p. p \<noteq> []) (split_string s fs True)"
proof -
  obtain start l where loop: "split_loop s fs True 0 0 [] = (start, l)" by fastforce
  with split_loop_filter [of 0 0 s fs "[]"] show ?thesis
    by (auto simp: split_string_def rev_filter)
qed

lemma filter_join: "filter (\<lambda>c. c \<noteq> x) (join [x] ps) = concat (map (filter (\<lambda>c. c \<noteq> x)) ps)"
  by (induction "[x]" ps rule: join.induct) auto

lemma not_contains_single: "\<not> contains p [x] \<longleftrightarrow> x \<notin> set p"
  by (auto simp: contains_def in_set_conv_decomp)

lemma concat_nonempty: "concat (filter (\<lambda>p. p \<noteq> []) ps) = concat ps"
  by (induction ps) auto

section \<open>Arithmetic\<close>

lemma sdiv_in_range:
  fixes i j :: zuo_int
  assumes "sint j \<noteq> -1"
  shows "sint (of_int (sint i sdiv sint j) :: zuo_int) = sint i sdiv sint j"
proof (rule sint_of_int)
  have bound: "\<bar>sint i\<bar> \<le> 2 ^ 63" using sint_range [of i] by linarith
  have "\<bar>sint i sdiv sint j\<bar> \<le> 2 ^ 62" if "sint j \<noteq> 1" "sint j \<noteq> 0"
  proof -
    have "2 \<le> \<bar>sint j\<bar>" using that assms by linarith
    then have "\<bar>sint i\<bar> div \<bar>sint j\<bar> \<le> \<bar>sint i\<bar> div 2" by (intro zdiv_mono2) auto
    also have "\<dots> \<le> 2 ^ 62" using bound by simp
    finally show ?thesis
      using that pos_imp_zdiv_nonneg_iff [of "\<bar>sint j\<bar>" "\<bar>sint i\<bar>"]
      by (simp add: signed_divide_int_def abs_mult abs_sgn_eq)
  qed
  moreover have "sint i sdiv sint j = sint i" if "sint j = 1" using that by simp
  moreover have "sint i sdiv sint j = 0" if "sint j = 0" using that by (simp add: sdiv_int_div_0)
  ultimately have "- (2 ^ 63) \<le> sint i sdiv sint j \<and> sint i sdiv sint j < 2 ^ 63"
    using sint_range [of i] by (cases "sint j = 1"; cases "sint j = 0") (auto simp: abs_le_iff)
  then show "- (2 ^ 63) \<le> sint i sdiv sint j" "sint i sdiv sint j < 2 ^ 63" by auto
qed

lemma smod_in_range:
  fixes i j :: zuo_int
  assumes "j \<noteq> 0"
  shows "sint (of_int (sint i smod sint j) :: zuo_int) = sint i smod sint j" "\<bar>sint i smod sint j\<bar> < \<bar>sint j\<bar>"
proof -
  have j: "sint j \<noteq> 0" using assms by (metis of_int_0 word_of_int_sint)
  show less: "\<bar>sint i smod sint j\<bar> < \<bar>sint j\<bar>"
    using smod_int_range [OF j, of "sint i"] by auto
  show "sint (of_int (sint i smod sint j) :: zuo_int) = sint i smod sint j"
    using less sint_range [of j] by (intro sint_of_int) linarith+
qed

lemma int_word_eq: "of_int (sint w) = w" for w :: zuo_int
  by simp

lemma quotient_remainder_spec:
  fixes i j :: zuo_int
  assumes "j \<noteq> 0"
  shows "\<exists>q r. zuo_quotient (VInteger i) (VInteger j) = Inr (VInteger q)
    \<and> zuo_remainder (VInteger i) (VInteger j) = Inr (VInteger r)
    \<and> q * j + r = i
    \<and> sint r = sint i smod sint j
    \<and> sint q = (if sint i = - (2 ^ 63) \<and> sint j = -1 then - (2 ^ 63) else sint i sdiv sint j)"
proof (cases "sint j = -1")
  case True
  then have j: "j = -1" by (metis int_word_eq of_int_minus of_int_1)
  have "sint i smod -1 = 0" by (simp add: smod_int_alt_def)
  with True assms sint_uminus [of i] show ?thesis
    by (auto simp: zuo_quotient_def zuo_remainder_def check_ints_def j)
next
  case False
  let ?q = "of_int (sint i sdiv sint j) :: zuo_int" and ?r = "of_int (sint i smod sint j) :: zuo_int"
  have "?q * j + ?r = of_int (sint i sdiv sint j * sint j + sint i smod sint j)" by simp
  also have "\<dots> = i" by (simp only: sdiv_mult_smod_eq int_word_eq)
  finally have "?q * j + ?r = i" .
  with False assms sdiv_in_range [OF False, of i] smod_in_range(1) [OF assms, of i] show ?thesis
    by (auto simp: zuo_quotient_def zuo_remainder_def check_ints_def)
qed

section \<open>Lists\<close>

lemma list_ref_loop_zlist: "i < length xs \<Longrightarrow> list_ref_loop i (zlist xs) = Inr (xs ! i)"
proof (induction i arbitrary: xs)
  case 0
  then show ?case by (cases xs) auto
next
  case (Suc i)
  then show ?case by (cases xs) auto
qed

lemma list_set_loop_zlist: "i < length xs \<Longrightarrow> list_set_loop i (zlist xs) v = Inr (zlist (xs[i := v]))"
proof (induction i arbitrary: xs)
  case 0
  then show ?case by (cases xs) auto
next
  case (Suc i)
  then show ?case by (cases xs) auto
qed

lemma list_index_of_nat: "int i < 2 ^ 63 \<Longrightarrow> list_index who (VInteger (of_nat i)) = Inr i"
  using sint_of_int [of "int i"] by (simp add: list_index_def Let_def)

lemma reverse_loop_spec: "reverse_loop l r = (zlist_onto (rev (zelems l)) r, zend l)"
  by (induction l r rule: reverse_loop.induct) (auto simp: zlist_onto_append)

lemma append_loop_lists: "append_loop (map zlist xss @ [v]) acc = Inr (zlist_onto (acc @ concat xss) v)"
proof (induction xss arbitrary: acc)
  case (Cons xs xss)
  then show ?case by (cases xss) auto
qed simp

text \<open>
  The list primitives compute what their names say, on proper lists of any length below
  \<open>2 ^ 63\<close>: \<^verbatim>\<open>reverse\<close> reverses, \<^verbatim>\<open>append\<close> concatenates its lists onto its last argument, \<^verbatim>\<open>list-set\<close> replaces
  one element and \<^verbatim>\<open>list-ref\<close> reads it back, leaving the others alone.
\<close>

theorem list_primitives_correct:
  assumes "i < length xs" "j < length xs" "int (length xs) < 2 ^ 63"
  shows "zuo_reverse (zlist xs) = Inr (zlist (rev xs))
    \<and> zuo_append (zlist (map zlist xss @ [zlist xs])) = Inr (zlist (concat xss @ xs))
    \<and> zuo_list_set (zlist xs) (VInteger (of_nat i)) v = Inr (zlist (xs[i := v]))
    \<and> rbind (zuo_list_set (zlist xs) (VInteger (of_nat i)) v) (\<lambda>l. zuo_list_ref l (VInteger (of_nat j)))
        = Inr (if i = j then v else xs ! j)"
proof -
  have ij: "int i < 2 ^ 63" "int j < 2 ^ 63" using assms by linarith+
  have set: "zuo_list_set (zlist xs) (VInteger (of_nat i)) v = Inr (zlist (xs[i := v]))"
    using assms(1) ij(1) by (simp add: zuo_list_set_def list_index_of_nat list_set_loop_zlist)
  have "zuo_append (zlist (map zlist xss @ [zlist xs])) = Inr (zlist (concat xss @ xs))"
    using append_loop_lists [of xss "zlist xs" "[]"]
    by (simp add: zuo_append_def) (metis append_Nil2 zlist_onto_append zlist_onto_null)
  moreover have "zuo_list_ref (zlist (xs[i := v])) (VInteger (of_nat j)) = Inr (if i = j then v else xs ! j)"
    using assms(1,2) ij(2) by (auto simp: zuo_list_ref_def list_index_of_nat list_ref_loop_zlist)
  ultimately show ?thesis
    using set by (simp add: zuo_reverse_def reverse_loop_spec zlist_onto_null)
qed

theorem list_primitives_correct_witness:
  "zuo_list_set (zlist [VTrue, VFalse]) (VInteger 1) VNull = Inr (zlist [VTrue, VNull])"
  using list_primitives_correct [of 1 "[VTrue, VFalse]" 0 "[]" VNull] by simp

text \<open>
  C24: \<^verbatim>\<open>string-split\<close> with a separator cuts a string into pieces that contain the separator
  nowhere and that give the string back when they are joined with it.
\<close>

theorem string_split_correct:
  assumes "fs \<noteq> []"
  shows "\<exists>ps. zuo_string_split (VString s) (VString fs) = Inr (zlist (map VString ps))
    \<and> join fs ps = s \<and> (\<forall>p\<in>set ps. \<not> contains p fs)"
  using split_string_spec [OF assms, of s] assms by (auto simp: zuo_string_split_def)

theorem string_split_correct_witness:
  "\<exists>ps. zuo_string_split (VString ''a,,b'') (VString '','') = Inr (zlist (map VString ps)) \<and> join '','' ps = ''a,,b''"
  using string_split_correct [of "'',''" "''a,,b''"] by auto

text \<open>
  Without a separator, \<^verbatim>\<open>string-split\<close> returns the words of the string: nonempty pieces without
  spaces that hold, in order, every byte that is not a space.
\<close>

theorem string_split_words:
  "\<exists>ws. zuo_string_split (VString s) VUndefined = Inr (zlist (map VString ws))
    \<and> concat ws = filter (\<lambda>c. c \<noteq> CHR '' '') s \<and> (\<forall>w\<in>set ws. w \<noteq> [] \<and> CHR '' '' \<notin> set w)"
proof (intro exI conjI)
  let ?ps = "split_string s '' '' True"
  note spec = split_string_spec [of "'' ''" s]
  show "zuo_string_split (VString s) VUndefined = Inr (zlist (map VString (split_string s '' '' False)))"
    by (simp add: zuo_string_split_def)
  have nospace: "\<forall>p\<in>set ?ps. CHR '' '' \<notin> set p" using spec by (simp add: not_contains_single)
  have "filter (\<lambda>c. c \<noteq> CHR '' '') (join '' '' ?ps) = concat ?ps"
    unfolding filter_join using nospace
    by (intro arg_cong [where f = concat] map_idI) (auto simp: filter_id_conv)
  then show "concat (split_string s '' '' False) = filter (\<lambda>c. c \<noteq> CHR '' '') s"
    using spec by (simp add: split_string_filter concat_nonempty)
  show "\<forall>w\<in>set (split_string s '' '' False). w \<noteq> [] \<and> CHR '' '' \<notin> set w"
    using nospace by (simp add: split_string_filter)
qed

theorem string_split_words_witness:
  "\<exists>ws. zuo_string_split (VString '' a  b '') VUndefined = Inr (zlist (map VString ws)) \<and> concat ws = ''ab''"
  using string_split_words [of "'' a  b ''"] by auto



text \<open>
  C27: The bounds test of \<^verbatim>\<open>string-ref\<close> adds one to the index before comparing, so the largest
  integer as an index leads to a signed overflow, while every smaller index is either in range
  and gives the byte or is rejected.
\<close>

theorem string_ref_index:
  "zuo_string_ref (VString s) (VInteger w) =
     (if sint w = 2 ^ 63 - 1 then Inl (UB ''index overflow'')
      else if 0 \<le> sint w \<and> sint w < int (length s) then Inr (VInteger (of_nat (byte (s ! nat (sint w)))))
      else Inl (Fail1w ''string-ref'' ''index out of bounds for string'' (VInteger w)))"
proof -
  have "sint w + 1 \<ge> 2 ^ 63 \<longleftrightarrow> sint w = 2 ^ 63 - 1" using sint_range [of w] by linarith
  then show ?thesis by (simp add: zuo_string_ref_def check_string_ref_index_def Let_def)
qed

text \<open>
  A variable is set at most once: it is undefined until \<^verbatim>\<open>variable-set!\<close> gives it a value, that
  value is what \<^verbatim>\<open>variable-ref\<close> returns from then on, other variables keep theirs, and a second
  assignment is refused.
\<close>

theorem variable_set_once:
  assumes "zuo_make_variable name vars = Inr (x, vars1)" "v \<noteq> VUndefined" "i < length vars"
  shows "zuo_variable_ref x vars1 = Inl (Fail_Var_Undefined name)
    \<and> (\<exists>vars2. zuo_variable_set x v vars1 = Inr (VVoid, vars2)
        \<and> zuo_variable_ref x vars2 = Inr v
        \<and> zuo_variable_ref (VVariable i) vars2 = zuo_variable_ref (VVariable i) vars
        \<and> zuo_variable_set x w vars2 = Inl (Fail1w ''variable-set!'' ''variable already has a value'' x))"
proof -
  have new: "x = VVariable (length vars)" "vars1 = vars @ [\<lparr>var_name = name, var_val = VUndefined\<rparr>]"
    using assms(1) by (auto simp: zuo_make_variable_def rbind_eq_Inr_iff)
  define vars2 where "vars2 = vars @ [\<lparr>var_name = name, var_val = v\<rparr>]"
  have set: "zuo_variable_set x v vars1 = Inr (VVoid, vars2)"
    by (simp add: zuo_variable_set_def new vars2_def list_update_append)
  have "zuo_variable_ref x vars1 = Inl (Fail_Var_Undefined name)" by (simp add: zuo_variable_ref_def new)
  moreover have "zuo_variable_ref x vars2 = Inr v" using assms(2) by (simp add: zuo_variable_ref_def new vars2_def)
  moreover have "zuo_variable_ref (VVariable i) vars2 = zuo_variable_ref (VVariable i) vars"
    using assms(3) by (simp add: zuo_variable_ref_def vars2_def nth_append Let_def)
  moreover have "zuo_variable_set x w vars2 = Inl (Fail1w ''variable-set!'' ''variable already has a value'' x)"
    using assms(2) by (simp add: zuo_variable_set_def new vars2_def)
  ultimately show ?thesis using set by blast
qed

theorem variable_set_once_witness:
  "\<exists>vars2. zuo_variable_set (VVariable 1) VTrue
       [\<lparr>var_name = VSymbol (Symbol 0 ''a''), var_val = VNull\<rparr>,
        \<lparr>var_name = VSymbol (Symbol 1 ''b''), var_val = VUndefined\<rparr>] = Inr (VVoid, vars2)
     \<and> zuo_variable_ref (VVariable 1) vars2 = Inr VTrue"
  using variable_set_once [of "VSymbol (Symbol 1 ''b'')" "[\<lparr>var_name = VSymbol (Symbol 0 ''a''), var_val = VNull\<rparr>]"
      "VVariable 1" "[\<lparr>var_name = VSymbol (Symbol 0 ''a''), var_val = VNull\<rparr>,
        \<lparr>var_name = VSymbol (Symbol 1 ''b''), var_val = VUndefined\<rparr>]" VTrue 0]
  by (auto simp: zuo_make_variable_def)

end
