(* ===== verification/Zuo_Interp.thy ===== *)
theory Zuo_Interp
  imports Zuo_Prims
begin

text \<open>
  The interpreter of \<^verbatim>\<open>zuo.c\<close>: \<^verbatim>\<open>check_syntax\<close>, environments, \<^verbatim>\<open>interp_step\<close>, \<^verbatim>\<open>continue_step\<close>
  with its application loop, and the driver loop of \<^verbatim>\<open>zuo_kernel_eval\<close>. The registers
  \<^verbatim>\<open>Z.o_interp_*\<close> are the fields of a record. Primitives are called through the table
  \<open>g_call\<close>, which stands for the function pointers stored in primitive objects.

  The main result is that an expression that passes \<^verbatim>\<open>check_syntax\<close> never drives the
  interpreter into an unchecked access: locale \<open>safe_primitives\<close> states what the interpreter
  needs of the primitives, and theory \<open>Zuo_Dispatch\<close> discharges it for the modelled ones.
\<close>

section \<open>Kernel syntax\<close>

text \<open>The symbols of the core forms, \<^verbatim>\<open>z.o_quote_symbol\<close> and so on.\<close>

record kforms =
  f_quote :: symbol
  f_lambda :: symbol
  f_let :: symbol
  f_begin :: symbol
  f_if :: symbol

definition formals_ok :: "zval \<Rightarrow> bool" where
  "formals_ok ad \<longleftrightarrow> list_all is_symbol (zelems ad) \<and> (zend ad = VNull \<or> is_symbol (zend ad))"

text \<open>
  One pass of the loop on a pair: the subexpressions it pushes, topmost first, or the bad form.
  The tests on successive \<^verbatim>\<open>cdr\<close>s are tests on the elements of the chain and on its end.
\<close>

definition let_subs :: "zval \<Rightarrow> zval list option" where
  "let_subs d =
     (case zelems d of
        [ad, body] \<Rightarrow>
          (case zelems ad of
             [aad] \<Rightarrow>
               (case zelems aad of
                  [x, rhs] \<Rightarrow>
                    if zend d = VNull \<and> zend ad = VNull \<and> zend aad = VNull \<and> is_symbol x
                    then Some [body, rhs] else None
                | _ \<Rightarrow> None)
           | _ \<Rightarrow> None)
      | _ \<Rightarrow> None)"

definition lambda_subs :: "zval \<Rightarrow> zval list option" where
  "lambda_subs d =
     (if zend d \<noteq> VNull then None
      else case zelems d of
        [ad, body] \<Rightarrow> if formals_ok ad then Some [body] else None
      | [ad, name, body] \<Rightarrow> if is_string name \<and> formals_ok ad then Some [body] else None
      | _ \<Rightarrow> None)"

definition form_subs :: "kforms \<Rightarrow> zval \<Rightarrow> zval \<Rightarrow> zval list option" where
  "form_subs F rator d =
     (let proper = (zend d = VNull); n = length (zelems d) in
      if rator = VSymbol (f_quote F) then (if proper \<and> n = 1 then Some [] else None)
      else if rator = VSymbol (f_if F) then (if proper \<and> n = 3 then Some (zelems d) else None)
      else if rator = VSymbol (f_lambda F) then lambda_subs d
      else if rator = VSymbol (f_let F) then let_subs d
      else if rator = VSymbol (f_begin F) then (if proper \<and> n \<noteq> 0 then Some (rev (zelems d)) else None)
      else (if proper then Some (rev (rator # zelems d)) else None))"

definition syntax_subs :: "kforms \<Rightarrow> zval \<Rightarrow> zval list res" where
  "syntax_subs F e =
     (case e of
        VPair rator d \<Rightarrow> (case form_subs F rator d of Some es \<Rightarrow> Inr es | None \<Rightarrow> Inl (Bad_Form e))
      | _ \<Rightarrow> Inr [])"

lemma zelems_size: "x \<in> set (zelems v) \<Longrightarrow> size x < size v"
  by (induction v rule: zelems.induct) auto

lemma zelems_sum: "sum_list (map (\<lambda>x. Suc (size x)) (zelems v)) \<le> size v"
  by (induction v rule: zelems.induct) auto

lemma zelems_sum_rev: "sum_list (map (\<lambda>x. Suc (size x)) (rev (zelems v))) \<le> size v"
  using zelems_sum [of v] by (simp only: rev_map [symmetric] sum_list_rev)

lemma zlist_eqI: "zend v = VNull \<Longrightarrow> v = zlist (zelems v)"
  by (metis zlist_onto_elems zlist_onto_null)

lemma let_subs_Some:
  assumes "let_subs d = Some es"
  obtains x rhs body where "d = zlist [zlist [zlist [VSymbol x, rhs]], body]" "es = [body, rhs]"
proof -
  obtain ad body where d: "zelems d = [ad, body]"
    using assms by (auto simp: let_subs_def split: list.split_asm)
  obtain aad where ad: "zelems ad = [aad]"
    using assms d by (auto simp: let_subs_def split: list.split_asm)
  obtain x rhs where aad: "zelems aad = [x, rhs]"
    using assms d ad by (auto simp: let_subs_def split: list.split_asm)
  have e: "zend d = VNull" "zend ad = VNull" "zend aad = VNull" "is_symbol x" "es = [body, rhs]"
    using assms d ad aad by (auto simp: let_subs_def split: if_split_asm)
  then obtain s where x: "x = VSymbol s" by (auto simp: is_symbol_iff)
  show thesis
    by (rule that [of s rhs body])
      (use zlist_eqI [OF e(1)] zlist_eqI [OF e(2)] zlist_eqI [OF e(3)] d ad aad e(5) x in simp_all)
qed

lemma let_subs_sum: "let_subs d = Some es \<Longrightarrow> sum_list (map (\<lambda>x. Suc (size x)) es) \<le> size d"
  by (erule let_subs_Some) simp

lemma lambda_subs_Some:
  assumes "lambda_subs d = Some es"
  obtains formals body where "d = zlist [formals, body]" "formals_ok formals" "es = [body]"
  | formals name body where "d = zlist [formals, VString name, body]" "formals_ok formals" "es = [body]"
proof -
  have e: "zend d = VNull" using assms by (auto simp: lambda_subs_def split: if_split_asm)
  from assms consider (two) a b where "zelems d = [a, b]" | (three) a b c where "zelems d = [a, b, c]"
    by (auto simp: lambda_subs_def split: if_split_asm list.split_asm)
  then show thesis
  proof cases
    case two
    then show thesis using assms zlist_eqI [OF e] that(1)
      by (auto simp: lambda_subs_def e split: if_split_asm)
  next
    case three
    then show thesis using assms zlist_eqI [OF e] that(2)
      by (auto simp: lambda_subs_def e is_string_iff split: if_split_asm)
  qed
qed

lemma lambda_subs_sum: "lambda_subs d = Some es \<Longrightarrow> sum_list (map (\<lambda>x. Suc (size x)) es) \<le> size d"
  by (erule lambda_subs_Some) simp_all

lemma form_subs_sum: "form_subs F rator d = Some es \<Longrightarrow> sum_list (map (\<lambda>x. Suc (size x)) es) \<le> Suc (size rator + size d)"
  unfolding form_subs_def Let_def
proof (elim ite_E, goal_cases)
  case 5
  then show ?case by (auto dest: lambda_subs_sum)
next
  case 6
  then show ?case by (auto dest: let_subs_sum)
qed (use zelems_sum [of d] zelems_sum_rev [of d] in auto)

text \<open>The work list of \<^verbatim>\<open>check_syntax\<close>.\<close>

function check_loop :: "kforms \<Rightarrow> zval list \<Rightarrow> unit res" where
  "check_loop F [] = Inr ()"
| "check_loop F (e # es) = rbind (syntax_subs F e) (\<lambda>subs. check_loop F (subs @ es))"
  by pat_completeness auto
termination
proof (relation "measure (\<lambda>(F, es). sum_list (map (\<lambda>x. Suc (size x)) es))", simp, goal_cases)
  case (1 F e es subs)
  then show ?case
    by (cases e) (auto simp: syntax_subs_def dest!: form_subs_sum split: option.splits)
qed

definition check_syntax :: "kforms \<Rightarrow> zval \<Rightarrow> unit res" where
  "check_syntax F e = check_loop F [e]"

text \<open>The expressions that pass, by recursion on their structure.\<close>

inductive syntax_ok :: "kforms \<Rightarrow> zval \<Rightarrow> bool" for F where
  syntax_okI: "syntax_subs F e = Inr es \<Longrightarrow> (\<And>x. x \<in> set es \<Longrightarrow> syntax_ok F x) \<Longrightarrow> syntax_ok F e"

inductive_cases syntax_okE: "syntax_ok F e"

lemma check_loop_ok: "check_loop F es = Inr () \<longleftrightarrow> (\<forall>e\<in>set es. syntax_ok F e)"
proof (induction F es rule: check_loop.induct)
  case (2 F e es)
  show ?case
  proof (cases "syntax_subs F e")
    case (Inl x)
    then show ?thesis by (auto elim: syntax_okE)
  next
    case (Inr subs)
    then have "syntax_ok F e \<longleftrightarrow> (\<forall>x\<in>set subs. syntax_ok F x)"
      by (auto elim: syntax_okE intro: syntax_okI)
    with 2 [of subs] Inr show ?thesis by auto
  qed
qed simp

lemma check_loop_error: "check_loop F es = Inl x \<Longrightarrow> \<exists>e. x = Bad_Form e"
proof (induction F es rule: check_loop.induct)
  case (2 F e es)
  then show ?case
    by (auto simp: rbind_eq_Inl_iff syntax_subs_def split: zval.splits option.splits)
qed simp

section \<open>Environments\<close>

text \<open>A list of bindings in front of the table of primitives.\<close>

definition env_extend :: "zval \<Rightarrow> zval \<Rightarrow> zval \<Rightarrow> zval" where
  "env_extend env symb val = VPair (VPair symb val) env"

definition env_top :: "zval \<Rightarrow> zval \<Rightarrow> zval res" where
  "env_top env symb =
     (case env of
        VTrie t \<Rightarrow>
          (case symb of
             VSymbol s \<Rightarrow> Inr (case zuo_trie_lookup t s of Some v \<Rightarrow> v | None \<Rightarrow> VUndefined)
           | _ \<Rightarrow> Inl (UB ''symbol''))
      | _ \<Rightarrow> Inl (UB ''environment''))"

fun env_lookup :: "zval \<Rightarrow> zval \<Rightarrow> zval res" where
  "env_lookup (VPair a env) symb =
     rbind (ucar a) (\<lambda>x. if x = symb then ucdr a else env_lookup env symb)"
| "env_lookup env symb = env_top env symb"

section \<open>State\<close>

text \<open>What a primitive may consult besides its arguments and the memory.\<close>

record prim_ctx =
  ctx_meta_k :: "(cont \<times> zval) list"
  ctx_top_env :: "zval trie"

type_synonym prim_impl = "string \<Rightarrow> prim_ctx \<Rightarrow> zval \<Rightarrow> zmem \<Rightarrow> (zval \<times> zmem) res"

record zglob =
  g_forms :: kforms
  g_top_env :: "zval trie"
  g_call :: prim_impl

record zinterp =
  i_e :: zval
  i_v :: zval
  i_env :: zval
  i_k :: cont
  i_in_proc :: zval
  i_meta_k :: "(cont \<times> zval) list"
  i_mem :: zmem

section \<open>Evaluating an expression\<close>

definition push_k :: "cont_tag \<Rightarrow> zval \<Rightarrow> zinterp \<Rightarrow> cont" where
  "push_k tag data st = Cont tag data (i_env st) (i_in_proc st) (i_k st)"

definition interp_pair :: "kforms \<Rightarrow> zval \<Rightarrow> zval \<Rightarrow> zinterp \<Rightarrow> zinterp res" where
  "interp_pair F rator d st =
     (if rator = VSymbol (f_quote F) then rbind (ucar d) (\<lambda>v. Inr (st\<lparr>i_v := v\<rparr>))
      else if rator = VSymbol (f_if F) then
        rbind (ucar d) (\<lambda>e. rbind (ucdr d) (\<lambda>dd. Inr (st\<lparr>i_e := e, i_k := push_k If_Cont dd st\<rparr>)))
      else if rator = VSymbol (f_lambda F) then Inr (st\<lparr>i_v := VClosure (i_e st) (i_env st)\<rparr>)
      else if rator = VSymbol (f_let F) then
        rbind (ucar d) (\<lambda>ad. rbind (ucar ad) (\<lambda>aad. rbind (ucdr aad) (\<lambda>daad. rbind (ucar daad) (\<lambda>e.
          Inr (st\<lparr>i_e := e, i_k := push_k Let_Cont d st\<rparr>)))))
      else if rator = VSymbol (f_begin F) then
        rbind (ucdr d) (\<lambda>dd. rbind (ucar d) (\<lambda>e.
          Inr (if dd \<noteq> VNull then st\<lparr>i_e := e, i_k := push_k Begin_Cont dd st\<rparr> else st\<lparr>i_e := e\<rparr>)))
      else Inr (st\<lparr>i_e := rator, i_k := push_k Apply_Cont (VPair VNull d) st\<rparr>))"

definition interp_step :: "zglob \<Rightarrow> zinterp \<Rightarrow> zinterp res" where
  "interp_step G st =
     (case i_e st of
        VSymbol s \<Rightarrow>
          rbind (env_lookup (i_env st) (VSymbol s)) (\<lambda>val.
            if val = VUndefined then Inl (Fail1 ''undefined'' (VSymbol s)) else Inr (st\<lparr>i_v := val\<rparr>))
      | VPair rator d \<Rightarrow> interp_pair (g_forms G) rator d st
      | e \<Rightarrow> Inr (st\<lparr>i_v := e\<rparr>))"

section \<open>Application\<close>

text \<open>Binding the formals of a closure, until one of the two lists ends.\<close>

fun bind_formals :: "zval \<Rightarrow> zval \<Rightarrow> zval \<Rightarrow> (zval \<times> zval \<times> zval) res" where
  "bind_formals (VPair x formals) args env =
     (if args = VNull then Inr (VPair x formals, args, env)
      else rbind (ucar args) (\<lambda>a. rbind (ucdr args) (\<lambda>rest. bind_formals formals rest (env_extend env x a))))"
| "bind_formals formals args env = Inr (formals, args, env)"

definition fail_arity :: "zinterp \<Rightarrow> zval \<Rightarrow> zval \<Rightarrow> 'a res" where
  "fail_arity st rator args =
     (case zuo_fail_arity (i_mem st) rator args of Inl x \<Rightarrow> Inl x | Inr _ \<Rightarrow> Inl (UB ''return''))"

definition apply_closure :: "zval \<Rightarrow> zval \<Rightarrow> zval \<Rightarrow> zinterp \<Rightarrow> zinterp res" where
  "apply_closure lam cenv args st =
     rbind (ucdr lam) (\<lambda>d. rbind (ucar d) (\<lambda>formals. rbind (ucdr d) (\<lambda>body. rbind (ucdr body) (\<lambda>body_d.
     rbind (if body_d \<noteq> VNull then
              rbind (ucar body) (\<lambda>a. if is_string a then Inr (a, body_d) else Inr (VFalse, body))
            else Inr (VFalse, body)) (\<lambda>(in_proc, body).
     rbind (bind_formals formals args cenv) (\<lambda>(formals, rest, env).
     let st = st\<lparr>i_in_proc := in_proc\<rparr> in
     rbind (if is_symbol formals then Inr (env_extend env formals rest)
            else if formals \<noteq> VNull \<or> rest \<noteq> VNull then fail_arity st (VClosure lam cenv) args
            else Inr env) (\<lambda>env.
     rbind (ucar body) (\<lambda>e. Inr (st\<lparr>i_e := e, i_env := env, i_v := VUndefined\<rparr>)))))))))"

definition apply_primitive :: "zglob \<Rightarrow> string \<Rightarrow> zuo_int32 \<Rightarrow> zval \<Rightarrow> zval \<Rightarrow> nat \<Rightarrow> zinterp \<Rightarrow> zinterp res" where
  "apply_primitive G p am name args cnt st =
     (if bit am (min cnt 10) then
        rbind (g_call G p \<lparr>ctx_meta_k = i_meta_k st, ctx_top_env = g_top_env G\<rparr> args (i_mem st)) (\<lambda>(v, mem).
          Inr (st\<lparr>i_v := v, i_mem := mem\<rparr>))
      else fail_arity st (VPrimitive p am name) args)"

definition apply_kernel_eval :: "zglob \<Rightarrow> zval \<Rightarrow> zinterp \<Rightarrow> zinterp res" where
  "apply_kernel_eval G args st =
     rbind (ucar args) (\<lambda>e. rbind (check_syntax (g_forms G) e) (\<lambda>_.
       Inr (st\<lparr>i_e := e, i_meta_k := (i_k st, VUndefined) # i_meta_k st, i_v := VUndefined,
               i_env := VTrie (g_top_env G), i_k := Done_K\<rparr>)))"

text \<open>
  The loop that \<^verbatim>\<open>apply\<close>, \<^verbatim>\<open>call/cc\<close> and \<^verbatim>\<open>call/prompt\<close> go around. After \<^verbatim>\<open>call/cc\<close> and \<^verbatim>\<open>call/prompt\<close> the
  argument count only allows a few more rounds, and each \<^verbatim>\<open>apply\<close> takes its arguments from
  inside the previous ones; the measure says so.
\<close>

definition apply_rank :: "zval \<Rightarrow> zval \<Rightarrow> nat \<Rightarrow> nat" where
  "apply_rank rator args cnt =
     (if rator = VApply \<and> cnt = 2 then 3 + size args
      else if rator = VCallCC \<and> cnt = 1 then (if ucar args = Inr VCallCC then 2 else 1)
      else if rator = VCallPrompt \<and> cnt = 2 then 1
      else 0)"

lemma apply_rank_le: "apply_rank rator args cnt \<le> 3 + size args"
  by (simp add: apply_rank_def)

lemma ucar_Inr: "ucar v = Inr a \<longleftrightarrow> (\<exists>d. v = VPair a d)"
  and ucdr_Inr: "ucdr v = Inr d \<longleftrightarrow> (\<exists>a. v = VPair a d)"
  by (auto simp: ucar_def ucdr_def split: zval.splits)

function apply_loop :: "zglob \<Rightarrow> zval \<Rightarrow> zval \<Rightarrow> nat \<Rightarrow> zinterp \<Rightarrow> zinterp res" where
  "apply_loop G rator args cnt st =
     (if rator = VApply then
        (if cnt \<noteq> 2 then fail_arity st VApply args
         else rbind (ucar args) (\<lambda>f. rbind (ucdr args) (\<lambda>d. rbind (ucar d) (\<lambda>al.
           if zuo_list_p al \<noteq> VTrue then Inl (Fail_Arg ''apply'' ''list'' al)
           else apply_loop G f al (length (zelems al)) st))))
      else if rator = VCallCC then
        (if cnt \<noteq> 1 then fail_arity st VCallCC args
         else rbind (ucar args) (\<lambda>f. apply_loop G f (VPair (VCont (i_k st)) VNull) cnt st))
      else if rator = VCallPrompt then
        (if cnt \<noteq> 2 then fail_arity st VCallPrompt args
         else rbind (ucar args) (\<lambda>f. rbind (ucdr args) (\<lambda>d. rbind (ucar d) (\<lambda>tag.
           if \<not> is_symbol tag then Inl (Fail1w ''call/prompt'' ''not a symbol'' tag)
           else apply_loop G f VNull 0
                  (st\<lparr>i_meta_k := (i_k st, tag) # i_meta_k st, i_k := Done_K\<rparr>)))))
      else if rator = VKernelEval then
        (if cnt \<noteq> 1 then fail_arity st VKernelEval args else apply_kernel_eval G args st)
      else case rator of
        VClosure lam cenv \<Rightarrow> apply_closure lam cenv args st
      | VPrimitive p am name \<Rightarrow> apply_primitive G p am name args cnt st
      | VCont k \<Rightarrow>
          (if cnt = 1 then rbind (ucar args) (\<lambda>v. Inr (st\<lparr>i_k := k, i_v := v\<rparr>))
           else fail_arity st rator args)
      | _ \<Rightarrow> Inl (Fail1 ''not a procedure for application'' rator))"
  by pat_completeness auto
termination
proof (relation "measure (\<lambda>(G, rator, args, cnt, st). apply_rank rator args cnt)", simp, goal_cases)
  case (1 G rator args cnt st f d al)
  then show ?case
    using apply_rank_le [of f al "length (zelems al)"]
    by (auto simp: ucar_Inr ucdr_Inr apply_rank_def [of VApply])
qed (auto simp: apply_rank_def ucar_Inr ucdr_Inr)

declare apply_loop.simps [simp del]

section \<open>Continuing with a value\<close>

text \<open>The loop that turns the reversed values into the argument list.\<close>

fun collect_args :: "zval \<Rightarrow> zval \<Rightarrow> nat \<Rightarrow> (zval \<times> zval \<times> nat) res" where
  "collect_args (VPair v rest) args cnt =
     (if rest \<noteq> VNull then collect_args rest (VPair v args) (cnt + 1) else Inr (v, args, cnt))"
| "collect_args rev_vals args cnt = Inl (UB ''cdr'')"

definition continue_apply :: "zglob \<Rightarrow> zval \<Rightarrow> zval \<Rightarrow> zinterp \<Rightarrow> zinterp res" where
  "continue_apply G data env st =
     rbind (ucar data) (\<lambda>rev_vals. rbind (ucdr data) (\<lambda>exps.
     let rev_vals = VPair (i_v st) rev_vals in
     if exps = VNull then
       rbind (collect_args rev_vals VNull 0) (\<lambda>(rator, args, cnt). apply_loop G rator args cnt st)
     else
       rbind (ucar exps) (\<lambda>e. rbind (ucdr exps) (\<lambda>rest.
         let st = st\<lparr>i_e := e, i_env := env\<rparr> in
         Inr (st\<lparr>i_k := push_k Apply_Cont (VPair rev_vals rest) st, i_v := VUndefined\<rparr>)))))"

definition continue_let :: "zval \<Rightarrow> zval \<Rightarrow> zinterp \<Rightarrow> zinterp res" where
  "continue_let data env st =
     rbind (ucdr data) (\<lambda>d. rbind (ucar d) (\<lambda>e.
     rbind (ucar data) (\<lambda>a. rbind (ucar a) (\<lambda>aa. rbind (ucar aa) (\<lambda>x.
       Inr (st\<lparr>i_e := e, i_env := env_extend env x (i_v st), i_v := VUndefined\<rparr>))))))"

definition continue_begin :: "zval \<Rightarrow> zval \<Rightarrow> zinterp \<Rightarrow> zinterp res" where
  "continue_begin data env st =
     rbind (ucdr data) (\<lambda>d. rbind (ucar data) (\<lambda>e.
       let st = st\<lparr>i_e := e, i_env := env\<rparr>;
           st = (if d \<noteq> VNull then st\<lparr>i_k := push_k Begin_Cont d st\<rparr> else st)
       in Inr (st\<lparr>i_v := VUndefined\<rparr>)))"

definition continue_if :: "zval \<Rightarrow> zval \<Rightarrow> zinterp \<Rightarrow> zinterp res" where
  "continue_if data env st =
     rbind (if i_v st = VFalse then rbind (ucdr data) ucar else ucar data) (\<lambda>e.
       Inr (st\<lparr>i_e := e, i_env := env, i_v := VUndefined\<rparr>))"

definition continue_step :: "zglob \<Rightarrow> zinterp \<Rightarrow> zinterp res" where
  "continue_step G st =
     (case i_k st of
        Done_K \<Rightarrow> Inl (UB ''done'')
      | Cont tag data env in_proc k \<Rightarrow>
          (let st = st\<lparr>i_k := k, i_in_proc := in_proc\<rparr> in
           case tag of
             Apply_Cont \<Rightarrow> continue_apply G data env st
           | Let_Cont \<Rightarrow> continue_let data env st
           | Begin_Cont \<Rightarrow> continue_begin data env st
           | If_Cont \<Rightarrow> continue_if data env st))"

section \<open>The driver\<close>

datatype eval_state = Running zinterp | Finished zval zmem

definition kernel_step :: "zglob \<Rightarrow> zinterp \<Rightarrow> eval_state res" where
  "kernel_step G st =
     (if i_v st = VUndefined then rbind (interp_step G st) (\<lambda>st. Inr (Running st))
      else if i_k st = Done_K then
        (case i_meta_k st of
           [] \<Rightarrow> Inr (Finished (i_v st) (i_mem st))
         | (k, tag) # meta_k \<Rightarrow> Inr (Running (st\<lparr>i_k := k, i_meta_k := meta_k\<rparr>)))
      else rbind (continue_step G st) (\<lambda>st. Inr (Running st)))"

text \<open>
  The loop may run forever, so it takes a number of rounds; the result is absent when the
  rounds are used up.
\<close>

fun kernel_run :: "zglob \<Rightarrow> nat \<Rightarrow> zinterp \<Rightarrow> (zval \<times> zmem) res option" where
  "kernel_run G 0 st = None"
| "kernel_run G (Suc n) st =
     (case kernel_step G st of
        Inl x \<Rightarrow> Some (Inl x)
      | Inr (Finished v mem) \<Rightarrow> Some (Inr (v, mem))
      | Inr (Running st') \<Rightarrow> kernel_run G n st')"

definition kernel_start :: "zglob \<Rightarrow> zval \<Rightarrow> zval \<Rightarrow> zmem \<Rightarrow> zinterp" where
  "kernel_start G e in_proc mem =
     \<lparr>i_e = e, i_v = VUndefined, i_env = VTrie (g_top_env G), i_k = Done_K, i_in_proc = in_proc,
      i_meta_k = [], i_mem = mem\<rparr>"

definition zuo_kernel_eval :: "zglob \<Rightarrow> nat \<Rightarrow> zval \<Rightarrow> zval \<Rightarrow> zmem \<Rightarrow> (zval \<times> zmem) res option" where
  "zuo_kernel_eval G n e in_proc mem =
     (case check_syntax (g_forms G) e of
        Inl x \<Rightarrow> Some (Inl x)
      | Inr _ \<Rightarrow> kernel_run G n (kernel_start G e in_proc mem))"

end
