(* ===== verification/Zuo_Safety.thy ===== *)
theory Zuo_Safety
  imports Zuo_Interp
begin

text \<open>
  Well-formed interpreter states, and the proof that evaluation keeps them and never ends in
  undefined behaviour. The primitives enter through locale \<open>safe_primitives\<close>: called with as many
  well-formed arguments as their arity mask allows, they return a well-formed value and memory
  or stop with an error report.
\<close>

section \<open>Well-formed values, environments and continuations\<close>

text \<open>
  The parameters are the symbols of the core forms, the registered primitives with their
  arity masks, and the number of variables allocated so far. The undefined object is not a
  value: the interpreter uses it to mean that there is none.
\<close>

inductive val_ok :: "kforms \<Rightarrow> (string \<Rightarrow> zuo_int32 \<Rightarrow> bool) \<Rightarrow> nat \<Rightarrow> zval \<Rightarrow> bool"
  and env_ok :: "kforms \<Rightarrow> (string \<Rightarrow> zuo_int32 \<Rightarrow> bool) \<Rightarrow> nat \<Rightarrow> zval \<Rightarrow> bool"
  and cont_ok :: "kforms \<Rightarrow> (string \<Rightarrow> zuo_int32 \<Rightarrow> bool) \<Rightarrow> nat \<Rightarrow> cont \<Rightarrow> bool"
  for F :: kforms and R :: "string \<Rightarrow> zuo_int32 \<Rightarrow> bool" and n :: nat where
  val_atom: "v \<in> {VTrue, VFalse, VNull, VEof, VVoid, VApply, VCallCC, VCallPrompt, VKernelEval} \<Longrightarrow> val_ok F R n v"
| val_integer: "val_ok F R n (VInteger i)"
| val_string: "val_ok F R n (VString s)"
| val_symbol: "val_ok F R n (VSymbol y)"
| val_handle: "val_ok F R n (VHandle h)"
| val_pair: "val_ok F R n a \<Longrightarrow> val_ok F R n d \<Longrightarrow> val_ok F R n (VPair a d)"
| val_trie: "trie_shape t \<Longrightarrow> (\<And>v. v \<in> set_trie t \<Longrightarrow> val_ok F R n v) \<Longrightarrow> val_ok F R n (VTrie t)"
| val_variable: "i < n \<Longrightarrow> val_ok F R n (VVariable i)"
| val_primitive: "R p am \<Longrightarrow> val_ok F R n (VPrimitive p am (VSymbol y))"
| val_opaque: "val_ok F R n t \<Longrightarrow> val_ok F R n v \<Longrightarrow> val_ok F R n (VOpaque t v)"
| val_closure: "val_ok F R n d \<Longrightarrow> syntax_ok F (VPair (VSymbol (f_lambda F)) d) \<Longrightarrow>
    f_lambda F \<noteq> f_quote F \<Longrightarrow> f_lambda F \<noteq> f_if F \<Longrightarrow> env_ok F R n env \<Longrightarrow>
    val_ok F R n (VClosure (VPair (VSymbol (f_lambda F)) d) env)"
| val_cont: "cont_ok F R n k \<Longrightarrow> val_ok F R n (VCont k)"
| env_top: "trie_shape t \<Longrightarrow> (\<And>v. v \<in> set_trie t \<Longrightarrow> val_ok F R n v) \<Longrightarrow> env_ok F R n (VTrie t)"
| env_bind: "val_ok F R n v \<Longrightarrow> env_ok F R n env \<Longrightarrow> env_ok F R n (VPair (VPair (VSymbol y) v) env)"
| cont_done: "cont_ok F R n Done_K"
| cont_if: "val_ok F R n a \<Longrightarrow> syntax_ok F a \<Longrightarrow> val_ok F R n b \<Longrightarrow> syntax_ok F b \<Longrightarrow>
    env_ok F R n env \<Longrightarrow> cont_ok F R n k \<Longrightarrow>
    cont_ok F R n (Cont If_Cont (VPair a (VPair b VNull)) env in_proc k)"
| cont_let: "val_ok F R n body \<Longrightarrow> syntax_ok F body \<Longrightarrow> env_ok F R n env \<Longrightarrow> cont_ok F R n k \<Longrightarrow>
    cont_ok F R n (Cont Let_Cont (VPair (VPair (VPair (VSymbol y) rhs) VNull) (VPair body VNull)) env in_proc k)"
| cont_begin: "es \<noteq> [] \<Longrightarrow> (\<And>e. e \<in> set es \<Longrightarrow> val_ok F R n e) \<Longrightarrow> (\<And>e. e \<in> set es \<Longrightarrow> syntax_ok F e) \<Longrightarrow>
    env_ok F R n env \<Longrightarrow> cont_ok F R n k \<Longrightarrow> cont_ok F R n (Cont Begin_Cont (zlist es) env in_proc k)"
| cont_apply: "(\<And>v. v \<in> set vs \<Longrightarrow> val_ok F R n v) \<Longrightarrow> (\<And>e. e \<in> set es \<Longrightarrow> val_ok F R n e) \<Longrightarrow>
    (\<And>e. e \<in> set es \<Longrightarrow> syntax_ok F e) \<Longrightarrow> env_ok F R n env \<Longrightarrow> cont_ok F R n k \<Longrightarrow>
    cont_ok F R n (Cont Apply_Cont (VPair (zlist vs) (zlist es)) env in_proc k)"

inductive_simps val_ok_simps [simp]:
  "val_ok F R n VUndefined" "val_ok F R n VTrue" "val_ok F R n VFalse" "val_ok F R n VNull" "val_ok F R n VEof"
  "val_ok F R n VVoid" "val_ok F R n VApply" "val_ok F R n VCallCC" "val_ok F R n VCallPrompt"
  "val_ok F R n VKernelEval" "val_ok F R n (VInteger i)" "val_ok F R n (VString s)" "val_ok F R n (VSymbol y)"
  "val_ok F R n (VHandle h)" "val_ok F R n (VPair a d)" "val_ok F R n (VTrie t)" "val_ok F R n (VVariable i)"
  "val_ok F R n (VPrimitive p am name)" "val_ok F R n (VOpaque t v)" "val_ok F R n (VClosure lam env)"
  "val_ok F R n (VCont k)"

inductive_cases env_okE: "env_ok F R n env"
inductive_cases cont_okE: "cont_ok F R n (Cont tag data env in_proc k)"

lemma cont_done_ok [simp]: "cont_ok F R n Done_K"
  by (rule cont_done)

lemma val_ok_zlist [simp]: "val_ok F R n (zlist vs) \<longleftrightarrow> (\<forall>v\<in>set vs. val_ok F R n v)"
  by (induction vs) auto

lemma val_ok_zelems: "val_ok F R n v \<Longrightarrow> x \<in> set (zelems v) \<Longrightarrow> val_ok F R n x"
  by (induction v rule: zelems.induct) auto

text \<open>Allocating variables keeps everything well formed.\<close>

lemma ok_mono:
  assumes "n \<le> n'"
  shows "val_ok F R n v \<Longrightarrow> val_ok F R n' v"
    and "env_ok F R n env \<Longrightarrow> env_ok F R n' env"
    and "cont_ok F R n k \<Longrightarrow> cont_ok F R n' k"
proof (induction rule: val_ok_env_ok_cont_ok.inducts)
  case (val_variable i)
  then show ?case using assms by simp
qed (auto intro: val_ok_env_ok_cont_ok.intros)

lemma val_ok_printable: "val_ok F R n v \<Longrightarrow> printable v"
proof (induction v rule: measure_induct_rule [of size])
  case (less v)
  show ?case
  proof (cases v)
    case (VPair a d)
    with less show ?thesis by simp
  next
    case (VTrie t)
    with less have "trie_shape t" "\<And>x. x \<in> set_trie t \<Longrightarrow> printable x"
      using set_trie_size [of _ t size] by (auto simp: less_Suc_eq)
    with VTrie show ?thesis by (simp add: printable_trie)
  qed (auto intro: printable_atom)
qed

lemma env_lookup_ok:
  assumes "env_ok F R n env"
  shows "\<exists>v. env_lookup env (VSymbol s) = Inr v \<and> (v = VUndefined \<or> val_ok F R n v)"
  using assms
proof (induction env rule: measure_induct_rule [of size])
  case (less env)
  from less.prems show ?case
  proof (cases rule: env_ok.cases)
    case (env_top t)
    then show ?thesis
      by (auto simp: env_top_def zuo_trie_lookup_def dest: trie_shape_lookup split: option.split)
  next
    case (env_bind v env' y)
    with less.IH [of env'] show ?thesis by auto
  qed
qed

section \<open>Safe results\<close>

text \<open>
  Undefined behaviour, with three exceptions that the primitives really have: the overflow in the
  index test of \<^verbatim>\<open>string-ref\<close> and \<^verbatim>\<open>string-u32-ref\<close> (theory \<open>Zuo_Prims\<close>), which only a huge index reaches,
  the overrun of \<^verbatim>\<open>shell->strings\<close> on a line that ends in a backslash (theory \<open>Zuo_Shell\<close>), and
  \<^verbatim>\<open>string-sha256\<close>, which takes any value for a string (theory \<open>Zuo_Sha256\<close>).
\<close>

definition bad :: "zerror \<Rightarrow> bool" where
  "bad e \<longleftrightarrow> (\<exists>w. e = UB w \<and> w \<notin> {''index overflow'', ''shell overrun'', ''string-sha256''})"

lemma bad_simps [simp]:
  "\<not> bad (Fail_Arg a b c)" "\<not> bad (Fail1w a b c)" "\<not> bad (Fail1 a c)" "\<not> bad (Fail a)" "\<not> bad (Fail_Error c)"
  "\<not> bad (Bad_Form c)" "\<not> bad (Read_Fail a pos)" "\<not> bad (Fail_Var_Undefined c)" "\<not> bad (Fail_Arity c d)"
  "\<not> bad (Exit i)" "\<not> bad (Panic a)" "bad (UB w) \<longleftrightarrow> w \<noteq> ''index overflow'' \<and> w \<noteq> ''shell overrun'' \<and> w \<noteq> ''string-sha256''"
  by (simp_all add: bad_def)

definition safe :: "('a \<Rightarrow> bool) \<Rightarrow> 'a res \<Rightarrow> bool" where
  "safe P r \<longleftrightarrow> (case r of Inl e \<Rightarrow> \<not> bad e | Inr x \<Rightarrow> P x)"

lemma safe_simps [simp]: "safe P (Inr x) = P x" "safe P (Inl e) = (\<not> bad e)"
  by (simp_all add: safe_def)

lemma safe_rbind: "safe P (rbind m f) \<longleftrightarrow> safe (\<lambda>x. safe P (f x)) m"
  by (cases m) simp_all

lemma safe_mono: "safe P r \<Longrightarrow> (\<And>x. P x \<Longrightarrow> Q x) \<Longrightarrow> safe Q r"
  by (cases r) simp_all

section \<open>Arity errors\<close>

lemma printed_bytes:
  "val_ok F R n v \<Longrightarrow> \<exists>s. zuo_to_string_bytes mode mem v = Some s"
proof (induction v rule: measure_induct_rule [of size])
  case (less v)
  note out = zuo_out_printable [OF val_ok_printable]
  show ?case
  proof (cases "is_pair v")
    case True
    then obtain a d where v: "v = VPair a d" by (auto simp: is_pair_iff)
    with less.prems less.IH [of d] out [of F R n a mode mem] show ?thesis by auto
  next
    case False
    then have "zuo_to_string_bytes mode mem v = (if v = VNull then Some [] else zuo_out mode mem v)"
      by (cases v) simp_all
    with out [OF less.prems, of mode mem] show ?thesis by simp
  qed
qed

lemma printed_ok:
  "val_ok F R n v \<Longrightarrow> \<exists>s. printed (zuo_to_string mode mem v) = Inr (VString s)"
  using printed_bytes [of F R n v mode mem] by (auto simp: zuo_to_string_def printed_def)

lemma zuo_list_p_zlist [simp]: "zuo_list_p (zlist vs) = VTrue"
  by (induction vs) auto

lemma zuo_list_p_iff: "zuo_list_p v = VTrue \<longleftrightarrow> (\<exists>vs. v = zlist vs)"
proof
  show "zuo_list_p v = VTrue \<Longrightarrow> \<exists>vs. v = zlist vs"
    by (induction v rule: zuo_list_p.induct) (auto intro: exI [of _ "[]"] exI [of _ "_ # _"] simp: zbool_def)
qed auto

lemma zuo_arity_error_safe:
  assumes "name = VFalse \<or> is_string name" "val_ok F R n args"
  shows "\<exists>e. zuo_arity_error mem name args = Inl e \<and> \<not> bad e"
proof -
  let ?name = "if name = VFalse then VString ''[procedure]'' else name"
  obtain s where s: "(if args = VNull then Inr (VString ''[no arguments]'') else printed (zuo_tilde_v mem args))
      = Inr (VString s)"
    using printed_ok [OF assms(2), of Print_Mode mem] by (cases "args = VNull") (auto simp: zuo_tilde_v_def)
  have "val_ok F R n (zlist [?name, VString '': wrong number of arguments: '', VString s])"
    using assms(1) by (auto simp: is_string_iff)
  then obtain t where t: "printed (zuo_tilde_a mem (zlist [?name, VString '': wrong number of arguments: '', VString s]))
      = Inr (VString t)"
    using printed_ok [of F R n _ Display_Mode mem] unfolding zuo_tilde_a_def by blast
  have "\<not> (name \<noteq> VFalse \<and> \<not> is_string name)" using assms(1) by auto
  then have "zuo_arity_error mem name args =
      (if zuo_list_p args \<noteq> VTrue then Inl (Fail_Arg ''arity-error'' ''list'' args) else Inl (Fail (cstr t)))"
    unfolding zuo_arity_error_def Let_def s rbind_simps t by (simp only: if_False zval.case)
  then show ?thesis by simp
qed

section \<open>Checked expressions\<close>

lemma syntax_ok_pair:
  "syntax_ok F (VPair rator d) \<longleftrightarrow> (\<exists>es. form_subs F rator d = Some es \<and> (\<forall>x\<in>set es. syntax_ok F x))"
proof
  assume "syntax_ok F (VPair rator d)"
  then show "\<exists>es. form_subs F rator d = Some es \<and> (\<forall>x\<in>set es. syntax_ok F x)"
    by (cases rule: syntax_okE) (auto simp: syntax_subs_def split: option.splits)
next
  assume "\<exists>es. form_subs F rator d = Some es \<and> (\<forall>x\<in>set es. syntax_ok F x)"
  then show "syntax_ok F (VPair rator d)"
    by (elim exE conjE) (rule syntax_okI, simp add: syntax_subs_def, blast)
qed

definition expr_ok :: "kforms \<Rightarrow> (string \<Rightarrow> zuo_int32 \<Rightarrow> bool) \<Rightarrow> nat \<Rightarrow> zval \<Rightarrow> bool" where
  "expr_ok F R n e \<longleftrightarrow> val_ok F R n e \<and> syntax_ok F e"

definition forms_distinct :: "kforms \<Rightarrow> bool" where
  "forms_distinct F \<longleftrightarrow> distinct [f_quote F, f_lambda F, f_let F, f_begin F, f_if F]"

lemma length_zelems_3:
  "zend d = VNull \<Longrightarrow> length (zelems d) = 3 \<Longrightarrow> \<exists>a b c. d = zlist [a, b, c]"
  by (drule zlist_eqI) (auto simp: numeral_3_eq_3 length_Suc_conv)

lemma length_zelems_1: "zend d = VNull \<Longrightarrow> length (zelems d) = 1 \<Longrightarrow> \<exists>a. d = zlist [a]"
  by (drule zlist_eqI) (auto simp: length_Suc_conv)

lemma zlist_neq_empty: "zend d = VNull \<Longrightarrow> zelems d \<noteq> [] \<Longrightarrow> \<exists>a es. d = zlist (a # es)"
  by (drule zlist_eqI) (auto simp: neq_Nil_conv)

text \<open>What a checked pair looks like, by its first element.\<close>

lemma syntax_ok_forms:
  assumes "syntax_ok F (VPair rator d)"
  shows "rator = VSymbol (f_quote F) \<Longrightarrow> \<exists>a. d = zlist [a]"
    and "rator = VSymbol (f_if F) \<Longrightarrow> rator \<noteq> VSymbol (f_quote F) \<Longrightarrow>
      \<exists>a b c. d = zlist [a, b, c] \<and> syntax_ok F a \<and> syntax_ok F b \<and> syntax_ok F c"
    and "rator = VSymbol (f_lambda F) \<Longrightarrow> rator \<notin> {VSymbol (f_quote F), VSymbol (f_if F)} \<Longrightarrow>
      (\<exists>formals body. d = zlist [formals, body] \<and> formals_ok formals \<and> syntax_ok F body) \<or>
      (\<exists>formals name body. d = zlist [formals, VString name, body] \<and> formals_ok formals \<and> syntax_ok F body)"
    and "rator = VSymbol (f_let F) \<Longrightarrow> rator \<notin> {VSymbol (f_quote F), VSymbol (f_if F), VSymbol (f_lambda F)} \<Longrightarrow>
      \<exists>x rhs body. d = zlist [zlist [zlist [VSymbol x, rhs]], body] \<and> syntax_ok F rhs \<and> syntax_ok F body"
    and "rator = VSymbol (f_begin F) \<Longrightarrow>
      rator \<notin> {VSymbol (f_quote F), VSymbol (f_if F), VSymbol (f_lambda F), VSymbol (f_let F)} \<Longrightarrow>
      \<exists>a es. d = zlist (a # es) \<and> (\<forall>x\<in>set (a # es). syntax_ok F x)"
    and "rator \<notin> {VSymbol (f_quote F), VSymbol (f_if F), VSymbol (f_lambda F), VSymbol (f_let F), VSymbol (f_begin F)} \<Longrightarrow>
      \<exists>es. d = zlist es \<and> (\<forall>x\<in>set (rator # es). syntax_ok F x)"
proof -
  obtain es where es: "form_subs F rator d = Some es" "\<forall>x\<in>set es. syntax_ok F x"
    using assms by (auto simp: syntax_ok_pair)
  { assume "rator = VSymbol (f_quote F)"
    with es(1) length_zelems_1 show "\<exists>a. d = zlist [a]"
      by (simp add: form_subs_def Let_def split: if_split_asm) }
  { assume "rator = VSymbol (f_if F)" "rator \<noteq> VSymbol (f_quote F)"
    then have "zend d = VNull" "length (zelems d) = 3" "es = zelems d"
      using es(1) by (simp_all add: form_subs_def Let_def split: if_split_asm)
    with es(2) length_zelems_3 [of d] 
    show "\<exists>a b c. d = zlist [a, b, c] \<and> syntax_ok F a \<and> syntax_ok F b \<and> syntax_ok F c" by auto }
  { assume "rator = VSymbol (f_lambda F)" "rator \<notin> {VSymbol (f_quote F), VSymbol (f_if F)}"
    then have "lambda_subs d = Some es"
      using es(1) by (simp add: form_subs_def Let_def split: if_split_asm)
    then show "(\<exists>formals body. d = zlist [formals, body] \<and> formals_ok formals \<and> syntax_ok F body) \<or>
      (\<exists>formals name body. d = zlist [formals, VString name, body] \<and> formals_ok formals \<and> syntax_ok F body)"
      using es(2) by (elim lambda_subs_Some) auto }
  { assume "rator = VSymbol (f_let F)" "rator \<notin> {VSymbol (f_quote F), VSymbol (f_if F), VSymbol (f_lambda F)}"
    then have "let_subs d = Some es"
      using es(1) by (simp add: form_subs_def Let_def split: if_split_asm)
    then show "\<exists>x rhs body. d = zlist [zlist [zlist [VSymbol x, rhs]], body] \<and> syntax_ok F rhs \<and> syntax_ok F body"
      using es(2) by (elim let_subs_Some) auto }
  { assume "rator = VSymbol (f_begin F)"
      "rator \<notin> {VSymbol (f_quote F), VSymbol (f_if F), VSymbol (f_lambda F), VSymbol (f_let F)}"
    then have "zend d = VNull" "zelems d \<noteq> []" "es = rev (zelems d)"
      using es(1) by (simp_all add: form_subs_def Let_def split: if_split_asm)
    with es(2) zlist_neq_empty [of d] show "\<exists>a es. d = zlist (a # es) \<and> (\<forall>x\<in>set (a # es). syntax_ok F x)" by auto }
  { assume "rator \<notin> {VSymbol (f_quote F), VSymbol (f_if F), VSymbol (f_lambda F), VSymbol (f_let F), VSymbol (f_begin F)}"
    then have "zend d = VNull" "es = rev (rator # zelems d)"
      using es(1) by (simp_all add: form_subs_def Let_def split: if_split_asm)
    with es(2) zlist_eqI [of d] show "\<exists>es. d = zlist es \<and> (\<forall>x\<in>set (rator # es). syntax_ok F x)"
      by (intro exI [of _ "zelems d"]) auto }
qed

lemma fail_arity_safe:
  assumes "val_ok F R n rator" "val_ok F R n args" "forms_distinct F"
  shows "safe P (fail_arity st rator args)"
proof -
  have name: "safe P (case zuo_arity_error (i_mem st) name args of Inl x \<Rightarrow> Inl x | Inr _ \<Rightarrow> Inl (UB ''return''))"
    if "name = VFalse \<or> is_string name" for name
    using zuo_arity_error_safe [OF that assms(2), of "i_mem st"] by auto
  show ?thesis
  proof (cases rator)
    case (VClosure lam env)
    with assms(1) obtain d where lam: "lam = VPair (VSymbol (f_lambda F)) d" "syntax_ok F lam" by auto
    with syntax_ok_forms(3) [of F "VSymbol (f_lambda F)" d] assms(3)
    consider formals body where "d = zlist [formals, body]" | formals s body where "d = zlist [formals, VString s, body]"
      by (auto simp: forms_distinct_def)
    then show ?thesis
      by cases (use VClosure lam(1) in \<open>simp_all add: fail_arity_def zuo_fail_arity_def name\<close>)
  qed (use assms(1) in \<open>auto simp: fail_arity_def zuo_fail_arity_def name\<close>)
qed

section \<open>Well-formed states\<close>

definition mem_ok :: "kforms \<Rightarrow> (string \<Rightarrow> zuo_int32 \<Rightarrow> bool) \<Rightarrow> zmem \<Rightarrow> bool" where
  "mem_ok F R mem \<longleftrightarrow> symtab_ok (mem_symtab mem)
     \<and> (\<forall>x\<in>set (mem_vars mem). var_val x = VUndefined \<or> val_ok F R (length (mem_vars mem)) (var_val x))"

definition top_ok :: "kforms \<Rightarrow> (string \<Rightarrow> zuo_int32 \<Rightarrow> bool) \<Rightarrow> zval trie \<Rightarrow> bool" where
  "top_ok F R t \<longleftrightarrow> trie_shape t \<and> (\<forall>v\<in>set_trie t. val_ok F R 0 v)"

lemma top_ok_env: "top_ok F R t \<Longrightarrow> env_ok F R n (VTrie t) \<and> val_ok F R n (VTrie t)"
  using ok_mono(1) [of 0 n] by (auto simp: top_ok_def intro!: val_ok_env_ok_cont_ok.env_top)

definition state_ok :: "kforms \<Rightarrow> (string \<Rightarrow> zuo_int32 \<Rightarrow> bool) \<Rightarrow> zinterp \<Rightarrow> bool" where
  "state_ok F R st \<longleftrightarrow>
     (let n = length (mem_vars (i_mem st)) in
      mem_ok F R (i_mem st) \<and> cont_ok F R n (i_k st) \<and> (\<forall>p\<in>set (i_meta_k st). cont_ok F R n (fst p))
      \<and> (if i_v st = VUndefined then expr_ok F R n (i_e st) \<and> env_ok F R n (i_env st)
         else val_ok F R n (i_v st)))"

text \<open>What one primitive must guarantee.\<close>

definition call_safe :: "kforms \<Rightarrow> (string \<Rightarrow> zuo_int32 \<Rightarrow> bool) \<Rightarrow> zmem \<Rightarrow> (zval \<times> zmem) res \<Rightarrow> bool" where
  "call_safe F R mem r \<longleftrightarrow>
     safe (\<lambda>(v, mem'). mem_ok F R mem' \<and> length (mem_vars mem) \<le> length (mem_vars mem')
             \<and> val_ok F R (length (mem_vars mem')) v) r"

locale safe_primitives =
  fixes G :: zglob
    and R :: "string \<Rightarrow> zuo_int32 \<Rightarrow> bool"
  assumes distinct_forms: "forms_distinct (g_forms G)"
    and top_env: "top_ok (g_forms G) R (g_top_env G)"
    and call_contract: "R p am \<Longrightarrow> bit am (min (length args) 10) \<Longrightarrow> mem_ok (g_forms G) R mem \<Longrightarrow>
      (\<forall>a\<in>set args. val_ok (g_forms G) R (length (mem_vars mem)) a) \<Longrightarrow>
      call_safe (g_forms G) R mem (g_call G p \<lparr>ctx_meta_k = mk, ctx_top_env = g_top_env G\<rparr> (zlist args) mem)"
begin

abbreviation F :: kforms where "F \<equiv> g_forms G"

abbreviation vars :: "zinterp \<Rightarrow> nat" where "vars st \<equiv> length (mem_vars (i_mem st))"

text \<open>The part of a state that application does not touch until it succeeds.\<close>

definition base_ok :: "zinterp \<Rightarrow> bool" where
  "base_ok st \<longleftrightarrow> mem_ok F R (i_mem st) \<and> cont_ok F R (vars st) (i_k st)
     \<and> (\<forall>p\<in>set (i_meta_k st). cont_ok F R (vars st) (fst p))"

lemma state_ok_base: "state_ok F R st \<longleftrightarrow> base_ok st \<and>
    (if i_v st = VUndefined then expr_ok F R (vars st) (i_e st) \<and> env_ok F R (vars st) (i_env st)
     else val_ok F R (vars st) (i_v st))"
  by (auto simp: state_ok_def base_ok_def Let_def)

lemma val_not_undefined: "val_ok F R n v \<Longrightarrow> v \<noteq> VUndefined"
  by auto

lemma interp_pair_safe:
  assumes "base_ok st" "val_ok F R (vars st) (VPair rator d)" "syntax_ok F (VPair rator d)"
    "i_e st = VPair rator d" "env_ok F R (vars st) (i_env st)" "i_v st = VUndefined"
  shows "safe (state_ok F R) (interp_pair F rator d st)"
proof -
  note forms = syntax_ok_forms [OF assms(3)]
  have neq: "f_lambda F \<noteq> f_quote F" "f_lambda F \<noteq> f_if F" using distinct_forms by (auto simp: forms_distinct_def)
  have k: "cont_ok F R (vars st) (i_k st)" using assms(1) by (simp add: base_ok_def)
  have push: "base_ok (st\<lparr>i_e := e, i_k := k'\<rparr>)" if "cont_ok F R (vars st) k'" for e k'
    using assms(1) that by (simp add: base_ok_def)
  have val: "base_ok (st\<lparr>i_v := v\<rparr>)" for v using assms(1) by (simp add: base_ok_def)
  consider (quote) "rator = VSymbol (f_quote F)"
    | (ifs) "rator = VSymbol (f_if F)" "rator \<noteq> VSymbol (f_quote F)"
    | (lam) "rator = VSymbol (f_lambda F)" "rator \<notin> {VSymbol (f_quote F), VSymbol (f_if F)}"
    | (lets) "rator = VSymbol (f_let F)" "rator \<notin> {VSymbol (f_quote F), VSymbol (f_if F), VSymbol (f_lambda F)}"
    | (seq) "rator = VSymbol (f_begin F)"
        "rator \<notin> {VSymbol (f_quote F), VSymbol (f_if F), VSymbol (f_lambda F), VSymbol (f_let F)}"
    | (app) "rator \<notin> {VSymbol (f_quote F), VSymbol (f_if F), VSymbol (f_lambda F), VSymbol (f_let F), VSymbol (f_begin F)}"
    by blast
  then show ?thesis
  proof cases
    case quote
    with forms(1) assms(2) val show ?thesis
      by (auto simp: interp_pair_def state_ok_base dest: val_not_undefined)
  next
    case ifs
    then obtain a b c where d: "d = zlist [a, b, c]" "syntax_ok F a" "syntax_ok F b" "syntax_ok F c"
      using forms(2) by blast
    then have "cont_ok F R (vars st) (push_k If_Cont (zlist [b, c]) st)"
      using assms(2,5) k by (auto simp: push_k_def intro!: cont_if)
    with push [OF this] ifs d assms(2,5,6) show ?thesis
      by (simp add: interp_pair_def state_ok_base expr_ok_def)
  next
    case lam
    have "val_ok F R (vars st) (VClosure (VPair rator d) (i_env st))"
      using lam(1) assms(2,3,5) neq by (auto intro!: val_closure)
    with lam val assms(4) show ?thesis by (simp add: interp_pair_def state_ok_base)
  next
    case lets
    then obtain x rhs body where d: "d = zlist [zlist [zlist [VSymbol x, rhs]], body]"
      "syntax_ok F rhs" "syntax_ok F body" using forms(4) by blast
    then have "cont_ok F R (vars st) (push_k Let_Cont d st)"
      using assms(2,5) k by (auto simp: push_k_def intro!: cont_let)
    with push [OF this] lets d assms(2,5,6) show ?thesis
      by (simp add: interp_pair_def state_ok_base expr_ok_def)
  next
    case seq
    then obtain a es where d: "d = zlist (a # es)" "\<forall>x\<in>set (a # es). syntax_ok F x" using forms(5) by blast
    then have "es \<noteq> [] \<Longrightarrow> cont_ok F R (vars st) (push_k Begin_Cont (zlist es) st)"
      using assms(2,5) k by (auto simp: push_k_def intro!: cont_begin)
    with push seq d assms(1,2,5,6) show ?thesis
      by (auto simp: interp_pair_def state_ok_base expr_ok_def base_ok_def)
  next
    case app
    then obtain es where d: "d = zlist es" "\<forall>x\<in>set (rator # es). syntax_ok F x" using forms(6) by blast
    have "cont_ok F R (vars st) (push_k Apply_Cont (VPair (zlist []) (zlist es)) st)"
      unfolding push_k_def by (rule cont_apply) (use d assms(2,5) k in auto)
    with push [OF this] app d assms(2,5,6) show ?thesis
      by (simp add: interp_pair_def state_ok_base expr_ok_def)
  qed
qed

lemma interp_step_safe:
  assumes "state_ok F R st" "i_v st = VUndefined"
  shows "safe (state_ok F R) (interp_step G st)"
proof -
  have base: "base_ok st" "expr_ok F R (vars st) (i_e st)" "env_ok F R (vars st) (i_env st)"
    using assms by (simp_all add: state_ok_base)
  have val: "state_ok F R (st\<lparr>i_v := v\<rparr>)" if "val_ok F R (vars st) v" for v
    using base(1) that by (auto simp: state_ok_base base_ok_def)
  show ?thesis
  proof (cases "i_e st")
    case (VSymbol s)
    with env_lookup_ok [OF base(3), of s] val show ?thesis by (auto simp: interp_step_def)
  next
    case (VPair rator d)
    with interp_pair_safe [OF base(1) _ _ VPair base(3) assms(2)] base(2) show ?thesis
      by (simp add: interp_step_def expr_ok_def)
  qed (use base(2) val in \<open>auto simp: interp_step_def expr_ok_def\<close>)
qed

text \<open>Application.\<close>

lemma bind_formals_safe:
  assumes "formals_ok formals" "\<forall>a\<in>set args. val_ok F R n a" "env_ok F R n env"
  shows "\<exists>formals' args' env'. bind_formals formals (zlist args) env = Inr (formals', zlist args', env')
    \<and> formals_ok formals' \<and> (\<forall>a\<in>set args'. val_ok F R n a) \<and> env_ok F R n env'"
  using assms
proof (induction "zelems formals" arbitrary: formals args env)
  case Nil
  then have "\<not> is_pair formals" by (cases formals) auto
  then have "bind_formals formals (zlist args) env = Inr (formals, zlist args, env)" by (cases formals) auto
  with Nil show ?case by blast
next
  case (Cons x xs)
  from Cons.hyps(2) obtain fs where f: "formals = VPair x fs" "xs = zelems fs" by (cases formals) auto
  with Cons.prems(1) obtain y where y: "x = VSymbol y" "formals_ok fs"
    by (auto simp: formals_ok_def is_symbol_iff)
  show ?case
  proof (cases args)
    case Nil
    with f Cons.prems show ?thesis by (intro exI [of _ formals] exI [of _ "[]"] exI [of _ env]) simp
  next
    case (Cons a as')
    have env': "env_ok F R n (env_extend env x a)"
      unfolding env_extend_def y(1) using Cons.prems Cons by (intro env_bind) auto
    show ?thesis
      using Cons.hyps(1) [OF f(2) y(2) _ env', of as'] Cons.prems Cons f by simp
  qed
qed

lemma apply_closure_safe:
  assumes "base_ok st" "val_ok F R (vars st) (VClosure lam cenv)" "\<forall>a\<in>set args. val_ok F R (vars st) a"
  shows "safe (state_ok F R) (apply_closure lam cenv (zlist args) st)"
proof -
  obtain d where lam: "lam = VPair (VSymbol (f_lambda F)) d" "val_ok F R (vars st) d" "syntax_ok F lam"
    and env: "env_ok F R (vars st) cenv" using assms(2) by auto
  have argsv: "val_ok F R (vars st) (zlist args)" using assms(3) by simp
  obtain formals body name where d: "formals_ok formals" "expr_ok F R (vars st) body"
    and body: "\<And>k :: zval \<Rightarrow> zval \<times> zval \<Rightarrow> zinterp res. rbind (ucdr lam) (\<lambda>d. rbind (ucar d) (\<lambda>f. rbind (ucdr d) (\<lambda>b. rbind (ucdr b) (\<lambda>bd.
      rbind (if bd \<noteq> VNull then rbind (ucar b) (\<lambda>a. if is_string a then Inr (a, bd) else Inr (VFalse, b))
            else Inr (VFalse, b)) (k f))))) = k formals (name, VPair body VNull)"
  proof -
    from syntax_ok_forms(3) [of F "VSymbol (f_lambda F)" d] lam distinct_forms
    consider f b where "d = zlist [f, b]" "formals_ok f" "syntax_ok F b"
      | f s b where "d = zlist [f, VString s, b]" "formals_ok f" "syntax_ok F b"
      by (auto simp: forms_distinct_def)
    then show thesis
    proof cases
      case 1
      then show thesis using lam by (intro that [of f b VFalse]) (auto simp: expr_ok_def)
    next
      case 2
      then show thesis using lam by (intro that [of f b "VString s"]) (auto simp: expr_ok_def)
    qed
  qed
  obtain formals' args' env' where b: "bind_formals formals (zlist args) cenv = Inr (formals', zlist args', env')"
    and ok: "formals_ok formals'" "\<forall>a\<in>set args'. val_ok F R (vars st) a" "env_ok F R (vars st) env'"
    using bind_formals_safe [OF d(1) assms(3) env] by blast
  have fin: "state_ok F R (st\<lparr>i_in_proc := name, i_e := body, i_env := en, i_v := VUndefined\<rparr>)"
    if "env_ok F R (vars st) en" for en
    using that assms(1) d(2) by (auto simp: state_ok_base base_ok_def)
  have rest: "env_ok F R (vars st) (env_extend env' formals' (zlist args'))" if "is_symbol formals'"
    using that ok(2,3) unfolding env_extend_def is_symbol_iff by (auto intro!: env_bind)
  have arity: "safe P (fail_arity (st\<lparr>i_in_proc := name\<rparr>) (VClosure lam cenv) (zlist args))" for P
    by (rule fail_arity_safe [OF assms(2) argsv distinct_forms])
  show ?thesis
    unfolding apply_closure_def body
    using fin rest ok(3) arity by (auto simp: b Let_def safe_rbind)
qed

lemma apply_primitive_safe:
  assumes "base_ok st" "val_ok F R (vars st) (VPrimitive p am name)" "\<forall>a\<in>set args. val_ok F R (vars st) a"
  shows "safe (state_ok F R) (apply_primitive G p am name (zlist args) (length args) st)"
proof (cases "bit am (min (length args) 10)")
  case True
  have "R p am" using assms(2) by auto
  from call_contract [OF this True _ assms(3), of "i_meta_k st"] assms(1)
  have call: "call_safe F R (i_mem st)
      (g_call G p \<lparr>ctx_meta_k = i_meta_k st, ctx_top_env = g_top_env G\<rparr> (zlist args) (i_mem st))"
    by (simp add: base_ok_def)
  have next_ok: "state_ok F R (st\<lparr>i_v := v, i_mem := mem\<rparr>)"
    if "mem_ok F R mem" "vars st \<le> length (mem_vars mem)" "val_ok F R (length (mem_vars mem)) v" for v mem
    using that assms(1) by (auto simp: state_ok_base base_ok_def intro: ok_mono(3))
  from call show ?thesis
    unfolding call_safe_def apply_primitive_def
    by (auto simp: True safe_rbind next_ok elim!: safe_mono)
next
  case False
  have "val_ok F R (vars st) (zlist args)" using assms(3) by simp
  from fail_arity_safe [OF assms(2) this distinct_forms] False show ?thesis
    by (simp only: apply_primitive_def if_False)
qed

lemma apply_kernel_eval_safe:
  assumes "base_ok st" "\<forall>a\<in>set args. val_ok F R (vars st) a" "length args = 1"
  shows "safe (state_ok F R) (apply_kernel_eval G (zlist args) st)"
proof -
  obtain e where args: "args = [e]" using assms(3) by (auto simp: length_Suc_conv)
  show ?thesis
  proof (cases "check_syntax F e")
    case (Inl x)
    then show ?thesis
      using check_loop_error [of F "[e]" x] args by (auto simp: apply_kernel_eval_def check_syntax_def)
  next
    case (Inr u)
    then have "syntax_ok F e" using check_loop_ok [of F "[e]"] by (simp add: check_syntax_def)
    with Inr args assms top_ok_env [OF top_env, of "vars st"] show ?thesis
      by (auto simp: apply_kernel_eval_def state_ok_base base_ok_def expr_ok_def)
  qed
qed

lemma two_args: "length args = 2 \<Longrightarrow> \<exists>a b. args = [a, b]" for args :: "zval list"
  by (auto simp: numeral_2_eq_2 length_Suc_conv)

lemma apply_loop_safe:
  assumes "base_ok st" "val_ok F R (vars st) rator" "\<forall>a\<in>set args. val_ok F R (vars st) a"
  shows "safe (state_ok F R) (apply_loop G rator (zlist args) (length args) st)"
  using assms
proof (induction "apply_rank rator (zlist args) (length args)" arbitrary: rator args st rule: less_induct)
  case less
  have arity: "safe P (fail_arity st rator (zlist args))" for P
    by (rule fail_arity_safe [OF less.prems(2) _ distinct_forms]) (simp add: less.prems(3))
  note step = apply_loop.simps [of G rator "zlist args" "length args" st]
  show ?case
  proof (cases rator)
    case VApply
    show ?thesis
    proof (cases "length args = 2")
      case True
      then obtain f l where args: "args = [f, l]" using two_args by blast
      show ?thesis
      proof (cases "\<exists>vs. l = zlist vs")
        case True
        then obtain vs where l: "l = zlist vs" by blast
        have "apply_rank f (zlist vs) (length vs) < apply_rank rator (zlist args) (length args)"
          using apply_rank_le [of f "zlist vs" "length vs"] args l VApply by (simp add: apply_rank_def [of VApply])
        with less args l have "safe (state_ok F R) (apply_loop G f (zlist vs) (length vs) st)" by simp
        with VApply args l show ?thesis unfolding step by simp
      next
        case False
        then have "zuo_list_p l \<noteq> VTrue" using zuo_list_p_iff by blast
        with VApply args show ?thesis unfolding step by simp
      qed
    qed (use VApply arity step in simp)
  next
    case VCallCC
    show ?thesis
    proof (cases "length args = 1")
      case True
      then obtain f where args: "args = [f]" by (auto simp: length_Suc_conv)
      have "apply_rank f (zlist [VCont (i_k st)]) 1 < apply_rank rator (zlist args) (length args)"
        using VCallCC args by (simp add: apply_rank_def)
      with less.hyps [of f "[VCont (i_k st)]" st] less.prems args
      have "safe (state_ok F R) (apply_loop G f (zlist [VCont (i_k st)]) 1 st)" by (simp add: base_ok_def)
      with VCallCC args show ?thesis unfolding step by simp
    qed (use VCallCC arity step in simp)
  next
    case VCallPrompt
    show ?thesis
    proof (cases "length args = 2")
      case True
      then obtain f tag where args: "args = [f, tag]" using two_args by blast
      let ?st = "st\<lparr>i_meta_k := (i_k st, tag) # i_meta_k st, i_k := Done_K\<rparr>"
      have "apply_rank f (zlist []) 0 < apply_rank rator (zlist args) (length args)"
        using VCallPrompt args by (simp add: apply_rank_def)
      moreover have "base_ok ?st" using less.prems(1) by (auto simp: base_ok_def)
      ultimately have "safe (state_ok F R) (apply_loop G f (zlist []) 0 ?st)"
        using less.hyps [of f "[]" ?st] less.prems args by simp
      with VCallPrompt args show ?thesis unfolding step by simp
    qed (use VCallPrompt arity step in simp)
  next
    case VKernelEval
    then show ?thesis
      using apply_kernel_eval_safe [OF less.prems(1,3)] arity [of "state_ok F R"] step by simp
  next
    case (VClosure lam cenv)
    then show ?thesis using apply_closure_safe less.prems step by simp
  next
    case (VPrimitive p am name)
    then show ?thesis using apply_primitive_safe less.prems step by simp
  next
    case (VCont k)
    show ?thesis
    proof (cases "length args = 1")
      case True
      then obtain v where "args = [v]" by (auto simp: length_Suc_conv)
      with VCont less.prems show ?thesis
        unfolding step by (auto simp: state_ok_base base_ok_def)
    qed (use VCont arity step in simp)
  qed (use step in simp_all)
qed

text \<open>Continuations.\<close>

lemma collect_args_zlist:
  "collect_args (zlist (vs @ [f])) (zlist args) k = Inr (f, zlist (rev vs @ args), k + length vs)"
proof (induction vs arbitrary: args k)
  case (Cons v vs)
  have "zlist (vs @ [f]) \<noteq> VNull" by simp
  with Cons.IH [of "v # args" "k + 1"] show ?case by simp
qed simp

lemma continue_step_safe:
  assumes "state_ok F R st" "i_v st \<noteq> VUndefined" "i_k st \<noteq> Done_K"
  shows "safe (state_ok F R) (continue_step G st)"
proof -
  obtain tag data env in_proc k where k: "i_k st = Cont tag data env in_proc k"
    using assms(3) by (cases "i_k st") auto
  have base: "base_ok st" "val_ok F R (vars st) (i_v st)"
    using assms(1,2) by (simp_all add: state_ok_base)
  then have kok: "cont_ok F R (vars st) (Cont tag data env in_proc k)" by (simp add: base_ok_def k)
  let ?st = "st\<lparr>i_k := k, i_in_proc := in_proc\<rparr>"
  have base': "base_ok ?st" if "cont_ok F R (vars st) k" using base(1) that by (simp add: base_ok_def)
  from kok show ?thesis
  proof (cases rule: cont_ok.cases)
    case (cont_if a b)
    with base base' show ?thesis
      by (auto simp: continue_step_def k continue_if_def Let_def state_ok_base base_ok_def expr_ok_def)
  next
    case (cont_let body y rhs)
    moreover from this have "env_ok F R (vars st) (env_extend env (VSymbol y) (i_v st))"
      using base(2) unfolding env_extend_def by (intro env_bind)
    ultimately show ?thesis
      using base by (auto simp: continue_step_def k continue_let_def Let_def state_ok_base base_ok_def expr_ok_def)
  next
    case (cont_begin es)
    then obtain e es' where es: "es = e # es'" by (cases es) auto
    have "cont_ok F R (vars st) (Cont Begin_Cont (zlist es') env in_proc k)" if "es' \<noteq> []"
      using that cont_begin es by (intro val_ok_env_ok_cont_ok.cont_begin) auto
    with cont_begin es base show ?thesis
      by (auto simp: continue_step_def k continue_begin_def Let_def push_k_def state_ok_base base_ok_def expr_ok_def)
  next
    case (cont_apply vs es)
    show ?thesis
    proof (cases es)
      case Nil
      let ?rev = "i_v st # vs"
      have collect: "collect_args (VPair (i_v st) (zlist vs)) VNull 0
          = Inr (last ?rev, zlist (rev (butlast ?rev)), length (butlast ?rev))"
        using collect_args_zlist [of "butlast ?rev" "last ?rev" "[]" 0] append_butlast_last_id [of ?rev] by simp
      have all: "\<forall>v\<in>set ?rev. val_ok F R (vars st) v" using base(2) cont_apply by auto
      then have "safe (state_ok F R) (apply_loop G (last ?rev) (zlist (rev (butlast ?rev))) (length (rev (butlast ?rev))) ?st)"
        using base' cont_apply last_in_set [of ?rev] in_set_butlastD [of _ ?rev]
        by (intro apply_loop_safe) (auto simp del: last.simps butlast.simps)
      with collect cont_apply Nil show ?thesis
        by (simp add: continue_step_def k continue_apply_def Let_def del: last.simps butlast.simps)
    next
      case (Cons e es')
      have "cont_ok F R (vars st) (Cont Apply_Cont (VPair (zlist (i_v st # vs)) (zlist es')) env in_proc k)"
        using cont_apply base(2) Cons by (intro val_ok_env_ok_cont_ok.cont_apply) auto
      with cont_apply Cons base show ?thesis
        by (simp add: continue_step_def k continue_apply_def Let_def push_k_def state_ok_base base_ok_def expr_ok_def)
    qed
  qed
qed

section \<open>Evaluation\<close>

lemma kernel_step_safe:
  assumes "state_ok F R st"
  shows "safe (\<lambda>r. case r of Running st' \<Rightarrow> state_ok F R st'
    | Finished v mem \<Rightarrow> mem_ok F R mem \<and> val_ok F R (length (mem_vars mem)) v) (kernel_step G st)"
proof (cases "i_v st = VUndefined")
  case True
  with interp_step_safe [OF assms True] show ?thesis by (simp add: kernel_step_def safe_rbind)
next
  case False
  show ?thesis
  proof (cases "i_k st = Done_K")
    case True
    with False assms show ?thesis
      by (auto simp: kernel_step_def state_ok_base base_ok_def split: list.split)
  next
    case k: False
    with False continue_step_safe [OF assms False k] show ?thesis by (simp add: kernel_step_def safe_rbind)
  qed
qed

lemma kernel_run_safe:
  assumes "state_ok F R st"
  shows "case kernel_run G n st of None \<Rightarrow> True
    | Some r \<Rightarrow> safe (\<lambda>(v, mem). mem_ok F R mem \<and> val_ok F R (length (mem_vars mem)) v) r"
  using assms
proof (induction n arbitrary: st)
  case (Suc n)
  from kernel_step_safe [OF Suc.prems] Suc.IH show ?case
    by (auto split: sum.split eval_state.split)
qed simp

lemma zuo_kernel_eval_safe:
  assumes "mem_ok F R mem" "val_ok F R (length (mem_vars mem)) e"
  shows "case zuo_kernel_eval G n e in_proc mem of None \<Rightarrow> True
    | Some r \<Rightarrow> safe (\<lambda>(v, mem). mem_ok F R mem \<and> val_ok F R (length (mem_vars mem)) v) r"
proof (cases "check_syntax F e")
  case (Inl x)
  then show ?thesis
    using check_loop_error [of F "[e]" x] by (auto simp: zuo_kernel_eval_def check_syntax_def)
next
  case (Inr u)
  then have "syntax_ok F e" using check_loop_ok [of F "[e]"] by (simp add: check_syntax_def)
  with assms top_ok_env [OF top_env] have "state_ok F R (kernel_start G e in_proc mem)"
    by (simp add: state_ok_base base_ok_def kernel_start_def expr_ok_def)
  from kernel_run_safe [OF this] Inr show ?thesis by (simp add: zuo_kernel_eval_def)
qed

end

end
