(* ===== verification/Zuo_Path.thy ===== *)
theory Zuo_Path
  imports Zuo_Prims
begin

text \<open>
  Paths and module paths of \<^verbatim>\<open>zuo.c\<close>, in the Unix configuration: \<^verbatim>\<open>split-path\<close>,
  \<^verbatim>\<open>build-raw-path\<close>, \<^verbatim>\<open>build-path\<close> with its resolution of dot elements, and the composition of
  module paths. The string level works on the bytes of path strings, which are nonempty
  and free of NUL; the primitives check that first.
\<close>

section \<open>Path strings\<close>

definition zuo_is_path_string :: "zval \<Rightarrow> bool" where
  "zuo_is_path_string obj = zuo_is_string_without_nul obj"

definition zuo_path_string_p :: "zval \<Rightarrow> zval" where
  "zuo_path_string_p obj = zbool (zuo_is_path_string obj)"

definition check_path_string :: "string \<Rightarrow> zval \<Rightarrow> string res" where
  "check_path_string who obj =
     (case obj of
        VString s \<Rightarrow> if zuo_is_path_string obj then Inr s else Inl (Fail_Arg who ''path string'' obj)
      | _ \<Rightarrow> Inl (Fail_Arg who ''path string'' obj))"

abbreviation path_sep :: char where "path_sep \<equiv> CHR ''/''"

definition zuo_path_is_absolute :: "string \<Rightarrow> bool" where
  "zuo_path_is_absolute p = (char_at p 0 = path_sep)"

definition zuo_relative_path_p :: "zval \<Rightarrow> zval res" where
  "zuo_relative_path_p obj =
     rbind (check_path_string ''relative-path?'' obj) (\<lambda>p. Inr (zbool (\<not> zuo_path_is_absolute p)))"

section \<open>Splitting a path\<close>

text \<open>
  The scan from the end: the index after the separator that ends the directory part, if
  there is one, and the number of trailing separators.
\<close>

fun split_scan :: "string \<Rightarrow> nat \<Rightarrow> bool \<Rightarrow> nat \<Rightarrow> nat option \<times> nat" where
  "split_scan p 0 non_sep tail_seps = (None, tail_seps)"
| "split_scan p (Suc i) non_sep tail_seps =
     (if char_at p i = path_sep then
        (if non_sep then (Some (Suc i), tail_seps) else split_scan p i non_sep (tail_seps + 1))
      else split_scan p i True tail_seps)"

definition split_path :: "string \<Rightarrow> string option \<times> string" where
  "split_path p =
     (case split_scan p (length p) False 0 of
        (Some i, tail_seps) \<Rightarrow> (Some (take i p), take (length p - i - tail_seps) (drop i p))
      | (None, tail_seps) \<Rightarrow>
          (None, if tail_seps > 0 then
                   take (length p - (if tail_seps = length p then tail_seps - 1 else tail_seps)) p
                 else p))"

definition zuo_split_path :: "zval \<Rightarrow> zval res" where
  "zuo_split_path p =
     rbind (check_path_string ''split-path'' p) (\<lambda>s.
       case split_path s of
         (Some d, b) \<Rightarrow> Inr (VPair (VString d) (VString b))
       | (None, b) \<Rightarrow> Inr (VPair VFalse (VString b)))"

definition path_ok :: "string \<Rightarrow> bool" where
  "path_ok p \<longleftrightarrow> p \<noteq> [] \<and> NUL \<notin> set p"

text \<open>The scan in terms of the string: trailing separators, then an element, then the rest.\<close>

lemma split_scan_True:
  "split_scan p i True k = (if path_sep \<in> set (take i p) \<and> i \<le> length p
     then (Some (i - length (takeWhile (\<lambda>c. c \<noteq> path_sep) (rev (take i p)))), k) else (None, k))"
  if "i \<le> length p"
  using that
proof (induction i)
  case (Suc i)
  then have take: "take (Suc i) p = take i p @ [p ! i]" by (simp add: take_Suc_conv_app_nth)
  with Suc show ?case by (auto simp: char_at_def)
qed simp

lemma split_scan_False:
  "i \<le> length p \<Longrightarrow> \<exists>j\<le>i. take i p = take j p @ replicate (i - j) path_sep \<and> (j = 0 \<or> p ! (j - 1) \<noteq> path_sep)
     \<and> split_scan p i False k = (if j = 0 then (None, k + i) else split_scan p (j - 1) True (k + (i - j)))"
proof (induction i arbitrary: k)
  case (Suc i)
  then have take: "take (Suc i) p = take i p @ [p ! i]" by (simp add: take_Suc_conv_app_nth)
  show ?case
  proof (cases "p ! i = path_sep")
    case True
    from Suc obtain j where j: "j \<le> i" "take i p = take j p @ replicate (i - j) path_sep"
      "j = 0 \<or> p ! (j - 1) \<noteq> path_sep"
      "split_scan p i False (k + 1) = (if j = 0 then (None, k + 1 + i) else split_scan p (j - 1) True (k + 1 + (i - j)))"
      using Suc.IH [of "k + 1"] by auto
    have "replicate (i - j) path_sep @ [path_sep] = replicate (Suc i - j) path_sep"
      using j(1) by (simp add: Suc_diff_le replicate_append_same)
    with j True take Suc.prems show ?thesis by (intro exI [of _ j]) (auto simp: char_at_def Suc_diff_le)
  next
    case False
    with Suc.prems show ?thesis by (intro exI [of _ "Suc i"]) (auto simp: char_at_def)
  qed
qed simp

lemma split_path_spec:
  assumes "p \<noteq> []"
  shows "case split_path p of
      (Some d, b) \<Rightarrow> (\<exists>k. p = d @ b @ replicate k path_sep) \<and> b \<noteq> [] \<and> path_sep \<notin> set b \<and> d \<noteq> [] \<and> last d = path_sep
    | (None, b) \<Rightarrow> (\<exists>k. p = b @ replicate k path_sep) \<and> b \<noteq> [] \<and> (path_sep \<notin> set b \<or> b = [path_sep])"
proof -
  obtain j where j: "j \<le> length p" "p = take j p @ replicate (length p - j) path_sep"
    "j = 0 \<or> p ! (j - 1) \<noteq> path_sep"
    "split_scan p (length p) False 0 = (if j = 0 then (None, length p) else split_scan p (j - 1) True (length p - j))"
    using split_scan_False [OF order_refl, of p 0] unfolding take_all [OF order_refl] add_0 by blast
  show ?thesis
  proof (cases "j = 0")
    case True
    then have all: "p = replicate (length p) path_sep" using j(2) by simp
    moreover obtain m where "length p = Suc m" using assms by (cases p) auto
    ultimately have p: "p = path_sep # replicate m path_sep" by simp
    have "split_path p = (None, [path_sep])"
      using j(4) True assms by (simp add: split_path_def) (simp add: p)
    with p show ?thesis by auto
  next
    case False
    let ?c = "p ! (j - 1)" let ?q = "take (j - 1) p"
    have tj: "take j p = ?q @ [?c]"
      using False j(1) by (metis One_nat_def Suc_pred less_le_trans less_Suc_eq_le not_gr_zero take_Suc_conv_app_nth lessI)
    have c: "?c \<noteq> path_sep" using j(3) False by simp
    have scan: "split_scan p (length p) False 0 = (if path_sep \<in> set ?q
        then (Some (j - 1 - length (takeWhile (\<lambda>c. c \<noteq> path_sep) (rev ?q))), length p - j) else (None, length p - j))"
      using j(1,4) False split_scan_True [of "j - 1" p] by simp
    show ?thesis
    proof (cases "path_sep \<in> set ?q")
      case True
      then obtain xs ys where q: "?q = xs @ path_sep # ys" "path_sep \<notin> set ys" using split_list_last by metis
      have tw: "takeWhile (\<lambda>c. c \<noteq> path_sep) (rev ?q) = rev ys"
      proof -
        have "\<And>c. c \<in> set (rev ys) \<Longrightarrow> c \<noteq> path_sep" using q(2) by auto
        then have "takeWhile (\<lambda>c. c \<noteq> path_sep) (rev ys @ path_sep # rev xs) = rev ys"
          by (subst takeWhile_append2) auto
        then show ?thesis unfolding q(1) by simp
      qed
      have len: "j - 1 = length xs + 1 + length ys"
        using arg_cong [OF q(1), of length] j(1) False by simp
      have p: "p = (xs @ [path_sep]) @ (ys @ [?c]) @ replicate (length p - j) path_sep"
        using j(2) tj q(1) by simp
      have b: "take (length p - Suc (length xs) - (length p - j)) (drop (Suc (length xs)) p) = ys @ [?c]"
      proof -
        have "drop (Suc (length xs)) p = (ys @ [?c]) @ replicate (length p - j) path_sep"
          using p by (metis append_eq_conv_conj length_append_singleton)
        moreover have "length p - Suc (length xs) - (length p - j) = length (ys @ [?c])"
          using len False j(1) by simp
        ultimately show ?thesis by simp
      qed
      have d: "take (Suc (length xs)) p = xs @ [path_sep]" by (subst p) simp
      have "split_path p = (Some (xs @ [path_sep]), ys @ [?c])"
        using scan True tw len b d by (simp add: split_path_def)
      with p q(2) c show ?thesis by auto
    next
      case False2: False
      have b: "take j p \<noteq> []" using False assms by simp
      have "split_path p = (None, take j p)"
        using scan False2 j(1) False by (auto simp: split_path_def)
      with j(2) tj c False2 b show ?thesis by (auto intro!: exI [of _ "length p - j"])
    qed
  qed
qed

lemma split_path_ok:
  assumes "path_ok p"
  shows "path_ok (snd (split_path p))" "fst (split_path p) = Some d \<Longrightarrow> path_ok d"
    "fst (split_path p) = Some d \<Longrightarrow> length d + length (snd (split_path p)) \<le> length p"
    "length (snd (split_path p)) \<le> length p"
proof -
  have "p \<noteq> []" "NUL \<notin> set p" using assms by (auto simp: path_ok_def)
  with split_path_spec [of p]
  show "path_ok (snd (split_path p))" "fst (split_path p) = Some d \<Longrightarrow> path_ok d"
    "fst (split_path p) = Some d \<Longrightarrow> length d + length (snd (split_path p)) \<le> length p"
    "length (snd (split_path p)) \<le> length p"
    by (auto simp: path_ok_def split: prod.splits option.splits)
qed

section \<open>Building paths\<close>

definition zuo_build_raw_path2 :: "string \<Rightarrow> string \<Rightarrow> string" where
  "zuo_build_raw_path2 pre post =
     pre @ (if char_at pre (length pre - 1) = path_sep then [] else [path_sep]) @ post"

text \<open>The elements of the relative path, in front of \<open>acc\<close>.\<close>

function explode :: "string \<Rightarrow> string list \<Rightarrow> string list" where
  "explode rel acc =
     (case split_path rel of
        (Some d, b) \<Rightarrow> if length d < length rel then explode d (b # acc) else b # acc
      | (None, b) \<Rightarrow> b # acc)"
  by pat_completeness auto
termination by (relation "measure (\<lambda>(rel, acc). length rel)") auto

declare explode.simps [simp del]

text \<open>
  The directory part of a path is always shorter than the path (\<open>split_path_ok\<close>), so the
  length test never ends the loop early.
\<close>

definition is_dot :: "string \<Rightarrow> bool" where
  "is_dot s \<longleftrightarrow> strcmp s ''.'' = 0"

definition is_dots :: "string \<Rightarrow> bool" where
  "is_dots s \<longleftrightarrow> strcmp s ''..'' = 0"

text \<open>What \<^verbatim>\<open>..\<close> does to the base: the new base, elements put back, and one more step up.\<close>

definition path_up :: "string \<Rightarrow> string list \<Rightarrow> string \<times> string list \<times> nat" where
  "path_up base exploded =
     (let (d, base_elem) = split_path base; base' = (case d of Some d \<Rightarrow> d | None \<Rightarrow> ''.'') in
      if is_dot base_elem then
        (if d = None then (base', tl exploded, 1) else (base', exploded, 0))
      else if is_dots base_elem then (base', base_elem # exploded, 0)
      else (base', tl exploded, 0))"

definition path_down :: "string \<Rightarrow> string \<Rightarrow> string" where
  "path_down base elem = (if is_dot base then elem else zuo_build_raw_path2 base elem)"

text \<open>The loop ends because the base shrinks by more than the element that is put back.\<close>

definition elem_weight :: "string \<Rightarrow> nat" where
  "elem_weight e = (if is_dot e \<or> is_dots e then 1 else 2 * length e + 3)"

definition path_weight :: "string \<Rightarrow> string list \<Rightarrow> nat" where
  "path_weight base exploded = 2 * max 1 (length base) + sum_list (map elem_weight exploded)"

lemma strcmp_eq_0: "strcmp s t = 0 \<longleftrightarrow> cbytes s = cbytes t"
  using strcmp_le_iff [of s t]
proof (induction s t rule: strcmp.induct)
  case (1 t)
  then show ?case using byte_eq_0_iff [of "hd t"] by (cases t) auto
next
  case (2 c s t)
  show ?case
  proof (cases t)
    case Nil
    then show ?thesis using byte_eq_0_iff [of c] by auto
  next
    case (Cons d t')
    with "2.IH" [OF refl] strcmp_le_iff [of s t'] show ?thesis
      using byte_eq_0_iff [of c] byte_eq_0_iff [of d] by auto
  qed
qed

lemma cbytes_length: "length (cbytes s) \<le> length s"
  by (simp add: cbytes_def length_takeWhile_le)

lemma is_dot_length: "is_dot s \<Longrightarrow> 1 \<le> length s" and is_dots_length: "is_dots s \<Longrightarrow> 2 \<le> length s"
  using cbytes_length [of s] by (auto simp: is_dot_def is_dots_def strcmp_eq_0)

lemma is_dots_not_dot: "is_dots s \<Longrightarrow> \<not> is_dot s"
  by (auto simp: is_dot_def is_dots_def strcmp_eq_0)

lemma split_path_empty: "split_path [] = (None, [])"
  by (simp add: split_path_def)

lemma split_path_length:
  "split_path p = (Some d, b) \<Longrightarrow> d \<noteq> [] \<and> length d < length p \<and> length d + length b \<le> length p"
  "split_path p = (None, b) \<Longrightarrow> length b \<le> length p"
  using split_path_spec [of p] split_path_empty by (cases "p = []"; auto)+

lemma path_up_weight:
  assumes "is_dots elem" "path_up base (elem # rest) = (base', exploded', up)"
  shows "path_weight base' exploded' < path_weight base (elem # rest)"
proof -
  obtain d b where sp: "split_path base = (d, b)" by fastforce
  have w: "elem_weight elem = 1" using assms(1) by (simp add: elem_weight_def)
  have wb: "is_dot b \<or> is_dots b \<Longrightarrow> elem_weight b = 1" by (auto simp: elem_weight_def)
  show ?thesis
  proof (cases d)
    case None
    have "length b \<le> length base" using split_path_length(2) sp None by blast
    with is_dots_length [of b] assms(2) w wb None sp show ?thesis
      by (auto simp: path_up_def path_weight_def Let_def split: if_splits)
  next
    case (Some dir)
    have "dir \<noteq> []" "length dir < length base" "length dir + length b \<le> length base"
      using split_path_length(1) sp Some by blast+
    with is_dots_length [of b] assms(2) w wb Some sp show ?thesis
      by (cases dir) (auto simp: path_up_def path_weight_def Let_def split: if_splits)
  qed
qed

lemma path_down_weight:
  "\<not> is_dot elem \<Longrightarrow> \<not> is_dots elem \<Longrightarrow> path_weight (path_down base elem) rest < path_weight base (elem # rest)"
  by (auto simp: path_down_def zuo_build_raw_path2_def path_weight_def elem_weight_def max_def)

function path_loop :: "string \<Rightarrow> string list \<Rightarrow> nat \<Rightarrow> string \<times> nat" where
  "path_loop base [] ups = (base, ups)"
| "path_loop base (elem # rest) ups =
     (if is_dot elem then path_loop base rest ups
      else if is_dots elem then
        (case path_up base (elem # rest) of (base', exploded', up) \<Rightarrow> path_loop base' exploded' (ups + up))
      else path_loop (path_down base elem) rest ups)"
  by pat_completeness auto
termination
proof (relation "measure (\<lambda>(base, exploded, ups). path_weight base exploded)", goal_cases)
  case (2 base elem rest ups)
  then show ?case by (simp add: path_weight_def elem_weight_def)
next
  case (3 base elem rest ups x y xa ya)
  with path_up_weight [of elem base rest x xa ya] show ?case by simp
qed (simp_all add: path_down_weight)

declare path_loop.simps [simp del]

fun add_ups :: "string \<Rightarrow> nat \<Rightarrow> string" where
  "add_ups base 0 = base"
| "add_ups base (Suc n) = add_ups (if is_dot base then ''..'' else zuo_build_raw_path2 ''..'' base) n"

definition zuo_build_path2 :: "string \<Rightarrow> string \<Rightarrow> string" where
  "zuo_build_path2 base rel =
     (case path_loop base (explode rel []) 0 of (base', ups) \<Rightarrow> add_ups base' ups)"

fun build_multi_loop :: "string \<Rightarrow> (string \<Rightarrow> string \<Rightarrow> string) \<Rightarrow> string \<Rightarrow> zval \<Rightarrow> zval res" where
  "build_multi_loop who build_path2 pre (VPair p paths) =
     rbind (check_path_string who p) (\<lambda>post.
       if zuo_path_is_absolute post then Inl (Fail1w who ''additional path is not relative'' p)
       else build_multi_loop who build_path2 (build_path2 pre post) paths)"
| "build_multi_loop who build_path2 pre paths = (if paths = VNull then Inr (VString pre) else Inl (UB ''car''))"

definition zuo_build_path_multi :: "string \<Rightarrow> zval \<Rightarrow> (string \<Rightarrow> string \<Rightarrow> string) \<Rightarrow> zval res" where
  "zuo_build_path_multi who paths build_path2 =
     rbind (ucar paths) (\<lambda>p. rbind (check_path_string who p) (\<lambda>pre. rbind (ucdr paths) (\<lambda>paths.
       build_multi_loop who build_path2 pre paths)))"

definition zuo_build_raw_path :: "zval \<Rightarrow> zval res" where
  "zuo_build_raw_path paths = zuo_build_path_multi ''build-raw-path'' paths zuo_build_raw_path2"

definition zuo_build_path :: "zval \<Rightarrow> zval res" where
  "zuo_build_path paths = zuo_build_path_multi ''build-path'' paths zuo_build_path2"

definition zuo_normalize_input_path :: "string \<Rightarrow> string" where
  "zuo_normalize_input_path path = zuo_build_path2 ''.'' path"

text \<open>The current directory is an argument.\<close>

definition zuo_path_to_complete_path :: "string \<Rightarrow> string \<Rightarrow> string" where
  "zuo_path_to_complete_path cwd path =
     (if zuo_path_is_absolute path then path else zuo_build_path2 cwd path)"

section \<open>Module paths\<close>

text \<open>
  Whether an object is a module path, and if so whether it is a symbol with a slash. The scan
  keeps the index after the last slash; an empty symbol is accepted.
\<close>

fun module_scan :: "nat \<Rightarrow> nat \<Rightarrow> nat \<Rightarrow> string \<Rightarrow> nat option" where
  "module_scan len i saw_slash [] = Some saw_slash"
| "module_scan len i saw_slash (c # cs) =
     (if c = path_sep \<and> (i = 0 \<or> i = len - 1 \<or> saw_slash = i) then None
      else if \<not> zuo_is_symbol_module_char c then None
      else module_scan len (i + 1) (if c = path_sep then i + 1 else saw_slash) cs)"

definition zuo_is_module_path :: "zval \<Rightarrow> bool option" where
  "zuo_is_module_path obj =
     (case obj of
        VSymbol y \<Rightarrow>
          if sym_str y = [] then Some False
          else map_option (\<lambda>saw. saw > 0) (module_scan (length (sym_str y)) 0 0 (sym_str y))
      | _ \<Rightarrow> if zuo_is_path_string obj then Some False else None)"

definition zuo_module_path_p :: "zval \<Rightarrow> zval" where
  "zuo_module_path_p obj = zbool (zuo_is_module_path obj \<noteq> None)"

definition check_module_path :: "string \<Rightarrow> zval \<Rightarrow> bool res" where
  "check_module_path who obj =
     (case zuo_is_module_path obj of Some b \<Rightarrow> Inr b | None \<Rightarrow> Inl (Fail_Arg who ''module path'' obj))"

text \<open>The file that implements a library module; the library path is an argument.\<close>

definition zuo_library_path_to_file_path :: "zval \<Rightarrow> zval \<Rightarrow> string res" where
  "zuo_library_path_to_file_path library_path path =
     (case path of
        VSymbol y \<Rightarrow>
          (case zuo_is_module_path path of
             None \<Rightarrow> Inl (Fail_Arg ''module-path->path'' ''module library path'' path)
           | Some saw_slash \<Rightarrow>
               (case library_path of
                  VString lib \<Rightarrow>
                    Inr (zuo_build_path2 lib
                           (sym_str y @ (if saw_slash then [] else ''/main'') @ ''.zuo''))
                | _ \<Rightarrow> Inl (Fail1 ''no library path configured, cannot load module'' path)))
      | _ \<Rightarrow> Inl (Fail_Arg ''module-path->path'' ''module library path'' path))"

text \<open>
  Parsing a relative module path: the number of directories to go up, the index where the
  part without leading dots starts, and the length of the suffix.
\<close>

function parse_relative :: "string \<Rightarrow> nat \<Rightarrow> nat \<Rightarrow> nat \<Rightarrow> bool \<Rightarrow> nat \<Rightarrow> (nat \<times> nat \<times> nat) option" where
  "parse_relative s i ups ups_until saw_non_dot suffix =
     (if i < length s then
        (let c1 = char_at s (i + 1) in
         if char_at s i = CHR ''.'' then
           (if c1 = path_sep then
              parse_relative s (i + 2) ups (if saw_non_dot then ups_until else i + 2) saw_non_dot suffix
            else if c1 = CHR ''.'' then
              (if char_at s (i + 2) = path_sep then
                 parse_relative s (i + 3) (if saw_non_dot then ups else ups + 1)
                   (if saw_non_dot then ups_until else i + 3) saw_non_dot suffix
               else None)
            else if c1 = CHR ''z'' \<and> char_at s (i + 2) = CHR ''u'' \<and> char_at s (i + 3) = CHR ''o''
                    \<and> char_at s (i + 4) = NUL then
              parse_relative s (i + 4) ups ups_until True 4
            else None)
         else if zuo_is_symbol_module_char (char_at s i) then
           (if char_at s i = path_sep then None
            else if c1 = path_sep then parse_relative s (i + 2) ups ups_until True suffix
            else parse_relative s (i + 1) ups ups_until True suffix)
         else None)
      else Some (ups, ups_until, suffix))"
  by pat_completeness auto
termination by (relation "measure (\<lambda>(s, i, u). length s - i)") auto

declare parse_relative.simps [simp del]

definition zuo_parse_relative_module_path :: "string \<Rightarrow> zval \<Rightarrow> string \<Rightarrow> bool \<Rightarrow> (string \<times> nat) res" where
  "zuo_parse_relative_module_path who obj s strip_ups =
     (case parse_relative s 0 1 0 False 0 of
        None \<Rightarrow> Inl (Fail_Arg who ''relative module library path'' obj)
      | Some (ups, ups_until, suffix) \<Rightarrow>
          if suffix = 0 then
            Inl (Fail1w who (''relative module library path lacks '' @ [CHR 0x22] @ ''.zuo'' @ [CHR 0x22]) obj)
          else Inr (if strip_ups then take (length s - ups_until - suffix) (drop ups_until s) else s, ups))"

fun drop_ups :: "zval \<Rightarrow> nat \<Rightarrow> string \<Rightarrow> string res" where
  "drop_ups rel 0 mod_path = Inr mod_path"
| "drop_ups rel (Suc ups) mod_path =
     (case fst (split_path mod_path) of
        None \<Rightarrow> Inl (Fail1w ''build-module-path'' ''too many up elements'' rel)
      | Some d \<Rightarrow> drop_ups rel ups d)"

definition symbol_module_path :: "zval \<Rightarrow> symbol \<Rightarrow> bool \<Rightarrow> string \<Rightarrow> nat \<Rightarrow> symtab \<Rightarrow> (zval \<times> symtab) res" where
  "symbol_module_path rel base saw_slash rel_str ups st =
     rbind (drop_ups rel ups (sym_str base @ (if saw_slash then [] else ''/main''))) (\<lambda>dir.
     rbind (zuo_string_to_symbol (VString (dir @ rel_str)) st) (\<lambda>(mod_path, st').
       if zuo_is_module_path mod_path = None then
         Inl (Fail1w ''build-module-path'' ''relative path is not valid in a symbolic module path'' rel)
       else Inr (mod_path, st')))"

definition zuo_build_module_path :: "zval \<Rightarrow> zval \<Rightarrow> symtab \<Rightarrow> (zval \<times> symtab) res" where
  "zuo_build_module_path base rel st =
     (let who = ''build-module-path'' in
      rbind (check_module_path who rel) (\<lambda>_.
      rbind (check_module_path who base) (\<lambda>saw_slash.
      case rel of
        VString s \<Rightarrow>
          if zuo_path_is_absolute s then Inr (rel, st)
          else rbind (zuo_parse_relative_module_path who rel s (is_symbol base)) (\<lambda>(rel_str, ups).
            case base of
              VSymbol y \<Rightarrow> symbol_module_path rel y saw_slash rel_str ups st
            | VString b \<Rightarrow>
                Inr (VString (zuo_build_path2
                       (case fst (split_path b) of Some d \<Rightarrow> d | None \<Rightarrow> ''.'') rel_str), st)
            | _ \<Rightarrow> Inl (UB ''path''))
      | _ \<Rightarrow> Inr (rel, st))))"

section \<open>Building keeps paths valid\<close>

lemma path_ok_append: "path_ok p \<Longrightarrow> NUL \<notin> set q \<Longrightarrow> path_ok (p @ q)"
  by (simp add: path_ok_def)

lemma build_raw_ok: "path_ok a \<Longrightarrow> path_ok b \<Longrightarrow> path_ok (zuo_build_raw_path2 a b)"
  by (simp add: path_ok_def zuo_build_raw_path2_def)

lemma explode_ok: "path_ok rel \<Longrightarrow> \<forall>e\<in>set acc. path_ok e \<Longrightarrow> \<forall>e\<in>set (explode rel acc). path_ok e"
proof (induction rel acc rule: explode.induct)
  case (1 rel acc)
  obtain d b where sp: "split_path rel = (d, b)" by fastforce
  with split_path_ok [OF "1.prems"(1)] have "path_ok b" "\<And>x. d = Some x \<Longrightarrow> path_ok x" by auto
  with "1.IH" sp "1.prems" show ?case
    by (cases d) (simp_all add: explode.simps [of rel])
qed

lemma dot_paths_ok [simp]: "path_ok ''.''" "path_ok ''..''"
  by (simp_all add: path_ok_def)

lemma path_up_ok:
  assumes "path_ok base" "\<forall>e\<in>set exploded. path_ok e" "path_up base exploded = (base', exploded', up)"
  shows "path_ok base' \<and> (\<forall>e\<in>set exploded'. path_ok e)"
proof -
  obtain d b where sp: "split_path base = (d, b)" by fastforce
  have "path_ok b" "\<And>x. d = Some x \<Longrightarrow> path_ok x" using split_path_ok [OF assms(1)] sp by auto
  moreover have "\<forall>e\<in>set (tl exploded). path_ok e" using assms(2) by (cases exploded) auto
  ultimately show ?thesis
    using assms(2,3) sp by (auto simp: path_up_def Let_def split: if_splits option.splits)
qed

lemma path_loop_ok:
  "path_ok base \<Longrightarrow> \<forall>e\<in>set exploded. path_ok e \<Longrightarrow> path_ok (fst (path_loop base exploded ups))"
proof (induction base exploded ups rule: path_loop.induct)
  case (2 base elem rest ups)
  obtain b ex up where u: "path_up base (elem # rest) = (b, ex, up)" by (cases "path_up base (elem # rest)") auto
  have "path_ok (path_down base elem)" using "2.prems" by (simp add: path_down_def build_raw_ok)
  with 2 path_up_ok [OF "2.prems" u] u show ?case
    by (simp add: path_loop.simps(2))
qed (simp add: path_loop.simps)

lemma add_ups_ok: "path_ok base \<Longrightarrow> path_ok (add_ups base n)"
  by (induction base n rule: add_ups.induct) (simp_all add: build_raw_ok)

lemma build_path2_ok:
  assumes "path_ok base" "path_ok rel"
  shows "path_ok (zuo_build_path2 base rel)"
proof -
  obtain b n where l: "path_loop base (explode rel []) 0 = (b, n)" by fastforce
  have "path_ok (fst (path_loop base (explode rel []) 0))"
    by (rule path_loop_ok [OF assms(1)]) (rule explode_ok [OF assms(2)], simp)
  with l show ?thesis by (simp add: zuo_build_path2_def add_ups_ok)
qed

lemma zuo_is_path_string_iff: "zuo_is_path_string (VString s) \<longleftrightarrow> path_ok s"
  by (simp add: zuo_is_path_string_def zuo_is_string_without_nul_def path_ok_def)

lemma check_path_string_ok: "check_path_string who (VString s) = (if path_ok s then Inr s else Inl (Fail_Arg who ''path string'' (VString s)))"
  by (simp add: check_path_string_def zuo_is_path_string_iff)

lemma check_path_string_Inr: "check_path_string who v = Inr s \<longleftrightarrow> v = VString s \<and> path_ok s"
  by (cases v) (auto simp: check_path_string_ok check_path_string_def zuo_is_path_string_iff)

section \<open>What a path means\<close>

text \<open>
  The meaning of a list of path elements: how many directories to go up first, then the
  stack of elements to go down, innermost first. A dot does nothing and a double dot undoes
  the element before it, or goes up when there is none.
\<close>

fun resolve_step :: "nat \<times> string list \<Rightarrow> string \<Rightarrow> nat \<times> string list" where
  "resolve_step (ups, stack) e =
     (if e = ''.'' then (ups, stack)
      else if e = ''..'' then (case stack of [] \<Rightarrow> (ups + 1, []) | _ # rest \<Rightarrow> (ups, rest))
      else (ups, e # stack))"

definition resolve :: "string list \<Rightarrow> nat \<times> string list" where
  "resolve es = foldl resolve_step (0, []) es"

definition path_elements :: "string \<Rightarrow> string list" where
  "path_elements p = explode p []"

text \<open>The decomposition of a path by \<^verbatim>\<open>split-path\<close> is unique.\<close>

lemma takeWhile_sep: "path_sep \<notin> set b \<Longrightarrow> takeWhile (\<lambda>c. c \<noteq> path_sep) (b @ ys) = b @ takeWhile (\<lambda>c. c \<noteq> path_sep) ys"
  by (induction b) auto

lemma dropWhile_seps:
  "b \<noteq> [] \<Longrightarrow> path_sep \<notin> set b \<Longrightarrow> dropWhile (\<lambda>c. c = path_sep) (replicate k path_sep @ b @ ys) = b @ ys"
  by (induction k) (cases b; auto)+

lemma element_unique:
  assumes "d @ b @ replicate k path_sep = d' @ b' @ replicate k' path_sep"
    and b: "b \<noteq> []" "path_sep \<notin> set b" "d = [] \<or> last d = path_sep"
    and b': "b' \<noteq> []" "path_sep \<notin> set b'" "d' = [] \<or> last d' = path_sep"
  shows "d = d' \<and> b = b'"
proof -
  have "replicate k path_sep @ rev b @ rev d = replicate k' path_sep @ rev b' @ rev d'"
    using arg_cong [OF assms(1), of rev] by simp
  then have "dropWhile (\<lambda>c. c = path_sep) (replicate k path_sep @ rev b @ rev d)
      = dropWhile (\<lambda>c. c = path_sep) (replicate k' path_sep @ rev b' @ rev d')" by simp
  moreover have "rev b \<noteq> []" "path_sep \<notin> set (rev b)" "rev b' \<noteq> []" "path_sep \<notin> set (rev b')"
    using b b' by simp_all
  ultimately have eq: "rev b @ rev d = rev b' @ rev d'"
    by (simp only: dropWhile_seps not_False_eq_True)
  have tw: "takeWhile (\<lambda>c. c \<noteq> path_sep) (rev x) = []" if "x = [] \<or> last x = path_sep" for x :: string
    using that by (cases x rule: rev_cases) auto
  have "takeWhile (\<lambda>c. c \<noteq> path_sep) (rev b @ rev d) = rev b"
    using takeWhile_sep [of "rev b" "rev d"] b tw [OF b(3)] by simp
  moreover have "takeWhile (\<lambda>c. c \<noteq> path_sep) (rev b' @ rev d') = rev b'"
    using takeWhile_sep [of "rev b'" "rev d'"] b' tw [OF b'(3)] by simp
  ultimately have "rev b = rev b'" using eq by metis
  with eq show ?thesis by simp
qed

lemma factor_of_replicate:
  assumes "x @ b @ ys = replicate m c" "b \<noteq> []"
  shows "c \<in> set b"
proof -
  have "set b \<subseteq> set (x @ b @ ys)" by auto
  also have "\<dots> \<subseteq> {c}" unfolding assms(1) by auto
  finally show ?thesis using assms(2) by (cases b) auto
qed

lemma split_path_SomeI:
  assumes "d \<noteq> []" "last d = path_sep" "b \<noteq> []" "path_sep \<notin> set b"
  shows "split_path (d @ b @ replicate k path_sep) = (Some d, b)"
proof -
  let ?p = "d @ b @ replicate k path_sep"
  obtain d' b' where sp: "split_path ?p = (d', b')" by fastforce
  have ne: "?p \<noteq> []" using assms by simp
  have nsep: "?p \<noteq> [path_sep] @ replicate k' path_sep" for k'
    using factor_of_replicate [of d b "replicate k path_sep" "Suc k'"] assms(3,4) by (auto simp del: append_eq_append_conv)
  show ?thesis
  proof (cases d')
    case None
    with split_path_spec [OF ne] sp obtain k' where
      k': "?p = b' @ replicate k' path_sep" "b' \<noteq> []" "path_sep \<notin> set b' \<or> b' = [path_sep]" by auto
    have "b' \<noteq> [path_sep]" using nsep [of k'] k'(1) by metis
    with k'(3) have "path_sep \<notin> set b'" by blast
    with element_unique [of d b k "[]" b' k'] k' assms show ?thesis by auto
  next
    case (Some x)
    with split_path_spec [OF ne] sp obtain k' where
      "?p = x @ b' @ replicate k' path_sep" "b' \<noteq> []" "path_sep \<notin> set b'" "x \<noteq> []" "last x = path_sep" by auto
    with element_unique [of d b k x b' k'] assms Some sp show ?thesis by auto
  qed
qed

lemma split_path_NoneI:
  assumes "b \<noteq> []" "path_sep \<notin> set b"
  shows "split_path (b @ replicate k path_sep) = (None, b)"
proof -
  let ?p = "b @ replicate k path_sep"
  obtain d' b' where sp: "split_path ?p = (d', b')" by fastforce
  have ne: "?p \<noteq> []" using assms by simp
  have hd: "hd ?p \<noteq> path_sep" using assms by (cases b) auto
  show ?thesis
  proof (cases d')
    case None
    with split_path_spec [OF ne] sp obtain k' where
      k': "?p = b' @ replicate k' path_sep" "b' \<noteq> []" "path_sep \<notin> set b' \<or> b' = [path_sep]" by auto
    with hd have "path_sep \<notin> set b'" by auto
    with element_unique [of "[]" b k "[]" b' k'] k' assms None sp show ?thesis by auto
  next
    case (Some x)
    with split_path_spec [OF ne] sp obtain k' where
      "?p = x @ b' @ replicate k' path_sep" "b' \<noteq> []" "path_sep \<notin> set b'" "x \<noteq> []" "last x = path_sep" by auto
    with element_unique [of "[]" b k x b' k'] assms show ?thesis by auto
  qed
qed

lemma split_path_seps: "split_path (replicate (Suc n) path_sep) = (None, [path_sep])"
proof -
  let ?p = "replicate (Suc n) path_sep"
  obtain d b where sp: "split_path ?p = (d, b)" by fastforce
  have "?p \<noteq> []" by simp
  note spec = split_path_spec [OF this, unfolded sp]
  have "path_sep \<in> set b"
  proof (cases d)
    case None
    with spec obtain k where "[] @ b @ replicate k path_sep = ?p" "b \<noteq> []" by auto
    then show ?thesis by (rule factor_of_replicate)
  next
    case (Some x)
    with spec obtain k where "x @ b @ replicate k path_sep = ?p" "b \<noteq> []" by auto
    then show ?thesis by (rule factor_of_replicate)
  qed
  with spec sp show ?thesis by (cases d) auto
qed

lemma split_path_append_sep:
  assumes "p \<noteq> []"
  shows "split_path (p @ [path_sep]) = split_path p"
proof -
  obtain d b where sp: "split_path p = (d, b)" by fastforce
  note spec = split_path_spec [OF assms, unfolded sp, simplified]
  show ?thesis
  proof (cases d)
    case (Some x)
    with spec obtain k where "p = x @ b @ replicate k path_sep" by auto
    then have "p @ [path_sep] = x @ b @ replicate (Suc k) path_sep" by (simp add: replicate_append_same)
    with split_path_SomeI [of x b "Suc k"] spec Some sp show ?thesis by simp
  next
    case None
    with spec obtain k where p: "p = b @ replicate k path_sep" by auto
    then have p': "p @ [path_sep] = b @ replicate (Suc k) path_sep" by (simp add: replicate_append_same)
    show ?thesis
    proof (cases "b = [path_sep]")
      case True
      have "p @ [path_sep] = replicate (Suc (Suc k)) path_sep" using p' True by simp
      then show ?thesis using split_path_seps [of "Suc k"] sp None True by simp
    next
      case False
      with spec None have "path_sep \<notin> set b" "b \<noteq> []" by auto
      with split_path_NoneI [of b "Suc k"] p' sp None show ?thesis by simp
    qed
  qed
qed

text \<open>The elements of a path that is extended at either end.\<close>

lemma explode_acc: "explode p acc = explode p [] @ acc"
proof (induction "length p" arbitrary: p acc rule: less_induct)
  case less
  obtain d b where sp: "split_path p = (d, b)" by fastforce
  show ?case
  proof (cases d)
    case (Some x)
    with sp split_path_length(1) have "length x < length p" by blast
    then have "explode x (b # acc) = explode x [] @ b # acc" "explode x [b] = explode x [] @ [b]"
      using less by blast+
    with Some sp show ?thesis by (simp add: explode.simps [of p])
  qed (use sp in \<open>simp add: explode.simps [of p]\<close>)
qed

lemma path_elements_None: "split_path p = (None, b) \<Longrightarrow> path_elements p = [b]"
  by (simp add: path_elements_def explode.simps [of p])

lemma path_elements_Some: "split_path p = (Some d, b) \<Longrightarrow> path_elements p = path_elements d @ [b]"
  using split_path_length(1) [of p d b] explode_acc [of d "[b]"]
  by (simp add: path_elements_def explode.simps [of p])

lemma path_elements_append_sep: "p \<noteq> [] \<Longrightarrow> path_elements (p @ [path_sep]) = path_elements p"
  using split_path_append_sep [of p] path_elements_None path_elements_Some
  by (metis option.exhaust prod.exhaust)

lemma path_elements_dotdot: "path_elements ''../'' = [''..'']"
  using split_path_NoneI [of "''..''" 1] by (intro path_elements_None) simp

lemma relative_iff: "p \<noteq> [] \<Longrightarrow> zuo_path_is_absolute p \<longleftrightarrow> hd p = path_sep"
  by (simp add: zuo_path_is_absolute_def char_at_def hd_conv_nth)

lemma path_elements_append:
  assumes P: "P \<noteq> []" "last P = path_sep"
  shows "p \<noteq> [] \<Longrightarrow> \<not> zuo_path_is_absolute p \<Longrightarrow> path_elements (P @ p) = path_elements P @ path_elements p"
proof (induction "length p" arbitrary: p rule: less_induct)
  case less
  obtain d b where sp: "split_path p = (d, b)" by fastforce
  note spec = split_path_spec [OF less.prems(1), unfolded sp, simplified]
  have hd: "hd p \<noteq> path_sep" using less.prems relative_iff by blast
  show ?case
  proof (cases d)
    case None
    with spec obtain k where p: "p = b @ replicate k path_sep" "b \<noteq> []" "path_sep \<notin> set b \<or> b = [path_sep]"
      by auto
    with hd have "path_sep \<notin> set b" by (cases b) auto
    with split_path_SomeI [of P b k] p P have "split_path (P @ p) = (Some P, b)" by simp
    with None sp show ?thesis by (simp only: path_elements_Some path_elements_None)
  next
    case (Some x)
    with spec obtain k where p: "p = x @ b @ replicate k path_sep" and
      x: "x \<noteq> []" "last x = path_sep" and b: "b \<noteq> []" "path_sep \<notin> set b" by auto
    have "hd x = hd p" using p x by (cases x) auto
    then have "\<not> zuo_path_is_absolute x" using hd x relative_iff by simp
    then have "path_elements (P @ x) = path_elements P @ path_elements x"
      using less.hyps [of x] split_path_length(1) [of p x b] sp Some x by simp
    moreover have "split_path (P @ p) = (Some (P @ x), b)"
      using split_path_SomeI [of "P @ x" b k] p x b P by simp
    ultimately show ?thesis using Some sp by (simp only: path_elements_Some append_assoc)
  qed
qed

lemma path_elements_up:
  "p \<noteq> [] \<Longrightarrow> \<not> zuo_path_is_absolute p \<Longrightarrow> path_elements (''../'' @ p) = ''..'' # path_elements p"
  using path_elements_append [of "''../''" p] path_elements_dotdot by simp

lemma path_elements_raw:
  assumes "p \<noteq> []" "q \<noteq> []" "\<not> zuo_path_is_absolute q"
  shows "path_elements (zuo_build_raw_path2 p q) = path_elements p @ path_elements q"
proof (cases "last p = path_sep")
  case True
  with assms show ?thesis
    by (simp add: zuo_build_raw_path2_def char_at_def last_conv_nth path_elements_append)
next
  case False
  have "path_elements ((p @ [path_sep]) @ q) = path_elements p @ path_elements q"
    using path_elements_append [of "p @ [path_sep]" q] path_elements_append_sep [OF assms(1)] assms by simp
  with False assms(1) show ?thesis
    by (simp add: zuo_build_raw_path2_def char_at_def last_conv_nth)
qed

lemma path_elements_down:
  assumes "p \<noteq> []" "e \<noteq> []" "path_sep \<notin> set e"
  shows "path_elements (zuo_build_raw_path2 p e) = path_elements p @ [e]"
proof -
  have "\<not> zuo_path_is_absolute e" using assms(2,3) relative_iff by (cases e) auto
  moreover have "path_elements e = [e]" using split_path_NoneI [of e 0] assms by (simp add: path_elements_None)
  ultimately show ?thesis using path_elements_raw [of p e] assms by simp
qed

text \<open>Elements: valid path strings without a separator. A relative path consists of elements.\<close>

definition elem_ok :: "string \<Rightarrow> bool" where
  "elem_ok e \<longleftrightarrow> path_ok e \<and> path_sep \<notin> set e"

lemma cbytes_no_nul: "NUL \<notin> set s \<Longrightarrow> cbytes s = map byte s"
  by (induction s) auto

lemma byte_map_inject: "map byte s = map byte t \<longleftrightarrow> s = t"
  by (rule inj_map_eq_map) (simp add: inj_on_def byte_inject)

lemma is_dot_iff: "path_ok e \<Longrightarrow> is_dot e \<longleftrightarrow> e = ''.''" and is_dots_iff: "path_ok e \<Longrightarrow> is_dots e \<longleftrightarrow> e = ''..''"
  using byte_map_inject [of e "''.''"] byte_map_inject [of e "''..''"] cbytes_no_nul [of e]
  by (simp_all add: path_ok_def is_dot_def is_dots_def strcmp_eq_0)

lemma path_elements_ok:
  "path_ok p \<Longrightarrow> \<not> zuo_path_is_absolute p \<Longrightarrow> \<forall>e\<in>set (path_elements p). elem_ok e"
proof (induction "length p" arbitrary: p rule: less_induct)
  case less
  obtain d b where sp: "split_path p = (d, b)" by fastforce
  have p: "p \<noteq> []" "path_ok b" using less.prems(1) split_path_ok(1) [of p] sp by (auto simp: path_ok_def)
  note spec = split_path_spec [OF p(1), unfolded sp, simplified]
  have hd: "hd p \<noteq> path_sep" using less.prems(2) p relative_iff by blast
  show ?case
  proof (cases d)
    case None
    with spec hd have "path_sep \<notin> set b" by (cases b) auto
    with p None sp show ?thesis by (simp add: path_elements_None elem_ok_def)
  next
    case (Some x)
    with spec have x: "hd x = hd p" "x \<noteq> []" by auto
    have "path_ok x" using split_path_ok(2) [OF less.prems(1)] sp Some by simp
    then have "\<forall>e\<in>set (path_elements x). elem_ok e"
      using less.hyps [of x] split_path_length(1) [of p x b] sp Some x hd relative_iff by simp
    with spec p Some sp show ?thesis by (auto simp: path_elements_Some elem_ok_def)
  qed
qed

lemma resolve_dot: "resolve (xs @ ''.'' # ys) = resolve (xs @ ys)"
  by (cases "foldl resolve_step (0, []) xs") (simp add: resolve_def)

lemma resolve_pop: "e \<noteq> ''.'' \<Longrightarrow> e \<noteq> ''..'' \<Longrightarrow> resolve (xs @ e # ''..'' # ys) = resolve (xs @ ys)"
  by (cases "foldl resolve_step (0, []) xs") (simp add: resolve_def)

lemma relative_dot: "\<not> zuo_path_is_absolute ''.''" "\<not> zuo_path_is_absolute ''..''"
  by (simp_all add: relative_iff)

lemma path_elements_dot: "path_elements ''.'' = [''.'']" "path_elements ''..'' = [''..'']"
  using split_path_NoneI [of "''.''" 0] split_path_NoneI [of "''..''" 0] by (simp_all add: path_elements_None)

lemma path_up_meaning:
  assumes ok: "path_ok base" "\<forall>e\<in>set rest. elem_ok e" "ups > 0 \<longrightarrow> \<not> zuo_path_is_absolute base"
    and up: "path_up base (''..'' # rest) = (base', exploded', up)"
  shows "resolve (replicate (ups + up) ''..'' @ path_elements base' @ exploded')
      = resolve (replicate ups ''..'' @ path_elements base @ ''..'' # rest)"
    "\<forall>e\<in>set exploded'. elem_ok e" "ups + up > 0 \<longrightarrow> \<not> zuo_path_is_absolute base'"
proof -
  obtain d b where sp: "split_path base = (d, b)" by fastforce
  have b: "path_ok b" using split_path_ok(1) [OF ok(1)] sp by simp
  have dots: "elem_ok ''..''" by (simp add: elem_ok_def)
  note iffs = is_dot_iff [OF b] is_dots_iff [OF b]
  let ?r = "replicate ups ''..''"
  have ab: "hd x = hd base \<and> x \<noteq> [] \<and> base \<noteq> []" if "d = Some x" for x
    using split_path_spec [of base] sp ok(1) that by (auto simp: path_ok_def)
  have shift: "replicate (ups + 1) ''..'' @ ys = ?r @ ''..'' # ys" for ys :: "string list"
    by (simp add: replicate_app_Cons_same)
  show "resolve (replicate (ups + up) ''..'' @ path_elements base' @ exploded')
      = resolve (?r @ path_elements base @ ''..'' # rest)"
  proof (cases d)
    case None
    with sp up iffs show ?thesis
      using resolve_dot [of ?r "''..'' # rest"] resolve_dot [of "?r @ [''..'']" rest]
        resolve_dot [of ?r "''..'' # ''..'' # rest"] resolve_pop [of b ?r rest] resolve_dot [of ?r rest]
      by (auto simp: path_up_def Let_def path_elements_None path_elements_dot replicate_app_Cons_same split: if_splits)
  next
    case (Some x)
    with sp up iffs show ?thesis
      using resolve_dot [of "?r @ path_elements x" "''..'' # rest"] resolve_pop [of b "?r @ path_elements x" rest]
      by (auto simp: path_up_def Let_def path_elements_Some split: if_splits)
  qed
  show "\<forall>e\<in>set exploded'. elem_ok e"
    using up sp iffs ok(2) dots by (auto simp: path_up_def Let_def split: if_splits)
  show "ups + up > 0 \<longrightarrow> \<not> zuo_path_is_absolute base'"
    using up sp ok(3) ab by (auto simp: path_up_def Let_def relative_dot relative_iff split: if_splits option.splits)
qed

lemma path_loop_meaning:
  "path_ok base \<Longrightarrow> \<forall>e\<in>set exploded. elem_ok e \<Longrightarrow> ups > 0 \<longrightarrow> \<not> zuo_path_is_absolute base
   \<Longrightarrow> path_loop base exploded ups = (base', n)
   \<Longrightarrow> resolve (replicate n ''..'' @ path_elements base') = resolve (replicate ups ''..'' @ path_elements base @ exploded)
     \<and> (n > 0 \<longrightarrow> \<not> zuo_path_is_absolute base')"
proof (induction base exploded ups rule: path_loop.induct)
  case (2 base elem rest ups)
  have elem: "path_ok elem" "elem \<noteq> []" "path_sep \<notin> set elem" and base: "base \<noteq> []"
    using "2.prems"(1,2) by (auto simp: elem_ok_def path_ok_def)
  note iffs = is_dot_iff [OF elem(1)] is_dots_iff [OF elem(1)]
  let ?r = "replicate ups ''..'' @ path_elements base"
  consider (dot) "elem = ''.''" | (up) "elem = ''..''" | (down) "elem \<noteq> ''.''" "elem \<noteq> ''..''" by blast
  then show ?case
  proof cases
    case dot
    with "2.IH"(1) "2.prems" iffs resolve_dot [of ?r rest] show ?thesis
      by (simp add: path_loop.simps(2))
  next
    case up
    obtain b ex u where pu: "path_up base (elem # rest) = (b, ex, u)" by (cases "path_up base (elem # rest)") auto
    have "\<forall>e\<in>set rest. elem_ok e" using "2.prems"(2) by simp
    from path_up_meaning [OF "2.prems"(1) this "2.prems"(3) pu [unfolded up]]
    have m: "resolve (replicate (ups + u) ''..'' @ path_elements b @ ex) = resolve (?r @ ''..'' # rest)"
      "\<forall>e\<in>set ex. elem_ok e" "ups + u > 0 \<longrightarrow> \<not> zuo_path_is_absolute b" by simp_all
    have "\<forall>e\<in>set (elem # rest). path_ok e" using "2.prems"(2) by (simp add: elem_ok_def)
    from path_up_ok [OF "2.prems"(1) this pu] have "path_ok b" by simp
    moreover have "\<not> is_dot elem" "is_dots elem" using iffs up by simp_all
    moreover from this pu "2.prems"(4) have "path_loop b ex (ups + u) = (base', n)" by (simp add: path_loop.simps(2))
    ultimately show ?thesis using "2.IH"(2) [OF _ _ pu [symmetric] refl] m up by simp
  next
    case down
    have pd: "path_ok (path_down base elem)" using "2.prems"(1) elem by (simp add: path_down_def build_raw_ok)
    have pl: "path_loop (path_down base elem) rest ups = (base', n)"
      using "2.prems"(4) down iffs by (simp add: path_loop.simps(2))
    have hd: "hd elem \<noteq> path_sep" using elem by (cases elem) auto
    have abs: "ups > 0 \<longrightarrow> \<not> zuo_path_is_absolute (path_down base elem)"
      using "2.prems"(3) hd elem base by (auto simp: path_down_def zuo_build_raw_path2_def relative_iff)
    have "split_path elem = (None, elem)" using split_path_NoneI [of elem 0] elem by simp
    then have "resolve (replicate ups ''..'' @ path_elements (path_down base elem) @ rest) = resolve (?r @ elem # rest)"
      using is_dot_iff [OF "2.prems"(1)] path_elements_down [OF base elem(2,3)] resolve_dot [of "replicate ups ''..''" "elem # rest"]
      by (auto simp: path_down_def path_elements_None path_elements_dot)
    with "2.IH"(3) [OF _ _ pd _ abs pl] "2.prems"(2) down iffs show ?thesis by simp
  qed
qed (simp add: path_loop.simps)

lemma add_ups_meaning:
  "path_ok base \<Longrightarrow> n > 0 \<longrightarrow> \<not> zuo_path_is_absolute base
   \<Longrightarrow> resolve (path_elements (add_ups base n)) = resolve (replicate n ''..'' @ path_elements base)"
proof (induction n arbitrary: base)
  case (Suc n)
  have up: "zuo_build_raw_path2 ''..'' base = ''../'' @ base" by (simp add: zuo_build_raw_path2_def char_at_def)
  have base: "base \<noteq> []" using Suc.prems by (simp add: path_ok_def)
  show ?case
  proof (cases "base = ''.''")
    case True
    then have "is_dot base" using is_dot_iff by simp
    with Suc.IH [of "''..''"] True resolve_dot [of "replicate n ''..'' @ [''..'']" "[]"] show ?thesis
      by (simp add: relative_dot path_elements_dot replicate_app_Cons_same)
  next
    case False
    then have "\<not> is_dot base" using is_dot_iff Suc.prems by simp
    moreover have "path_ok (''../'' @ base)" "\<not> zuo_path_is_absolute (''../'' @ base)"
      using Suc.prems by (simp_all add: path_ok_def relative_iff)
    ultimately show ?thesis
      using Suc.IH [of "''../'' @ base"] path_elements_up [OF base] Suc.prems(2)
      by (simp add: up [simplified] replicate_app_Cons_same)
  qed
qed simp

lemma build_path2_meaning:
  assumes "path_ok base" "path_ok rel" "\<not> zuo_path_is_absolute rel"
  shows "resolve (path_elements (zuo_build_path2 base rel)) = resolve (path_elements base @ path_elements rel)"
proof -
  obtain b n where l: "path_loop base (path_elements rel) 0 = (b, n)" by fastforce
  have els: "\<forall>e\<in>set (path_elements rel). elem_ok e" using path_elements_ok assms by blast
  have "path_ok (fst (path_loop base (path_elements rel) 0))"
    by (rule path_loop_ok [OF assms(1)]) (use els in \<open>simp add: elem_ok_def\<close>)
  then have "path_ok b" using l by simp
  with path_loop_meaning [OF assms(1) els _ l] add_ups_meaning [of b n] l show ?thesis
    by (simp add: zuo_build_path2_def path_elements_def)
qed

section \<open>The path primitives\<close>

text \<open>
  What \<^verbatim>\<open>zuo_build_path_multi\<close> relies on in the function it combines paths with: valid paths
  give a valid path, which means what the two paths mean one after the other.
\<close>

locale path_joiner =
  fixes join :: "string \<Rightarrow> string \<Rightarrow> string"
  assumes join_ok: "path_ok base \<Longrightarrow> path_ok rel \<Longrightarrow> path_ok (join base rel)"
    and join_meaning: "path_ok base \<Longrightarrow> path_ok rel \<Longrightarrow> \<not> zuo_path_is_absolute rel \<Longrightarrow>
      resolve (path_elements (join base rel)) = resolve (path_elements base @ path_elements rel)"
begin

lemma join_loop:
  "path_ok pre \<Longrightarrow> \<forall>p\<in>set ps. path_ok p \<and> \<not> zuo_path_is_absolute p \<Longrightarrow>
   \<exists>r. build_multi_loop who join pre (zlist (map VString ps)) = Inr (VString r) \<and> path_ok r
     \<and> resolve (path_elements r) = resolve (path_elements pre @ concat (map path_elements ps))"
proof (induction ps arbitrary: pre)
  case (Cons p ps)
  have "resolve (path_elements (join pre p) @ es) = resolve ((path_elements pre @ path_elements p) @ es)" for es
    using join_meaning [of pre p] Cons.prems by (simp add: resolve_def)
  with Cons.IH [of "join pre p"] join_ok [of pre p] Cons.prems show ?case
    by (simp add: check_path_string_ok)
qed simp

lemma join_paths:
  assumes "path_ok base" "\<forall>p\<in>set ps. path_ok p \<and> \<not> zuo_path_is_absolute p"
  shows "\<exists>r. zuo_build_path_multi who (zlist (map VString (base # ps))) join = Inr (VString r) \<and> path_ok r
     \<and> resolve (path_elements r) = resolve (concat (map path_elements (base # ps)))"
  using join_loop [OF assms] by (simp add: zuo_build_path_multi_def ucar_def ucdr_def check_path_string_ok assms(1))

lemma join_relative_only:
  assumes "path_ok base" "path_ok p" "zuo_path_is_absolute p"
  shows "zuo_build_path_multi who (zlist (map VString (base # p # ps))) join
    = Inl (Fail1w who ''additional path is not relative'' (VString p))"
  using assms by (simp add: zuo_build_path_multi_def ucar_def ucdr_def check_path_string_ok)

end

interpretation raw_join: path_joiner zuo_build_raw_path2
  by unfold_locales (auto simp: build_raw_ok path_elements_raw path_ok_def [THEN iffD1])

interpretation norm_join: path_joiner zuo_build_path2
  by unfold_locales (auto simp: build_path2_ok build_path2_meaning)



text \<open>
  Going up from the root directory with \<^verbatim>\<open>build-path\<close> treats the root as an ordinary path
  element: an absolute base path and a relative path give a relative path.
\<close>

theorem build_path_above_root:
  "zuo_build_path (zlist [VString ''/'', VString ''../x'']) = Inr (VString ''x'')
   \<and> zuo_build_path (zlist [VString ''/'', VString ''..'']) = Inr (VString ''.'')"
  by code_simp

text \<open>
  \<^verbatim>\<open>split-path\<close> on a path string separates the last element, which is nonempty and free of
  separators (or the root), from the directory part, which ends in a separator; together with
  the trailing separators that are dropped they are the path. Any other object is reported.
\<close>

theorem split_path_correct:
  "if zuo_is_path_string v then
     \<exists>p d b k. v = VString p \<and> zuo_split_path v = Inr (VPair d (VString b)) \<and> path_ok b \<and>
      (d = VFalse \<and> p = b @ replicate k path_sep \<and> (path_sep \<notin> set b \<or> b = [path_sep])
       \<or> (\<exists>dir. d = VString dir \<and> path_ok dir \<and> last dir = path_sep \<and> path_sep \<notin> set b
            \<and> p = dir @ b @ replicate k path_sep))
   else zuo_split_path v = Inl (Fail_Arg ''split-path'' ''path string'' v)"
proof (cases "zuo_is_path_string v")
  case True
  then obtain p where v: "v = VString p" and p: "path_ok p"
    by (cases v) (auto simp: path_ok_def zuo_is_path_string_def zuo_is_string_without_nul_def)
  obtain d b where sp: "split_path p = (d, b)" by fastforce
  have "p \<noteq> []" using p by (simp add: path_ok_def)
  note spec = split_path_spec [OF this, unfolded sp, simplified] and ok = split_path_ok(1,2) [OF p, unfolded sp, simplified]
  have "zuo_split_path v = Inr (VPair (case d of Some x \<Rightarrow> VString x | None \<Rightarrow> VFalse) (VString b))"
    using v p sp by (simp add: zuo_split_path_def check_path_string_ok split: option.split)
  with True v spec ok show ?thesis by (cases d) auto
next
  case False
  then show ?thesis by (cases v) (auto simp: zuo_split_path_def check_path_string_def)
qed

theorem split_path_correct_witness:
  "\<exists>d b k. zuo_split_path (VString ''a/b/'') = Inr (VPair d (VString b)) \<and> path_ok b"
  using split_path_correct [of "VString ''a/b/''"] by (auto simp: zuo_is_path_string_iff path_ok_def)

text \<open>
  C26: \<^verbatim>\<open>build-module-path\<close> never misreads an object: it returns a module path again, or it
  reports an error of its own.
\<close>

theorem build_module_path_valid:
  "case zuo_build_module_path base rel st of
     Inr (v, st') \<Rightarrow> zuo_module_path_p v = VTrue
   | Inl e \<Rightarrow> \<forall>m. e \<noteq> UB m"
proof (cases "zuo_is_module_path rel = None \<or> zuo_is_module_path base = None \<or> \<not> is_string rel")
  case True
  then show ?thesis
    by (cases "zuo_is_module_path rel"; cases "zuo_is_module_path base"; cases rel)
      (simp_all add: zuo_build_module_path_def check_module_path_def zuo_module_path_p_def Let_def)
next
  case False
  then obtain s saw where rel: "rel = VString s" "path_ok s" and base: "zuo_is_module_path base = Some saw"
    by (cases rel) (auto simp: zuo_is_module_path_def zuo_is_path_string_iff split: if_splits)
  have s: "zuo_is_module_path (VString s) = Some False" using rel by (simp add: zuo_is_module_path_def zuo_is_path_string_iff)
  show ?thesis
  proof (cases base)
    case (VString b)
    then have "path_ok b" using base by (auto simp: zuo_is_module_path_def zuo_is_path_string_iff split: if_splits)
    then have "path_ok (case fst (split_path b) of Some d \<Rightarrow> d | None \<Rightarrow> ''.'')"
      using split_path_ok(2) [of b] by (simp split: option.split)
    with rel have ok: "path_ok (zuo_build_path2 (case fst (split_path b) of Some d \<Rightarrow> d | None \<Rightarrow> ''.'') s)"
      by (simp add: build_path2_ok)
    with ok s rel base VString show ?thesis
      by (cases "parse_relative s 0 1 0 False 0")
        (auto simp: zuo_build_module_path_def check_module_path_def zuo_module_path_p_def zuo_is_module_path_def
          zuo_is_path_string_iff zuo_parse_relative_module_path_def)
  next
    case (VSymbol y)
    have "case symbol_module_path rel y saw r ups st of Inr (v, st') \<Rightarrow> zuo_module_path_p v = VTrue | Inl e \<Rightarrow> \<forall>m. e \<noteq> UB m" for r ups
    proof -
      have up: "drop_ups rel ups p = Inl e \<Longrightarrow> \<forall>m. e \<noteq> UB m" for p e
        by (induction rel ups p rule: drop_ups.induct) (auto split: option.splits)
      show ?thesis
        by (auto simp: symbol_module_path_def zuo_module_path_p_def zuo_string_to_symbol_def rbind_def Let_def check_string_def
            dest: up split: sum.split option.split prod.split)
    qed
    with s rel base VSymbol show ?thesis
      by (cases "parse_relative s 0 1 0 False 0")
        (auto simp: zuo_build_module_path_def check_module_path_def zuo_module_path_p_def
          zuo_parse_relative_module_path_def)
  qed (use base in \<open>auto simp: zuo_is_module_path_def zuo_is_path_string_def zuo_is_string_without_nul_def\<close>)
qed

end
