(* ===== verification/Zuo_Shell.thy ===== *)
theory Zuo_Shell
  imports Zuo_Prims
begin

text \<open>
  Shell command lines in \<^verbatim>\<open>zuo.c\<close>, Unix configuration: \<^verbatim>\<open>string->shell\<close> writes a string so that a
  shell reads it back as one word, and \<^verbatim>\<open>shell->strings\<close> splits a command line into words, in place
  in its own buffer. The buffer and its size are explicit: a write past the end of an
  allocation and a read past the end of the buffer are undefined behaviour.
\<close>

abbreviation dquote :: char where "dquote \<equiv> CHR 0x22"
abbreviation squote :: char where "squote \<equiv> CHR 0x27"
abbreviation backslash :: char where "backslash \<equiv> CHR 0x5C"
abbreviation backquote :: char where "backquote \<equiv> CHR 0x60"
abbreviation newline :: char where "newline \<equiv> CHR 0x0A"

section \<open>Quoting a string\<close>

text \<open>Characters that go between single quotes, and those that go between double quotes.\<close>

definition shell_special :: "char \<Rightarrow> bool" where
  "shell_special c \<longleftrightarrow> c = dquote \<or> c = CHR ''$'' \<or> c = backquote \<or> c = backslash \<or> c = CHR ''!''
     \<or> c = CHR ''*'' \<or> c = CHR ''@'' \<or> c = CHR ''^''"

definition shell_delimiting :: "char \<Rightarrow> bool" where
  "shell_delimiting c \<longleftrightarrow> isspace c \<or> c = squote \<or> c = CHR ''|'' \<or> c = CHR ''&'' \<or> c = CHR '';''
     \<or> c = CHR ''('' \<or> c = CHR '')'' \<or> c = CHR ''<'' \<or> c = CHR ''>''
     \<or> c = CHR ''['' \<or> c = CHR '']'' \<or> c = CHR ''?''
     \<or> \<not> isprint c"

definition buf_push :: "nat \<Rightarrow> string \<Rightarrow> string \<Rightarrow> string res" where
  "buf_push sz p cs = (if length p + length cs \<le> sz then Inr (p @ cs) else Inl (UB ''buffer''))"

text \<open>What one character adds, and whether a double quote is open after it.\<close>

definition shell_char :: "char \<Rightarrow> bool \<Rightarrow> string \<times> bool" where
  "shell_char c quoting =
     (if shell_special c then ((if quoting then [dquote] else []) @ [squote, c, squote], False)
      else if shell_delimiting c then ((if quoting then [] else [dquote]) @ [c], True)
      else ((if quoting then [dquote] else []) @ [c], False))"

primrec to_shell_loop :: "string \<Rightarrow> nat \<Rightarrow> bool \<Rightarrow> string \<Rightarrow> string res" where
  "to_shell_loop [] sz quoting p = buf_push sz p ((if quoting then [dquote] else []) @ [NUL])"
| "to_shell_loop (c # s) sz quoting p =
     (let sz = (if length p + 6 \<ge> sz then sz * 2 else sz) in
      case shell_char c quoting of
        (out, quoting') \<Rightarrow> rbind (buf_push sz p out) (\<lambda>p. to_shell_loop s sz quoting' p))"

definition zuo_string_to_shell_c :: "string \<Rightarrow> string res" where
  "zuo_string_to_shell_c s =
     (let s = cstr s in
      if s = [] then rbind (buf_push 32 [] [dquote]) (\<lambda>p. to_shell_loop s 32 True p)
      else to_shell_loop s 32 False [])"

definition zuo_string_to_shell :: "zval \<Rightarrow> zval res" where
  "zuo_string_to_shell str =
     rbind (check_string ''string->shell'' str) (\<lambda>s.
       rbind (zuo_string_to_shell_c s) (\<lambda>p. Inr (VString (cstr p))))"

section \<open>Splitting a command line\<close>

text \<open>
  The loop of \<^verbatim>\<open>zuo_shell_to_strings_c\<close>: \<open>i\<close> reads and \<open>j\<close> writes in the same buffer, and \<open>cmds\<close> are the
  offsets where words start.
\<close>

definition buf_at :: "string \<Rightarrow> nat \<Rightarrow> char res" where
  "buf_at buf i = (if i < length buf then Inr (buf ! i) else Inl (UB ''shell overrun''))"

lemma buf_at_Inr: "buf_at buf i = Inr c \<longleftrightarrow> i < length buf \<and> c = buf ! i"
  by (auto simp: buf_at_def)

function shell_loop ::
  "string \<Rightarrow> nat \<Rightarrow> nat \<Rightarrow> nat \<Rightarrow> bool \<Rightarrow> bool \<Rightarrow> bool \<Rightarrow> nat list \<Rightarrow> (string \<times> nat list) res" where
  "shell_loop buf i j arg_start in_q in_sq did_create cmds =
     rbind (buf_at buf i) (\<lambda>c.
     let in_q = (in_q \<and> c \<noteq> NUL); in_sq = (in_sq \<and> c \<noteq> NUL) in
     if in_q then
       (if c = dquote then shell_loop buf (i + 1) j arg_start False in_sq did_create cmds
        else if c = backslash then
          rbind (buf_at buf (i + 1)) (\<lambda>next_c.
            if next_c = CHR ''$'' \<or> next_c = backquote \<or> next_c = backslash \<or> next_c = newline then
              shell_loop (buf[j := next_c]) (i + 2) (j + 1) arg_start in_q in_sq did_create cmds
            else shell_loop (buf[j := c]) (i + 1) (j + 1) arg_start in_q in_sq did_create cmds)
        else shell_loop (buf[j := c]) (i + 1) (j + 1) arg_start in_q in_sq did_create cmds)
     else if in_sq then
       (if c = squote then shell_loop buf (i + 1) j arg_start in_q False did_create cmds else shell_loop (buf[j := c]) (i + 1) (j + 1) arg_start in_q in_sq did_create cmds)
     else if c = dquote then shell_loop buf (i + 1) j arg_start True in_sq True cmds
     else if c = squote then shell_loop buf (i + 1) j arg_start in_q True True cmds
     else if c = backslash then
       rbind (buf_at buf (i + 1)) (\<lambda>next_c.
         if next_c \<noteq> newline then
           shell_loop (buf[j := c]) (i + 2) (j + 1) arg_start in_q in_sq did_create cmds
         else shell_loop buf (i + 2) j arg_start in_q in_sq did_create cmds)
     else if isspace c \<or> c = NUL then
       (let word = (j > arg_start \<or> did_create);
            buf = (if word then buf[j := NUL] else buf);
            j = (if word then j + 1 else j);
            cmds = (if word then cmds @ [arg_start] else cmds) in
        if c = NUL then Inr (buf, cmds)
        else shell_loop buf (i + 1) j j in_q in_sq False cmds)
     else shell_loop (buf[j := c]) (i + 1) (j + 1) arg_start in_q in_sq did_create cmds)"
  by pat_completeness auto
termination
  by (relation "measure (\<lambda>(buf, i, j, rest). length buf - i)") (auto simp: buf_at_Inr)

declare shell_loop.simps [simp del]

definition zuo_shell_to_strings_c :: "string \<Rightarrow> (string \<times> nat list) res" where
  "zuo_shell_to_strings_c buf = shell_loop buf 0 0 0 False False False []"

definition zuo_shell_to_strings :: "zval \<Rightarrow> zval \<Rightarrow> zval res" where
  "zuo_shell_to_strings str starts_exe =
     rbind (check_string ''shell->strings'' str) (\<lambda>s.
       rbind (zuo_shell_to_strings_c (s @ [NUL])) (\<lambda>(buf, cmds).
         Inr (zlist (map (\<lambda>k. VString (cstr (drop k buf))) cmds))))"

section \<open>The words of a command line\<close>

text \<open>
  The same scan without the buffer: the rest of the line (with its terminator), the word
  collected so far and the words before it.
\<close>

function shell_words ::
  "string \<Rightarrow> bool \<Rightarrow> bool \<Rightarrow> bool \<Rightarrow> string \<Rightarrow> string list \<Rightarrow> string list res" where
  "shell_words [] in_q in_sq did cur ws = Inl (UB ''shell overrun'')"
| "shell_words (c # rest) in_q in_sq did cur ws =
     (let in_q = (in_q \<and> c \<noteq> NUL); in_sq = (in_sq \<and> c \<noteq> NUL) in
     if in_q then
       (if c = dquote then shell_words rest False in_sq did cur ws
        else if c = backslash then
          (case rest of
             [] \<Rightarrow> Inl (UB ''shell overrun'')
           | next_c # rest' \<Rightarrow>
               if next_c = CHR ''$'' \<or> next_c = backquote \<or> next_c = backslash \<or> next_c = newline then
                 shell_words rest' in_q in_sq did (cur @ [next_c]) ws
               else shell_words rest in_q in_sq did (cur @ [c]) ws)
        else shell_words rest in_q in_sq did (cur @ [c]) ws)
     else if in_sq then
       (if c = squote then shell_words rest in_q False did cur ws
        else shell_words rest in_q in_sq did (cur @ [c]) ws)
     else if c = dquote then shell_words rest True in_sq True cur ws
     else if c = squote then shell_words rest in_q True True cur ws
     else if c = backslash then
       (case rest of
          [] \<Rightarrow> Inl (UB ''shell overrun'')
        | next_c # rest' \<Rightarrow>
            if next_c \<noteq> newline then shell_words rest' in_q in_sq did (cur @ [c]) ws
            else shell_words rest' in_q in_sq did cur ws)
     else if isspace c \<or> c = NUL then
       (let ws = (if cur \<noteq> [] \<or> did then ws @ [cur] else ws) in
        if c = NUL then Inr ws else shell_words rest in_q in_sq False [] ws)
     else shell_words rest in_q in_sq did (cur @ [c]) ws)"
  by pat_completeness auto
termination by (relation "measure (\<lambda>(rest, xs). length rest)") auto

declare shell_words.simps [simp del]

text \<open>The words as they lie in the buffer, each with its terminator, and where they start.\<close>

definition word_frame :: "string list \<Rightarrow> string" where
  "word_frame ws = concat (map (\<lambda>w. w @ [NUL]) ws)"

definition word_starts :: "string list \<Rightarrow> nat list" where
  "word_starts ws = map (\<lambda>n. length (word_frame (take n ws))) [0..<length ws]"

definition buf_words :: "string \<times> nat list \<Rightarrow> string list" where
  "buf_words r = map (\<lambda>k. cstr (drop k (fst r))) (snd r)"

definition shell_inv :: "string \<Rightarrow> nat \<Rightarrow> nat \<Rightarrow> nat list \<Rightarrow> string \<Rightarrow> string list \<Rightarrow> bool" where
  "shell_inv buf j arg_start cmds cur ws \<longleftrightarrow>
     j \<le> length buf \<and> take j buf = word_frame ws @ cur \<and> arg_start = length (word_frame ws) \<and> cmds = word_starts ws
     \<and> NUL \<notin> set cur \<and> (\<forall>w\<in>set ws. NUL \<notin> set w)"

lemma word_frame_append: "word_frame (ws @ [w]) = word_frame ws @ w @ [NUL]"
  by (simp add: word_frame_def)

lemma word_starts_append: "word_starts (ws @ [w]) = word_starts ws @ [length (word_frame ws)]"
  by (simp add: word_starts_def)

lemma cstr_plain: "NUL \<notin> set w \<Longrightarrow> cstr w = w"
  by (induction w) (auto simp: cstr_def)

lemma cstr_terminated: "NUL \<notin> set w \<Longrightarrow> cstr (w @ NUL # xs) = w"
  by (induction w) (auto simp: cstr_def)

lemma buf_words_frame:
  assumes "buf = word_frame ws @ xs" "\<forall>w\<in>set ws. NUL \<notin> set w"
  shows "buf_words (buf, word_starts ws) = ws"
proof (rule nth_equalityI)
  fix n assume "n < length (buf_words (buf, word_starts ws))"
  then have n: "n < length ws" by (simp add: buf_words_def word_starts_def)
  have "word_frame ws = word_frame (take n ws) @ (ws ! n @ [NUL]) @ word_frame (drop (Suc n) ws)"
    unfolding word_frame_def by (subst id_take_nth_drop [OF n]) simp
  then have "drop (length (word_frame (take n ws))) buf = ws ! n @ NUL # (word_frame (drop (Suc n) ws) @ xs)"
    using assms(1) by simp
  then show "buf_words (buf, word_starts ws) ! n = ws ! n"
    using n assms(2) by (simp add: buf_words_def word_starts_def cstr_terminated)
qed (simp add: buf_words_def word_starts_def)

lemma take_eq_length: "take n xs = ys \<Longrightarrow> n \<le> length xs \<Longrightarrow> n = length ys"
  by auto

lemma next_case:
  "(case drop (Suc i) buf of [] \<Rightarrow> Inl (UB ''shell overrun'') | n # r \<Rightarrow> f n r)
     = rbind (buf_at buf (Suc i)) (\<lambda>n. f n (drop (Suc (Suc i)) buf))"
  by (auto simp: buf_at_def Cons_nth_drop_Suc [symmetric] simp del: Cons_nth_drop_Suc)

lemma map_sum_rbind: "map_sum id g (rbind m f) = rbind m (\<lambda>x. map_sum id g (f x))"
  by (cases m) simp_all

lemma map_sum_if: "map_sum id g (if b then x else y) = (if b then map_sum id g x else map_sum id g y)"
  by simp

lemma shell_inv_copy:
  assumes "shell_inv buf j arg_start cmds cur ws" "j < length buf" "c \<noteq> NUL"
  shows "shell_inv (buf[j := c]) (j + 1) arg_start cmds (cur @ [c]) ws"
  using assms by (simp add: shell_inv_def take_Suc_conv_app_nth)

lemma shell_inv_word:
  assumes "shell_inv buf j arg_start cmds cur ws" "j < length buf"
  shows "shell_inv (buf[j := NUL]) (j + 1) (j + 1) (cmds @ [arg_start]) [] (ws @ [cur])"
proof -
  have "take (j + 1) (buf[j := NUL]) = word_frame (ws @ [cur])"
    using assms by (simp add: shell_inv_def take_Suc_conv_app_nth word_frame_append)
  moreover from this assms(2) have "length (word_frame (ws @ [cur])) = j + 1"
    using take_eq_length [of "j + 1" "buf[j := NUL]"] by simp
  ultimately show ?thesis
    using assms by (auto simp: shell_inv_def word_starts_append)
qed

lemma shell_inv_start:
  assumes "shell_inv buf j arg_start cmds cur ws"
  shows "cur \<noteq> [] \<longleftrightarrow> j > arg_start" "cur = [] \<Longrightarrow> arg_start = j"
    "buf_words (buf, cmds) = ws"
proof -
  have len: "j = length (word_frame ws) + length cur"
    using assms take_eq_length [of j buf "word_frame ws @ cur"] by (simp add: shell_inv_def)
  then show "cur \<noteq> [] \<longleftrightarrow> j > arg_start" "cur = [] \<Longrightarrow> arg_start = j"
    using assms by (auto simp: shell_inv_def)
  have "buf = word_frame ws @ (cur @ drop j buf)"
    using assms append_take_drop_id [of j buf] by (simp add: shell_inv_def)
  from buf_words_frame [OF this] assms show "buf_words (buf, cmds) = ws" by (simp add: shell_inv_def)
qed

text \<open>Splitting in place computes these words.\<close>

lemma shell_loop_words:
  "shell_inv buf j arg_start cmds cur ws \<Longrightarrow> j \<le> i \<Longrightarrow>
   map_sum id buf_words (shell_loop buf i j arg_start in_q in_sq did cmds)
     = shell_words (drop i buf) in_q in_sq did cur ws"
proof (induction "length buf - i" arbitrary: buf i j arg_start in_q in_sq did cmds cur ws rule: less_induct)
  case less
  show ?case
  proof (cases "i < length buf")
    case False
    then show ?thesis by (simp add: shell_loop.simps [of buf i] buf_at_def shell_words.simps)
  next
    case True
    define c where "c = buf ! i"
    have drop: "drop i buf = c # drop (Suc i) buf" using True by (simp add: c_def Cons_nth_drop_Suc)
    have j: "j < length buf" using True less.prems by simp
    have skip: "map_sum id buf_words (shell_loop buf (i + k) j arg_start in_q in_sq did cmds)
        = shell_words (drop (i + k) buf) in_q in_sq did cur ws" if "k > 0" for k in_q in_sq did
      using less.hyps [of buf "i + k"] less.prems that True by simp
    have copy: "map_sum id buf_words (shell_loop (buf[j := d]) (i + k) (j + 1) arg_start in_q in_sq did cmds)
        = shell_words (drop (i + k) buf) in_q in_sq did (cur @ [d]) ws" if "k > 0" "d \<noteq> NUL" for k d in_q in_sq did
      using less.hyps [OF _ shell_inv_copy [OF less.prems(1) j that(2)], of "i + k"] less.prems(2) that True by simp
    have word: "map_sum id buf_words (shell_loop (buf[j := NUL]) (i + 1) (j + 1) (j + 1) in_q in_sq False (cmds @ [arg_start]))
        = shell_words (drop (i + 1) buf) in_q in_sq False [] (ws @ [cur])" for in_q in_sq
      using less.hyps [OF _ shell_inv_word [OF less.prems(1) j], of "i + 1"] less.prems(2) True by simp
    have last: "buf_words (buf[j := NUL], cmds @ [arg_start]) = ws @ [cur]"
      using shell_inv_start(3) [OF shell_inv_word [OF less.prems(1) j]] .
    note start = shell_inv_start [OF less.prems(1)]
    have esc: "map_sum id buf_words (shell_loop (buf[j := d]) (Suc (Suc i)) (Suc j) arg_start in_q in_sq did cmds)
        = shell_words (drop (Suc (Suc i)) buf) in_q in_sq did (cur @ [d]) ws"
      if "d = CHR ''$'' \<or> d = backquote \<or> d = backslash \<or> d = newline" for d in_q in_sq did
      using copy [of 2 d] that by auto
    have at: "buf_at buf i = Inr c" using True by (simp add: buf_at_def c_def)
    have blank: "map_sum id buf_words (shell_loop buf (Suc i) j j in_q in_sq False cmds)
        = shell_words (drop (Suc i) buf) in_q in_sq False [] ws" if "\<not> arg_start < j" for in_q in_sq
      using skip [of 1 in_q in_sq False] start(1,2) that by auto
    show ?thesis
      by (simp add: shell_loop.simps [of buf i] at drop shell_words.simps(2) Let_def next_case map_sum_rbind map_sum_if
          skip [of 1, simplified] skip [of 2, simplified] copy [of 1, simplified] esc word [simplified]
          last blank start(1,3) cong: if_cong rbind_cong)
  qed
qed

lemma zuo_shell_to_strings_words:
  "zuo_shell_to_strings (VString s) starts_exe
     = rbind (shell_words (s @ [NUL]) False False False [] []) (\<lambda>ws. Inr (zlist (map VString ws)))"
proof -
  have "shell_inv (s @ [NUL]) 0 0 [] [] []" by (simp add: shell_inv_def word_frame_def word_starts_def)
  from shell_loop_words [OF this, of 0 False False False]
  have "shell_words (s @ [NUL]) False False False [] [] = map_sum id buf_words (zuo_shell_to_strings_c (s @ [NUL]))"
    by (simp add: zuo_shell_to_strings_c_def)
  then show ?thesis
    by (cases "zuo_shell_to_strings_c (s @ [NUL])")
      (auto simp: zuo_shell_to_strings_def buf_words_def comp_def)
qed

section \<open>Quoting never overruns its buffer\<close>

text \<open>The bytes a string is written as, from a state in which a double quote is open or not.\<close>

primrec shell_text :: "string \<Rightarrow> bool \<Rightarrow> string" where
  "shell_text [] quoting = (if quoting then [dquote] else [])"
| "shell_text (c # s) quoting = fst (shell_char c quoting) @ shell_text s (snd (shell_char c quoting))"

lemma shell_char_length: "length (fst (shell_char c quoting)) \<le> 4"
  by (simp add: shell_char_def)

lemma to_shell_loop_text:
  "length p + 3 \<le> sz \<Longrightarrow> 6 \<le> sz \<Longrightarrow> to_shell_loop s sz quoting p = Inr (p @ shell_text s quoting @ [NUL])"
proof (induction s arbitrary: sz quoting p)
  case (Cons c s)
  obtain out quoting' where sc: "shell_char c quoting = (out, quoting')" by fastforce
  with shell_char_length [of c quoting] have "length out \<le> 4" by simp
  with Cons.IH [of "p @ out"] Cons.prems sc show ?case by (simp add: Let_def buf_push_def)
qed (simp add: buf_push_def)

definition shell_quote :: "string \<Rightarrow> string" where
  "shell_quote s = (if s = [] then [dquote, dquote] else shell_text s False)"

lemma zuo_string_to_shell_c_text: "zuo_string_to_shell_c s = Inr (shell_quote (cstr s) @ [NUL])"
  by (simp add: zuo_string_to_shell_c_def shell_quote_def buf_push_def to_shell_loop_text Let_def)

lemma shell_text_nul: "NUL \<notin> set s \<Longrightarrow> NUL \<notin> set (shell_text s quoting)"
  by (induction s arbitrary: quoting) (auto simp: shell_char_def)

lemma shell_quote_nul: "NUL \<notin> set s \<Longrightarrow> NUL \<notin> set (shell_quote s)"
  by (simp add: shell_quote_def shell_text_nul)

lemma zuo_string_to_shell_quote: "zuo_string_to_shell (VString s) = Inr (VString (shell_quote (cstr s)))"
proof -
  have "NUL \<notin> set (cstr s)" by (auto simp: cstr_def dest: set_takeWhileD)
  then show ?thesis
    by (simp add: zuo_string_to_shell_def zuo_string_to_shell_c_text cstr_terminated shell_quote_nul)
qed

section \<open>Quoted words are read back\<close>

lemma shell_words_char:
  assumes "c \<noteq> NUL"
  shows "\<exists>did'. (did \<longrightarrow> did') \<and> shell_words (fst (shell_char c quoting) @ rest) quoting False did cur ws
     = shell_words rest (snd (shell_char c quoting)) False did' (cur @ [c]) ws"
proof (cases "shell_special c")
  case True
  then have "c \<noteq> squote" by (auto simp: shell_special_def)
  with True assms show ?thesis
    by (intro exI [of _ True]) (simp add: shell_char_def shell_words.simps)
next
  case nsp: False
  then have "c \<noteq> dquote" "c \<noteq> backslash" by (auto simp: shell_special_def)
  moreover have "\<not> isspace c" "c \<noteq> squote" if "\<not> shell_delimiting c" using that by (auto simp: shell_delimiting_def)
  ultimately show ?thesis
    using nsp assms by (cases "shell_delimiting c"; cases quoting)
      (auto simp: shell_char_def shell_words.simps intro: exI [of _ True] exI [of _ did])
qed

lemma shell_words_text:
  assumes "NUL \<notin> set s"
  shows "\<exists>did'. (did \<longrightarrow> did') \<and> shell_words (shell_text s quoting @ rest) quoting False did cur ws
     = shell_words rest False False did' (cur @ s) ws"
  using assms
proof (induction s arbitrary: quoting did cur)
  case Nil
  then show ?case by (cases quoting) (auto simp: shell_words.simps intro: exI [of _ did])
next
  case (Cons c s)
  then have "c \<noteq> NUL" "NUL \<notin> set s" by auto
  from shell_words_char [OF this(1), of did quoting "shell_text s (snd (shell_char c quoting)) @ rest" cur ws]
  obtain did1 where 1: "did \<longrightarrow> did1" "shell_words (shell_text (c # s) quoting @ rest) quoting False did cur ws
     = shell_words (shell_text s (snd (shell_char c quoting)) @ rest) (snd (shell_char c quoting)) False did1 (cur @ [c]) ws"
    by auto
  with Cons.IH [OF \<open>NUL \<notin> set s\<close>, of did1 "snd (shell_char c quoting)" "cur @ [c]"] show ?case by auto
qed

lemma shell_words_quote:
  assumes "NUL \<notin> set s" "sep = CHR '' '' \<or> sep = NUL"
  shows "shell_words (shell_quote s @ sep # rest) False False False [] ws
     = (if sep = NUL then Inr (ws @ [s]) else shell_words rest False False False [] (ws @ [s]))"
proof -
  have "\<exists>did. (s = [] \<longrightarrow> did) \<and> shell_words (shell_quote s @ sep # rest) False False False [] ws
      = shell_words (sep # rest) False False did s ws"
  proof (cases "s = []")
    case True
    then show ?thesis by (intro exI [of _ True]) (simp add: shell_quote_def shell_words.simps)
  next
    case False
    with shell_words_text [OF assms(1), of False False "sep # rest" "[]" ws] show ?thesis
      by (auto simp: shell_quote_def)
  qed
  then obtain did where "s = [] \<longrightarrow> did" and eq: "shell_words (shell_quote s @ sep # rest) False False False [] ws
      = shell_words (sep # rest) False False did s ws" by blast
  then have "s \<noteq> [] \<or> did" by blast
  then show ?thesis unfolding eq using assms(2) by (auto simp: shell_words.simps zuo_ctype)
qed

lemma shell_words_line:
  "ss \<noteq> [] \<Longrightarrow> \<forall>s\<in>set ss. NUL \<notin> set s \<Longrightarrow>
   shell_words (join '' '' (map shell_quote ss) @ [NUL]) False False False [] ws = Inr (ws @ ss)"
proof (induction ss arbitrary: ws)
  case (Cons s ss)
  show ?case
  proof (cases ss)
    case Nil
    with shell_words_quote [of s NUL "[]" ws] Cons.prems show ?thesis by simp
  next
    case (Cons s' ss')
    have "shell_words (shell_quote s @ CHR '' '' # (join '' '' (map shell_quote ss) @ [NUL])) False False False [] ws
        = shell_words (join '' '' (map shell_quote ss) @ [NUL]) False False False [] (ws @ [s])"
      using Cons.prems shell_words_quote [of s "CHR '' ''" "join '' '' (map shell_quote ss) @ [NUL]" ws]
      by (simp add: zuo_ctype)
    with Cons.IH [of "ws @ [s]"] Cons.prems Cons show ?thesis by simp
  qed
qed simp

section \<open>The shell primitives\<close>

lemma shell_words_total:
  "rest = [] \<or> last rest \<noteq> backslash \<Longrightarrow> \<not> isl (shell_words (rest @ [NUL]) in_q in_sq did cur ws)"
proof (induction "length rest" arbitrary: rest in_q in_sq did cur ws rule: less_induct)
  case less
  show ?case
  proof (cases rest)
    case Nil
    then show ?thesis by (simp add: shell_words.simps)
  next
    case (Cons c r)
    have r: "\<not> isl (shell_words (r @ [NUL]) in_q in_sq did cur ws)" for in_q in_sq did cur ws
      using less.hyps [of r] less.prems Cons by (cases r) auto
    have r': "\<not> isl (shell_words (tl r @ [NUL]) in_q in_sq did cur ws)" if "r \<noteq> []" for in_q in_sq did cur ws
      using less.hyps [of "tl r"] less.prems Cons that by (cases r; cases "tl r") auto
    have nxt: "(case r @ [NUL] of [] \<Rightarrow> x | n # r' \<Rightarrow> f n r') = (if r = [] then f NUL [] else f (hd r) (tl r @ [NUL]))"
      for x :: "string list res" and f by (cases r) auto
    have "c = backslash \<Longrightarrow> r \<noteq> []" using less.prems Cons by auto
    then show ?thesis
      unfolding Cons append_Cons shell_words.simps(2) nxt by (auto simp: Let_def r r')
  qed
qed

text \<open>
  C19: A command line made of strings quoted by \<^verbatim>\<open>string->shell\<close> and separated by spaces is read back by
  \<^verbatim>\<open>shell->strings\<close> as exactly these strings, whatever bytes other than NUL they contain; empty
  strings are kept. In particular the quoting loop never writes past the buffer it grows.
\<close>

theorem shell_round_trip:
  assumes "ss \<noteq> []" "\<forall>s\<in>set ss. NUL \<notin> set s"
  shows "\<exists>qs. map (\<lambda>s. zuo_string_to_shell (VString s)) ss = map (\<lambda>q. Inr (VString q)) qs
    \<and> zuo_shell_to_strings (VString (join '' '' qs)) VUndefined = Inr (zlist (map VString ss))"
proof (intro exI conjI)
  show "map (\<lambda>s. zuo_string_to_shell (VString s)) ss = map (\<lambda>q. Inr (VString q)) (map shell_quote ss)"
    using assms(2) by (auto simp: zuo_string_to_shell_quote cstr_plain)
  show "zuo_shell_to_strings (VString (join '' '' (map shell_quote ss))) VUndefined = Inr (zlist (map VString ss))"
    using shell_words_line [OF assms, of "[]"] by (simp add: zuo_shell_to_strings_words)
qed

theorem shell_round_trip_witness:
  "\<exists>qs. map (\<lambda>s. zuo_string_to_shell (VString s)) [''a b'', [], ''$x''] = map (\<lambda>q. Inr (VString q)) qs
    \<and> zuo_shell_to_strings (VString (join '' '' qs)) VUndefined = Inr (zlist (map VString [''a b'', [], ''$x'']))"
  by (rule shell_round_trip) simp_all



text \<open>
  A backslash outside quotes keeps the backslash and drops the character it should protect, a
  protected double quote inside double quotes ends the quoted part, and a backslash at the end of
  the line makes the scan read past the terminator.
\<close>

theorem shell_backslash:
  "zuo_shell_to_strings (VString [CHR ''a'', backslash, CHR '' '', CHR ''b'']) VUndefined
     = Inr (zlist [VString [CHR ''a'', backslash, CHR ''b'']])
   \<and> zuo_shell_to_strings (VString [dquote, backslash, dquote, CHR '' '', CHR ''b'', dquote]) VUndefined
     = Inr (zlist [VString [backslash], VString ''b''])
   \<and> zuo_shell_to_strings (VString [CHR ''a'', backslash]) VUndefined = Inl (UB ''shell overrun'')"
  by code_simp

end
