(* ===== verification/Zuo_Prim_Safety.thy ===== *)
theory Zuo_Prim_Safety
  imports Zuo_Safety Zuo_Path Zuo_Shell
begin

text \<open>
  The primitives keep values well formed: tables keep their shape and hold well-formed values
  after every update, the reader returns well-formed data and keeps the symbol table sound, and
  each object primitive, on well-formed arguments, returns a well-formed value or reports an
  error. These are the contracts that the interpreter's safety proof asks for.
\<close>

section \<open>Tables of values\<close>

definition trie_all :: "('v \<Rightarrow> bool) \<Rightarrow> 'v trie \<Rightarrow> bool" where
  "trie_all P t \<longleftrightarrow> trie_shape t \<and> (\<forall>v\<in>set_trie t. P v)"

lemma set_trie_node: "set_trie t = set_option (trie_val t) \<union> (\<Union>n\<in>set (trie_next t). \<Union>c\<in>set_option n. set_trie c)"
  by (cases t) auto

lemma trie_all_iff:
  "trie_all P t \<longleftrightarrow> length (trie_next t) = 16 \<and> (\<forall>v. trie_val t = Some v \<longrightarrow> P v)
     \<and> (\<forall>i<16. trie_all P (onode (trie_next t ! i)))"
proof -
  have sub: "set_trie (onode (trie_next t ! i)) \<subseteq> set_trie t" if "i < 16" "length (trie_next t) = 16" for i
    using that set_trie_node [of t] by (cases "trie_next t ! i")
      (auto simp: zuo_trie_node_def, metis UN_I nth_mem option.set_intros)
  have sup: "\<exists>i<16. v \<in> set_trie (onode (trie_next t ! i))"
    if "n \<in> set (trie_next t)" "n = Some c" "v \<in> set_trie c" "length (trie_next t) = 16" for n c v
    using that by (metis in_set_conv_nth onode_simps(2))
  show ?thesis
  proof
    assume "trie_all P t"
    then show "length (trie_next t) = 16 \<and> (\<forall>v. trie_val t = Some v \<longrightarrow> P v)
        \<and> (\<forall>i<16. trie_all P (onode (trie_next t ! i)))"
      using sub trie_shape_iff [of t] set_trie_node [THEN equalityD2, THEN subsetD, of _ t]
      unfolding trie_all_def by blast
  next
    assume r: "length (trie_next t) = 16 \<and> (\<forall>v. trie_val t = Some v \<longrightarrow> P v)
        \<and> (\<forall>i<16. trie_all P (onode (trie_next t ! i)))"
    then have "trie_shape t" using trie_shape_iff [of t] by (simp add: trie_all_def)
    moreover have "P v" if v: "v \<in> set_trie t" for v
    proof -
      consider "trie_val t = Some v" | n c where "n \<in> set (trie_next t)" "n = Some c" "v \<in> set_trie c"
        using v set_trie_node [of t] by (auto simp: elem_set)
      then show ?thesis
      proof cases
        case 2
        with sup r obtain i where "i < 16" "v \<in> set_trie (onode (trie_next t ! i))" by blast
        with r show ?thesis by (auto simp: trie_all_def)
      qed (use r in simp)
    qed
    ultimately show "trie_all P t" by (simp add: trie_all_def)
  qed
qed

lemma trie_all_empty [simp]: "trie_all P zuo_trie_node"
proof -
  have "set_trie (zuo_trie_node :: 'a trie) = {}" by (simp add: zuo_trie_node_def)
  then show ?thesis by (simp add: trie_all_def)
qed

lemma trie_all_onode: "(\<And>c. n = Some c \<Longrightarrow> trie_all P c) \<Longrightarrow> trie_all P (onode n)"
  by (cases n) auto

text \<open>One more value or one child less or changed.\<close>

lemma trie_all_update:
  assumes "trie_all P t" "trie_all P (onode n)"
  shows "trie_all P (Trie_Node c k (trie_val t) ((trie_next t)[i := n]))"
proof -
  have t: "length (trie_next t) = 16" "\<forall>v. trie_val t = Some v \<longrightarrow> P v"
    "\<And>i. i < 16 \<Longrightarrow> trie_all P (onode (trie_next t ! i))"
    using assms(1) trie_all_iff [of P t] by auto
  show ?thesis
    unfolding trie_all_iff [of P "Trie_Node c k (trie_val t) ((trie_next t)[i := n])"]
  proof (intro conjI allI impI)
    fix j :: nat assume "j < 16"
    with t assms(2) show "trie_all P (onode (trie_next (Trie_Node c k (trie_val t) ((trie_next t)[i := n])) ! j))"
      by (cases "i = j") auto
  qed (use t in auto)
qed

lemma trie_all_val:
  assumes "trie_all P t" "\<And>x. v = Some x \<Longrightarrow> P x"
  shows "trie_all P (Trie_Node c k v (trie_next t))"
  using assms trie_all_iff [of P t] by (subst trie_all_iff) simp

lemma trie_all_set: "trie_all P t \<Longrightarrow> P v \<Longrightarrow> trie_all P (trie_set t sid key v)"
proof (induction t sid key v rule: trie_set.induct)
  case (1 t sid key v)
  show ?case
  proof (cases "sid > 0")
    case True
    have "trie_slot sid < 16" by simp
    with "1.prems"(1) trie_all_iff [of P t] have "trie_all P (onode (trie_next t ! trie_slot sid))" by blast
    with 1 True trie_all_update [OF "1.prems"(1)] show ?thesis
      by (simp add: trie_set.simps [of t] onode_def [symmetric] Let_def)
  next
    case False
    with 1 trie_all_val [of P t "Some v"] show ?thesis by (simp add: trie_set.simps [of t])
  qed
qed

lemma trie_all_zuo_set: "trie_all P t \<Longrightarrow> P v \<Longrightarrow> trie_all P (zuo_trie_set t symb v)"
  using trie_all_set [of P t v "sym_id symb" symb]
    trie_all_val [of P "trie_set t (sym_id symb) symb v" "trie_val (trie_set t (sym_id symb) symb v)"]
    trie_all_iff [of P "trie_set t (sym_id symb) symb v"]
  by (simp add: zuo_trie_set_def Let_def)

lemma trie_all_extend: "trie_all P (onode n) \<Longrightarrow> P v \<Longrightarrow> trie_all P (fst (trie_extend n sid key v a))"
proof (induction n sid key v a rule: trie_extend.induct)
  case (1 n sid key v a)
  let ?t = "onode n" let ?a = "if n = None then 1 else a"
  have t: "(case n of None \<Rightarrow> (zuo_trie_node, 1) | Some t \<Rightarrow> (t, a)) = (?t, ?a)" by (cases n) auto
  show ?case
  proof (cases "sid > 0")
    case True
    obtain sub b where sub: "trie_extend (trie_next ?t ! trie_slot sid) (trie_shift sid) key v ?a = (sub, b)" by fastforce
    have "trie_slot sid < 16" by simp
    with "1.prems"(1) trie_all_iff [of P ?t] have "trie_all P (onode (trie_next ?t ! trie_slot sid))" by blast
    then have "trie_all P sub" using "1.IH" [OF t [symmetric] refl True refl] "1.prems"(2) sub by simp
    with trie_all_update [OF "1.prems"(1), of "Some sub"] True sub show ?thesis
      by (simp add: trie_extend.simps [of n] t Let_def)
  next
    case False
    with 1 trie_all_val [of P ?t "Some v"] show ?thesis by (simp add: trie_extend.simps [of n] t Let_def)
  qed
qed

lemma trie_all_prune: "trie_all P t \<Longrightarrow> trie_all P (onode (trie_prune d t))"
  by (simp add: trie_prune_def)

lemma trie_all_remove: "trie_all P (onode n) \<Longrightarrow> trie_all P (onode (trie_remove n sid d))"
proof (induction n sid d rule: trie_remove.induct)
  case (1 n sid d)
  show ?case
  proof (cases n)
    case None
    then show ?thesis by (simp add: trie_remove.simps)
  next
    case (Some t)
    show ?thesis
    proof (cases "sid > 0")
      case True
      have "trie_slot sid < 16" by simp
      with "1.prems" Some trie_all_iff [of P t] have "trie_all P (onode (trie_next t ! trie_slot sid))" by simp
      define sub where "sub = trie_remove (trie_next t ! trie_slot sid) (trie_shift sid) (d + 1)"
      define new where "new = Trie_Node (trie_count t - 1) (trie_key t) (trie_val t) ((trie_next t)[trie_slot sid := sub])"
      have "trie_all P (onode sub)"
        using "1.IH" Some True \<open>trie_all P (onode (trie_next t ! trie_slot sid))\<close> by (simp add: sub_def)
      then have "trie_all P new" unfolding new_def using "1.prems" Some by (intro trie_all_update) simp_all
      moreover have "trie_remove n sid d = (if sub = trie_next t ! trie_slot sid then Some t
          else if sub \<noteq> None \<or> trie_val new \<noteq> None then Some new else trie_prune d new)"
        unfolding Some by (subst trie_remove.simps) (simp only: option.case True if_True Let_def sub_def new_def)
      ultimately show ?thesis using "1.prems" Some by (simp add: trie_all_prune)
    next
      case False
      with "1.prems" Some trie_all_val [of P t None] show ?thesis
        by (simp add: trie_remove.simps [of "Some t"] trie_all_prune)
    qed
  qed
qed

lemma trie_all_ops:
  assumes "trie_all P t"
  shows "P v \<Longrightarrow> trie_all P (zuo_trie_extend t symb v)" "trie_all P (zuo_trie_remove t symb)"
proof -
  show "P v \<Longrightarrow> trie_all P (zuo_trie_extend t symb v)"
    using trie_all_extend [of P "Some t"] assms by (simp add: zuo_trie_extend_def)
  show "trie_all P (zuo_trie_remove t symb)"
    using trie_all_remove [of P "Some t" "sym_id symb" 0] assms
    by (cases "trie_remove (Some t) (sym_id symb) 0") (simp_all add: zuo_trie_remove_def)
qed

lemma val_ok_trie: "val_ok F R n (VTrie t) \<longleftrightarrow> trie_all (val_ok F R n) t"
  by (auto simp: trie_all_def)

section \<open>The reader returns data\<close>

text \<open>The objects that wait in the reader's frames are well formed, and so is what is read.\<close>

primrec frame_ok :: "(zval \<Rightarrow> bool) \<Rightarrow> in_frame \<Rightarrow> bool" where
  "frame_ok P (In_List paren elems) \<longleftrightarrow> list_all P elems"
| "frame_ok P (In_Pair paren elems) \<longleftrightarrow> list_all P elems"
| "frame_ok P (In_End paren v) \<longleftrightarrow> P v"
| "frame_ok P (In_Quote q) \<longleftrightarrow> True"
| "frame_ok P In_Discard \<longleftrightarrow> True"

lemma val_ok_zlist_onto: "list_all (val_ok F R n) xs \<Longrightarrow> val_ok F R n d \<Longrightarrow> val_ok F R n (zlist_onto xs d)"
  by (induction xs) auto

lemma zuo_symbol_ok: "symtab_ok st \<Longrightarrow> zuo_symbol s st = (x, st') \<Longrightarrow> symtab_ok st'"
  using zuo_symbol_spec(1) [of st s] by simp

lemma in_start_ok:
  assumes "in_start len rest stack st = Inr (obj, rest', stack', st')" "list_all (frame_ok (val_ok F R n)) stack" "symtab_ok st"
  shows "list_all (frame_ok (val_ok F R n)) stack' \<and> symtab_ok st' \<and> (\<forall>v. obj = Some v \<longrightarrow> val_ok F R n v)"
  using assms(1) unfolding in_start_def Let_def in_quote_def in_close_def in_dot_def in_hash_def
  by (elim ite_E, goal_cases)
    (use assms(2,3) in \<open>auto simp: rbind_eq_Inr_iff list_all_iff split: option.splits prod.splits list.splits
      in_frame.splits if_splits dest: zuo_symbol_ok\<close>)

lemma in_token_ok:
  assumes "in_token len rest stack st = Inr (obj, rest', stack', st')" "list_all (frame_ok (val_ok F R n)) stack" "symtab_ok st"
  shows "list_all (frame_ok (val_ok F R n)) stack' \<and> symtab_ok st' \<and> (\<forall>v. obj = Some v \<longrightarrow> val_ok F R n v)"
proof (cases "(len, rest, stack, st)" rule: in_token.cases)
  case (1 len rest paren obj stack st)
  with assms show ?thesis by (auto split: if_splits)
qed (use assms in_start_ok in \<open>fastforce+\<close>)

lemma in_pop_ok:
  "list_all (frame_ok (val_ok F R n)) stack \<Longrightarrow> val_ok F R n obj \<Longrightarrow> in_pop pos obj stack = Inr r \<Longrightarrow>
   (case r of Inl v \<Rightarrow> val_ok F R n v | Inr stack' \<Rightarrow> list_all (frame_ok (val_ok F R n)) stack')"
  by (induction pos obj stack rule: in_pop.induct) (auto simp: val_ok_zlist_onto split: if_splits)

lemma in_iter_ok:
  assumes "in_iter len b input stack st = Inr r" "list_all (frame_ok (val_ok F R n)) stack" "symtab_ok st"
  shows "case r of Inl (v, rest, st') \<Rightarrow> val_ok F R n v \<and> symtab_ok st'
    | Inr (rest, stack', st') \<Rightarrow> list_all (frame_ok (val_ok F R n)) stack' \<and> symtab_ok st'"
proof -
  obtain rest d where skip: "in_skip input 0 = (rest, d)" by fastforce
  let ?stack = "replicate d In_Discard @ stack"
  have stack: "list_all (frame_ok (val_ok F R n)) ?stack" using assms(2) by (auto simp: list_all_iff)
  show ?thesis
  proof (cases "?stack = [] \<and> b")
    case True
    with assms skip show ?thesis by (auto simp: in_iter_def)
  next
    case False
    then obtain obj rest' stack' st' where tok: "in_token len rest ?stack st = Inr (obj, rest', stack', st')"
      using assms(1) skip by (auto simp: in_iter_def rbind_eq_Inr_iff)
    note ok = in_token_ok [OF tok stack assms(3)]
    have r: "(case obj of None \<Rightarrow> Inr (Inr (rest', stack', st'))
        | Some v \<Rightarrow> rbind (in_pop (len - length rest') v stack') (\<lambda>r. case r of
             Inl v' \<Rightarrow> Inr (Inl (v', rest', st')) | Inr stack'' \<Rightarrow> Inr (Inr (rest', stack'', st')))) = Inr r"
      using assms(1) unfolding in_iter_def skip Let_def prod.case if_not_P [OF False] tok rbind_simps .
    show ?thesis
    proof (cases obj)
      case None
      with r ok show ?thesis by auto
    next
      case (Some v)
      then obtain p where p: "in_pop (len - length rest') v stack' = Inr p"
        using r by (auto simp: rbind_eq_Inr_iff)
      with in_pop_ok [OF _ _ p, of F R n] ok Some r show ?thesis by (auto split: sum.splits)
    qed
  qed
qed

lemma in_loop_ok:
  "in_loop len b input stack st = Inr (v, rest, st') \<Longrightarrow> list_all (frame_ok (val_ok F R n)) stack \<Longrightarrow> symtab_ok st \<Longrightarrow>
     val_ok F R n v \<and> symtab_ok st'"
proof (induction len b input stack st rule: in_loop.induct)
  case (1 len b input stack st)
  obtain r where r: "in_iter len b input stack st = Inr r"
    using "1.prems"(1) by (cases "in_iter len b input stack st") (auto simp: in_loop.simps [of len])
  note ok = in_iter_ok [OF r "1.prems"(2,3)]
  show ?case
  proof (cases r)
    case (Inl x)
    with r ok "1.prems"(1) show ?thesis by (simp add: in_loop.simps [of len b input])
  next
    case (Inr x)
    obtain rest1 stack1 st1 where x: "x = (rest1, stack1, st1)" by (cases x)
    then have "in_loop len b rest1 stack1 st1 = Inr (v, rest, st')"
      using r Inr "1.prems"(1) by (simp add: in_loop.simps [of len b input])
    with "1.IH" [OF r Inr x [symmetric] refl] ok Inr x show ?thesis by simp
  qed
qed

lemma zuo_in_ok: "zuo_in len b input st = Inr (v, rest, st') \<Longrightarrow> symtab_ok st \<Longrightarrow> val_ok F R n v \<and> symtab_ok st'"
  unfolding zuo_in_def by (erule in_loop_ok) simp_all

lemma read_all_ok:
  "symtab_ok st \<Longrightarrow> list_all (val_ok F R n) acc \<Longrightarrow>
   safe (\<lambda>(vs, st'). list_all (val_ok F R n) vs \<and> symtab_ok st') (read_all len rest acc st)"
proof (induction len rest acc st rule: read_all.induct)
  case (1 len rest acc st)
  show ?case
  proof (cases "zuo_in len False rest st")
    case (Inl e)
    with zuo_in_error [OF Inl] show ?thesis by (auto simp: read_all.simps [of len] read_error_def)
  next
    case (Inr x)
    obtain v rest' st' where x: "x = (v, rest', st')" by (cases x)
    note ok = zuo_in_ok [OF Inr [unfolded x] "1.prems"(1), of F R n]
    with "1.IH" [OF Inr x [symmetric] refl] "1.prems" Inr x show ?thesis
      by (auto simp: read_all.simps [of len rest])
  qed
qed

lemma zuo_string_read_safe:
  assumes "symtab_ok st"
  shows "safe (\<lambda>(v, st'). val_ok F R n v \<and> symtab_ok st') (zuo_string_read str start_i st)"
proof -
  have "safe (\<lambda>(v, st'). val_ok F R n v \<and> symtab_ok st')
      (rbind (read_all len rest [] st) (\<lambda>(vs, st'). Inr (zlist vs, st')))" for len rest
    using read_all_ok [OF assms, of F R n "[]" len rest]
    by (auto simp: safe_rbind list_all_iff split: prod.split elim!: safe_mono)
  then show ?thesis
    by (auto simp: zuo_string_read_def Let_def safe_rbind check_string_def check_integer_def split: zval.split)
qed

section \<open>Contracts of the primitives\<close>

text \<open>
  Collected in \<open>prim_safe\<close>: on well-formed arguments (an optional one may be absent), a result
  is well formed and an error is a report.
\<close>

named_theorems prim_safe

lemma zbool_ok [simp]: "val_ok F R n (zbool b)"
  by (simp add: zbool_def)

lemma predicates_ok [prim_safe]:
  "val_ok F R n (zuo_pair_p v)" "val_ok F R n (zuo_null_p v)" "val_ok F R n (zuo_integer_p v)"
  "val_ok F R n (zuo_string_p v)" "val_ok F R n (zuo_symbol_p v)" "val_ok F R n (zuo_not v)"
  "val_ok F R n (zuo_path_string_p v)" "val_ok F R n (zuo_module_path_p v)" "val_ok F R n (zuo_make_void v)"
  "val_ok F R n (zuo_eq same v w)"
  by (simp_all add: zuo_pair_p_def zuo_null_p_def zuo_integer_p_def zuo_string_p_def zuo_symbol_p_def zuo_not_def
      zuo_path_string_p_def zuo_module_path_p_def zuo_make_void_def zuo_eq_def)

lemma case_predicates_ok [prim_safe]:
  "val_ok F R n (zuo_procedure_p v)" "val_ok F R n (zuo_hash_p v)" "val_ok F R n (zuo_variable_p v)"
  "val_ok F R n (zuo_handle_p v)"
  by (simp_all add: zuo_procedure_p_def zuo_hash_p_def zuo_variable_p_def zuo_handle_p_def split: zval.split)

lemma zuo_list_p_ok [prim_safe]: "val_ok F R n (zuo_list_p v)"
  by (induction v rule: zuo_list_p.induct) simp_all

lemma pairs_safe [prim_safe]:
  "val_ok F R n a \<Longrightarrow> val_ok F R n d \<Longrightarrow> val_ok F R n (zuo_cons a d)"
  "val_ok F R n v \<Longrightarrow> safe (val_ok F R n) (zuo_car v)"
  "val_ok F R n v \<Longrightarrow> safe (val_ok F R n) (zuo_cdr v)"
  "val_ok F R n v \<Longrightarrow> val_ok F R n (zuo_list v)"
  by (auto simp: zuo_cons_def zuo_car_def zuo_cdr_def zuo_list_def split: zval.split)

lemma list_loops_safe:
  "val_ok F R n lst \<Longrightarrow> safe (val_ok F R n) (list_ref_loop i lst)"
  "val_ok F R n lst \<Longrightarrow> val_ok F R n v \<Longrightarrow> safe (val_ok F R n) (list_set_loop i lst v)"
  by (induction i arbitrary: lst) (auto simp: safe_rbind split: zval.split elim!: safe_mono)

lemma list_index_safe: "safe (\<lambda>i. True) (list_index who v)"
  by (simp add: list_index_def Let_def)

lemma reverse_loop_ok: "val_ok F R n l \<Longrightarrow> val_ok F R n r \<Longrightarrow> val_ok F R n (fst (reverse_loop l r))"
  by (induction l r rule: reverse_loop.induct) simp_all

lemma append_loop_safe:
  "\<forall>v\<in>set l. val_ok F R n v \<Longrightarrow> list_all (val_ok F R n) acc \<Longrightarrow> safe (val_ok F R n) (append_loop l acc)"
  by (induction l acc rule: append_loop.induct) (auto simp: val_ok_zlist_onto list_all_iff intro: val_ok_zelems)

lemma lists_safe [prim_safe]:
  "val_ok F R n lst \<Longrightarrow> safe (val_ok F R n) (zuo_list_ref lst i)"
  "val_ok F R n lst \<Longrightarrow> val_ok F R n v \<Longrightarrow> safe (val_ok F R n) (zuo_list_set lst i v)"
  "safe (val_ok F R n) (zuo_length l)"
  "val_ok F R n l \<Longrightarrow> safe (val_ok F R n) (zuo_reverse l)"
  "\<forall>v\<in>set args. val_ok F R n v \<Longrightarrow> safe (val_ok F R n) (zuo_append (zlist args))"
  using reverse_loop_ok [of F R n l VNull] append_loop_safe [of args F R n "[]"]
  by (auto simp: zuo_list_ref_def zuo_list_set_def zuo_length_def zuo_length_int_def zuo_reverse_def zuo_append_def
      safe_rbind list_loops_safe Let_def split: prod.split intro: safe_mono [OF list_index_safe])

lemma integer_loops_safe:
  "safe (\<lambda>i. True) (add_loop (zlist args) i)" "safe (\<lambda>i. True) (subtract_loop (zlist args) i)"
  "safe (\<lambda>i. True) (multiply_loop (zlist args) i)" "safe (\<lambda>i. True) (build_chars (zlist args))"
  by (induction args arbitrary: i) (auto simp: safe_rbind check_integer_def split: zval.split elim!: safe_mono)

lemma safe_True: "safe (\<lambda>x. True) r \<Longrightarrow> (\<And>x. P x) \<Longrightarrow> safe P r"
  by (cases r) simp_all

lemma checks_safe:
  "safe (\<lambda>x. True) (check_string who v)" "safe (\<lambda>x. True) (check_symbol who v)"
  "safe (\<lambda>x. True) (check_integer who v)" "safe (\<lambda>x. True) (check_ints who v w)"
  by (auto simp: check_string_def check_symbol_def check_integer_def check_ints_def split: zval.split)

lemma integers_safe [prim_safe]:
  "safe (val_ok F R n) (zuo_add (zlist args))"
  "safe (val_ok F R n) (zuo_multiply (zlist args))" "safe (val_ok F R n) (zuo_build_string (zlist args))"
  "safe (val_ok F R n) (zuo_bitwise_not v)"
  by (auto simp: zuo_add_def zuo_multiply_def zuo_build_string_def zuo_bitwise_not_def safe_rbind
      intro!: safe_True [OF integer_loops_safe(1)] safe_True [OF integer_loops_safe(3)]
        safe_True [OF integer_loops_safe(4)] safe_True [OF checks_safe(3)])

lemma zuo_subtract_safe [prim_safe]: "args \<noteq> [] \<Longrightarrow> safe (val_ok F R n) (zuo_subtract (zlist args))"
  by (cases args) (auto simp: zuo_subtract_def safe_rbind
      intro!: safe_True [OF integer_loops_safe(2)] safe_True [OF checks_safe(3)])

lemma int_pairs_safe [prim_safe]:
  "safe (val_ok F R n) (zuo_quotient v w)" "safe (val_ok F R n) (zuo_remainder v w)"
  "safe (val_ok F R n) (zuo_eql v w)" "safe (val_ok F R n) (zuo_lt v w)" "safe (val_ok F R n) (zuo_le v w)"
  "safe (val_ok F R n) (zuo_ge v w)" "safe (val_ok F R n) (zuo_gt v w)" "safe (val_ok F R n) (zuo_bitwise_and v w)"
  "safe (val_ok F R n) (zuo_bitwise_ior v w)" "safe (val_ok F R n) (zuo_bitwise_xor v w)"
  by (auto simp: zuo_quotient_def zuo_remainder_def zuo_eql_def zuo_lt_def zuo_le_def zuo_ge_def zuo_gt_def
      zuo_bitwise_and_def zuo_bitwise_ior_def zuo_bitwise_xor_def int_compare_def int_bitwise_def safe_rbind
      split: prod.split intro!: safe_True [OF checks_safe(4)])

lemma string_index_safe: "safe (\<lambda>x. True) (check_string_ref_index who v i w)"
  by (auto simp: check_string_ref_index_def safe_rbind Let_def
      intro!: safe_True [OF checks_safe(1)] safe_True [OF checks_safe(3)])

lemma strings_safe [prim_safe]:
  "safe (val_ok F R n) (zuo_string_length v)" "safe (val_ok F R n) (zuo_string_ref v i)"
  "safe (val_ok F R n) (zuo_string_u32_ref v i)" "safe (val_ok F R n) (zuo_substring v i j)"
  "safe (val_ok F R n) (zuo_string_eql v w)" "safe (val_ok F R n) (zuo_string_ci_eql v w)"
  "safe (val_ok F R n) (zuo_symbol_to_string v)"
  by (auto simp: zuo_string_length_def zuo_string_ref_def zuo_string_u32_ref_def zuo_substring_def zuo_string_eql_def
      zuo_string_ci_eql_def zuo_symbol_to_string_def safe_rbind Let_def
      split: prod.split intro!: safe_True [OF checks_safe(1)] safe_True [OF checks_safe(2)] safe_True [OF checks_safe(3)]
        safe_True [OF string_index_safe])

lemma zuo_string_split_safe [prim_safe]: "safe (val_ok F R n) (zuo_string_split v w)"
  by (auto simp: zuo_string_split_def safe_rbind Let_def split: zval.split intro!: safe_True [OF checks_safe(1)])

text \<open>Symbols.\<close>

lemma symbols_safe [prim_safe]:
  assumes "symtab_ok st"
  shows "safe (\<lambda>(v, st'). val_ok F R n v \<and> symtab_ok st') (zuo_string_to_symbol obj st)"
    "safe (\<lambda>(v, st'). val_ok F R n v \<and> symtab_ok st') (zuo_string_to_uninterned_symbol obj st)"
proof -
  have sym: "symtab_ok st'" if "zuo_symbol_from_string s (Str_Obj s) st = (r, st')" for s r st'
    using zuo_symbol_from_string_spec(1) [OF assms that] by simp
  then show "safe (\<lambda>(v, st'). val_ok F R n v \<and> symtab_ok st') (zuo_string_to_symbol obj st)"
    by (auto simp: zuo_string_to_symbol_def safe_rbind Let_def check_string_def
        split: zval.split prod.split option.split)
  show "safe (\<lambda>(v, st'). val_ok F R n v \<and> symtab_ok st') (zuo_string_to_uninterned_symbol obj st)"
    using zuo_make_symbol_ok [OF assms]
    by (auto simp: zuo_string_to_uninterned_symbol_def safe_rbind check_string_def
        split: zval.split prod.split) (metis snd_conv)
qed

text \<open>Tables.\<close>

lemma hash_loop_all: "trie_all P ht \<Longrightarrow> \<forall>v\<in>set l. P v \<Longrightarrow> trie_all P (hash_loop l ht)"
  by (induction l ht rule: hash_loop.induct) (auto simp: trie_all_ops split: zval.split)

lemma tables_safe [prim_safe]:
  "\<forall>v\<in>set args. val_ok F R n v \<Longrightarrow> safe (val_ok F R n) (zuo_hash (zlist args))"
  "safe (val_ok F R n) (zuo_hash_count v)"
  "val_ok F R n t \<Longrightarrow> val_ok F R n v \<Longrightarrow> safe (val_ok F R n) (zuo_hash_set t k v)"
  "val_ok F R n t \<Longrightarrow> safe (val_ok F R n) (zuo_hash_remove t k)"
  "safe (val_ok F R n) (zuo_hash_keys t)" "safe (val_ok F R n) (zuo_hash_keys_subset_p t v)"
  by (auto simp: zuo_hash_def zuo_hash_count_def zuo_hash_set_def zuo_hash_remove_def zuo_hash_keys_def
      zuo_hash_keys_subset_p_def check_hash_def safe_rbind val_ok_trie hash_loop_all trie_all_ops
      simp del: val_ok_simps(16) split: zval.split intro!: safe_True [OF checks_safe(2)])

lemma zuo_hash_ref_safe [prim_safe]:
  assumes "val_ok F R n t" "d = VUndefined \<or> val_ok F R n d"
  shows "safe (val_ok F R n) (zuo_hash_ref t k d)"
  using assms
  by (auto simp: zuo_hash_ref_def check_hash_def check_symbol_def zuo_trie_lookup_def safe_rbind Let_def
      split: zval.split option.split) (blast dest: trie_shape_lookup)+

lemma opaque_safe [prim_safe]:
  "val_ok F R n t \<Longrightarrow> val_ok F R n v \<Longrightarrow> val_ok F R n (zuo_opaque t v)"
  "val_ok F R n v \<Longrightarrow> val_ok F R n d \<Longrightarrow> val_ok F R n (zuo_opaque_ref same t v d)"
  by (auto simp: zuo_opaque_def zuo_opaque_ref_def split: zval.split)

text \<open>Paths and shell strings.\<close>

lemma check_path_string_safe: "safe path_ok (check_path_string who v)"
  using check_path_string_Inr [of who v] by (cases "check_path_string who v") (auto simp: check_path_string_def split: zval.splits if_splits)

lemma build_multi_loop_safe: "safe (val_ok F R n) (build_multi_loop who f pre (zlist args))"
  by (induction args arbitrary: pre) (auto simp: safe_rbind intro!: safe_mono [OF check_path_string_safe])

lemma paths_safe [prim_safe]:
  "args \<noteq> [] \<Longrightarrow> safe (val_ok F R n) (zuo_build_path (zlist args))"
  "args \<noteq> [] \<Longrightarrow> safe (val_ok F R n) (zuo_build_raw_path (zlist args))"
  "safe (val_ok F R n) (zuo_split_path v)" "safe (val_ok F R n) (zuo_relative_path_p v)"
  by (cases args; auto simp: zuo_build_path_def zuo_build_raw_path_def zuo_build_path_multi_def zuo_split_path_def
      zuo_relative_path_p_def safe_rbind build_multi_loop_safe split: prod.split option.split
      intro!: safe_mono [OF check_path_string_safe])+

lemma drop_ups_safe: "safe (\<lambda>x. True) (drop_ups rel ups p)"
  by (induction rel ups p rule: drop_ups.induct) (auto split: option.split)

lemma module_checks_safe:
  "safe (\<lambda>x. True) (check_module_path who v)" "safe (\<lambda>x. True) (zuo_parse_relative_module_path who v s b)"
  by (auto simp: check_module_path_def zuo_parse_relative_module_path_def split: option.split prod.split)

lemma zuo_build_module_path_safe [prim_safe]:
  assumes "symtab_ok st" "val_ok F R n base" "val_ok F R n rel"
  shows "safe (\<lambda>(v, st'). val_ok F R n v \<and> symtab_ok st') (zuo_build_module_path base rel st)"
proof -
  have sym: "safe (\<lambda>(v, st'). val_ok F R n v \<and> symtab_ok st') (symbol_module_path rel y b s k st)" for y b s k
    by (auto simp: symbol_module_path_def safe_rbind intro!: safe_True [OF drop_ups_safe]
        safe_mono [OF symbols_safe(1) [OF assms(1), of F R n]])
  have base: "is_symbol base \<or> is_string base" if "check_module_path who base = Inr x" for who x
    using that by (cases base) (auto simp: check_module_path_def zuo_is_module_path_def zuo_is_path_string_def
        zuo_is_string_without_nul_def)
  show ?thesis
  proof (cases "check_module_path ''build-module-path'' base")
    case (Inl e)
    then have "\<not> bad e" using module_checks_safe(1) [of "''build-module-path''" base] by simp
    with Inl show ?thesis
      by (auto simp: zuo_build_module_path_def Let_def safe_rbind intro!: safe_True [OF module_checks_safe(1)])
  next
    case (Inr x)
    consider y where "base = VSymbol y" | b where "base = VString b"
      using base [OF Inr] by (auto simp: is_symbol_iff is_string_iff)
    then show ?thesis
    proof cases
      case 1
      with Inr assms sym show ?thesis
        by (cases rel) (auto simp: zuo_build_module_path_def Let_def safe_rbind
          intro!: safe_True [OF module_checks_safe(1)] safe_True [OF module_checks_safe(2)])
    next
      case 2
      with Inr assms show ?thesis
        by (cases rel) (auto simp: zuo_build_module_path_def Let_def safe_rbind
          intro!: safe_True [OF module_checks_safe(1)] safe_True [OF module_checks_safe(2)])
    qed
  qed
qed

lemma shell_words_safe: "safe (\<lambda>x. True) (shell_words rest q sq did cur ws)"
proof (induction "length rest" arbitrary: rest q sq did cur ws rule: less_induct)
  case less
  show ?case
  proof (cases rest)
    case (Cons c r)
    have r: "safe (\<lambda>x. True) (shell_words r q sq did cur ws)" for q sq did cur ws using less Cons by simp
    have r': "safe (\<lambda>x. True) (shell_words (tl r) q sq did cur ws)" for q sq did cur ws using less Cons by simp
    have nxt: "(case r of [] \<Rightarrow> x | d # r' \<Rightarrow> f d r') = (if r = [] then x else f (hd r) (tl r))"
      for x :: "string list res" and f by (cases r) auto
    show ?thesis unfolding Cons shell_words.simps(2) nxt by (auto simp: Let_def r r')
  qed (simp add: shell_words.simps)
qed

lemma zuo_string_to_shell_safe [prim_safe]: "safe (val_ok F R n) (zuo_string_to_shell v)"
  by (cases v) (simp_all add: zuo_string_to_shell_quote, simp_all add: zuo_string_to_shell_def check_string_def)

lemma zuo_shell_to_strings_safe [prim_safe]: "safe (val_ok F R n) (zuo_shell_to_strings v w)"
proof (cases v)
  case (VString s)
  then show ?thesis
    by (auto simp: zuo_shell_to_strings_words safe_rbind intro!: safe_True [OF shell_words_safe])
qed (simp_all add: zuo_shell_to_strings_def check_string_def)

text \<open>Exit and argument errors.\<close>

lemma exits_safe [prim_safe]: "safe P (zuo_exit v)" "safe P (zuo_arg_error name what arg)"
  by (auto simp: zuo_exit_def zuo_arg_error_def safe_rbind split: zval.split
      intro!: safe_True [OF checks_safe(1)] safe_True [OF checks_safe(2)])

text \<open>Primitives that read or change the memory.\<close>

abbreviation mem_size :: "zmem \<Rightarrow> nat" where "mem_size mem \<equiv> length (mem_vars mem)"

lemma call_safe_pure: "mem_ok F R mem \<Longrightarrow> safe (val_ok F R (mem_size mem)) r \<Longrightarrow> call_safe F R mem (rbind r (\<lambda>v. Inr (v, mem)))"
  by (auto simp: call_safe_def safe_rbind elim!: safe_mono)

lemma mem_ok_symtab: "mem_ok F R mem \<Longrightarrow> symtab_ok (mem_symtab mem)"
  by (simp add: mem_ok_def)

lemma call_safe_symtab:
  assumes "mem_ok F R mem" "safe (\<lambda>(v, st). val_ok F R (mem_size mem) v \<and> symtab_ok st) r"
  shows "call_safe F R mem (rbind r (\<lambda>(v, st). Inr (v, mem\<lparr>mem_symtab := st\<rparr>)))"
  using assms by (auto simp: call_safe_def safe_rbind mem_ok_def split: prod.split elim!: safe_mono)

lemma variables_safe [prim_safe]:
  assumes "mem_ok F R mem" "val_ok F R (mem_size mem) x"
  shows "call_safe F R mem (rbind (zuo_make_variable x (mem_vars mem)) (\<lambda>(v, vs). Inr (v, mem\<lparr>mem_vars := vs\<rparr>)))"
    "safe (val_ok F R (mem_size mem)) (zuo_variable_ref x (mem_vars mem))"
    "val_ok F R (mem_size mem) v \<Longrightarrow>
      call_safe F R mem (rbind (zuo_variable_set x v (mem_vars mem)) (\<lambda>(v, vs). Inr (v, mem\<lparr>mem_vars := vs\<rparr>)))"
proof -
  have vars: "var_val y = VUndefined \<or> val_ok F R (mem_size mem) (var_val y)" if "y \<in> set (mem_vars mem)" for y
    using assms(1) that by (simp add: mem_ok_def)
  show "call_safe F R mem (rbind (zuo_make_variable x (mem_vars mem)) (\<lambda>(v, vs). Inr (v, mem\<lparr>mem_vars := vs\<rparr>)))"
    using assms(1) vars ok_mono(1) [of "mem_size mem" "Suc (mem_size mem)" F R]
    by (auto simp: call_safe_def zuo_make_variable_def safe_rbind mem_ok_def intro!: safe_True [OF checks_safe(2)])
  show "safe (val_ok F R (mem_size mem)) (zuo_variable_ref x (mem_vars mem))"
    using assms(2) vars [OF nth_mem] by (auto simp: zuo_variable_ref_def Let_def split: zval.split)
  show "call_safe F R mem (rbind (zuo_variable_set x v (mem_vars mem)) (\<lambda>(v, vs). Inr (v, mem\<lparr>mem_vars := vs\<rparr>)))"
    if "val_ok F R (mem_size mem) v"
    using assms that vars
    by (auto simp: call_safe_def zuo_variable_set_def mem_ok_def split: zval.split dest!: set_update_subset_insert [THEN subsetD])
qed

lemma printed_bytes_safe: "val_ok F R n v \<Longrightarrow> \<exists>s. printed (zuo_to_string_bytes mode mem v) = Inr s"
  using printed_bytes [of F R n v mode mem] by (auto simp: printed_def)

lemma zuo_falert_safe:
  assumes "val_ok F R n v"
  shows "safe (\<lambda>x. True) (zuo_falert mem v)"
proof -
  obtain start objs where split: "(case v of VPair (VString s) d \<Rightarrow> (s @ (if d \<noteq> VNull then '': '' else []), d)
      | _ \<Rightarrow> ([], v)) = (start, objs)" by fastforce
  then have "val_ok F R n objs"
  proof (cases v)
    case (VPair a d)
    with split assms show ?thesis by (cases a) auto
  qed (use assms in auto)
  then obtain s where "printed (zuo_to_string_bytes Print_Mode mem objs) = Inr s" using printed_bytes_safe by blast
  with split show ?thesis unfolding zuo_falert_def Let_def by simp
qed

lemma printing_safe [prim_safe]:
  assumes "mem_ok F R mem" "val_ok F R (mem_size mem) v"
  shows "safe P (zuo_error mem v)" "call_safe F R mem (zuo_alert v mem)"
    "safe (val_ok F R (mem_size mem)) (printed (zuo_tilde_v mem v))"
    "safe (val_ok F R (mem_size mem)) (printed (zuo_tilde_a mem v))"
    "safe (val_ok F R (mem_size mem)) (printed (zuo_tilde_s mem v))"
proof -
  have out: "safe (val_ok F R (mem_size mem)) (printed (zuo_to_string mode mem v))" for mode
    using printed_ok [OF assms(2), of mode mem] by auto
  then show "safe (val_ok F R (mem_size mem)) (printed (zuo_tilde_v mem v))"
    "safe (val_ok F R (mem_size mem)) (printed (zuo_tilde_a mem v))"
    "safe (val_ok F R (mem_size mem)) (printed (zuo_tilde_s mem v))"
    by (simp_all add: zuo_tilde_v_def zuo_tilde_a_def zuo_tilde_s_def)
  note alert = zuo_falert_safe [OF assms(2), of mem]
  show "safe P (zuo_error mem v)" "call_safe F R mem (zuo_alert v mem)"
    using assms(1) by (auto simp: zuo_error_def zuo_alert_def call_safe_def safe_rbind mem_ok_def intro!: safe_True [OF alert])
qed

lemma zuo_arity_error_prim_safe [prim_safe]:
  assumes "val_ok F R n args"
  shows "safe P (zuo_arity_error mem name args)"
proof (cases "name = VFalse \<or> is_string name")
  case True
  from zuo_arity_error_safe [OF True assms, of mem] show ?thesis by auto
next
  case False
  then have "name \<noteq> VFalse \<and> \<not> is_string name" by simp
  then show ?thesis unfolding zuo_arity_error_def Let_def by (simp only: if_True safe_simps bad_simps simp_thms)
qed

end
