(* ===== verification/Zuo_Sha256.thy ===== *)
theory Zuo_Sha256
  imports Zuo_Value
begin

text \<open>
  SHA-256 of \<^verbatim>\<open>zuo.c\<close> (\<^verbatim>\<open>string-sha256\<close>): the context that collects blocks, the unrolled rounds of the
  configuration in use, the loop of \<^verbatim>\<open>MBEDTLS_SHA256_SMALLER\<close>, and the primitive. Theory \<open>Zuo_Sha256_Spec\<close>
  compares them with the standard. The array \<^verbatim>\<open>W\<close> has no initial value in the
  code; each element is written before it is read, so that zeros stand for the others.
\<close>

unbundle bit_operations_syntax

section \<open>The context\<close>

type_synonym uint32_sha2 = "32 word"

record zuo_sha2_ctx =
  sha_total0 :: uint32_sha2
  sha_total1 :: uint32_sha2
  sha_state :: "uint32_sha2 list"
  sha_buffer :: "8 word list"
  sha_is224 :: bool

definition GET_UINT32_BE :: "8 word list \<Rightarrow> nat \<Rightarrow> uint32_sha2" where
  "GET_UINT32_BE b i =
     push_bit 24 (ucast (b ! i)) OR push_bit 16 (ucast (b ! (i + 1))) OR push_bit 8 (ucast (b ! (i + 2))) OR ucast (b ! (i + 3))"

definition PUT_UINT32_BE :: "uint32_sha2 \<Rightarrow> 8 word list" where
  "PUT_UINT32_BE n = [ucast (drop_bit 24 n), ucast (drop_bit 16 n), ucast (drop_bit 8 n), ucast n]"

definition mbedtls_sha256_init :: zuo_sha2_ctx where
  "mbedtls_sha256_init =
     \<lparr>sha_total0 = 0, sha_total1 = 0, sha_state = replicate 8 0, sha_buffer = replicate 64 0, sha_is224 = False\<rparr>"

definition mbedtls_sha256_starts_ret :: "bool \<Rightarrow> zuo_sha2_ctx \<Rightarrow> zuo_sha2_ctx" where
  "mbedtls_sha256_starts_ret is224 ctx =
     ctx\<lparr>sha_total0 := 0, sha_total1 := 0,
         sha_state :=
           (if \<not> is224 then
              [0x6A09E667, 0xBB67AE85, 0x3C6EF372, 0xA54FF53A, 0x510E527F, 0x9B05688C, 0x1F83D9AB, 0x5BE0CD19]
            else
              [0xC1059ED8, 0x367CD507, 0x3070DD17, 0xF70E5939, 0xFFC00B31, 0x68581511, 0x64F98FA7, 0xBEFA4FA4]),
         sha_is224 := is224\<rparr>"

section \<open>The block function\<close>

definition sha_K :: "uint32_sha2 list" where
  "sha_K =
     [0x428A2F98, 0x71374491, 0xB5C0FBCF, 0xE9B5DBA5,
      0x3956C25B, 0x59F111F1, 0x923F82A4, 0xAB1C5ED5,
      0xD807AA98, 0x12835B01, 0x243185BE, 0x550C7DC3,
      0x72BE5D74, 0x80DEB1FE, 0x9BDC06A7, 0xC19BF174,
      0xE49B69C1, 0xEFBE4786, 0x0FC19DC6, 0x240CA1CC,
      0x2DE92C6F, 0x4A7484AA, 0x5CB0A9DC, 0x76F988DA,
      0x983E5152, 0xA831C66D, 0xB00327C8, 0xBF597FC7,
      0xC6E00BF3, 0xD5A79147, 0x06CA6351, 0x14292967,
      0x27B70A85, 0x2E1B2138, 0x4D2C6DFC, 0x53380D13,
      0x650A7354, 0x766A0ABB, 0x81C2C92E, 0x92722C85,
      0xA2BFE8A1, 0xA81A664B, 0xC24B8B70, 0xC76C51A3,
      0xD192E819, 0xD6990624, 0xF40E3585, 0x106AA070,
      0x19A4C116, 0x1E376C08, 0x2748774C, 0x34B0BCB5,
      0x391C0CB3, 0x4ED8AA4A, 0x5B9CCA4F, 0x682E6FF3,
      0x748F82EE, 0x78A5636F, 0x84C87814, 0x8CC70208,
      0x90BEFFFA, 0xA4506CEB, 0xBEF9A3F7, 0xC67178F2]"

definition sha_SHR :: "uint32_sha2 \<Rightarrow> nat \<Rightarrow> uint32_sha2" where
  "sha_SHR x n = drop_bit n (x AND 0xFFFFFFFF)"

definition sha_ROTR :: "uint32_sha2 \<Rightarrow> nat \<Rightarrow> uint32_sha2" where
  "sha_ROTR x n = sha_SHR x n OR push_bit (32 - n) x"

definition sha_S0 :: "uint32_sha2 \<Rightarrow> uint32_sha2" where "sha_S0 x = sha_ROTR x 7 XOR sha_ROTR x 18 XOR sha_SHR x 3"
definition sha_S1 :: "uint32_sha2 \<Rightarrow> uint32_sha2" where "sha_S1 x = sha_ROTR x 17 XOR sha_ROTR x 19 XOR sha_SHR x 10"
definition sha_S2 :: "uint32_sha2 \<Rightarrow> uint32_sha2" where "sha_S2 x = sha_ROTR x 2 XOR sha_ROTR x 13 XOR sha_ROTR x 22"
definition sha_S3 :: "uint32_sha2 \<Rightarrow> uint32_sha2" where "sha_S3 x = sha_ROTR x 6 XOR sha_ROTR x 11 XOR sha_ROTR x 25"

definition sha_F0 :: "uint32_sha2 \<Rightarrow> uint32_sha2 \<Rightarrow> uint32_sha2 \<Rightarrow> uint32_sha2" where
  "sha_F0 x y z = (x AND y) OR (z AND (x OR y))"

definition sha_F1 :: "uint32_sha2 \<Rightarrow> uint32_sha2 \<Rightarrow> uint32_sha2 \<Rightarrow> uint32_sha2" where
  "sha_F1 x y z = z XOR (x AND (y XOR z))"

text \<open>The macro \<^verbatim>\<open>R\<close> extends the schedule, the macro \<^verbatim>\<open>P\<close> does one round on registers named by their positions.\<close>

definition sha_R :: "nat \<Rightarrow> uint32_sha2 list \<Rightarrow> uint32_sha2 list" where
  "sha_R t W = W[t := sha_S1 (W ! (t - 2)) + W ! (t - 7) + sha_S0 (W ! (t - 15)) + W ! (t - 16)]"

definition sha_P :: "nat \<Rightarrow> nat \<Rightarrow> nat \<Rightarrow> nat \<Rightarrow> nat \<Rightarrow> nat \<Rightarrow> nat \<Rightarrow> nat \<Rightarrow> uint32_sha2 \<Rightarrow> uint32_sha2 \<Rightarrow> uint32_sha2 list \<Rightarrow> uint32_sha2 list" where
  "sha_P a b c d e f g h x k A =
     (let temp1 = A ! h + sha_S3 (A ! e) + sha_F1 (A ! e) (A ! f) (A ! g) + k + x;
          temp2 = sha_S2 (A ! a) + sha_F0 (A ! a) (A ! b) (A ! c)
      in A[d := A ! d + temp1, h := temp1 + temp2])"

definition sha_eight_first :: "uint32_sha2 list \<Rightarrow> nat \<Rightarrow> uint32_sha2 list \<Rightarrow> uint32_sha2 list" where
  "sha_eight_first W i A =
     (let A = sha_P 0 1 2 3 4 5 6 7 (W ! (i + 0)) (sha_K ! (i + 0)) A;
          A = sha_P 7 0 1 2 3 4 5 6 (W ! (i + 1)) (sha_K ! (i + 1)) A;
          A = sha_P 6 7 0 1 2 3 4 5 (W ! (i + 2)) (sha_K ! (i + 2)) A;
          A = sha_P 5 6 7 0 1 2 3 4 (W ! (i + 3)) (sha_K ! (i + 3)) A;
          A = sha_P 4 5 6 7 0 1 2 3 (W ! (i + 4)) (sha_K ! (i + 4)) A;
          A = sha_P 3 4 5 6 7 0 1 2 (W ! (i + 5)) (sha_K ! (i + 5)) A;
          A = sha_P 2 3 4 5 6 7 0 1 (W ! (i + 6)) (sha_K ! (i + 6)) A
      in sha_P 1 2 3 4 5 6 7 0 (W ! (i + 7)) (sha_K ! (i + 7)) A)"

definition sha_eight_next :: "nat \<Rightarrow> uint32_sha2 list \<times> uint32_sha2 list \<Rightarrow> uint32_sha2 list \<times> uint32_sha2 list" where
  "sha_eight_next i WA =
     (let (W, A) = WA;
          W = sha_R (i + 0) W; A = sha_P 0 1 2 3 4 5 6 7 (W ! (i + 0)) (sha_K ! (i + 0)) A;
          W = sha_R (i + 1) W; A = sha_P 7 0 1 2 3 4 5 6 (W ! (i + 1)) (sha_K ! (i + 1)) A;
          W = sha_R (i + 2) W; A = sha_P 6 7 0 1 2 3 4 5 (W ! (i + 2)) (sha_K ! (i + 2)) A;
          W = sha_R (i + 3) W; A = sha_P 5 6 7 0 1 2 3 4 (W ! (i + 3)) (sha_K ! (i + 3)) A;
          W = sha_R (i + 4) W; A = sha_P 4 5 6 7 0 1 2 3 (W ! (i + 4)) (sha_K ! (i + 4)) A;
          W = sha_R (i + 5) W; A = sha_P 3 4 5 6 7 0 1 2 (W ! (i + 5)) (sha_K ! (i + 5)) A;
          W = sha_R (i + 6) W; A = sha_P 2 3 4 5 6 7 0 1 (W ! (i + 6)) (sha_K ! (i + 6)) A;
          W = sha_R (i + 7) W; A = sha_P 1 2 3 4 5 6 7 0 (W ! (i + 7)) (sha_K ! (i + 7)) A
      in (W, A))"

definition mbedtls_internal_sha256_process :: "8 word list \<Rightarrow> zuo_sha2_ctx \<Rightarrow> zuo_sha2_ctx" where
  "mbedtls_internal_sha256_process data ctx =
     (let A = sha_state ctx;
          W = fold (\<lambda>i W. W[i := GET_UINT32_BE data (4 * i)]) [0..<16] (replicate 64 0);
          A = fold (sha_eight_first W) [0, 8] A;
          (W, A) = fold sha_eight_next [16, 24, 32, 40, 48, 56] (W, A)
      in ctx\<lparr>sha_state := map2 (+) (sha_state ctx) A\<rparr>)"

text \<open>The configuration \<^verbatim>\<open>MBEDTLS_SHA256_SMALLER\<close>: one round per turn, and the registers move.\<close>

definition sha_small_round :: "8 word list \<Rightarrow> nat \<Rightarrow> uint32_sha2 list \<times> uint32_sha2 list \<Rightarrow> uint32_sha2 list \<times> uint32_sha2 list" where
  "sha_small_round data i WA =
     (let (W, A) = WA;
          W = (if i < 16 then W[i := GET_UINT32_BE data (4 * i)] else sha_R i W);
          A = sha_P 0 1 2 3 4 5 6 7 (W ! i) (sha_K ! i) A
      in (W, [A ! 7, A ! 0, A ! 1, A ! 2, A ! 3, A ! 4, A ! 5, A ! 6]))"

definition sha256_process_smaller :: "8 word list \<Rightarrow> zuo_sha2_ctx \<Rightarrow> zuo_sha2_ctx" where
  "sha256_process_smaller data ctx =
     (case fold (sha_small_round data) [0..<64] (replicate 64 0, sha_state ctx) of (W, A) \<Rightarrow>
        ctx\<lparr>sha_state := map2 (+) (sha_state ctx) A\<rparr>)"

section \<open>Collecting blocks\<close>

text \<open>Copying into the buffer at an offset; the bytes fit wherever the code copies.\<close>

definition sha_memcpy :: "nat \<Rightarrow> 8 word list \<Rightarrow> 8 word list \<Rightarrow> 8 word list" where
  "sha_memcpy left input buf = take left buf @ input @ drop (left + length input) buf"

function sha_whole_blocks :: "8 word list \<Rightarrow> zuo_sha2_ctx \<Rightarrow> 8 word list \<times> zuo_sha2_ctx" where
  "sha_whole_blocks input ctx =
     (if length input \<ge> 64
      then sha_whole_blocks (drop 64 input) (mbedtls_internal_sha256_process (take 64 input) ctx)
      else (input, ctx))"
  by auto
termination by (relation "measure (length \<circ> fst)") auto

declare sha_whole_blocks.simps [simp del]

definition mbedtls_sha256_update_ret :: "8 word list \<Rightarrow> zuo_sha2_ctx \<Rightarrow> zuo_sha2_ctx" where
  "mbedtls_sha256_update_ret input ctx =
     (if input = [] then ctx
      else
        let ilen = length input;
            left = unat (sha_total0 ctx AND 0x3F);
            fill = 64 - left;
            ctx = ctx\<lparr>sha_total0 := (sha_total0 ctx + word_of_nat ilen) AND 0xFFFFFFFF\<rparr>;
            ctx = (if sha_total0 ctx < word_of_nat ilen then ctx\<lparr>sha_total1 := sha_total1 ctx + 1\<rparr> else ctx);
            (input, left, ctx) =
              (if left \<noteq> 0 \<and> ilen \<ge> fill then
                 let ctx = ctx\<lparr>sha_buffer := sha_memcpy left (take fill input) (sha_buffer ctx)\<rparr>
                 in (drop fill input, 0, mbedtls_internal_sha256_process (sha_buffer ctx) ctx)
               else (input, left, ctx));
            (input, ctx) = sha_whole_blocks input ctx
        in if input \<noteq> [] then ctx\<lparr>sha_buffer := sha_memcpy left input (sha_buffer ctx)\<rparr> else ctx)"

definition sha256_padding :: "8 word list" where
  "sha256_padding = 0x80 # replicate 63 0"

definition mbedtls_sha256_finish_ret :: "zuo_sha2_ctx \<Rightarrow> 8 word list" where
  "mbedtls_sha256_finish_ret ctx =
     (let high = drop_bit 29 (sha_total0 ctx) OR push_bit 3 (sha_total1 ctx);
          low = push_bit 3 (sha_total0 ctx);
          msglen = PUT_UINT32_BE high @ PUT_UINT32_BE low;
          last = sha_total0 ctx AND 0x3F;
          padn = (if last < 56 then 56 - last else 120 - last);
          ctx = mbedtls_sha256_update_ret (take (unat padn) sha256_padding) ctx;
          ctx = mbedtls_sha256_update_ret msglen ctx;
          words = (if sha_is224 ctx then take 7 (sha_state ctx) else take 8 (sha_state ctx))
      in concat (map PUT_UINT32_BE words))"

section \<open>The primitive\<close>

definition zuo_sha256_init :: zuo_sha2_ctx where
  "zuo_sha256_init = mbedtls_sha256_starts_ret False mbedtls_sha256_init"

definition zuo_sha256_update :: "zuo_sha2_ctx \<Rightarrow> 8 word list \<Rightarrow> zuo_sha2_ctx" where
  "zuo_sha256_update context data = mbedtls_sha256_update_ret data context"

definition zuo_sha256_final :: "zuo_sha2_ctx \<Rightarrow> 8 word list" where
  "zuo_sha256_final context = mbedtls_sha256_finish_ret context"

definition hex_char :: "nat \<Rightarrow> char" where
  "hex_char c = (if c < 10 then char_of (c + 48) else char_of (c + 97 - 10))"

definition string_octets :: "string \<Rightarrow> 8 word list" where
  "string_octets s = map (\<lambda>c. word_of_nat (byte c)) s"

text \<open>The argument is taken for a string without a test.\<close>

definition zuo_string_sha256 :: "zval \<Rightarrow> zval res" where
  "zuo_string_sha256 str =
     (case str of
        VString s \<Rightarrow>
          let context = zuo_sha256_update zuo_sha256_init (string_octets s);
              digest = zuo_sha256_final context
          in Inr (VString (concat (map (\<lambda>d. [hex_char (unat (drop_bit 4 d)), hex_char (unat (d AND 0xF))]) digest)))
      | _ \<Rightarrow> Inl (UB ''string-sha256''))"

end
