(* ===== verification/Zuo_Dispatch.thy ===== *)
theory Zuo_Dispatch
  imports Zuo_Prim_Safety Zuo_Sha256
begin

text \<open>
  Dispatching to primitives and starting the interpreter in \<^verbatim>\<open>zuo.c\<close>: the dispatchers that take an
  argument list apart, the registration of every primitive with its arity mask, and the
  construction of the initial environment. The primitives that call the operating system are
  registered under their names and masks, with a parameter \<open>os\<close> as their body; \<^verbatim>\<open>module->hash\<close>, a closure
  that refers to itself, is not part of the environment modelled here. The last part interprets the
  safety locale on this table.
\<close>

unbundle bit_operations_syntax

section \<open>Dispatchers\<close>

type_synonym prim_body = "prim_ctx \<Rightarrow> zval \<Rightarrow> zmem \<Rightarrow> (zval \<times> zmem) res"

definition dispatch_primitive0 :: "'b res \<Rightarrow> zval \<Rightarrow> 'b res" where
  "dispatch_primitive0 proc args = proc"

definition dispatch_primitive1 :: "(zval \<Rightarrow> 'b res) \<Rightarrow> zval \<Rightarrow> 'b res" where
  "dispatch_primitive1 proc args = rbind (ucar args) proc"

definition dispatch_primitive2 :: "(zval \<Rightarrow> zval \<Rightarrow> 'b res) \<Rightarrow> zval \<Rightarrow> 'b res" where
  "dispatch_primitive2 proc args =
     rbind (ucar args) (\<lambda>a. rbind (ucdr args) (\<lambda>d. rbind (ucar d) (\<lambda>b. proc a b)))"

definition dispatch_primitive3 :: "(zval \<Rightarrow> zval \<Rightarrow> zval \<Rightarrow> 'b res) \<Rightarrow> zval \<Rightarrow> 'b res" where
  "dispatch_primitive3 proc args =
     rbind (ucar args) (\<lambda>a. rbind (ucdr args) (\<lambda>d. rbind (ucar d) (\<lambda>b. rbind (ucdr d) (\<lambda>dd. rbind (ucar dd) (\<lambda>c.
       proc a b c)))))"

definition dispatch_primitivea :: "(zval \<Rightarrow> 'b res) \<Rightarrow> zval \<Rightarrow> 'b res" where
  "dispatch_primitivea proc args = (if args = VNull then proc VUndefined else rbind (ucar args) proc)"

definition dispatch_primitiveb :: "(zval \<Rightarrow> zval \<Rightarrow> 'b res) \<Rightarrow> zval \<Rightarrow> 'b res" where
  "dispatch_primitiveb proc args =
     rbind (ucar args) (\<lambda>a. rbind (ucdr args) (\<lambda>d.
       if d = VNull then proc a VUndefined else rbind (ucar d) (\<lambda>b. proc a b)))"

definition dispatch_primitivec :: "(zval \<Rightarrow> zval \<Rightarrow> zval \<Rightarrow> 'b res) \<Rightarrow> zval \<Rightarrow> 'b res" where
  "dispatch_primitivec proc args =
     rbind (ucar args) (\<lambda>a. rbind (ucdr args) (\<lambda>d. rbind (ucar d) (\<lambda>b. rbind (ucdr d) (\<lambda>dd.
       if dd = VNull then proc a b VUndefined else rbind (ucar dd) (\<lambda>c. proc a b c)))))"

definition dispatch_primitiveC :: "(zval \<Rightarrow> zval \<Rightarrow> zval \<Rightarrow> 'b res) \<Rightarrow> zval \<Rightarrow> 'b res" where
  "dispatch_primitiveC proc args =
     rbind (ucar args) (\<lambda>a. rbind (ucdr args) (\<lambda>d.
       if d \<noteq> VNull then
         rbind (ucar d) (\<lambda>b. rbind (ucdr d) (\<lambda>dd.
           if dd \<noteq> VNull then rbind (ucar dd) (\<lambda>c. proc a b c) else proc a b VUndefined))
       else proc a VUndefined VUndefined))"

definition dispatch_primitiveN :: "(zval \<Rightarrow> 'b res) \<Rightarrow> zval \<Rightarrow> 'b res" where
  "dispatch_primitiveN proc args = proc args"

section \<open>Registered primitives\<close>

definition arity_bit :: "nat \<Rightarrow> zuo_int32" where
  "arity_bit k = push_bit k 1"

record prim_entry =
  pe_name :: string
  pe_mask :: zuo_int32
  pe_body :: prim_body

definition zuo_primitive0 :: "string \<Rightarrow> (prim_ctx \<Rightarrow> zmem \<Rightarrow> (zval \<times> zmem) res) \<Rightarrow> prim_entry" where
  "zuo_primitive0 name f =
     \<lparr>pe_name = name, pe_mask = arity_bit 0, pe_body = (\<lambda>ctx args mem. dispatch_primitive0 (f ctx mem) args)\<rparr>"

definition zuo_primitive1 :: "string \<Rightarrow> (prim_ctx \<Rightarrow> zmem \<Rightarrow> zval \<Rightarrow> (zval \<times> zmem) res) \<Rightarrow> prim_entry" where
  "zuo_primitive1 name f =
     \<lparr>pe_name = name, pe_mask = arity_bit 1, pe_body = (\<lambda>ctx args mem. dispatch_primitive1 (f ctx mem) args)\<rparr>"

definition zuo_primitive2 :: "string \<Rightarrow> (prim_ctx \<Rightarrow> zmem \<Rightarrow> zval \<Rightarrow> zval \<Rightarrow> (zval \<times> zmem) res) \<Rightarrow> prim_entry" where
  "zuo_primitive2 name f =
     \<lparr>pe_name = name, pe_mask = arity_bit 2, pe_body = (\<lambda>ctx args mem. dispatch_primitive2 (f ctx mem) args)\<rparr>"

definition zuo_primitive3 ::
  "string \<Rightarrow> (prim_ctx \<Rightarrow> zmem \<Rightarrow> zval \<Rightarrow> zval \<Rightarrow> zval \<Rightarrow> (zval \<times> zmem) res) \<Rightarrow> prim_entry" where
  "zuo_primitive3 name f =
     \<lparr>pe_name = name, pe_mask = arity_bit 3, pe_body = (\<lambda>ctx args mem. dispatch_primitive3 (f ctx mem) args)\<rparr>"

definition zuo_primitivea :: "string \<Rightarrow> (prim_ctx \<Rightarrow> zmem \<Rightarrow> zval \<Rightarrow> (zval \<times> zmem) res) \<Rightarrow> prim_entry" where
  "zuo_primitivea name f =
     \<lparr>pe_name = name, pe_mask = arity_bit 0 OR arity_bit 1,
      pe_body = (\<lambda>ctx args mem. dispatch_primitivea (f ctx mem) args)\<rparr>"

definition zuo_primitiveb :: "string \<Rightarrow> (prim_ctx \<Rightarrow> zmem \<Rightarrow> zval \<Rightarrow> zval \<Rightarrow> (zval \<times> zmem) res) \<Rightarrow> prim_entry" where
  "zuo_primitiveb name f =
     \<lparr>pe_name = name, pe_mask = arity_bit 1 OR arity_bit 2,
      pe_body = (\<lambda>ctx args mem. dispatch_primitiveb (f ctx mem) args)\<rparr>"

definition zuo_primitivec ::
  "string \<Rightarrow> (prim_ctx \<Rightarrow> zmem \<Rightarrow> zval \<Rightarrow> zval \<Rightarrow> zval \<Rightarrow> (zval \<times> zmem) res) \<Rightarrow> prim_entry" where
  "zuo_primitivec name f =
     \<lparr>pe_name = name, pe_mask = arity_bit 2 OR arity_bit 3,
      pe_body = (\<lambda>ctx args mem. dispatch_primitivec (f ctx mem) args)\<rparr>"

definition zuo_primitiveC ::
  "string \<Rightarrow> (prim_ctx \<Rightarrow> zmem \<Rightarrow> zval \<Rightarrow> zval \<Rightarrow> zval \<Rightarrow> (zval \<times> zmem) res) \<Rightarrow> prim_entry" where
  "zuo_primitiveC name f =
     \<lparr>pe_name = name, pe_mask = arity_bit 1 OR arity_bit 2 OR arity_bit 3,
      pe_body = (\<lambda>ctx args mem. dispatch_primitiveC (f ctx mem) args)\<rparr>"

definition zuo_primitiveN ::
  "string \<Rightarrow> (prim_ctx \<Rightarrow> zmem \<Rightarrow> zval \<Rightarrow> (zval \<times> zmem) res) \<Rightarrow> zuo_int32 \<Rightarrow> prim_entry" where
  "zuo_primitiveN name f am =
     \<lparr>pe_name = name, pe_mask = am, pe_body = (\<lambda>ctx args mem. dispatch_primitiveN (f ctx mem) args)\<rparr>"

text \<open>A primitive that calls the operating system.\<close>

definition os_primitive :: "string \<Rightarrow> zuo_int32 \<Rightarrow> prim_impl \<Rightarrow> prim_entry" where
  "os_primitive name am os = \<lparr>pe_name = name, pe_mask = am, pe_body = os name\<rparr>"

text \<open>How the functions of the other theories act on the memory.\<close>

definition with_mem :: "zval res \<Rightarrow> zmem \<Rightarrow> (zval \<times> zmem) res" where
  "with_mem r mem = rbind r (\<lambda>v. Inr (v, mem))"

definition with_symtab :: "(symtab \<Rightarrow> (zval \<times> symtab) res) \<Rightarrow> zmem \<Rightarrow> (zval \<times> zmem) res" where
  "with_symtab f mem = rbind (f (mem_symtab mem)) (\<lambda>(v, st). Inr (v, mem\<lparr>mem_symtab := st\<rparr>))"

definition with_vars :: "(zvar list \<Rightarrow> (zval \<times> zvar list) res) \<Rightarrow> zmem \<Rightarrow> (zval \<times> zmem) res" where
  "with_vars f mem = rbind (f (mem_vars mem)) (\<lambda>(v, vs). Inr (v, mem\<lparr>mem_vars := vs\<rparr>))"

abbreviation val1 :: "(zval \<Rightarrow> zval) \<Rightarrow> prim_ctx \<Rightarrow> zmem \<Rightarrow> zval \<Rightarrow> (zval \<times> zmem) res" where
  "val1 f \<equiv> (\<lambda>ctx mem a. with_mem (Inr (f a)) mem)"

abbreviation val2 :: "(zval \<Rightarrow> zval \<Rightarrow> zval) \<Rightarrow> prim_ctx \<Rightarrow> zmem \<Rightarrow> zval \<Rightarrow> zval \<Rightarrow> (zval \<times> zmem) res" where
  "val2 f \<equiv> (\<lambda>ctx mem a b. with_mem (Inr (f a b)) mem)"

abbreviation val3 :: "(zval \<Rightarrow> zval \<Rightarrow> zval \<Rightarrow> zval) \<Rightarrow> prim_ctx \<Rightarrow> zmem \<Rightarrow> zval \<Rightarrow> zval \<Rightarrow> zval \<Rightarrow> (zval \<times> zmem) res" where
  "val3 f \<equiv> (\<lambda>ctx mem a b c. with_mem (Inr (f a b c)) mem)"

abbreviation res1 :: "(zval \<Rightarrow> zval res) \<Rightarrow> prim_ctx \<Rightarrow> zmem \<Rightarrow> zval \<Rightarrow> (zval \<times> zmem) res" where
  "res1 f \<equiv> (\<lambda>ctx mem a. with_mem (f a) mem)"

abbreviation res2 :: "(zval \<Rightarrow> zval \<Rightarrow> zval res) \<Rightarrow> prim_ctx \<Rightarrow> zmem \<Rightarrow> zval \<Rightarrow> zval \<Rightarrow> (zval \<times> zmem) res" where
  "res2 f \<equiv> (\<lambda>ctx mem a b. with_mem (f a b) mem)"

abbreviation res3 :: "(zval \<Rightarrow> zval \<Rightarrow> zval \<Rightarrow> zval res) \<Rightarrow> prim_ctx \<Rightarrow> zmem \<Rightarrow> zval \<Rightarrow> zval \<Rightarrow> zval \<Rightarrow> (zval \<times> zmem) res" where
  "res3 f \<equiv> (\<lambda>ctx mem a b c. with_mem (f a b c) mem)"

abbreviation sym1 :: "(zval \<Rightarrow> symtab \<Rightarrow> (zval \<times> symtab) res) \<Rightarrow> prim_ctx \<Rightarrow> zmem \<Rightarrow> zval \<Rightarrow> (zval \<times> zmem) res" where
  "sym1 f \<equiv> (\<lambda>ctx mem a. with_symtab (f a) mem)"

text \<open>The two primitives that look at the interpreter's registers.\<close>

definition zuo_prompt_avail_p :: "(cont \<times> zval) list \<Rightarrow> zval \<Rightarrow> zval res" where
  "zuo_prompt_avail_p meta_k tag =
     rbind (check_symbol ''continuation-prompt-available?'' tag) (\<lambda>_.
       case meta_k of [] \<Rightarrow> Inr VFalse | (k, t) # _ \<Rightarrow> Inr (zbool (tag = t)))"

definition zuo_kernel_env :: "zval trie \<Rightarrow> zval" where
  "zuo_kernel_env top_env = VTrie top_env"

definition prim_table :: "(zval \<Rightarrow> zval \<Rightarrow> bool) \<Rightarrow> prim_impl \<Rightarrow> prim_entry list" where
  "prim_table same os =
   [zuo_primitive1 ''pair?'' (val1 zuo_pair_p),
    zuo_primitive1 ''null?'' (val1 zuo_null_p),
    zuo_primitive1 ''integer?'' (val1 zuo_integer_p),
    zuo_primitive1 ''string?'' (val1 zuo_string_p),
    zuo_primitive1 ''symbol?'' (val1 zuo_symbol_p),
    zuo_primitive1 ''hash?'' (val1 zuo_hash_p),
    zuo_primitive1 ''list?'' (val1 zuo_list_p),
    zuo_primitive1 ''procedure?'' (val1 zuo_procedure_p),
    zuo_primitive1 ''path-string?'' (val1 zuo_path_string_p),
    zuo_primitive1 ''variable?'' (val1 zuo_variable_p),
    zuo_primitive1 ''handle?'' (val1 zuo_handle_p),
    zuo_primitiveN ''void'' (val1 zuo_make_void) (-1),
    zuo_primitive2 ''cons'' (val2 zuo_cons),
    zuo_primitive1 ''car'' (res1 zuo_car),
    zuo_primitive1 ''cdr'' (res1 zuo_cdr),
    zuo_primitive2 ''list-ref'' (res2 zuo_list_ref),
    zuo_primitive3 ''list-set'' (res3 zuo_list_set),
    zuo_primitiveN ''list'' (val1 zuo_list) (-1),
    zuo_primitiveN ''append'' (res1 zuo_append) (-1),
    zuo_primitive1 ''reverse'' (res1 zuo_reverse),
    zuo_primitive1 ''length'' (res1 zuo_length),
    zuo_primitive1 ''not'' (val1 zuo_not),
    zuo_primitive2 ''eq?'' (val2 (zuo_eq same)),
    zuo_primitiveN ''+'' (res1 zuo_add) (-1),
    zuo_primitiveN ''-'' (res1 zuo_subtract) (-2),
    zuo_primitiveN ''*'' (res1 zuo_multiply) (-1),
    zuo_primitive2 ''quotient'' (res2 zuo_quotient),
    zuo_primitive2 ''remainder'' (res2 zuo_remainder),
    zuo_primitive2 ''<'' (res2 zuo_lt),
    zuo_primitive2 ''<='' (res2 zuo_le),
    zuo_primitive2 ''='' (res2 zuo_eql),
    zuo_primitive2 ''>='' (res2 zuo_ge),
    zuo_primitive2 ''>'' (res2 zuo_gt),
    zuo_primitive2 ''bitwise-and'' (res2 zuo_bitwise_and),
    zuo_primitive2 ''bitwise-ior'' (res2 zuo_bitwise_ior),
    zuo_primitive2 ''bitwise-xor'' (res2 zuo_bitwise_xor),
    zuo_primitive1 ''bitwise-not'' (res1 zuo_bitwise_not),
    zuo_primitiveN ''string'' (res1 zuo_build_string) (-1),
    zuo_primitive1 ''string-length'' (res1 zuo_string_length),
    zuo_primitive2 ''string-ref'' (res2 zuo_string_ref),
    zuo_primitive2 ''string-u32-ref'' (res2 zuo_string_u32_ref),
    zuo_primitivec ''substring'' (res3 zuo_substring),
    zuo_primitive2 ''string=?'' (res2 zuo_string_eql),
    zuo_primitive2 ''string-ci=?'' (res2 zuo_string_ci_eql),
    zuo_primitiveb ''string-split'' (res2 zuo_string_split),
    zuo_primitive1 ''string->symbol'' (sym1 zuo_string_to_symbol),
    zuo_primitive1 ''string->uninterned-symbol'' (sym1 zuo_string_to_uninterned_symbol),
    zuo_primitive1 ''symbol->string'' (res1 zuo_symbol_to_string),
    zuo_primitiveC ''string-read'' (\<lambda>ctx mem a b c. with_symtab (zuo_string_read a b) mem),
    zuo_primitiveN ''hash'' (res1 zuo_hash) (-1),
    zuo_primitivec ''hash-ref'' (res3 zuo_hash_ref),
    zuo_primitive3 ''hash-set'' (res3 zuo_hash_set),
    zuo_primitive2 ''hash-remove'' (res2 zuo_hash_remove),
    zuo_primitive1 ''hash-keys'' (res1 zuo_hash_keys),
    zuo_primitive1 ''hash-count'' (res1 zuo_hash_count),
    zuo_primitive2 ''hash-keys-subset?'' (res2 zuo_hash_keys_subset_p),
    zuo_primitive2 ''opaque'' (val2 zuo_opaque),
    zuo_primitive3 ''opaque-ref'' (val3 (zuo_opaque_ref same)),
    zuo_primitiveN ''build-path'' (res1 zuo_build_path) (-2),
    zuo_primitiveN ''build-raw-path'' (res1 zuo_build_raw_path) (-2),
    zuo_primitive1 ''split-path'' (res1 zuo_split_path),
    zuo_primitive1 ''relative-path?'' (res1 zuo_relative_path_p),
    zuo_primitive2 ''build-module-path'' (\<lambda>ctx mem a b. with_symtab (zuo_build_module_path a b) mem),
    zuo_primitive1 ''variable'' (\<lambda>ctx mem a. with_vars (zuo_make_variable a) mem),
    zuo_primitive1 ''variable-ref'' (\<lambda>ctx mem a. with_mem (zuo_variable_ref a (mem_vars mem)) mem),
    zuo_primitive2 ''variable-set!'' (\<lambda>ctx mem a b. with_vars (zuo_variable_set a b) mem),
    zuo_primitive1 ''continuation-prompt-available?'' (\<lambda>ctx mem a. with_mem (zuo_prompt_avail_p (ctx_meta_k ctx) a) mem),
    os_primitive ''fd-open-input'' 6 os,
    os_primitive ''fd-open-output'' 6 os,
    os_primitive ''fd-close'' 2 os,
    os_primitive ''fd-read'' 4 os,
    os_primitive ''fd-write'' 4 os,
    os_primitive ''fd-poll'' 6 os,
    os_primitive ''fd-terminal?'' 6 os,
    os_primitive ''fd-valid?'' 2 os,
    os_primitive ''stat'' 14 os,
    os_primitive ''rm'' 2 os,
    os_primitive ''mv'' 4 os,
    os_primitive ''mkdir'' 2 os,
    os_primitive ''rmdir'' 2 os,
    os_primitive ''ls'' 2 os,
    os_primitive ''symlink'' 4 os,
    os_primitive ''readlink'' 2 os,
    os_primitive ''cp'' 12 os,
    os_primitive ''current-time'' 1 os,
    os_primitive ''process'' (-2) os,
    os_primitive ''process-status'' 2 os,
    os_primitive ''process-wait'' (-2) os,
    os_primitive ''suspend-signal'' 1 os,
    os_primitive ''resume-signal'' 1 os,
    zuo_primitive1 ''string->shell'' (res1 zuo_string_to_shell),
    zuo_primitiveb ''shell->strings'' (res2 zuo_shell_to_strings),
    zuo_primitive1 ''string-sha256'' (res1 zuo_string_sha256),
    os_primitive ''cleanable-file'' 2 os,
    os_primitive ''cleanable-cancel'' 2 os,
    zuo_primitiveN ''error'' (\<lambda>ctx mem a. with_mem (zuo_error mem a) mem) (-1),
    zuo_primitiveN ''alert'' (\<lambda>ctx mem a. zuo_alert a mem) (-1),
    zuo_primitiveN ''~v'' (\<lambda>ctx mem a. with_mem (printed (zuo_tilde_v mem a)) mem) (-1),
    zuo_primitiveN ''~a'' (\<lambda>ctx mem a. with_mem (printed (zuo_tilde_a mem a)) mem) (-1),
    zuo_primitiveN ''~s'' (\<lambda>ctx mem a. with_mem (printed (zuo_tilde_s mem a)) mem) (-1),
    zuo_primitive3 ''arg-error'' (res3 zuo_arg_error),
    zuo_primitive2 ''arity-error'' (\<lambda>ctx mem a b. with_mem (zuo_arity_error mem a b) mem),
    zuo_primitivea ''exit'' (res1 zuo_exit),
    zuo_primitive1 ''module-path?'' (val1 zuo_module_path_p),
    zuo_primitive0 ''kernel-env'' (\<lambda>ctx mem. Inr (zuo_kernel_env (ctx_top_env ctx), mem)),
    os_primitive ''runtime-env'' 1 os,
    os_primitive ''dump-image-and-exit'' 2 os]"

section \<open>Reading and evaluating a module body\<close>

text \<open>
  \<^verbatim>\<open>read-and-eval\<close> of the language \<^verbatim>\<open>zuo/kernel\<close>: its reading part checks its arguments and asks for exactly
  one S-expression, which \<^verbatim>\<open>kernel-eval\<close> then evaluates.
\<close>

definition zuo_kernel_read_string :: "zval \<Rightarrow> zmem \<Rightarrow> (zval \<times> symtab) res" where
  "zuo_kernel_read_string args mem =
     (let who = ''read-and-eval'' in
      rbind (zuo_length_int args) (\<lambda>len.
      if len \<noteq> 3 then rbind (zuo_arity_error mem (VString who) args) (\<lambda>_. Inl (UB ''return''))
      else
        rbind (ucar args) (\<lambda>str. rbind (ucdr args) (\<lambda>d. rbind (ucar d) (\<lambda>start_i.
        rbind (ucdr d) (\<lambda>dd. rbind (ucar dd) (\<lambda>mod_path.
        rbind (check_string who str) (\<lambda>s. rbind (check_integer who start_i) (\<lambda>w. rbind (check_module_path who mod_path) (\<lambda>_.
        if sint w < 0 \<or> sint w > int (length s) then Inl (Fail1w who ''starting index is out of bounds'' start_i)
        else rbind (zuo_string_read str start_i (mem_symtab mem)) (\<lambda>(es, st).
          if es = VNull then Inl (Fail ''zuo/kernel: no S-expression in input'')
          else rbind (ucdr es) (\<lambda>d.
            if d \<noteq> VNull then Inl (Fail ''zuo/kernel: more than one S-expression in input'')
            else rbind (ucar es) (\<lambda>e. Inr (e, st))))))))))))))"

definition read_and_eval :: "zglob \<Rightarrow> nat \<Rightarrow> zval \<Rightarrow> zmem \<Rightarrow> (zval \<times> zmem) res option" where
  "read_and_eval G n args mem =
     (case zuo_kernel_read_string args mem of
        Inl x \<Rightarrow> Some (Inl x)
      | Inr (e, st) \<Rightarrow> zuo_kernel_eval G n e VFalse (mem\<lparr>mem_symtab := st\<rparr>))"

section \<open>The initial environment\<close>

definition top_env_set :: "string \<Rightarrow> (symbol \<Rightarrow> zval) \<Rightarrow> zval trie \<times> symtab \<Rightarrow> zval trie \<times> symtab" where
  "top_env_set name mk_val r =
     (case r of (env, st) \<Rightarrow> case zuo_symbol name st of (s, st') \<Rightarrow> (zuo_trie_set env s (mk_val s), st'))"

definition register_primitive :: "prim_entry \<Rightarrow> zval trie \<times> symtab \<Rightarrow> zval trie \<times> symtab" where
  "register_primitive e = top_env_set (pe_name e) (\<lambda>s. VPrimitive (pe_name e) (pe_mask e) (VSymbol s))"

definition zuo_primitive_init :: "prim_entry list \<Rightarrow> zval trie \<times> symtab" where
  "zuo_primitive_init table = fold register_primitive table (zuo_trie_node, mem_symtab mem_init)"

definition intern_forms :: "symtab \<Rightarrow> kforms \<times> symtab" where
  "intern_forms st =
     (case zuo_symbol ''quote'' st of (q, st) \<Rightarrow>
      case zuo_symbol ''lambda'' st of (l, st) \<Rightarrow>
      case zuo_symbol ''let'' st of (t, st) \<Rightarrow>
      case zuo_symbol ''begin'' st of (b, st) \<Rightarrow>
      case zuo_symbol ''if'' st of (i, st) \<Rightarrow>
        (\<lparr>f_quote = q, f_lambda = l, f_let = t, f_begin = b, f_if = i\<rparr>, st))"

definition image_values :: "(string \<times> zval) list" where
  "image_values =
     [(''apply'', VApply), (''call/cc'', VCallCC), (''call/prompt'', VCallPrompt),
      (''kernel-eval'', VKernelEval), (''eof'', VEof)]"

definition zuo_image_init :: "zval trie \<times> symtab \<Rightarrow> kforms \<times> zval trie \<times> symtab" where
  "zuo_image_init r =
     (case r of (env, st) \<Rightarrow> case intern_forms st of (forms, st) \<Rightarrow>
        (forms, fold (\<lambda>(name, v). top_env_set name (\<lambda>_. v)) image_values (env, st)))"

definition prim_call :: "prim_entry list \<Rightarrow> prim_impl" where
  "prim_call table p ctx args mem =
     (case map_of (map (\<lambda>e. (pe_name e, pe_body e)) table) p of
        Some body \<Rightarrow> body ctx args mem
      | None \<Rightarrow> Inl (UB ''primitive''))"

text \<open>The interpreter after start-up.\<close>

definition zuo_init :: "(zval \<Rightarrow> zval \<Rightarrow> bool) \<Rightarrow> prim_impl \<Rightarrow> zglob \<times> zmem" where
  "zuo_init same os =
     (let table = prim_table same os in
      case zuo_image_init (zuo_primitive_init table) of (forms, env, st) \<Rightarrow>
        (\<lparr>g_forms = forms, g_top_env = env, g_call = prim_call table\<rparr>, mem_init\<lparr>mem_symtab := st\<rparr>))"

section \<open>Every registered primitive is safe\<close>

definition prim_names :: "string list" where
  "prim_names =
    [''pair?'', ''null?'', ''integer?'', ''string?'', ''symbol?'', ''hash?'', ''list?'', ''procedure?'',
     ''path-string?'', ''variable?'', ''handle?'', ''void'', ''cons'', ''car'', ''cdr'', ''list-ref'',
     ''list-set'', ''list'', ''append'', ''reverse'', ''length'', ''not'', ''eq?'', ''+'', ''-'', ''*'',
     ''quotient'', ''remainder'', ''<'', ''<='', ''='', ''>='', ''>'', ''bitwise-and'', ''bitwise-ior'',
     ''bitwise-xor'', ''bitwise-not'', ''string'', ''string-length'', ''string-ref'', ''string-u32-ref'',
     ''substring'', ''string=?'', ''string-ci=?'', ''string-split'', ''string->symbol'',
     ''string->uninterned-symbol'', ''symbol->string'', ''string-read'', ''hash'', ''hash-ref'', ''hash-set'',
     ''hash-remove'', ''hash-keys'', ''hash-count'', ''hash-keys-subset?'', ''opaque'', ''opaque-ref'',
     ''build-path'', ''build-raw-path'', ''split-path'', ''relative-path?'', ''build-module-path'', ''variable'',
     ''variable-ref'', ''variable-set!'', ''continuation-prompt-available?'', ''fd-open-input'',
     ''fd-open-output'', ''fd-close'', ''fd-read'', ''fd-write'', ''fd-poll'', ''fd-terminal?'', ''fd-valid?'',
     ''stat'', ''rm'', ''mv'', ''mkdir'', ''rmdir'', ''ls'', ''symlink'', ''readlink'', ''cp'', ''current-time'',
     ''process'', ''process-status'', ''process-wait'', ''suspend-signal'', ''resume-signal'', ''string->shell'',
     ''shell->strings'', ''string-sha256'', ''cleanable-file'', ''cleanable-cancel'', ''error'', ''alert'', ''~v'',
     ''~a'', ''~s'', ''arg-error'', ''arity-error'', ''exit'', ''module-path?'', ''kernel-env'', ''runtime-env'',
     ''dump-image-and-exit'']"

lemmas primitive_defs = zuo_primitive0_def zuo_primitive1_def zuo_primitive2_def zuo_primitive3_def zuo_primitivea_def
  zuo_primitiveb_def zuo_primitivec_def zuo_primitiveC_def zuo_primitiveN_def os_primitive_def

lemma prim_table_names: "map pe_name (prim_table same os) = prim_names"
  unfolding prim_table_def prim_names_def list.map primitive_defs prim_entry.simps by (rule refl)

lemma prim_names_distinct: "distinct prim_names"
  by code_simp

definition entry_safe :: "kforms \<Rightarrow> (string \<Rightarrow> zuo_int32 \<Rightarrow> bool) \<Rightarrow> prim_entry \<Rightarrow> bool" where
  "entry_safe F R e \<longleftrightarrow> (\<forall>ctx args mem. top_ok F R (ctx_top_env ctx) \<longrightarrow> mem_ok F R mem \<longrightarrow>
     bit (pe_mask e) (min (length args) 10) \<longrightarrow> (\<forall>a\<in>set args. val_ok F R (mem_size mem) a) \<longrightarrow>
     call_safe F R mem (pe_body e ctx (zlist args) mem))"

text \<open>What the arity masks mean for the number of arguments.\<close>

lemma mask_bits:
  fixes k :: nat
  assumes "k \<le> 10"
  shows "bit (arity_bit 0) k \<longleftrightarrow> k = 0" "bit (arity_bit 1) k \<longleftrightarrow> k = 1"
    "bit (arity_bit 2) k \<longleftrightarrow> k = 2" "bit (arity_bit 3) k \<longleftrightarrow> k = 3"
    "bit (- 2 :: zuo_int32) k \<longleftrightarrow> k \<noteq> 0"
proof -
  have "\<forall>k\<in>set [0..<11]. (bit (arity_bit 0) k \<longleftrightarrow> k = 0) \<and> (bit (arity_bit 1) k \<longleftrightarrow> k = 1)
    \<and> (bit (arity_bit 2) k \<longleftrightarrow> k = 2) \<and> (bit (arity_bit 3) k \<longleftrightarrow> k = 3)
    \<and> (bit (- 2 :: zuo_int32) k \<longleftrightarrow> k \<noteq> 0)" by code_simp
  moreover have "k \<in> set [0..<11]" using assms by simp
  ultimately show "bit (arity_bit 0) k \<longleftrightarrow> k = 0" "bit (arity_bit 1) k \<longleftrightarrow> k = 1"
    "bit (arity_bit 2) k \<longleftrightarrow> k = 2" "bit (arity_bit 3) k \<longleftrightarrow> k = 3"
    "bit (- 2 :: zuo_int32) k \<longleftrightarrow> k \<noteq> 0" by blast+
qed

lemma mask_args:
  fixes args :: "zval list"
  defines "k \<equiv> min (length args) 10"
  shows "bit (arity_bit 0) k \<longleftrightarrow> args = []" "bit (arity_bit 1) k \<longleftrightarrow> (\<exists>a. args = [a])"
    "bit (arity_bit 2) k \<longleftrightarrow> (\<exists>a b. args = [a, b])"
    "bit (arity_bit 3) k \<longleftrightarrow> (\<exists>a b c. args = [a, b, c])"
    "bit (- 2 :: zuo_int32) k \<longleftrightarrow> args \<noteq> []"
proof -
  have "k \<le> 10" by (simp add: k_def)
  note bits = mask_bits [OF this]
  have len: "length args = 2 \<longleftrightarrow> (\<exists>a b. args = [a, b])" "length args = 3 \<longleftrightarrow> (\<exists>a b c. args = [a, b, c])"
    by (auto simp: numeral_2_eq_2 numeral_3_eq_3 length_Suc_conv)
  have "k = 2 \<longleftrightarrow> length args = 2" "k = 3 \<longleftrightarrow> length args = 3" "k = 1 \<longleftrightarrow> length args = 1" "k = 0 \<longleftrightarrow> args = []"
    by (auto simp: k_def min_def)
  with bits len show "bit (arity_bit 0) k \<longleftrightarrow> args = []" "bit (arity_bit 1) k \<longleftrightarrow> (\<exists>a. args = [a])"
    "bit (arity_bit 2) k \<longleftrightarrow> (\<exists>a b. args = [a, b])"
    "bit (arity_bit 3) k \<longleftrightarrow> (\<exists>a b c. args = [a, b, c])"
    "bit (- 2 :: zuo_int32) k \<longleftrightarrow> args \<noteq> []" by (auto simp: length_Suc_conv)
qed

definition opt_ok :: "kforms \<Rightarrow> (string \<Rightarrow> zuo_int32 \<Rightarrow> bool) \<Rightarrow> nat \<Rightarrow> zval \<Rightarrow> bool" where
  "opt_ok F R n v \<longleftrightarrow> v = VUndefined \<or> val_ok F R n v"

lemma opt_okI: "val_ok F R n v \<Longrightarrow> opt_ok F R n v" and opt_ok_absent: "opt_ok F R n VUndefined"
  by (simp_all add: opt_ok_def)

text \<open>One rule for each dispatcher.\<close>

lemma dispatch_safe:
  "(\<And>ctx mem. top_ok F R (ctx_top_env ctx) \<Longrightarrow> mem_ok F R mem \<Longrightarrow> call_safe F R mem (f0 ctx mem)) \<Longrightarrow>
     entry_safe F R (zuo_primitive0 name f0)"
  "(\<And>ctx mem a. mem_ok F R mem \<Longrightarrow> val_ok F R (mem_size mem) a \<Longrightarrow> call_safe F R mem (f1 ctx mem a)) \<Longrightarrow>
     entry_safe F R (zuo_primitive1 name f1)"
  "(\<And>ctx mem a b. mem_ok F R mem \<Longrightarrow> val_ok F R (mem_size mem) a \<Longrightarrow> val_ok F R (mem_size mem) b \<Longrightarrow>
     call_safe F R mem (f2 ctx mem a b)) \<Longrightarrow> entry_safe F R (zuo_primitive2 name f2)"
  "(\<And>ctx mem a b c. mem_ok F R mem \<Longrightarrow> val_ok F R (mem_size mem) a \<Longrightarrow> val_ok F R (mem_size mem) b \<Longrightarrow>
     val_ok F R (mem_size mem) c \<Longrightarrow> call_safe F R mem (f3 ctx mem a b c)) \<Longrightarrow> entry_safe F R (zuo_primitive3 name f3)"
  "(\<And>ctx mem a. mem_ok F R mem \<Longrightarrow> opt_ok F R (mem_size mem) a \<Longrightarrow> call_safe F R mem (f1 ctx mem a)) \<Longrightarrow>
     entry_safe F R (zuo_primitivea name f1)"
  "(\<And>ctx mem a b. mem_ok F R mem \<Longrightarrow> val_ok F R (mem_size mem) a \<Longrightarrow> opt_ok F R (mem_size mem) b \<Longrightarrow>
     call_safe F R mem (f2 ctx mem a b)) \<Longrightarrow> entry_safe F R (zuo_primitiveb name f2)"
  "(\<And>ctx mem a b c. mem_ok F R mem \<Longrightarrow> val_ok F R (mem_size mem) a \<Longrightarrow> val_ok F R (mem_size mem) b \<Longrightarrow>
     opt_ok F R (mem_size mem) c \<Longrightarrow> call_safe F R mem (f3 ctx mem a b c)) \<Longrightarrow> entry_safe F R (zuo_primitivec name f3)"
  "(\<And>ctx mem a b c. mem_ok F R mem \<Longrightarrow> val_ok F R (mem_size mem) a \<Longrightarrow> opt_ok F R (mem_size mem) b \<Longrightarrow>
     opt_ok F R (mem_size mem) c \<Longrightarrow> call_safe F R mem (f3 ctx mem a b c)) \<Longrightarrow> entry_safe F R (zuo_primitiveC name f3)"
  "(\<And>ctx mem args. mem_ok F R mem \<Longrightarrow> \<forall>a\<in>set args. val_ok F R (mem_size mem) a \<Longrightarrow>
     call_safe F R mem (f1 ctx mem (zlist args))) \<Longrightarrow> entry_safe F R (zuo_primitiveN name f1 (- 1))"
  "(\<And>ctx mem args. mem_ok F R mem \<Longrightarrow> \<forall>a\<in>set args. val_ok F R (mem_size mem) a \<Longrightarrow> args \<noteq> [] \<Longrightarrow>
     call_safe F R mem (f1 ctx mem (zlist args))) \<Longrightarrow> entry_safe F R (zuo_primitiveN name f1 (- 2))"
  by (auto simp: entry_safe_def primitive_defs bit_or_iff mask_args mask_args(2) [unfolded One_nat_def] dispatch_primitive0_def dispatch_primitive1_def
      dispatch_primitive2_def dispatch_primitive3_def dispatch_primitivea_def dispatch_primitiveb_def
      dispatch_primitivec_def dispatch_primitiveC_def dispatch_primitiveN_def opt_okI opt_ok_absent)

definition os_safe :: "kforms \<Rightarrow> (string \<Rightarrow> zuo_int32 \<Rightarrow> bool) \<Rightarrow> prim_impl \<Rightarrow> bool" where
  "os_safe F R os \<longleftrightarrow> (\<forall>name ctx args mem. mem_ok F R mem \<longrightarrow> (\<forall>a\<in>set args. val_ok F R (mem_size mem) a) \<longrightarrow>
     call_safe F R mem (os name ctx (zlist args) mem))"

lemma os_primitive_safe: "os_safe F R os \<Longrightarrow> entry_safe F R (os_primitive name am os)"
  by (simp add: os_safe_def entry_safe_def os_primitive_def)

lemma with_safe:
  "mem_ok F R mem \<Longrightarrow> safe (val_ok F R (mem_size mem)) r \<Longrightarrow> call_safe F R mem (with_mem r mem)"
  "mem_ok F R mem \<Longrightarrow> safe (\<lambda>(v, st). val_ok F R (mem_size mem) v \<and> symtab_ok st) (f (mem_symtab mem)) \<Longrightarrow>
     call_safe F R mem (with_symtab f mem)"
  by (simp_all add: with_mem_def with_symtab_def call_safe_pure call_safe_symtab)

lemma prompt_safe: "safe (val_ok F R n) (zuo_prompt_avail_p mk v)"
  by (auto simp: zuo_prompt_avail_p_def safe_rbind split: list.split intro!: safe_True [OF checks_safe(2)])

lemma kernel_env_safe:
  "top_ok F R t \<Longrightarrow> mem_ok F R mem \<Longrightarrow> call_safe F R mem (Inr (zuo_kernel_env t, mem))"
  using top_ok_env [of F R t "mem_size mem"] by (simp add: call_safe_def zuo_kernel_env_def)

lemma zuo_string_sha256_safe [prim_safe]: "safe (val_ok F R n) (zuo_string_sha256 v)"
  by (simp add: zuo_string_sha256_def Let_def split: zval.split)

lemma prim_table_safe:
  assumes "os_safe F R os"
  shows "list_all (entry_safe F R) (prim_table same os)"
  unfolding prim_table_def list.pred_inject(2)
  by (intro conjI list.pred_inject(1) dispatch_safe os_primitive_safe [OF assms] with_safe kernel_env_safe)
    (auto simp: prim_safe prompt_safe opt_ok_def mem_ok_symtab with_vars_def intro: prim_safe zuo_string_read_safe)

section \<open>The state after start-up is well formed\<close>

definition registered :: "(zval \<Rightarrow> zval \<Rightarrow> bool) \<Rightarrow> prim_impl \<Rightarrow> string \<Rightarrow> zuo_int32 \<Rightarrow> bool" where
  "registered same os p am \<longleftrightarrow> (\<exists>e\<in>set (prim_table same os). pe_name e = p \<and> pe_mask e = am)"

definition env_inv :: "(zval \<Rightarrow> bool) \<Rightarrow> zval trie \<times> symtab \<Rightarrow> bool" where
  "env_inv P r \<longleftrightarrow> trie_all P (fst r) \<and> symtab_ok (snd r)"

lemma top_env_set_inv: "env_inv P r \<Longrightarrow> (\<And>s. P (mk s)) \<Longrightarrow> env_inv P (top_env_set name mk r)"
  by (auto simp: env_inv_def top_env_set_def trie_all_zuo_set dest: zuo_symbol_ok split: prod.split)

lemma primitive_init_inv:
  assumes "\<And>e s. e \<in> set table \<Longrightarrow> P (VPrimitive (pe_name e) (pe_mask e) (VSymbol s))"
  shows "env_inv P (zuo_primitive_init table)"
proof -
  have "env_inv P (fold register_primitive es r)" if "env_inv P r" "set es \<subseteq> set table" for es r
    using that
  proof (induction es arbitrary: r)
    case (Cons e es)
    then have "env_inv P (register_primitive e r)"
      unfolding register_primitive_def by (intro top_env_set_inv assms) auto
    with Cons show ?case by simp
  qed simp
  moreover have "env_inv P (zuo_trie_node, mem_symtab mem_init)"
    using symtab_ok_init by (simp add: env_inv_def mem_init_def)
  ultimately show ?thesis by (simp add: zuo_primitive_init_def)
qed

lemma intern_forms_ok:
  assumes "symtab_ok st" "intern_forms st = (forms, st')"
  shows "symtab_ok st'" "forms_distinct forms"
proof -
  obtain q l t b i st1 st2 st3 st4 where eqs:
    "zuo_symbol ''quote'' st = (q, st1)" "zuo_symbol ''lambda'' st1 = (l, st2)" "zuo_symbol ''let'' st2 = (t, st3)"
    "zuo_symbol ''begin'' st3 = (b, st4)" "zuo_symbol ''if'' st4 = (i, st')"
    and forms: "forms = \<lparr>f_quote = q, f_lambda = l, f_let = t, f_begin = b, f_if = i\<rparr>"
    using assms(2) by (auto simp: intern_forms_def split: prod.splits)
  have st1: "symtab_ok st1" by (rule zuo_symbol_ok [OF assms(1) eqs(1)])
  have st2: "symtab_ok st2" by (rule zuo_symbol_ok [OF st1 eqs(2)])
  have st3: "symtab_ok st3" by (rule zuo_symbol_ok [OF st2 eqs(3)])
  have st4: "symtab_ok st4" by (rule zuo_symbol_ok [OF st3 eqs(4)])
  show st5: "symtab_ok st'" by (rule zuo_symbol_ok [OF st4 eqs(5)])
  note find = zuo_symbol_spec(2) [OF assms(1), of _ "''quote''"] zuo_symbol_spec(2) [OF st1, of _ "''lambda''"]
    zuo_symbol_spec(2) [OF st2, of _ "''let''"] zuo_symbol_spec(2) [OF st3, of _ "''begin''"]
    zuo_symbol_spec(2) [OF st4, of _ "''if''"]
  have "symtab_find ''quote'' st' = Some q" "symtab_find ''lambda'' st' = Some l" "symtab_find ''let'' st' = Some t"
    "symtab_find ''begin'' st' = Some b" "symtab_find ''if'' st' = Some i"
    using find by (simp_all add: eqs cstr_def)
  then have "cstr (sym_str q) = ''quote''" "cstr (sym_str l) = ''lambda''" "cstr (sym_str t) = ''let''"
    "cstr (sym_str b) = ''begin''" "cstr (sym_str i) = ''if''"
    using symtab.find_name [OF st5] by (fastforce simp: cstr_def)+
  then show "forms_distinct forms" by (auto simp: forms_distinct_def forms)
qed

lemma zuo_init_ok:
  assumes "zuo_init same os = (G, mem)"
  shows "forms_distinct (g_forms G)" "top_ok F (registered same os) (g_top_env G)"
    "mem_ok F (registered same os) mem" "g_call G = prim_call (prim_table same os)" "mem_vars mem = []"
proof -
  let ?R = "registered same os" let ?P = "val_ok F ?R 0"
  obtain env0 st0 where r0: "zuo_primitive_init (prim_table same os) = (env0, st0)" by fastforce
  have "env_inv ?P (env0, st0)"
    unfolding r0 [symmetric] by (rule primitive_init_inv) (auto simp: registered_def)
  moreover obtain forms st1 where f: "intern_forms st0 = (forms, st1)" by fastforce
  ultimately have inv: "env_inv ?P (env0, st1)" and d: "forms_distinct forms"
    using intern_forms_ok [OF _ f] by (auto simp: env_inv_def)
  have "env_inv ?P (fold (\<lambda>(name, v). top_env_set name (\<lambda>_. v)) image_values (env0, st1))"
    using inv by (simp add: image_values_def top_env_set_inv)
  then show "forms_distinct (g_forms G)" "top_ok F ?R (g_top_env G)"
    "mem_ok F ?R mem" "g_call G = prim_call (prim_table same os)" "mem_vars mem = []"
    using assms d r0 f
    by (auto simp: zuo_init_def zuo_image_init_def env_inv_def top_ok_def trie_all_def mem_ok_def mem_init_def split: prod.splits)
qed

lemma prim_call_safe:
  assumes "os_safe F (registered same os) os" "registered same os p am" "bit am (min (length args) 10)"
    "mem_ok F (registered same os) mem" "\<forall>a\<in>set args. val_ok F (registered same os) (mem_size mem) a"
    "top_ok F (registered same os) (ctx_top_env ctx)"
  shows "call_safe F (registered same os) mem (prim_call (prim_table same os) p ctx (zlist args) mem)"
proof -
  obtain e where e: "e \<in> set (prim_table same os)" "pe_name e = p" "pe_mask e = am"
    using assms(2) by (auto simp: registered_def)
  have "distinct (map fst (map (\<lambda>e. (pe_name e, pe_body e)) (prim_table same os)))"
    using prim_names_distinct prim_table_names [of same os] by (simp add: comp_def)
  then have "map_of (map (\<lambda>e. (pe_name e, pe_body e)) (prim_table same os)) p = Some (pe_body e)"
    using e by (intro map_of_is_SomeI) auto
  moreover have "entry_safe F (registered same os) e"
    using prim_table_safe [OF assms(1), of same] e(1) by (simp add: list_all_iff)
  ultimately show ?thesis using assms(3-6) e(3) by (simp add: prim_call_def entry_safe_def)
qed

section \<open>The interpreter never runs into undefined behaviour\<close>

text \<open>
  The interface to the operating system: its primitives return well-formed values and leave the
  memory well formed, or report an error.
\<close>

locale os_interface =
  fixes same :: "zval \<Rightarrow> zval \<Rightarrow> bool" and os :: prim_impl
  assumes os_contract: "os_safe (g_forms (fst (zuo_init same os))) (registered same os) os"

sublocale os_interface \<subseteq> kernel: safe_primitives "fst (zuo_init same os)" "registered same os"
proof -
  obtain G mem where i: "zuo_init same os = (G, mem)" by fastforce
  note ok = zuo_init_ok [OF i]
  show "safe_primitives (fst (zuo_init same os)) (registered same os)"
  proof
    show "forms_distinct (g_forms (fst (zuo_init same os)))" using ok(1) i by simp
    show "top_ok (g_forms (fst (zuo_init same os))) (registered same os) (g_top_env (fst (zuo_init same os)))"
      using ok(2) i by simp
  next
    fix p am args mem mk
    assume "registered same os p am" "bit am (min (length args) 10)"
      "mem_ok (g_forms (fst (zuo_init same os))) (registered same os) mem"
      "\<forall>a\<in>set args. val_ok (g_forms (fst (zuo_init same os))) (registered same os) (mem_size mem) a"
    then show "call_safe (g_forms (fst (zuo_init same os))) (registered same os) mem
      (g_call (fst (zuo_init same os)) p \<lparr>ctx_meta_k = mk, ctx_top_env = g_top_env (fst (zuo_init same os))\<rparr> (zlist args) mem)"
      using prim_call_safe [OF os_contract] ok(2,4) i by simp
  qed
qed

text \<open>A system on which every call fails.\<close>

definition os_unavailable :: prim_impl where
  "os_unavailable name ctx args mem = Inl (Fail ''operating system call failed'')"

interpretation offline: os_interface "(=)" os_unavailable
  by unfold_locales (simp add: os_safe_def call_safe_def os_unavailable_def)

lemma length_loop_elems: "length_loop v n = (n + of_nat (length (zelems v)), zend v)"
  by (induction v n rule: length_loop.induct) auto

lemma zuo_string_read_list: "zuo_string_read a b st = Inr (v, st') \<Longrightarrow> \<exists>vs. v = zlist vs"
  by (auto simp: zuo_string_read_def Let_def rbind_eq_Inr_iff split: if_splits prod.splits)

lemma zuo_kernel_read_string_safe:
  assumes "mem_ok F R mem" "val_ok F R (mem_size mem) args"
  shows "safe (\<lambda>(e, st). val_ok F R (mem_size mem) e \<and> symtab_ok st) (zuo_kernel_read_string args mem)"
proof (cases "zuo_length_int args = Inr 3")
  case False
  have len: "safe (\<lambda>x. True) (zuo_length_int args)" by (simp add: zuo_length_int_def Let_def split: prod.split)
  have "safe P (rbind (zuo_arity_error mem (VString who) args) f)" for P who and f :: "zval \<Rightarrow> 'x res"
    using zuo_arity_error_safe [of "VString who" F R "mem_size mem" args mem] assms(2) by auto
  with False len show ?thesis
    by (cases "zuo_length_int args") (auto simp: zuo_kernel_read_string_def Let_def)
next
  case True
  then have z: "zend args = VNull" "(of_nat (length (zelems args)) :: zuo_int) = 3"
    by (auto simp: zuo_length_int_def length_loop_elems split: if_splits)
  then have "length (zelems args) \<noteq> 0" "length (zelems args) \<noteq> 1" "length (zelems args) \<noteq> 2" by auto
  then obtain a b c vs where "zelems args = a # b # c # vs"
    by (cases "zelems args" rule: list.exhaust; cases "tl (zelems args)"; cases "tl (tl (zelems args))") auto
  then have args: "args = VPair a (VPair b (VPair c (zlist vs)))" using zlist_eqI [OF z(1)] by simp
  have one: "safe (\<lambda>(e, st). val_ok F R n e \<and> symtab_ok st) (case p of (es, st) \<Rightarrow>
      if es = VNull then Inl (Fail x) else rbind (ucdr es) (\<lambda>d. if d \<noteq> VNull then Inl (Fail y)
        else rbind (ucar es) (\<lambda>e. Inr (e, st))))"
    if "case p of (es, st) \<Rightarrow> val_ok F R n es \<and> symtab_ok st \<and> (\<exists>vs. es = zlist vs)" for p x y n
    using that by (auto simp: neq_Nil_conv split: prod.split)
  have "safe (\<lambda>(es, st). val_ok F R (mem_size mem) es \<and> symtab_ok st \<and> (\<exists>vs. es = zlist vs))
      (zuo_string_read a b (mem_symtab mem))"
    using zuo_string_read_safe [OF mem_ok_symtab [OF assms(1)], of F R "mem_size mem" a b]
      zuo_string_read_list [of a b "mem_symtab mem"]
    by (cases "zuo_string_read a b (mem_symtab mem)") auto
  then show ?thesis
    unfolding zuo_kernel_read_string_def Let_def True [unfolded args] args
    by (simp add: safe_rbind)
      (intro impI conjI safe_True [OF checks_safe(1)] safe_True [OF checks_safe(3)] safe_True [OF module_checks_safe(1)]
        safe_mono [OF _ one]; auto)
qed

context os_interface
begin

lemma read_and_eval_safe:
  fixes F R
  defines "F \<equiv> g_forms (fst (zuo_init same os))" and "R \<equiv> registered same os"
  assumes "mem_ok F R mem" "val_ok F R (mem_size mem) args"
    "read_and_eval (fst (zuo_init same os)) n args mem = Some r"
  shows "safe (\<lambda>(v, mem'). mem_ok F R mem' \<and> val_ok F R (mem_size mem') v) r"
proof (cases "zuo_kernel_read_string args mem")
  case (Inl e)
  with assms(5) zuo_kernel_read_string_safe [OF assms(3,4)] show ?thesis by (auto simp: read_and_eval_def)
next
  case (Inr x)
  obtain e st where x: "x = (e, st)" by (cases x)
  let ?mem = "mem\<lparr>mem_symtab := st\<rparr>"
  have "val_ok F R (mem_size ?mem) e" "mem_ok F R ?mem"
    using zuo_kernel_read_string_safe [OF assms(3,4)] Inr x assms(3) by (simp_all add: mem_ok_def)
  with kernel.zuo_kernel_eval_safe [of ?mem e n VFalse] assms(5) Inr x show ?thesis
    by (simp add: read_and_eval_def F_def R_def)
qed

end


lemma read_five: "zuo_kernel_read_string (zlist [VString ''5'', VInteger 0, VString ''m.zuo'']) mem = Inr (VInteger 5, mem_symtab mem)"
  by code_simp



end
