(* ===== verification/Zuo_Eval.thy ===== *)
theory Zuo_Eval
  imports Zuo_Dispatch
begin

text \<open>
  What the abstract machine of \<open>Zuo_Interp\<close> computes. The machine keeps registers, a chain of
  continuation frames and a stack of prompts; here the kernel language has an evaluator by recursion on
  expressions, with neither, and the machine is shown to return what the evaluator returns, after
  enough rounds, and to go on for as long as the evaluator does.

  The evaluator covers expressions that neither capture nor apply a continuation and in which no
  primitive returns the internal value \<^verbatim>\<open>undefined\<close>; on others it answers \<open>Outside\<close>.
\<close>

section \<open>An evaluator\<close>

datatype 'a outcome = Done 'a | Failed zerror | Outside | Out_Of_Fuel

definition obind :: "'a outcome \<Rightarrow> ('a \<Rightarrow> 'b outcome) \<Rightarrow> 'b outcome" where
  "obind m f = (case m of Done x \<Rightarrow> f x | Failed e \<Rightarrow> Failed e | Outside \<Rightarrow> Outside | Out_Of_Fuel \<Rightarrow> Out_Of_Fuel)"

definition lift_res :: "'a res \<Rightarrow> 'a outcome" where
  "lift_res r = (case r of Inl e \<Rightarrow> Failed e | Inr x \<Rightarrow> Done x)"

lemma obind_simps [simp]:
  "obind (Done x) f = f x" "obind (Failed e) f = Failed e" "obind Outside f = Outside" "obind Out_Of_Fuel f = Out_Of_Fuel"
  by (simp_all add: obind_def)

lemma lift_res_simps [simp]: "lift_res (Inl e) = Failed e" "lift_res (Inr x) = Done x"
  by (simp_all add: lift_res_def)

text \<open>Evaluation at a smaller depth: the tags of the prompts, the environment, the expression, the memory.\<close>

type_synonym evaluator = "zval list \<Rightarrow> zval \<Rightarrow> zval \<Rightarrow> zmem \<Rightarrow> (zval \<times> zmem) outcome"

definition eval_value :: "zval \<Rightarrow> zmem \<Rightarrow> (zval \<times> zmem) outcome" where
  "eval_value v mem = (if v = VUndefined then Outside else Done (v, mem))"

definition arity_failure :: "zmem \<Rightarrow> zval \<Rightarrow> zval \<Rightarrow> 'a res" where
  "arity_failure mem rator args =
     (case zuo_fail_arity mem rator args of Inl x \<Rightarrow> Inl x | Inr _ \<Rightarrow> Inl (UB ''return''))"

text \<open>The procedure and the arguments that nested uses of \<^verbatim>\<open>apply\<close> amount to.\<close>

function flatten_apply :: "zmem \<Rightarrow> zval \<Rightarrow> zval \<Rightarrow> nat \<Rightarrow> (zval \<times> zval \<times> nat) res" where
  "flatten_apply mem rator args cnt =
     (if rator = VApply then
        (if cnt \<noteq> 2 then arity_failure mem VApply args
         else rbind (ucar args) (\<lambda>f. rbind (ucdr args) (\<lambda>d. rbind (ucar d) (\<lambda>al.
           if zuo_list_p al \<noteq> VTrue then Inl (Fail_Arg ''apply'' ''list'' al)
           else flatten_apply mem f al (length (zelems al))))))
      else Inr (rator, args, cnt))"
  by pat_completeness auto
termination
  by (relation "measure (\<lambda>(mem, rator, args, cnt). size args)") (auto simp: ucar_Inr ucdr_Inr)

declare flatten_apply.simps [simp del]

text \<open>The environment and the body with which a closure starts.\<close>

definition closure_entry :: "zmem \<Rightarrow> zval \<Rightarrow> zval \<Rightarrow> zval \<Rightarrow> (zval \<times> zval \<times> zval) res" where
  "closure_entry mem lam cenv args =
     rbind (ucdr lam) (\<lambda>d. rbind (ucar d) (\<lambda>formals. rbind (ucdr d) (\<lambda>body. rbind (ucdr body) (\<lambda>body_d.
     rbind (if body_d \<noteq> VNull then
              rbind (ucar body) (\<lambda>a. if is_string a then Inr (a, body_d) else Inr (VFalse, body))
            else Inr (VFalse, body)) (\<lambda>(name, body).
     rbind (bind_formals formals args cenv) (\<lambda>(formals, rest, env).
     rbind (if is_symbol formals then Inr (env_extend env formals rest)
            else if formals \<noteq> VNull \<or> rest \<noteq> VNull then arity_failure mem (VClosure lam cenv) args
            else Inr env) (\<lambda>env.
     rbind (ucar body) (\<lambda>e. Inr (name, env, e)))))))))"

definition eval_call :: "zglob \<Rightarrow> evaluator \<Rightarrow> zval list \<Rightarrow> zval \<Rightarrow> zval \<Rightarrow> nat \<Rightarrow> zmem \<Rightarrow> (zval \<times> zmem) outcome" where
  "eval_call G ev tags f args cnt mem =
     (case f of
        VKernelEval \<Rightarrow>
          if cnt \<noteq> 1 then lift_res (arity_failure mem f args)
          else obind (lift_res (ucar args)) (\<lambda>e. obind (lift_res (check_syntax (g_forms G) e)) (\<lambda>_.
            ev (VUndefined # tags) (VTrie (g_top_env G)) e mem))
      | VClosure lam cenv \<Rightarrow>
          obind (lift_res (closure_entry mem lam cenv args)) (\<lambda>(name, env, e). ev tags env e mem)
      | VPrimitive p am name \<Rightarrow>
          if bit am (min cnt 10) then
            obind (lift_res (g_call G p \<lparr>ctx_meta_k = map (Pair Done_K) tags, ctx_top_env = g_top_env G\<rparr> args mem))
              (\<lambda>(v, mem). eval_value v mem)
          else lift_res (arity_failure mem f args)
      | VCont k \<Rightarrow> if cnt = 1 then Outside else lift_res (arity_failure mem f args)
      | VApply \<Rightarrow> lift_res (arity_failure mem f args)
      | VCallCC \<Rightarrow> lift_res (arity_failure mem f args)
      | VCallPrompt \<Rightarrow> lift_res (arity_failure mem f args)
      | _ \<Rightarrow> Failed (Fail1 ''not a procedure for application'' f))"

definition eval_apply :: "zglob \<Rightarrow> evaluator \<Rightarrow> zval list \<Rightarrow> zval \<Rightarrow> zval \<Rightarrow> nat \<Rightarrow> zmem \<Rightarrow> (zval \<times> zmem) outcome" where
  "eval_apply G ev tags rator args cnt mem =
     obind (lift_res (flatten_apply mem rator args cnt)) (\<lambda>(f, args, cnt).
       if f = VCallCC \<and> cnt = 1 then Outside
       else if f = VCallPrompt \<and> cnt = 2 then
         obind (lift_res (ucar args)) (\<lambda>f. obind (lift_res (ucdr args)) (\<lambda>d. obind (lift_res (ucar d)) (\<lambda>tag.
           if \<not> is_symbol tag then Failed (Fail1w ''call/prompt'' ''not a symbol'' tag)
           else eval_call G ev (tag # tags) f VNull 0 mem)))
       else eval_call G ev tags f args cnt mem)"

text \<open>The expressions of an application, from left to right, with the values so far.\<close>

fun eval_args :: "zglob \<Rightarrow> evaluator \<Rightarrow> zval list \<Rightarrow> zval \<Rightarrow> zval \<Rightarrow> zval list \<Rightarrow> zmem \<Rightarrow> (zval \<times> zmem) outcome" where
  "eval_args G ev tags env VNull vals mem = eval_apply G ev tags (hd vals) (zlist (tl vals)) (length (tl vals)) mem"
| "eval_args G ev tags env (VPair e es) vals mem =
     obind (ev tags env e mem) (\<lambda>(v, mem). eval_args G ev tags env es (vals @ [v]) mem)"
| "eval_args G ev tags env _ vals mem = Failed (UB ''car'')"

fun eval_seq :: "evaluator \<Rightarrow> zval list \<Rightarrow> zval \<Rightarrow> zval \<Rightarrow> zmem \<Rightarrow> (zval \<times> zmem) outcome" where
  "eval_seq ev tags env (VPair e es) mem =
     (if es = VNull then ev tags env e mem
      else obind (ev tags env e mem) (\<lambda>(v, mem). eval_seq ev tags env es mem))"
| "eval_seq ev tags env _ mem = Failed (UB ''cdr'')"

definition eval_form :: "zglob \<Rightarrow> evaluator \<Rightarrow> zval list \<Rightarrow> zval \<Rightarrow> zval \<Rightarrow> zval \<Rightarrow> zmem \<Rightarrow> (zval \<times> zmem) outcome" where
  "eval_form G ev tags env rator d mem =
     (let F = g_forms G in
      if rator = VSymbol (f_quote F) then obind (lift_res (ucar d)) (\<lambda>v. eval_value v mem)
      else if rator = VSymbol (f_if F) then
        obind (lift_res (ucar d)) (\<lambda>test. obind (lift_res (ucdr d)) (\<lambda>branches.
        obind (ev tags env test mem) (\<lambda>(v, mem).
        obind (lift_res (if v = VFalse then rbind (ucdr branches) ucar else ucar branches)) (\<lambda>e. ev tags env e mem))))
      else if rator = VSymbol (f_lambda F) then Done (VClosure (VPair rator d) env, mem)
      else if rator = VSymbol (f_let F) then
        obind (lift_res (ucar d)) (\<lambda>bindings. obind (lift_res (ucar bindings)) (\<lambda>binding.
        obind (lift_res (ucdr binding)) (\<lambda>rhs. obind (lift_res (ucar rhs)) (\<lambda>e.
        obind (ev tags env e mem) (\<lambda>(v, mem).
        obind (lift_res (ucdr d)) (\<lambda>rest. obind (lift_res (ucar rest)) (\<lambda>body. obind (lift_res (ucar binding)) (\<lambda>x.
          ev tags (env_extend env x v) body mem))))))))
      else if rator = VSymbol (f_begin F) then eval_seq ev tags env d mem
      else obind (ev tags env rator mem) (\<lambda>(v, mem). eval_args G ev tags env d [v] mem))"

text \<open>The depth of the recursion is bounded by the first number.\<close>

primrec zuo_eval :: "nat \<Rightarrow> zglob \<Rightarrow> evaluator" where
  "zuo_eval 0 G tags env e mem = Out_Of_Fuel"
| "zuo_eval (Suc n) G tags env e mem =
     (case e of
        VSymbol s \<Rightarrow>
          obind (lift_res (env_lookup env (VSymbol s))) (\<lambda>v.
            if v = VUndefined then Failed (Fail1 ''undefined'' (VSymbol s)) else Done (v, mem))
      | VPair rator d \<Rightarrow> eval_form G (zuo_eval n G) tags env rator d mem
      | _ \<Rightarrow> eval_value e mem)"

section \<open>Running the machine\<close>

lemma kernel_run_Suc: "kernel_run G (Suc n) st = None \<Longrightarrow> kernel_run G n st = None"
  by (induction n arbitrary: st) (auto split: sum.splits eval_state.splits)

lemma kernel_run_le: "n \<le> m \<Longrightarrow> kernel_run G m st = None \<Longrightarrow> kernel_run G n st = None"
  by (induction m rule: dec_induct) (auto dest: kernel_run_Suc simp del: kernel_run.simps)

text \<open>
  The machine started in \<open>st\<close> behaves as an outcome says: it reaches the value with the given
  continuation and prompts, it fails, or it is still running after \<open>n\<close> rounds.
\<close>

definition arrives :: "zglob \<Rightarrow> zinterp \<Rightarrow> zinterp \<Rightarrow> bool" where
  "arrives G st st' \<longleftrightarrow> (\<exists>j. \<forall>n. kernel_run G (j + n) st = kernel_run G n st')"

definition runs_as :: "zglob \<Rightarrow> nat \<Rightarrow> cont \<Rightarrow> (cont \<times> zval) list \<Rightarrow> zinterp \<Rightarrow> (zval \<times> zmem) outcome \<Rightarrow> bool" where
  "runs_as G n k mk st r =
     (case r of
        Done (v, mem) \<Rightarrow> v \<noteq> VUndefined \<and> (\<exists>e env ip. arrives G st
          \<lparr>i_e = e, i_v = v, i_env = env, i_k = k, i_in_proc = ip, i_meta_k = mk, i_mem = mem\<rparr>)
      | Failed x \<Rightarrow> \<exists>j. kernel_run G j st = Some (Inl x)
      | Outside \<Rightarrow> True
      | Out_Of_Fuel \<Rightarrow> kernel_run G n st = None)"

lemma runs_as_simps [simp]:
  "runs_as G n k mk st (Failed x) \<longleftrightarrow> (\<exists>j. kernel_run G j st = Some (Inl x))"
  "runs_as G n k mk st Outside"
  "runs_as G n k mk st Out_Of_Fuel \<longleftrightarrow> kernel_run G n st = None"
  by (simp_all add: runs_as_def)

lemma arrives_refl: "arrives G st st"
  by (auto simp: arrives_def intro: exI [of _ 0])

lemma runs_as_value: "v \<noteq> VUndefined \<Longrightarrow>
    runs_as G n k mk \<lparr>i_e = e, i_v = v, i_env = env, i_k = k, i_in_proc = ip, i_meta_k = mk, i_mem = mem\<rparr> (Done (v, mem))"
  unfolding runs_as_def using arrives_refl by fastforce

lemma runs_as_le: "runs_as G m k mk st r \<Longrightarrow> n \<le> m \<Longrightarrow> runs_as G n k mk st r"
  by (cases r) (auto simp: runs_as_def intro: kernel_run_le)

lemma runs_as_arrives:
  assumes "arrives G st st'" "runs_as G n k mk st' r"
  shows "runs_as G n k mk st r"
proof -
  obtain j where j: "kernel_run G (j + m) st = kernel_run G m st'" for m using assms(1) by (auto simp: arrives_def)
  have "arrives G st st''" if "arrives G st' st''" for st''
    using that j unfolding arrives_def by (metis add.assoc)
  moreover have "kernel_run G n st = None" if "kernel_run G n st' = None"
    using kernel_run_le [of n "j + n" G st] j [of n] that by simp
  moreover have "\<exists>i. kernel_run G i st = Some (Inl x)" if "kernel_run G i st' = Some (Inl x)" for i x
    using j [of i] that by auto
  ultimately show ?thesis using assms(2) by (cases r) (auto simp: runs_as_def)
qed

text \<open>One evaluation after the other.\<close>

lemma runs_as_obind:
  assumes "runs_as G n k1 mk1 st r"
    and "\<And>v mem e env ip. v \<noteq> VUndefined \<Longrightarrow>
      runs_as G n k mk \<lparr>i_e = e, i_v = v, i_env = env, i_k = k1, i_in_proc = ip, i_meta_k = mk1, i_mem = mem\<rparr> (f (v, mem))"
  shows "runs_as G n k mk st (obind r f)"
proof (cases r)
  case (Done x)
  then obtain v mem e env ip where "x = (v, mem)" "v \<noteq> VUndefined"
    "arrives G st \<lparr>i_e = e, i_v = v, i_env = env, i_k = k1, i_in_proc = ip, i_meta_k = mk1, i_mem = mem\<rparr>"
    using assms(1) by (auto simp: runs_as_def)
  then show ?thesis using Done assms(2) runs_as_arrives by fastforce
qed (use assms(1) in auto)

text \<open>A step of the machine, before it is made, behaves as an outcome says.\<close>

definition step_as :: "zglob \<Rightarrow> nat \<Rightarrow> cont \<Rightarrow> (cont \<times> zval) list \<Rightarrow> zinterp res \<Rightarrow> (zval \<times> zmem) outcome \<Rightarrow> bool" where
  "step_as G n k mk m r =
     (case m of Inl x \<Rightarrow> r = Failed x \<or> r = Outside | Inr st \<Rightarrow> runs_as G n k mk st r)"

lemma step_as_simps [simp]:
  "step_as G n k mk (Inl x) r \<longleftrightarrow> r = Failed x \<or> r = Outside"
  "step_as G n k mk (Inr st) r \<longleftrightarrow> runs_as G n k mk st r"
  "step_as G n k mk m Outside"
  by (simp_all add: step_as_def split: sum.split)

lemma step_as_rbind:
  "(\<And>x. a = Inr x \<Longrightarrow> step_as G n k mk (f x) (g x)) \<Longrightarrow> step_as G n k mk (rbind a f) (obind (lift_res a) g)"
  by (cases a) auto

lemma runs_as_step:
  assumes "kernel_step G st = rbind m (\<lambda>st. Inr (Running st))" "step_as G n k mk m r"
  shows "runs_as G (Suc n) k mk st r"
proof (cases m)
  case (Inl x)
  then have "kernel_run G 1 st = Some (Inl x)" using assms(1) by simp
  then show ?thesis using assms(2) Inl by (auto simp del: kernel_run.simps)
next
  case (Inr st')
  then have run: "kernel_run G (Suc m) st = kernel_run G m st'" for m using assms(1) by simp
  have "runs_as G n k mk st' r" using assms(2) Inr by simp
  moreover have "arrives G st st'" using run by (auto simp: arrives_def intro: exI [of _ 1])
  ultimately have "r \<noteq> Out_Of_Fuel \<Longrightarrow> ?thesis"
    using runs_as_arrives [of G st st' n k mk r] by (cases r) (auto simp: runs_as_def)
  then show ?thesis using run \<open>runs_as G n k mk st' r\<close> by (cases "r = Out_Of_Fuel") auto
qed

lemma runs_as_step_same:
  "kernel_step G st = rbind m (\<lambda>st. Inr (Running st)) \<Longrightarrow> step_as G n k mk m r \<Longrightarrow> runs_as G n k mk st r"
  using runs_as_step runs_as_le le_SucI by blast

section \<open>The machine computes what the evaluator computes\<close>

lemma fail_arity_eq: "fail_arity st rator args = arity_failure (i_mem st) rator args"
  by (simp add: fail_arity_def arity_failure_def)

lemma apply_closure_eq:
  "apply_closure lam cenv args st =
     rbind (closure_entry (i_mem st) lam cenv args) (\<lambda>(name, env, e).
       Inr (st\<lparr>i_in_proc := name, i_e := e, i_env := env, i_v := VUndefined\<rparr>))"
  unfolding apply_closure_def closure_entry_def
  by (simp add: rbind_assoc Let_def fail_arity_eq split_def)
    (intro rbind_cong refl; simp add: arity_failure_def fail_arity_def split: sum.split)

lemma step_as_arity [simp]:
  "step_as G n k mk (arity_failure mem f args) (lift_res (arity_failure mem f args))"
  by (simp add: arity_failure_def split: sum.split)

lemma flatten_apply_loop:
  "case flatten_apply (i_mem st) rator args cnt of
     Inl x \<Rightarrow> apply_loop G rator args cnt st = Inl x
   | Inr (f, args', cnt') \<Rightarrow> apply_loop G rator args cnt st = apply_loop G f args' cnt' st \<and> f \<noteq> VApply"
proof (induction "i_mem st" rator args cnt rule: flatten_apply.induct)
  case (1 rator args cnt)
  note IH = 1
  show ?case
  proof (cases "rator = VApply \<and> cnt = 2")
    case False
    then show ?thesis
      by (auto simp: flatten_apply.simps [of _ rator] apply_loop.simps [of G VApply] fail_arity_eq arity_failure_def split: sum.split)
  next
    case True
    show ?thesis
    proof (cases "\<exists>f al d. args = VPair f (VPair al d) \<and> zuo_list_p al = VTrue")
      case False
      then show ?thesis using True
        by (auto simp: flatten_apply.simps [of _ VApply] apply_loop.simps [of G VApply] ucar_def ucdr_def split: zval.splits)
    next
      case ex: True
      then obtain f al d where a: "args = VPair f (VPair al d)" "zuo_list_p al = VTrue" by blast
      then have "case flatten_apply (i_mem st) f al (length (zelems al)) of
          Inl x \<Rightarrow> apply_loop G f al (length (zelems al)) st = Inl x
        | Inr (f', args', cnt') \<Rightarrow> apply_loop G f al (length (zelems al)) st = apply_loop G f' args' cnt' st \<and> f' \<noteq> VApply"
        using IH [of f "VPair al d" al] True by simp
      moreover have "apply_loop G rator args cnt st = apply_loop G f al (length (zelems al)) st"
        using True a by (simp add: apply_loop.simps [of G VApply])
      moreover have "flatten_apply (i_mem st) rator args cnt = flatten_apply (i_mem st) f al (length (zelems al))"
        using True a by (simp add: flatten_apply.simps [of _ VApply])
      ultimately show ?thesis by (auto split: sum.splits)
    qed
  qed
qed

lemma collect_args_reversed:
  "collect_args (zlist (rev xs @ [r])) args cnt = Inr (r, zlist_onto xs args, cnt + length xs)"
  by (induction xs arbitrary: args cnt rule: rev_induct) (auto simp: zlist_onto_append)

lemma continue_apply_more:
  "continue_apply G (VPair rev_vals (VPair e es)) env st =
     Inr (st\<lparr>i_e := e, i_env := env, i_k := Cont Apply_Cont (VPair (VPair (i_v st) rev_vals) es) env (i_in_proc st) (i_k st),
       i_v := VUndefined\<rparr>)"
  by (simp add: continue_apply_def push_k_def Let_def)

text \<open>
  What the machine's primitives may know of the stack of prompts: its tags, not the continuations.
\<close>

locale direct_machine =
  fixes G :: zglob
  assumes call_tags: "map snd mk = map snd mk' \<Longrightarrow>
    g_call G p \<lparr>ctx_meta_k = mk, ctx_top_env = g_top_env G\<rparr> args mem =
    g_call G p \<lparr>ctx_meta_k = mk', ctx_top_env = g_top_env G\<rparr> args mem"
begin

definition follows :: "nat \<Rightarrow> evaluator \<Rightarrow> bool" where
  "follows n ev \<longleftrightarrow> (\<forall>env e k ip mk mem. runs_as G n k mk
     \<lparr>i_e = e, i_v = VUndefined, i_env = env, i_k = k, i_in_proc = ip, i_meta_k = mk, i_mem = mem\<rparr> (ev (map snd mk) env e mem))"

lemma followsD: "follows n ev \<Longrightarrow> tags = map snd mk \<Longrightarrow> runs_as G n k mk
    \<lparr>i_e = e, i_v = VUndefined, i_env = env, i_k = k, i_in_proc = ip, i_meta_k = mk, i_mem = mem\<rparr> (ev tags env e mem)"
  by (simp add: follows_def)

lemma prompt_returns:
  assumes "runs_as G n Done_K ((k, tag) # mk) st r"
  shows "runs_as G n k mk st r"
proof (cases r)
  case (Done x)
  have "runs_as G n k mk st (obind r Done)"
  proof (rule runs_as_obind [OF assms], rule runs_as_step_same)
    fix v e env ip mem
    let ?st = "\<lparr>i_e = e, i_v = v, i_env = env, i_k = Done_K, i_in_proc = ip, i_meta_k = (k, tag) # mk, i_mem = mem\<rparr>"
    assume v: "v \<noteq> VUndefined"
    then show "kernel_step G ?st = rbind (Inr (?st\<lparr>i_k := k, i_meta_k := mk\<rparr>)) (\<lambda>st. Inr (Running st))"
      by (simp add: kernel_step_def)
    show "step_as G n k mk (Inr (?st\<lparr>i_k := k, i_meta_k := mk\<rparr>)) (Done (v, mem))" using v by (simp add: runs_as_value)
  qed
  then show ?thesis by (simp add: Done)
qed (use assms in auto)

lemma eval_call_follows:
  assumes "follows n ev" "f \<in> {VApply, VCallCC, VCallPrompt} \<longrightarrow> apply_loop G f args cnt st = fail_arity st f args"
    and "st = \<lparr>i_e = e, i_v = v, i_env = env, i_k = k, i_in_proc = ip, i_meta_k = mk, i_mem = mem\<rparr>"
  shows "step_as G n k mk (apply_loop G f args cnt st) (eval_call G ev (map snd mk) f args cnt mem)"
proof (cases f)
  case VKernelEval
  have "runs_as G n k mk \<lparr>i_e = x, i_v = VUndefined, i_env = VTrie (g_top_env G), i_k = Done_K, i_in_proc = ip,
      i_meta_k = (k, VUndefined) # mk, i_mem = mem\<rparr> (ev (VUndefined # map snd mk) (VTrie (g_top_env G)) x mem)" for x
    by (rule prompt_returns, rule followsD [OF assms(1)]) simp
  then show ?thesis using VKernelEval assms(3)
    by (auto simp: apply_loop.simps [of G VKernelEval] eval_call_def fail_arity_eq apply_kernel_eval_def intro!: step_as_rbind)
next
  case (VClosure lam cenv)
  then show ?thesis using assms(3)
    by (auto simp: apply_loop.simps [of G "VClosure lam cenv"] eval_call_def apply_closure_eq split_def
        intro!: step_as_rbind followsD [OF assms(1)])
next
  case (VPrimitive p am name)
  have "g_call G p \<lparr>ctx_meta_k = mk, ctx_top_env = g_top_env G\<rparr> args mem =
      g_call G p \<lparr>ctx_meta_k = map (Pair Done_K) (map snd mk), ctx_top_env = g_top_env G\<rparr> args mem"
    by (rule call_tags) (simp add: comp_def)
  then show ?thesis using VPrimitive assms(3)
    by (auto simp: apply_loop.simps [of G "VPrimitive p am name"] eval_call_def apply_primitive_def fail_arity_eq
        eval_value_def runs_as_value split_def intro!: step_as_rbind)
next
  case (VCont k)
  then show ?thesis using assms(3) by (auto simp: apply_loop.simps [of G "VCont k"] eval_call_def fail_arity_eq)
qed (use apply_loop.simps [of G f args cnt st] assms(2,3) in \<open>auto simp: eval_call_def fail_arity_eq\<close>)

lemma eval_apply_follows:
  assumes "follows n ev"
    and "st = \<lparr>i_e = e, i_v = v, i_env = env, i_k = k, i_in_proc = ip, i_meta_k = mk, i_mem = mem\<rparr>"
  shows "step_as G n k mk (apply_loop G rator args cnt st) (eval_apply G ev (map snd mk) rator args cnt mem)"
proof (cases "flatten_apply mem rator args cnt")
  case (Inl x)
  then show ?thesis using flatten_apply_loop [of G rator args cnt st] assms(2) by (simp add: eval_apply_def)
next
  case (Inr r)
  obtain f args' cnt' where r: "r = (f, args', cnt')" by (cases r)
  have eq: "apply_loop G rator args cnt st = apply_loop G f args' cnt' st" and f: "f \<noteq> VApply"
    using flatten_apply_loop [of G rator args cnt st] assms(2) Inr r by simp_all
  have prompt: "step_as G n k mk (apply_loop G g VNull 0 (st\<lparr>i_meta_k := (k, tag) # mk, i_k := Done_K\<rparr>))
      (eval_call G ev (tag # map snd mk) g VNull 0 mem)" for g tag
  proof -
    let ?st = "st\<lparr>i_meta_k := (k, tag) # mk, i_k := Done_K\<rparr>"
    have "step_as G n Done_K ((k, tag) # mk) (apply_loop G g VNull 0 ?st)
        (eval_call G ev (map snd ((k, tag) # mk)) g VNull 0 mem)"
      by (rule eval_call_follows [OF assms(1)]) (auto simp: apply_loop.simps assms(2))
    then show ?thesis by (cases "apply_loop G g VNull 0 ?st") (auto dest: prompt_returns)
  qed
  show ?thesis
  proof (cases "f = VCallCC \<and> cnt' = 1 \<or> f = VCallPrompt \<and> cnt' = 2")
    case True
    then show ?thesis unfolding eq using Inr r prompt assms(2)
      by (auto simp: eval_apply_def apply_loop.simps [of G VCallPrompt] intro!: step_as_rbind)
  next
    case False
    have "step_as G n k mk (apply_loop G f args' cnt' st) (eval_call G ev (map snd mk) f args' cnt' mem)"
      by (rule eval_call_follows [OF assms(1) _ assms(2)]) (use False f in \<open>auto simp: apply_loop.simps\<close>)
    then show ?thesis unfolding eq using Inr r False by (auto simp: eval_apply_def)
  qed
qed

text \<open>The frames of the machine, one for each kind of continuation.\<close>

lemma value_step:
  assumes "v \<noteq> VUndefined"
  shows "kernel_step G \<lparr>i_e = e, i_v = v, i_env = env', i_k = Cont tag data env ip k, i_in_proc = ip', i_meta_k = mk, i_mem = mem\<rparr> =
    rbind (continue_step G \<lparr>i_e = e, i_v = v, i_env = env', i_k = Cont tag data env ip k, i_in_proc = ip', i_meta_k = mk, i_mem = mem\<rparr>)
      (\<lambda>st. Inr (Running st))"
  using assms by (simp add: kernel_step_def)

lemma frame_follows:
  assumes "follows n ev"
    and "\<And>v mem e env' ip'. v \<noteq> VUndefined \<Longrightarrow> step_as G n k mk
      (continue_step G \<lparr>i_e = e, i_v = v, i_env = env', i_k = Cont tag data env ip k, i_in_proc = ip', i_meta_k = mk, i_mem = mem\<rparr>)
      (f (v, mem))"
  shows "runs_as G n k mk
      \<lparr>i_e = e1, i_v = VUndefined, i_env = env1, i_k = Cont tag data env ip k, i_in_proc = ip1, i_meta_k = mk, i_mem = mem1\<rparr>
      (obind (ev (map snd mk) env1 e1 mem1) f)"
  by (rule runs_as_obind [OF followsD [OF assms(1) refl]], rule runs_as_step_same [OF value_step]) (use assms(2) in auto)

lemma eval_seq_follows:
  assumes "follows n ev"
  shows "step_as G n k mk (continue_begin d env \<lparr>i_e = e, i_v = v, i_env = env', i_k = k, i_in_proc = ip, i_meta_k = mk, i_mem = mem\<rparr>)
    (eval_seq ev (map snd mk) env d mem)"
  using assms
proof (induction ev "map snd mk" env d mem arbitrary: e v env' ip rule: eval_seq.induct)
  case (1 ev env e1 es mem)
  then show ?case
    by (auto simp: continue_begin_def push_k_def continue_step_def intro!: followsD frame_follows)
qed (auto simp: continue_begin_def ucdr_def)

lemma eval_last_follows:
  assumes "follows n ev"
  shows "step_as G n k mk (continue_apply G (VPair (zlist (rev vals)) VNull) env
      \<lparr>i_e = e, i_v = v, i_env = env', i_k = k, i_in_proc = ip, i_meta_k = mk, i_mem = mem\<rparr>)
    (eval_args G ev (map snd mk) env VNull (vals @ [v]) mem)"
proof -
  obtain f args where vals: "vals @ [v] = f # args" by (cases "vals @ [v]") auto
  have "rev args @ [f] = v # rev vals" using arg_cong [OF vals, of rev] by simp
  then have "collect_args (VPair v (zlist (rev vals))) VNull 0 = Inr (f, zlist args, length args)"
    using collect_args_reversed [of args f VNull 0] by (simp only: zlist.simps zlist_onto_null add_0)
  then show ?thesis using vals
    by (auto simp: continue_apply_def simp del: collect_args.simps intro: eval_apply_follows [OF assms])
qed

lemma eval_args_follows:
  assumes "follows n ev"
  shows "step_as G n k mk (continue_apply G (VPair (zlist (rev vals)) d) env
      \<lparr>i_e = e, i_v = v, i_env = env', i_k = k, i_in_proc = ip, i_meta_k = mk, i_mem = mem\<rparr>)
    (eval_args G ev (map snd mk) env d (vals @ [v]) mem)"
proof (induction d arbitrary: e vals v env' ip mem rule: zelems.induct)
  case (1 e1 es)
  have "step_as G n k mk (continue_apply G (VPair (VPair v (zlist (rev vals))) es) env
      \<lparr>i_e = e', i_v = v', i_env = env'', i_k = k, i_in_proc = ip, i_meta_k = mk, i_mem = mem'\<rparr>)
    (eval_args G ev (map snd mk) env es (vals @ [v, v']) mem')" for e' v' env'' mem'
    using 1 [of "vals @ [v]"] by simp
  then show ?case
    by (auto simp: continue_apply_more continue_step_def intro!: frame_follows assms)
qed (rule eval_last_follows [OF assms] | simp add: continue_apply_def ucar_def)+

lemma eval_form_follows:
  assumes "follows n ev"
  shows "step_as G n k mk (interp_pair (g_forms G) rator d
      \<lparr>i_e = VPair rator d, i_v = VUndefined, i_env = env, i_k = k, i_in_proc = ip, i_meta_k = mk, i_mem = mem\<rparr>)
    (eval_form G ev (map snd mk) env rator d mem)"
proof -
  let ?st = "\<lparr>i_e = VPair rator d, i_v = VUndefined, i_env = env, i_k = k, i_in_proc = ip, i_meta_k = mk, i_mem = mem\<rparr>"
  note D = interp_pair_def eval_form_def push_k_def continue_step_def Let_def
  consider (quote) "rator = VSymbol (f_quote (g_forms G))"
    | (if_form) "rator = VSymbol (f_if (g_forms G))" "rator \<noteq> VSymbol (f_quote (g_forms G))"
    | (lambda) "rator = VSymbol (f_lambda (g_forms G))" "rator \<noteq> VSymbol (f_quote (g_forms G))"
        "rator \<noteq> VSymbol (f_if (g_forms G))"
    | (let_form) "rator = VSymbol (f_let (g_forms G))" "rator \<noteq> VSymbol (f_quote (g_forms G))"
        "rator \<noteq> VSymbol (f_if (g_forms G))" "rator \<noteq> VSymbol (f_lambda (g_forms G))"
    | (begin_form) "rator = VSymbol (f_begin (g_forms G))" "rator \<noteq> VSymbol (f_quote (g_forms G))"
        "rator \<noteq> VSymbol (f_if (g_forms G))" "rator \<noteq> VSymbol (f_lambda (g_forms G))" "rator \<noteq> VSymbol (f_let (g_forms G))"
    | (app) "rator \<notin> VSymbol ` {f_quote (g_forms G), f_if (g_forms G), f_lambda (g_forms G), f_let (g_forms G), f_begin (g_forms G)}"
    by blast
  then show ?thesis
  proof cases
    case quote
    then show ?thesis by (auto simp: D eval_value_def runs_as_value intro!: step_as_rbind)
  next
    case if_form
    then show ?thesis
      by (auto simp: D continue_if_def intro!: step_as_rbind frame_follows followsD assms)
  next
    case lambda
    then show ?thesis by (auto simp: D runs_as_value)
  next
    case let_form
    then show ?thesis
      by (auto simp: D continue_let_def intro!: step_as_rbind frame_follows followsD assms)
  next
    case begin_form
    have eq: "interp_pair (g_forms G) rator d ?st = continue_begin d env ?st"
      using begin_form by (auto simp: D continue_begin_def intro!: rbind_cong)
    show ?thesis unfolding eq using eval_seq_follows [OF assms, of k mk d env] begin_form by (simp add: eval_form_def Let_def)
  next
    case app
    have "step_as G n k mk (continue_apply G (VPair VNull d) env
        \<lparr>i_e = e, i_v = v, i_env = env', i_k = k, i_in_proc = ip, i_meta_k = mk, i_mem = mem'\<rparr>)
        (eval_args G ev (map snd mk) env d [v] mem')" for e v env' mem'
      using eval_args_follows [OF assms, of k mk "[]" d env e v env' ip mem'] by simp
    then show ?thesis using app by (auto simp: D intro!: frame_follows assms)
  qed
qed

lemma zuo_eval_follows: "follows n (zuo_eval n G)"
proof (induction n)
  case 0
  show ?case by (simp add: follows_def)
next
  case (Suc n)
  show ?case unfolding follows_def
  proof (intro allI)
    fix env e k ip mk mem
    let ?st = "\<lparr>i_e = e, i_v = VUndefined, i_env = env, i_k = k, i_in_proc = ip, i_meta_k = mk, i_mem = mem\<rparr>"
    have "step_as G n k mk (interp_step G ?st) (zuo_eval (Suc n) G (map snd mk) env e mem)"
    proof (cases e)
      case (VSymbol s)
      then show ?thesis by (auto simp: interp_step_def runs_as_value intro!: step_as_rbind)
    next
      case (VPair rator d)
      then show ?thesis using eval_form_follows [OF Suc, of k mk rator d env ip mem] by (simp add: interp_step_def)
    qed (auto simp: interp_step_def eval_value_def runs_as_value)
    then show "runs_as G (Suc n) k mk ?st (zuo_eval (Suc n) G (map snd mk) env e mem)"
      by (rule runs_as_step [rotated]) (simp add: kernel_step_def)
  qed
qed

lemma kernel_run_eval:
  "case zuo_eval n G [] (VTrie (g_top_env G)) e mem of
     Done r \<Rightarrow> \<exists>m. kernel_run G m (kernel_start G e in_proc mem) = Some (Inr r)
   | Failed x \<Rightarrow> \<exists>m. kernel_run G m (kernel_start G e in_proc mem) = Some (Inl x)
   | Out_Of_Fuel \<Rightarrow> kernel_run G n (kernel_start G e in_proc mem) = None
   | Outside \<Rightarrow> True"
proof -
  let ?st = "kernel_start G e in_proc mem"
  have runs: "runs_as G n Done_K [] ?st (zuo_eval n G [] (VTrie (g_top_env G)) e mem)"
    unfolding kernel_start_def by (rule followsD [OF zuo_eval_follows]) simp
  have "\<exists>m. kernel_run G m ?st = Some (Inr (v, mem'))"
    if v: "v \<noteq> VUndefined" and a: "arrives G ?st \<lparr>i_e = e', i_v = v, i_env = env', i_k = Done_K, i_in_proc = ip', i_meta_k = [], i_mem = mem'\<rparr>"
    for v mem' e' env' ip'
  proof -
    obtain j where "kernel_run G (j + 1) ?st =
        kernel_run G 1 \<lparr>i_e = e', i_v = v, i_env = env', i_k = Done_K, i_in_proc = ip', i_meta_k = [], i_mem = mem'\<rparr>"
      using a unfolding arrives_def by blast
    also have "\<dots> = Some (Inr (v, mem'))" using v by (simp add: kernel_step_def)
    finally show ?thesis ..
  qed
  then show ?thesis using runs by (auto simp: runs_as_def split: outcome.splits)
qed

end

section \<open>The interpreter after start-up\<close>

text \<open>
  The operating system's primitives do not look at the stack of prompts at all.
\<close>

definition tags_only :: "prim_impl \<Rightarrow> bool" where
  "tags_only call \<longleftrightarrow> (\<forall>p mk mk' env args mem. map snd mk = map snd mk' \<longrightarrow>
     call p \<lparr>ctx_meta_k = mk, ctx_top_env = env\<rparr> args mem = call p \<lparr>ctx_meta_k = mk', ctx_top_env = env\<rparr> args mem)"

lemma prompt_avail_tags:
  "map snd mk = map snd mk' \<Longrightarrow> zuo_prompt_avail_p mk tag = zuo_prompt_avail_p mk' tag"
  by (auto simp: zuo_prompt_avail_p_def intro!: rbind_cong split: list.splits)

lemma table_tags:
  assumes "tags_only os" "map snd mk = map snd mk'"
  shows "list_all (\<lambda>e. pe_body e \<lparr>ctx_meta_k = mk, ctx_top_env = env\<rparr> args mem =
    pe_body e \<lparr>ctx_meta_k = mk', ctx_top_env = env\<rparr> args mem) (prim_table same os)"
proof -
  have "os p \<lparr>ctx_meta_k = mk, ctx_top_env = env\<rparr> args mem = os p \<lparr>ctx_meta_k = mk', ctx_top_env = env\<rparr> args mem" for p
    using assms unfolding tags_only_def by blast
  then show ?thesis
    unfolding prim_table_def
    by (simp only: list.pred_inject prim_entry.select_convs prim_ctx.select_convs simp_thms os_primitive_def zuo_primitive0_def zuo_primitive1_def zuo_primitive2_def zuo_primitive3_def
        zuo_primitivea_def zuo_primitiveb_def zuo_primitivec_def zuo_primitiveC_def zuo_primitiveN_def
        prompt_avail_tags [OF assms(2)])
qed

lemma prim_call_tags:
  assumes "tags_only os"
  shows "tags_only (prim_call (prim_table same os))"
proof -
  have "body \<lparr>ctx_meta_k = mk, ctx_top_env = env\<rparr> args mem = body \<lparr>ctx_meta_k = mk', ctx_top_env = env\<rparr> args mem"
    if m: "map snd mk = map snd mk'" and
      p: "map_of (map (\<lambda>e. (pe_name e, pe_body e)) (prim_table same os)) p = Some body" for mk mk' env args mem p body
    using table_tags [OF assms m, of env args mem same] map_of_SomeD [OF p] by (auto simp: list_all_iff)
  then show ?thesis by (auto simp: tags_only_def prim_call_def split: option.split)
qed

lemma zuo_init_direct:
  assumes "tags_only os"
  shows "direct_machine (fst (zuo_init same os))"
proof
  fix mk mk' :: "(cont \<times> zval) list" and p args mem
  let ?G = "fst (zuo_init same os)"
  assume m: "map snd mk = map snd mk'"
  have "g_call ?G = prim_call (prim_table same os)"
    using zuo_init_ok(4) [of same os ?G "snd (zuo_init same os)"] by simp
  then show "g_call ?G p \<lparr>ctx_meta_k = mk, ctx_top_env = g_top_env ?G\<rparr> args mem =
      g_call ?G p \<lparr>ctx_meta_k = mk', ctx_top_env = g_top_env ?G\<rparr> args mem"
    using prim_call_tags [OF assms, of same] m unfolding tags_only_def by metis
qed

lemma os_unavailable_tags: "tags_only os_unavailable"
  by (simp add: tags_only_def os_unavailable_def)

interpretation offline_machine: direct_machine "fst (zuo_init (=) os_unavailable)"
  by (rule zuo_init_direct [OF os_unavailable_tags])

text \<open>
  C3: evaluation gets done. From the state after start-up, the machine returns, after enough rounds,
  the value or the failure that the recursive evaluator finds for a well-formed expression at any
  depth, and where the evaluator needs a greater depth, the machine is still running after that many rounds.
  So the machine returns exactly if the evaluator does, unless a continuation is captured.
\<close>

theorem kernel_eval_completes:
  assumes "zuo_init same os = (G, mem0)" "tags_only os" "check_syntax (g_forms G) e = Inr ()"
  shows "case zuo_eval n G [] (VTrie (g_top_env G)) e mem of
     Done r \<Rightarrow> \<exists>m. zuo_kernel_eval G m e in_proc mem = Some (Inr r)
   | Failed x \<Rightarrow> \<exists>m. zuo_kernel_eval G m e in_proc mem = Some (Inl x)
   | Out_Of_Fuel \<Rightarrow> zuo_kernel_eval G n e in_proc mem = None
   | Outside \<Rightarrow> True"
proof -
  have "direct_machine G" using zuo_init_direct [OF assms(2), of same] assms(1) by simp
  then show ?thesis unfolding zuo_kernel_eval_def assms(3) sum.case by (rule direct_machine.kernel_run_eval)
qed

theorem kernel_eval_completes_witness:
  "case zuo_init (=) os_unavailable of (G, mem) \<Rightarrow>
     \<exists>m. zuo_kernel_eval G m
       (zlist [zlist [VSymbol (f_lambda (g_forms G)), zlist [VSymbol (Symbol 1000 ''x'')],
          zlist [VSymbol (f_if (g_forms G)), VSymbol (Symbol 1000 ''x''), VInteger 1, VInteger 2]], VInteger 5]) VFalse mem =
       Some (Inr (VInteger 1, mem))"
proof -
  obtain G mem where i: "zuo_init (=) os_unavailable = (G, mem)" by fastforce
  let ?F = "g_forms G"
  let ?e = "zlist [zlist [VSymbol (f_lambda ?F), zlist [VSymbol (Symbol 1000 ''x'')],
    zlist [VSymbol (f_if ?F), VSymbol (Symbol 1000 ''x''), VInteger 1, VInteger 2]], VInteger 5]"
  have d: "forms_distinct ?F" by (rule zuo_init_ok(1) [OF i])
  have "check_syntax ?F ?e = Inr ()"
    using d by (auto simp: check_syntax_def syntax_subs_def form_subs_def lambda_subs_def formals_ok_def forms_distinct_def)
  note T = kernel_eval_completes [OF i os_unavailable_tags this, where n = 4 and mem = mem and in_proc = VFalse]
  have "zuo_eval 4 G [] (VTrie (g_top_env G)) ?e mem = Done (VInteger 1, mem)"
    using d by (auto simp: numeral_eq_Suc eval_form_def Let_def eval_value_def eval_apply_def eval_call_def closure_entry_def
        flatten_apply.simps [of _ "VClosure x y" for x y] env_extend_def forms_distinct_def)
  with T show ?thesis by (simp add: i)
qed

end
