(* ===== verification/Zuo_Streams.thy ===== *)
theory Zuo_Streams
  imports Zuo_Path
begin

text \<open>
  Streams and file descriptors of \<^verbatim>\<open>zuo.c\<close> in the Unix configuration: reading and writing with
  partial transfers (\<^verbatim>\<open>zuo_drain\<close>, \<^verbatim>\<open>zuo_fill\<close>), opening, closing, and the handles with their
  status. The system calls are functions on a world whose type is a parameter; an answer interrupted by
  a signal is repeated by \<^verbatim>\<open>EINTR_RETRY\<close> and not seen here. A read or a write need not end, so both
  loops take a number of rounds. Lengths are unbounded numbers, as no string has \<^term>\<open>2 ^ 63 :: nat\<close> bytes.
\<close>

unbundle bit_operations_syntax

section \<open>System calls\<close>

datatype read_answer = Got string | Again | Read_Error

record 'w sys =
  sys_open :: "string \<Rightarrow> int \<Rightarrow> 'w \<Rightarrow> int \<times> 'w"
  sys_close :: "int \<Rightarrow> 'w \<Rightarrow> 'w"
  sys_read :: "int \<Rightarrow> nat \<Rightarrow> 'w \<Rightarrow> read_answer \<times> 'w"
  sys_write :: "int \<Rightarrow> string \<Rightarrow> 'w \<Rightarrow> int \<times> 'w"
  sys_getfl :: "int \<Rightarrow> 'w \<Rightarrow> int \<times> 'w"
  sys_setfl :: "int \<Rightarrow> int \<Rightarrow> 'w \<Rightarrow> int \<times> 'w"

text \<open>The flags of \<^verbatim>\<open>fcntl.h\<close>, as on Linux.\<close>

definition O_RDONLY :: int where "O_RDONLY = 0"
definition O_WRONLY :: int where "O_WRONLY = 1"
definition O_CREAT :: int where "O_CREAT = 64"
definition O_EXCL :: int where "O_EXCL = 128"
definition O_TRUNC :: int where "O_TRUNC = 512"
definition O_APPEND :: int where "O_APPEND = 1024"
definition O_NONBLOCK :: int where "O_NONBLOCK = 2048"

section \<open>Reading\<close>

text \<open>One read, surrounded by the change of the descriptor's flags when it must not block.\<close>

definition drain_read :: "'w sys \<Rightarrow> int \<Rightarrow> bool \<Rightarrow> nat \<Rightarrow> 'w \<Rightarrow> (read_answer \<times> 'w) res" where
  "drain_read sys fd nonblock amt w =
     rbind (if nonblock then
              (case sys_getfl sys fd w of (old_fl, w) \<Rightarrow>
                 if old_fl = -1 then Inl (Fail ''failed to access flags of file descriptor'')
                 else case sys_setfl sys fd (old_fl OR O_NONBLOCK) w of (r, w) \<Rightarrow>
                   if r = -1 then Inl (Fail ''failed to set file descriptor as nonblocking'') else Inr (old_fl, w))
            else Inr (0, w)) (\<lambda>(old_fl, w).
     case sys_read sys fd amt w of (answer, w) \<Rightarrow>
       if nonblock then
         (case sys_setfl sys fd old_fl w of (r, w) \<Rightarrow>
            if r = -1 then Inl (Fail ''failed to restore flags of file descriptor'') else Inr (answer, w))
       else Inr (answer, w))"

text \<open>
  Bytes arrive in the buffer, a fresh string of \<open>sz\<close> bytes; a full buffer is replaced by one of
  twice the size, but not beyond the amount asked for.
\<close>

definition drain_store :: "char \<Rightarrow> int \<Rightarrow> nat \<Rightarrow> nat \<Rightarrow> string \<Rightarrow> string \<Rightarrow> (nat \<times> nat \<times> string) res" where
  "drain_store junk amount sz offset s bs =
     (let fin = offset + length bs in
      if fin > length s then Inl (UB ''read'')
      else
        let s = take offset s @ bs @ drop fin s in
        if fin = sz then
          (let new_sz = (if amount \<ge> 0 \<and> int (sz * 2) > amount then nat amount else sz * 2) in
           if new_sz < sz then Inl (UB ''memcpy'')
           else Inr (new_sz, fin, take sz s @ replicate (new_sz - sz) junk))
        else Inr (sz, fin, s))"

fun drain_loop ::
  "'w sys \<Rightarrow> char \<Rightarrow> int \<Rightarrow> bool \<Rightarrow> nat \<Rightarrow> int \<Rightarrow> nat \<Rightarrow> nat \<Rightarrow> string \<Rightarrow> 'w \<Rightarrow> (int \<times> nat \<times> string \<times> 'w) res option" where
  "drain_loop sys junk fd nonblock 0 amount sz offset s w = None"
| "drain_loop sys junk fd nonblock (Suc n) amount sz offset s w =
     (if amount < 0 \<or> int offset < amount then
        (case drain_read sys fd nonblock (min (sz - offset) 4096) w of
           Inl e \<Rightarrow> Some (Inl e)
         | Inr (Read_Error, w) \<Rightarrow> Some (Inl (Fail ''error reading stream''))
         | Inr (Again, w) \<Rightarrow> Some (Inr (if offset = 0 then 0 else amount, offset, s, w))
         | Inr (Got bs, w) \<Rightarrow>
             if bs = [] then Some (Inr (amount, offset, s, w))
             else (case drain_store junk amount sz offset s bs of
                     Inl e \<Rightarrow> Some (Inl e)
                   | Inr (sz, offset, s) \<Rightarrow> drain_loop sys junk fd nonblock n amount sz offset s w))
      else Some (Inr (amount, offset, s, w)))"

text \<open>The amount -1 asks for everything up to the end of the file, -2 for what is available.\<close>

definition zuo_drain :: "'w sys \<Rightarrow> char \<Rightarrow> nat \<Rightarrow> int \<Rightarrow> int \<Rightarrow> 'w \<Rightarrow> (zval \<times> 'w) res option" where
  "zuo_drain sys junk n fd amount w =
     (let sz = (if amount \<ge> 0 \<and> 256 > amount then nat amount else 256) in
      case drain_loop sys junk fd (amount = -2) n amount sz 0 (replicate sz junk) w of
        None \<Rightarrow> None
      | Some (Inl e) \<Rightarrow> Some (Inl e)
      | Some (Inr (amount, offset, s, w)) \<Rightarrow>
          Some (Inr (if offset = 0 \<and> (amount > 0 \<or> amount = -2) then VEof else VString (take offset s), w)))"

section \<open>Writing\<close>

fun fill_loop :: "'w sys \<Rightarrow> nat \<Rightarrow> string \<Rightarrow> int \<Rightarrow> nat \<Rightarrow> 'w \<Rightarrow> 'w res option" where
  "fill_loop sys 0 s fd fin w = None"
| "fill_loop sys (Suc n) s fd fin w =
     (if fin < length s then
        (case sys_write sys fd (take (min (length s - fin) 4096) (drop fin s)) w of
           (did, w) \<Rightarrow> if did < 0 then Some (Inl (Fail ''error writing to stream''))
                     else fill_loop sys n s fd (fin + nat did) w)
      else Some (Inr w))"

definition zuo_fill :: "'w sys \<Rightarrow> nat \<Rightarrow> string \<Rightarrow> int \<Rightarrow> 'w \<Rightarrow> 'w res option" where
  "zuo_fill sys n s fd w = fill_loop sys n s fd 0 w"

section \<open>Handles\<close>

datatype handle_status =
    Open_Fd_In | Open_Fd_Out | Closed | Process_Running | Process_Done | Cleanable

record handle =
  h_raw :: int
  h_status :: handle_status

text \<open>
  A handle's id is its position in the list of handles made so far. The table of descriptors maps a descriptor
  to the handle made for it and whether it is the end of a pipe; it is a trie in the code,
  which \<open>trie_refines_map\<close> shows to be a map.
\<close>

record 'w zio =
  io_mem :: zmem
  io_handles :: "handle list"
  io_fds :: "int \<rightharpoonup> zval \<times> bool"
  io_world :: 'w

definition zuo_handle :: "int \<Rightarrow> handle_status \<Rightarrow> 'w zio \<Rightarrow> zval \<times> 'w zio" where
  "zuo_handle raw status st =
     (VHandle (int (length (io_handles st))), st\<lparr>io_handles := io_handles st @ [\<lparr>h_raw = raw, h_status = status\<rparr>]\<rparr>)"

definition zuo_fd_handle :: "int \<Rightarrow> handle_status \<Rightarrow> bool \<Rightarrow> 'w zio \<Rightarrow> zval \<times> 'w zio" where
  "zuo_fd_handle raw status is_pipe st =
     (case zuo_handle raw status st of (h, st) \<Rightarrow> (h, st\<lparr>io_fds := (io_fds st)(raw \<mapsto> (h, is_pipe))\<rparr>))"

definition handle_of :: "zval \<Rightarrow> 'w zio \<Rightarrow> handle option" where
  "handle_of v st =
     (case v of
        VHandle i \<Rightarrow> if 0 \<le> i \<and> nat i < length (io_handles st) then Some (io_handles st ! nat i) else None
      | _ \<Rightarrow> None)"

definition set_status :: "zval \<Rightarrow> handle_status \<Rightarrow> 'w zio \<Rightarrow> 'w zio" where
  "set_status v status st =
     (case v of
        VHandle i \<Rightarrow> st\<lparr>io_handles := (io_handles st)[nat i := (io_handles st ! nat i)\<lparr>h_status := status\<rparr>]\<rparr>
      | _ \<Rightarrow> st)"

definition zuo_is_input_output_fd :: "zval \<Rightarrow> 'w zio \<Rightarrow> bool" where
  "zuo_is_input_output_fd fd_h st =
     (case handle_of fd_h st of
        Some h \<Rightarrow> h_status h = Open_Fd_Out \<or> h_status h = Open_Fd_In
      | None \<Rightarrow> False)"

definition zuo_check_input_output_fd :: "string \<Rightarrow> zval \<Rightarrow> 'w zio \<Rightarrow> handle res" where
  "zuo_check_input_output_fd who fd_h st =
     (if zuo_is_input_output_fd fd_h st then Inr (the (handle_of fd_h st))
      else Inl (Fail_Arg who ''open input or output file descriptor'' fd_h))"

section \<open>Options\<close>

definition io_symbol :: "string \<Rightarrow> 'w zio \<Rightarrow> symbol \<times> 'w zio" where
  "io_symbol name st =
     (case zuo_symbol name (mem_symtab (io_mem st)) of (s, tab) \<Rightarrow> (s, st\<lparr>io_mem := (io_mem st)\<lparr>mem_symtab := tab\<rparr>\<rparr>))"

definition zuo_consume_option :: "zval trie \<Rightarrow> string \<Rightarrow> 'w zio \<Rightarrow> zval \<times> zval trie \<times> 'w zio" where
  "zuo_consume_option options name st =
     (case io_symbol name st of (s, st) \<Rightarrow>
        (case zuo_trie_lookup options s of
           None \<Rightarrow> (VUndefined, options, st)
         | Some opt \<Rightarrow> (opt, zuo_trie_remove options s, st)))"

definition check_options_consumed :: "string \<Rightarrow> zval trie \<Rightarrow> unit res" where
  "check_options_consumed who options =
     (if trie_count options > 0 then
        rbind (zuo_hash_keys (VTrie options)) (\<lambda>keys. rbind (ucar keys) (\<lambda>key.
          Inl (Fail1w who ''unrecognized or unused option'' key)))
      else Inr ())"

definition or_empty :: "zval \<Rightarrow> zval" where
  "or_empty options = (if options = VUndefined then VTrie zuo_trie_node else options)"

section \<open>Opening and closing\<close>

definition zuo_close :: "'w sys \<Rightarrow> int \<Rightarrow> 'w zio \<Rightarrow> 'w zio" where
  "zuo_close sys raw st = st\<lparr>io_world := sys_close sys raw (io_world st), io_fds := (io_fds st)(raw := None)\<rparr>"

definition zuo_fd_open_input_handle :: "'w sys \<Rightarrow> zval \<Rightarrow> zval \<Rightarrow> 'w zio \<Rightarrow> (int \<times> 'w zio) res" where
  "zuo_fd_open_input_handle sys path options st =
     (let who = ''fd-open-input''; options = or_empty options;
          checked = (\<lambda>r. rbind (check_hash who options) (\<lambda>t. rbind (check_options_consumed who t) (\<lambda>_. r))) in
      if zuo_is_path_string path then
        checked (rbind (check_string who path) (\<lambda>p.
          case sys_open sys p O_RDONLY (io_world st) of (fd, w) \<Rightarrow>
            if fd = -1 then Inl (Fail1w who ''file open failed'' path) else Inr (fd, st\<lparr>io_world := w\<rparr>)))
      else case io_symbol ''stdin'' st of (stdin, st) \<Rightarrow>
        if path = VSymbol stdin then checked (Inr (0, st))
        else case path of
          VInteger i \<Rightarrow>
            if sint i < 0 then Inl (Fail_Arg who ''path string, 'stdin, or nonnegative integer'' path)
            else checked (Inr (sint (ucast i :: 32 word), st))
        | _ \<Rightarrow> Inl (Fail_Arg who ''path string, 'stdin, or nonnegative integer'' path))"

definition zuo_fd_open_input :: "'w sys \<Rightarrow> zval \<Rightarrow> zval \<Rightarrow> 'w zio \<Rightarrow> (zval \<times> 'w zio) res" where
  "zuo_fd_open_input sys path options st =
     rbind (zuo_fd_open_input_handle sys path options st) (\<lambda>(fd, st). Inr (zuo_handle fd Open_Fd_In st))"

text \<open>The flags for each value of the option \<open>exists\<close>, in the order of the tests.\<close>

definition exists_modes :: "(string \<times> int) list" where
  "exists_modes =
     [(''error'', O_CREAT OR O_EXCL), (''truncate'', O_CREAT OR O_TRUNC), (''must-truncate'', O_TRUNC),
      (''append'', O_CREAT OR O_APPEND), (''update'', 0), (''can-update'', O_CREAT)]"

fun exists_mode :: "(string \<times> int) list \<Rightarrow> zval \<Rightarrow> 'w zio \<Rightarrow> (int \<times> 'w zio) res" where
  "exists_mode [] v st = Inl (Fail1w ''fd-open-output'' ''invalid exists mode'' v)"
| "exists_mode ((name, mode) # modes) v st =
     (case io_symbol name st of (s, st) \<Rightarrow> if v = VSymbol s then Inr (mode, st) else exists_mode modes v st)"

definition zuo_fd_open_output :: "'w sys \<Rightarrow> zval \<Rightarrow> zval \<Rightarrow> 'w zio \<Rightarrow> (zval \<times> 'w zio) res" where
  "zuo_fd_open_output sys path options st =
     (let who = ''fd-open-output''; options = or_empty options;
          checked = (\<lambda>r. rbind (check_hash who options) (\<lambda>t. rbind (check_options_consumed who t) (\<lambda>_. r))) in
      if zuo_is_path_string path then
        rbind (check_hash who options) (\<lambda>t.
        case zuo_consume_option t ''exists'' st of (v, t, st) \<Rightarrow>
        rbind (check_options_consumed who t) (\<lambda>_.
        rbind (if v = VUndefined then Inr (O_CREAT OR O_EXCL, st) else exists_mode exists_modes v st) (\<lambda>(mode, st).
        rbind (check_string who path) (\<lambda>p.
        case sys_open sys p (O_WRONLY OR mode) (io_world st) of (fd, w) \<Rightarrow>
          if fd = -1 then Inl (Fail1w who ''file open failed'' path)
          else Inr (zuo_fd_handle fd Open_Fd_Out False (st\<lparr>io_world := w\<rparr>))))))
      else case io_symbol ''stdout'' st of (stdout, st) \<Rightarrow>
        if path = VSymbol stdout then checked (Inr (zuo_handle 1 Open_Fd_Out st))
        else case io_symbol ''stderr'' st of (stderr, st) \<Rightarrow>
          if path = VSymbol stderr then checked (Inr (zuo_handle 2 Open_Fd_Out st))
          else case path of
            VInteger i \<Rightarrow>
              if sint i < 0 then Inl (Fail_Arg who ''path string, 'stdout, 'stderr, or nonnegative integer'' path)
              else checked (Inr (zuo_handle (sint (ucast i :: 32 word)) Open_Fd_Out st))
          | _ \<Rightarrow> Inl (Fail_Arg who ''path string, 'stdout, 'stderr, or nonnegative integer'' path))"

definition zuo_fd_close :: "'w sys \<Rightarrow> zval \<Rightarrow> 'w zio \<Rightarrow> (zval \<times> 'w zio) res" where
  "zuo_fd_close sys fd_h st =
     rbind (zuo_check_input_output_fd ''fd-close'' fd_h st) (\<lambda>h.
       Inr (VVoid, set_status fd_h Closed (zuo_close sys (h_raw h) st)))"

definition zuo_fd_valid_p :: "'w sys \<Rightarrow> zval \<Rightarrow> 'w zio \<Rightarrow> (zval \<times> 'w zio) res" where
  "zuo_fd_valid_p sys fd_h st =
     rbind (zuo_check_input_output_fd ''fd-valid?'' fd_h st) (\<lambda>h.
       case sys_getfl sys (h_raw h) (io_world st) of (r, w) \<Rightarrow> Inr (zbool (r \<noteq> -1), st\<lparr>io_world := w\<rparr>))"

section \<open>Transfers\<close>

definition with_world :: "'w zio \<Rightarrow> ('a \<times> 'w) res option \<Rightarrow> ('a \<times> 'w zio) res option" where
  "with_world st r = map_option (\<lambda>r. rbind r (\<lambda>(v, w). Inr (v, st\<lparr>io_world := w\<rparr>))) r"

definition zuo_fd_write :: "'w sys \<Rightarrow> nat \<Rightarrow> zval \<Rightarrow> zval \<Rightarrow> 'w zio \<Rightarrow> (zval \<times> 'w zio) res option" where
  "zuo_fd_write sys n fd_h str st =
     (case handle_of fd_h st of
        Some h \<Rightarrow>
          if h_status h \<noteq> Open_Fd_Out then Some (Inl (Fail_Arg ''fd-write'' ''open output file descriptor'' fd_h))
          else (case check_string ''fd-write'' str of
                  Inl e \<Rightarrow> Some (Inl e)
                | Inr s \<Rightarrow> with_world st (map_option (map_sum id (Pair VVoid)) (zuo_fill sys n s (h_raw h) (io_world st))))
      | None \<Rightarrow> Some (Inl (Fail_Arg ''fd-write'' ''open output file descriptor'' fd_h)))"

definition read_amount :: "zval \<Rightarrow> 'w zio \<Rightarrow> (int \<times> 'w zio) res" where
  "read_amount amount st =
     (let bad = Inl (Fail_Arg ''fd-read'' ''nonnegative integer, eof, or 'avail'' amount) in
      case amount of
        VEof \<Rightarrow> Inr (-1, st)
      | VSymbol y \<Rightarrow> (case io_symbol ''avail'' st of (avail, st) \<Rightarrow> if y = avail then Inr (-2, st) else bad)
      | VInteger i \<Rightarrow> if sint i \<ge> 0 then Inr (sint i, st) else bad
      | _ \<Rightarrow> bad)"

definition zuo_fd_read :: "'w sys \<Rightarrow> char \<Rightarrow> nat \<Rightarrow> zval \<Rightarrow> zval \<Rightarrow> 'w zio \<Rightarrow> (zval \<times> 'w zio) res option" where
  "zuo_fd_read sys junk n fd_h amount st =
     (case handle_of fd_h st of
        Some h \<Rightarrow>
          if h_status h \<noteq> Open_Fd_In then Some (Inl (Fail_Arg ''fd-read'' ''open input file descriptor'' fd_h))
          else (case read_amount amount st of
                  Inl e \<Rightarrow> Some (Inl e)
                | Inr (amt, st) \<Rightarrow> with_world st (zuo_drain sys junk n (h_raw h) amt (io_world st)))
      | None \<Rightarrow> Some (Inl (Fail_Arg ''fd-read'' ''open input file descriptor'' fd_h)))"

section \<open>Polling\<close>

text \<open>
  The descriptors and their directions go to \<^verbatim>\<open>poll\<close>, whose answer is an argument: the number of ready
  descriptors, and for each whether it has events. The time limit becomes a 32-bit integer on the
  way. The result is the first ready one.
\<close>

fun poll_check :: "zval \<Rightarrow> 'w zio \<Rightarrow> zval list option" where
  "poll_check (VPair h l) st = (if zuo_is_input_output_fd h st then map_option (Cons h) (poll_check l st) else None)"
| "poll_check VNull st = Some []"
| "poll_check _ st = None"

definition poll_timeout :: "zval \<Rightarrow> int res" where
  "poll_timeout timeout_i =
     (if timeout_i = VUndefined \<or> timeout_i = VFalse then Inr (-1)
      else case timeout_i of
        VInteger i \<Rightarrow> if sint i \<ge> 0 then Inr (sint i) else Inl (Fail_Arg ''fd-poll'' ''nonnegative integer or #f'' timeout_i)
      | _ \<Rightarrow> Inl (Fail_Arg ''fd-poll'' ''nonnegative integer or #f'' timeout_i))"

definition poll_request :: "zval \<Rightarrow> 'w zio \<Rightarrow> int \<times> bool" where
  "poll_request fd_h st = (case handle_of fd_h st of Some h \<Rightarrow> (h_raw h, h_status h = Open_Fd_Out) | None \<Rightarrow> (-1, False))"

text \<open>The index of the first descriptor with events, -1 if there is none.\<close>

fun poll_which :: "bool list \<Rightarrow> int \<Rightarrow> int" where
  "poll_which [] i = -1"
| "poll_which (revents # fds) i = (if revents then i else poll_which fds (i + 1))"

fun poll_pick :: "zval list \<Rightarrow> int \<Rightarrow> zval" where
  "poll_pick [] which = VFalse"
| "poll_pick (h # l) which = (if which > 0 then poll_pick l (which - 1) else h)"

definition zuo_fd_poll ::
  "((int \<times> bool) list \<Rightarrow> int \<Rightarrow> 'w \<Rightarrow> (int \<times> bool list) \<times> 'w) \<Rightarrow> zval \<Rightarrow> zval \<Rightarrow> 'w zio \<Rightarrow> (zval \<times> 'w zio) res" where
  "zuo_fd_poll sys_poll fds_i timeout_i st =
     (case poll_check fds_i st of
        None \<Rightarrow> Inl (Fail_Arg ''fd-poll'' ''list of open input and output file descriptor handles'' fds_i)
      | Some hs \<Rightarrow> rbind (poll_timeout timeout_i) (\<lambda>timeout.
          case sys_poll (map (\<lambda>h. poll_request h st) hs) (sint (word_of_int timeout :: 32 word)) (io_world st) of ((ready, revents), w) \<Rightarrow>
            if ready < 0 then Inl (Fail1w ''fd-poll'' ''poll failed'' fds_i)
            else let which = (if ready > 0 then poll_which (take (length hs) revents) 0 else int (length hs))
                 in Inr (poll_pick hs which, st\<lparr>io_world := w\<rparr>)))"

end
