(* ===== verification/Zuo_Channel.thy ===== *)
theory Zuo_Channel
  imports Zuo_Streams
begin

text \<open>
  What streams promise. A channel between two descriptors delivers bytes in order but may
  transfer as few as one at a time; \<^verbatim>\<open>fd-write\<close> and \<^verbatim>\<open>fd-read\<close> hide that. Over any sequence of
  operations a handle that has been closed stays closed, and the table of descriptors names open handles.
\<close>

section \<open>Transfers over a channel\<close>

text \<open>What is still wanted: everything, or up to the amount.\<close>

definition wanted :: "int \<Rightarrow> nat \<Rightarrow> string \<Rightarrow> string" where
  "wanted amount offset cs = (if amount < 0 then cs else take (nat amount - offset) cs)"

definition buffer_ok :: "int \<Rightarrow> nat \<Rightarrow> nat \<Rightarrow> string \<Rightarrow> bool" where
  "buffer_ok amount sz offset s \<longleftrightarrow> length s = sz \<and> offset \<le> sz \<and>
     (if amount < 0 then offset < sz else int sz \<le> amount \<and> (offset < sz \<or> int offset = amount))"

lemma wanted_all: "wanted (-1) 0 cs = cs" "drop (length (wanted (-1) 0 cs)) cs = []"
  by (simp_all add: wanted_def)

lemma wanted_amount:
  "0 \<le> i \<Longrightarrow> wanted i 0 cs = take (nat i) cs" "0 \<le> i \<Longrightarrow> drop (length (wanted i 0 cs)) cs = drop (nat i) cs"
  by (simp_all add: wanted_def min_def)

lemma drain_store_ok:
  assumes "buffer_ok amount sz offset s" "bs \<noteq> []" "length bs \<le> sz - offset" "amount < 0 \<or> int offset < amount"
  shows "\<exists>sz' s'. drain_store junk amount sz offset s bs = Inr (sz', offset + length bs, s') \<and>
    buffer_ok amount sz' (offset + length bs) s' \<and> take (offset + length bs) s' = take offset s @ bs"
proof -
  have "length bs \<noteq> 0" using assms(2) by simp
  then show ?thesis using assms(1,3,4)
    by (auto simp: drain_store_def buffer_ok_def Let_def min_def split: if_splits)
qed

locale byte_channel =
  fixes sys :: "'w sys" and inp outp :: int and contents :: "'w \<Rightarrow> string"
  assumes write_some: "bs \<noteq> [] \<Longrightarrow> \<exists>k w'. sys_write sys outp bs w = (int k, w') \<and> 0 < k \<and> k \<le> length bs \<and>
      contents w' = contents w @ take k bs"
    and read_some: "0 < amt \<Longrightarrow> contents w \<noteq> [] \<Longrightarrow> \<exists>k w'. sys_read sys inp amt w = (Got (take k (contents w)), w') \<and>
      0 < k \<and> k \<le> amt \<and> k \<le> length (contents w) \<and> contents w' = drop k (contents w)"
    and read_end: "0 < amt \<Longrightarrow> contents w = [] \<Longrightarrow> \<exists>w'. sys_read sys inp amt w = (Got [], w') \<and> contents w' = []"
begin

lemma fill_loop_writes:
  "fin \<le> length s \<Longrightarrow> length s - fin < n \<Longrightarrow>
   \<exists>w'. fill_loop sys n s outp fin w = Some (Inr w') \<and> contents w' = contents w @ drop fin s"
proof (induction n arbitrary: fin w)
  case (Suc n)
  show ?case
  proof (cases "fin < length s")
    case True
    let ?bs = "take (min (length s - fin) 4096) (drop fin s)"
    obtain k w1 where k: "sys_write sys outp ?bs w = (int k, w1)" "0 < k" "k \<le> length ?bs"
      "contents w1 = contents w @ take k ?bs"
      using write_some [of ?bs w] True by auto
    then obtain w' where w': "fill_loop sys n s outp (fin + k) w1 = Some (Inr w')"
      "contents w' = contents w1 @ drop (fin + k) s"
      using Suc.IH [of "fin + k" w1] Suc.prems True by fastforce
    have "take k ?bs = take k (drop fin s)" using k(3) by (simp add: min.absorb1)
    then have "contents w' = contents w @ drop fin s"
      using w'(2) k(4) append_take_drop_id [of k "drop fin s"] by (simp add: add.commute)
    then show ?thesis using True k(1) w'(1) by simp
  qed (use Suc.prems in simp)
qed simp

lemma drain_loop_reads:
  assumes "amount \<noteq> -2"
  shows "buffer_ok amount sz offset s \<Longrightarrow> length (contents w) < n \<Longrightarrow>
    \<exists>s' w'. drain_loop sys junk inp False n amount sz offset s w =
        Some (Inr (amount, offset + length (wanted amount offset (contents w)), s', w')) \<and>
      take (offset + length (wanted amount offset (contents w))) s' = take offset s @ wanted amount offset (contents w) \<and>
      contents w' = drop (length (wanted amount offset (contents w))) (contents w)"
proof (induction n arbitrary: sz offset s w)
  case (Suc n)
  let ?amt = "min (sz - offset) 4096"
  show ?case
  proof (cases "amount < 0 \<or> int offset < amount")
    case False
    then have "wanted amount offset (contents w) = []" by (auto simp: wanted_def)
    then show ?thesis using False by simp
  next
    case more: True
    then have amt: "0 < ?amt" using Suc.prems(1) by (auto simp: buffer_ok_def split: if_splits)
    show ?thesis
    proof (cases "contents w = []")
      case True
      then obtain w' where "sys_read sys inp ?amt w = (Got [], w')" "contents w' = []" using read_end [OF amt] by blast
      then show ?thesis using True more by (auto simp: wanted_def drain_read_def)
    next
      case False
      then obtain k w1 where k: "sys_read sys inp ?amt w = (Got (take k (contents w)), w1)"
        "0 < k" "k \<le> ?amt" "k \<le> length (contents w)" "contents w1 = drop k (contents w)"
        using read_some [OF amt] by blast
      let ?bs = "take k (contents w)"
      have bs: "?bs \<noteq> []" "length ?bs = k" using k(2,4) by auto
      then obtain sz' s' where st: "drain_store junk amount sz offset s ?bs = Inr (sz', offset + k, s')"
        "buffer_ok amount sz' (offset + k) s'" "take (offset + k) s' = take offset s @ ?bs"
        using drain_store_ok [OF Suc.prems(1) bs(1) _ more, of junk] k(3) by auto
      have "length (contents w1) < n" using k(2,4,5) Suc.prems(2) by simp
      note IH = Suc.IH [OF st(2) this]
      have k_le: "0 \<le> amount \<Longrightarrow> k \<le> nat amount - offset"
        using k(3) Suc.prems(1) more by (auto simp: buffer_ok_def)
      have split: "wanted amount offset (contents w) = ?bs @ wanted amount (offset + k) (contents w1)"
      proof (cases "amount < 0")
        case False
        then obtain j where "nat amount - offset = k + j" using k_le le_Suc_ex by (metis linorder_not_less)
        then have "nat amount - offset = k + j" "nat amount - (offset + k) = j" by simp_all
        then show ?thesis using False k(5) by (auto simp: wanted_def take_add)
      qed (simp add: wanted_def k(5))
      have "drain_loop sys junk inp False (Suc n) amount sz offset s w =
          drain_loop sys junk inp False n amount sz' (offset + k) s' w1"
        using more k(1) bs(1) st(1) by (simp add: drain_read_def)
      then have eq: "drain_loop sys junk inp False (Suc n) amount sz offset s w =
          drain_loop sys junk inp False n amount sz' (offset + k) s' w1" .
      have len: "offset + length (wanted amount offset (contents w)) = offset + k + length (wanted amount (offset + k) (contents w1))"
        unfolding split using bs(2) by simp
      have rest: "drop (length (wanted amount offset (contents w))) (contents w) =
          drop (length (wanted amount (offset + k) (contents w1))) (contents w1)"
        unfolding split using bs(2) k(5) by (simp add: add.commute)
      show ?thesis unfolding eq len rest using IH unfolding split st(3) by simp
    qed
  qed
qed simp

lemma drain_reads:
  assumes "amount = -1 \<or> 0 \<le> amount" "length (contents w) < n"
  shows "\<exists>w'. zuo_drain sys junk n inp amount w =
      Some (Inr (if amount > 0 \<and> contents w = [] then VEof else VString (wanted amount 0 (contents w)), w')) \<and>
    contents w' = drop (length (wanted amount 0 (contents w))) (contents w)"
proof -
  let ?sz = "if amount \<ge> 0 \<and> 256 > amount then nat amount else 256"
  have "buffer_ok amount ?sz 0 (replicate ?sz junk)" using assms(1) by (auto simp: buffer_ok_def)
  moreover have m: "amount \<noteq> -2" using assms(1) by auto
  ultimately obtain s' w' where "drain_loop sys junk inp False n amount ?sz 0 (replicate ?sz junk) w =
        Some (Inr (amount, length (wanted amount 0 (contents w)), s', w'))"
      "take (length (wanted amount 0 (contents w))) s' = wanted amount 0 (contents w)"
      "contents w' = drop (length (wanted amount 0 (contents w))) (contents w)"
    using drain_loop_reads [OF m, of ?sz 0 "replicate ?sz junk" w n junk] assms(2) by auto
  moreover have "wanted amount 0 (contents w) = [] \<and> amount > 0 \<longleftrightarrow> amount > 0 \<and> contents w = []"
    by (auto simp: wanted_def)
  ultimately show ?thesis using m by (auto simp: zuo_drain_def)
qed

lemma fd_write_writes:
  assumes "handle_of ho st = Some \<lparr>h_raw = outp, h_status = Open_Fd_Out\<rparr>" "length s < n"
  shows "\<exists>w'. zuo_fd_write sys n ho (VString s) st = Some (Inr (VVoid, st\<lparr>io_world := w'\<rparr>)) \<and>
    contents w' = contents (io_world st) @ s"
  using fill_loop_writes [of 0 s n "io_world st"] assms
  by (auto simp: zuo_fd_write_def zuo_fill_def with_world_def)

lemma fd_read_reads:
  assumes "handle_of hi st = Some \<lparr>h_raw = inp, h_status = Open_Fd_In\<rparr>" "length (contents (io_world st)) < n"
    "read_amount amount st = Inr (amt, st)" "amt = -1 \<or> 0 \<le> amt"
  shows "\<exists>w'. zuo_fd_read sys junk n hi amount st =
      Some (Inr (if amt > 0 \<and> contents (io_world st) = [] then VEof else VString (wanted amt 0 (contents (io_world st))),
        st\<lparr>io_world := w'\<rparr>)) \<and>
    contents w' = drop (length (wanted amt 0 (contents (io_world st)))) (contents (io_world st))"
  using drain_reads [OF assms(4,2), of junk] assms(1,3) by (auto simp: zuo_fd_read_def with_world_def)

end

text \<open>
  A channel in memory whose transfers follow a schedule of sizes, at least one byte each, and are
  unlimited when the schedule is used up.
\<close>

definition transfer_size :: "nat list \<Rightarrow> nat \<Rightarrow> nat" where
  "transfer_size ks len = (case ks of [] \<Rightarrow> len | k # _ \<Rightarrow> min len (max 1 k))"

lemma transfer_size: "0 < len \<Longrightarrow> 0 < transfer_size ks len" "transfer_size ks len \<le> len"
  by (auto simp: transfer_size_def split: list.split)

definition pipe_sys :: "(string \<times> nat list) sys" where
  "pipe_sys =
     \<lparr>sys_open = (\<lambda>p flags w. (-1, w)), sys_close = (\<lambda>fd w. w),
      sys_read = (\<lambda>fd amt (cs, ks). let k = transfer_size ks (min amt (length cs)) in (Got (take k cs), (drop k cs, tl ks))),
      sys_write = (\<lambda>fd bs (cs, ks). let k = transfer_size ks (length bs) in (int k, (cs @ take k bs, tl ks))),
      sys_getfl = (\<lambda>fd w. (0, w)), sys_setfl = (\<lambda>fd flags w. (0, w))\<rparr>"

interpretation pipe: byte_channel pipe_sys 3 4 fst
proof
  fix bs :: string and w :: "string \<times> nat list"
  assume "bs \<noteq> []"
  then show "\<exists>k w'. sys_write pipe_sys 4 bs w = (int k, w') \<and> 0 < k \<and> k \<le> length bs \<and> fst w' = fst w @ take k bs"
    by (cases w) (auto simp: pipe_sys_def Let_def transfer_size)
next
  fix amt :: nat and w :: "string \<times> nat list"
  assume a: "0 < amt" and c: "fst w \<noteq> []"
  let ?k = "transfer_size (snd w) (min amt (length (fst w)))"
  have k: "0 < ?k" "?k \<le> min amt (length (fst w))" using transfer_size(1) [of "min amt (length (fst w))" "snd w"] transfer_size(2) [of "snd w" "min amt (length (fst w))"] a c by auto
  show "\<exists>k w'. sys_read pipe_sys 3 amt w = (Got (take k (fst w)), w') \<and> 0 < k \<and> k \<le> amt \<and> k \<le> length (fst w) \<and>
      fst w' = drop k (fst w)"
    by (rule exI [of _ ?k]) (use k in \<open>auto simp: pipe_sys_def Let_def split_def\<close>)
qed (auto simp: pipe_sys_def Let_def)

text \<open>
  C12: bytes are not lost or reordered. Over a channel that may transfer as little as one byte in each system
  call, writing a string and reading up to the end returns what the channel held followed by the
  string; reading an amount returns that many bytes, all there are if fewer, and the end-of-file
  object for a positive amount of nothing. Both end within as many rounds as there are bytes.
\<close>

theorem fd_write_read_round_trip:
  assumes "byte_channel sys inp outp contents"
    and "handle_of ho st = Some \<lparr>h_raw = outp, h_status = Open_Fd_Out\<rparr>"
    and "handle_of hi st = Some \<lparr>h_raw = inp, h_status = Open_Fd_In\<rparr>"
    and "length (contents (io_world st)) + length s < n"
  shows "\<exists>w. zuo_fd_write sys n ho (VString s) st = Some (Inr (VVoid, st\<lparr>io_world := w\<rparr>)) \<and>
    (\<exists>w'. zuo_fd_read sys junk n hi VEof (st\<lparr>io_world := w\<rparr>) =
       Some (Inr (VString (contents (io_world st) @ s), st\<lparr>io_world := w'\<rparr>)) \<and> contents w' = []) \<and>
    (\<forall>i. 0 \<le> sint i \<longrightarrow> (\<exists>w'. zuo_fd_read sys junk n hi (VInteger i) (st\<lparr>io_world := w\<rparr>) =
       Some (Inr (if sint i > 0 \<and> contents (io_world st) @ s = [] then VEof
                  else VString (take (nat (sint i)) (contents (io_world st) @ s)), st\<lparr>io_world := w'\<rparr>)) \<and>
       contents w' = drop (nat (sint i)) (contents (io_world st) @ s)))"
proof -
  obtain w where w: "zuo_fd_write sys n ho (VString s) st = Some (Inr (VVoid, st\<lparr>io_world := w\<rparr>))"
    "contents w = contents (io_world st) @ s"
    using byte_channel.fd_write_writes [OF assms(1,2), of s n] assms(4) by auto
  let ?st = "st\<lparr>io_world := w\<rparr>"
  have h: "handle_of hi ?st = Some \<lparr>h_raw = inp, h_status = Open_Fd_In\<rparr>"
    using assms(3) by (auto simp: handle_of_def split: zval.splits)
  have n: "length (contents (io_world ?st)) < n" using w(2) assms(4) by simp
  have "read_amount VEof ?st = Inr (-1, ?st)" by (simp add: read_amount_def Let_def)
  from byte_channel.fd_read_reads [OF assms(1) h n this, of junk]
  have all: "\<exists>w'. zuo_fd_read sys junk n hi VEof ?st =
      Some (Inr (VString (contents (io_world st) @ s), st\<lparr>io_world := w'\<rparr>)) \<and> contents w' = []"
    by (simp add: wanted_all w(2))
  have "\<exists>w'. zuo_fd_read sys junk n hi (VInteger i) ?st =
       Some (Inr (if sint i > 0 \<and> contents (io_world st) @ s = [] then VEof
                  else VString (take (nat (sint i)) (contents (io_world st) @ s)), st\<lparr>io_world := w'\<rparr>)) \<and>
       contents w' = drop (nat (sint i)) (contents (io_world st) @ s)" if i: "0 \<le> sint i" for i
  proof -
    have "read_amount (VInteger i) ?st = Inr (sint i, ?st)" using i by (simp add: read_amount_def Let_def)
    note R = byte_channel.fd_read_reads [OF assms(1) h n this disjI2 [OF i], of junk]
    have cs: "contents (io_world ?st) = contents (io_world st) @ s" using w(2) by simp
    show ?thesis using R unfolding wanted_amount(2) [OF i] unfolding wanted_amount(1) [OF i] cs
      by (simp del: take_append drop_append append_is_Nil_conv)
  qed
  with w(1) all show ?thesis by blast
qed

theorem fd_write_read_round_trip_witness:
  "case \<lparr>io_mem = mem_init, io_handles = [\<lparr>h_raw = 3, h_status = Open_Fd_In\<rparr>, \<lparr>h_raw = 4, h_status = Open_Fd_Out\<rparr>],
     io_fds = Map.empty, io_world = (''ab'', [1, 3, 2])\<rparr> of st \<Rightarrow>
   \<exists>w w'. zuo_fd_write pipe_sys 9 (VHandle 1) (VString ''hello'') st = Some (Inr (VVoid, st\<lparr>io_world := w\<rparr>)) \<and>
     zuo_fd_read pipe_sys CHR ''?'' 9 (VHandle 0) VEof (st\<lparr>io_world := w\<rparr>) = Some (Inr (VString ''abhello'', st\<lparr>io_world := w'\<rparr>))"
proof -
  let ?st = "\<lparr>io_mem = mem_init, io_handles = [\<lparr>h_raw = 3, h_status = Open_Fd_In\<rparr>, \<lparr>h_raw = 4, h_status = Open_Fd_Out\<rparr>],
     io_fds = Map.empty, io_world = (''ab'', [1, 3, 2])\<rparr>"
  have "handle_of (VHandle 1) ?st = Some \<lparr>h_raw = 4, h_status = Open_Fd_Out\<rparr>"
    "handle_of (VHandle 0) ?st = Some \<lparr>h_raw = 3, h_status = Open_Fd_In\<rparr>"
    "length (fst (io_world ?st)) + length ''hello'' < 9"
    by (simp_all add: handle_of_def)
  from fd_write_read_round_trip [OF pipe.byte_channel_axioms this, of "CHR ''?''"] show ?thesis by auto
qed

section \<open>The life of a handle\<close>

datatype fd_op =
    Open_Input zval zval | Open_Output zval zval | Close zval | Valid zval | Read zval zval | Write zval zval

definition fd_step :: "'w sys \<Rightarrow> char \<Rightarrow> nat \<Rightarrow> fd_op \<Rightarrow> 'w zio \<Rightarrow> (zval \<times> 'w zio) res option" where
  "fd_step sys junk n oper st =
     (case oper of
        Open_Input path options \<Rightarrow> Some (zuo_fd_open_input sys path options st)
      | Open_Output path options \<Rightarrow> Some (zuo_fd_open_output sys path options st)
      | Close h \<Rightarrow> Some (zuo_fd_close sys h st)
      | Valid h \<Rightarrow> Some (zuo_fd_valid_p sys h st)
      | Read h amount \<Rightarrow> zuo_fd_read sys junk n h amount st
      | Write h str \<Rightarrow> zuo_fd_write sys n h str st)"

fun fd_run :: "'w sys \<Rightarrow> char \<Rightarrow> nat \<Rightarrow> fd_op list \<Rightarrow> 'w zio \<Rightarrow> 'w zio res option" where
  "fd_run sys junk n [] st = Some (Inr st)"
| "fd_run sys junk n (oper # ops) st =
     (case fd_step sys junk n oper st of
        None \<Rightarrow> None
      | Some (Inl e) \<Rightarrow> Some (Inl e)
      | Some (Inr (v, st)) \<Rightarrow> fd_run sys junk n ops st)"

text \<open>The table of descriptors names open handles, each under its own descriptor.\<close>

definition fds_ok :: "'w zio \<Rightarrow> bool" where
  "fds_ok st \<longleftrightarrow> (\<forall>raw h pipe. io_fds st raw = Some (h, pipe) \<longrightarrow>
     (\<exists>x. handle_of h st = Some x \<and> h_raw x = raw \<and> (h_status x = Open_Fd_In \<or> h_status x = Open_Fd_Out)))"

text \<open>
  How handles change: new ones for streams appear, old ones keep their descriptor, and those of streams
  may be closed.
\<close>

definition open_stream :: "handle \<Rightarrow> bool" where
  "open_stream x \<longleftrightarrow> h_status x = Open_Fd_In \<or> h_status x = Open_Fd_Out"

definition handles_grow :: "'w zio \<Rightarrow> 'w zio \<Rightarrow> bool" where
  "handles_grow st st' \<longleftrightarrow>
     (\<forall>h x. handle_of h st = Some x \<longrightarrow>
       (\<exists>x'. handle_of h st' = Some x' \<and> h_raw x' = h_raw x \<and>
         (h_status x' = h_status x \<or> open_stream x \<and> h_status x' = Closed))) \<and>
     (\<forall>h x. handle_of h st' = Some x \<longrightarrow> handle_of h st = None \<longrightarrow> open_stream x \<or> h_status x = Closed)"

lemma handles_grow_refl: "handles_grow st st"
  by (simp add: handles_grow_def)

lemma handles_grow_trans:
  assumes "handles_grow st1 st2" "handles_grow st2 st3"
  shows "handles_grow st1 st3"
  unfolding handles_grow_def
proof (intro conjI allI impI)
  fix h x
  assume "handle_of h st1 = Some x"
  then obtain x2 where x2: "handle_of h st2 = Some x2" "h_raw x2 = h_raw x"
    "h_status x2 = h_status x \<or> open_stream x \<and> h_status x2 = Closed"
    using assms(1) unfolding handles_grow_def by blast
  then obtain x3 where "handle_of h st3 = Some x3" "h_raw x3 = h_raw x2"
    "h_status x3 = h_status x2 \<or> open_stream x2 \<and> h_status x3 = Closed"
    using assms(2) unfolding handles_grow_def by blast
  then show "\<exists>x'. handle_of h st3 = Some x' \<and> h_raw x' = h_raw x \<and> (h_status x' = h_status x \<or> open_stream x \<and> h_status x' = Closed)"
    using x2 by (auto simp: open_stream_def)
next
  fix h x
  assume h: "handle_of h st3 = Some x" "handle_of h st1 = None"
  show "open_stream x \<or> h_status x = Closed"
  proof (cases "handle_of h st2")
    case None
    then show ?thesis using h assms(2) unfolding handles_grow_def by blast
  next
    case (Some x2)
    then have "open_stream x2 \<or> h_status x2 = Closed" using h(2) assms(1) unfolding handles_grow_def by blast
    moreover obtain x3 where "handle_of h st3 = Some x3" "h_status x3 = h_status x2 \<or> open_stream x2 \<and> h_status x3 = Closed"
      using assms(2) Some unfolding handles_grow_def by blast
    ultimately show ?thesis using h(1) by (auto simp: open_stream_def)
  qed
qed

lemma handle_of_cong: "io_handles st = io_handles st' \<Longrightarrow> handle_of h st = handle_of h st'"
  by (cases h) (simp_all add: handle_of_def)

lemma same_handles: "io_handles st' = io_handles st \<Longrightarrow> handles_grow st st'"
  unfolding handles_grow_def using handle_of_cong by (metis option.distinct(1))

lemma same_fds: "io_handles st' = io_handles st \<Longrightarrow> io_fds st' = io_fds st \<Longrightarrow> fds_ok st \<Longrightarrow> fds_ok st'"
  unfolding fds_ok_def using handle_of_cong by metis

lemma new_handle:
  "zuo_handle raw status st = (h, st') \<Longrightarrow> handle_of h st' = Some \<lparr>h_raw = raw, h_status = status\<rparr>"
  "zuo_handle raw status st = (h, st') \<Longrightarrow> handle_of g st = Some x \<Longrightarrow> handle_of g st' = Some x"
  by (auto simp: zuo_handle_def handle_of_def nth_append split: zval.splits if_splits)

text \<open>What an operation has to keep.\<close>

definition fd_safe :: "'w zio \<Rightarrow> 'w zio \<Rightarrow> bool" where
  "fd_safe st st' \<longleftrightarrow> handles_grow st st' \<and> (fds_ok st \<longrightarrow> fds_ok st')"

lemma fd_safe_trans: "fd_safe st1 st2 \<Longrightarrow> fd_safe st2 st3 \<Longrightarrow> fd_safe st1 st3"
  unfolding fd_safe_def using handles_grow_trans by blast

lemma fd_safe_same: "io_handles st' = io_handles st \<Longrightarrow> io_fds st' = io_fds st \<Longrightarrow> fd_safe st st'"
  unfolding fd_safe_def using same_handles same_fds by blast

lemma handle_of_new: "zuo_handle raw status st = (h, st') \<Longrightarrow> handle_of g st' =
    (if g = h then Some \<lparr>h_raw = raw, h_status = status\<rparr> else handle_of g st)"
  by (auto simp: zuo_handle_def handle_of_def nth_append nat_less_iff split: zval.split)

lemma zuo_handle_safe:
  assumes "zuo_handle raw status st = (h, st')" "status = Open_Fd_In \<or> status = Open_Fd_Out"
  shows "fd_safe st st'"
proof -
  have "handle_of h st = None" "io_fds st' = io_fds st"
    using assms(1) by (auto simp: zuo_handle_def handle_of_def)
  then show ?thesis using assms(2) handle_of_new [OF assms(1)]
    unfolding fd_safe_def handles_grow_def fds_ok_def open_stream_def by (fastforce split: if_split_asm)
qed

lemma zuo_fd_handle_safe:
  assumes "zuo_fd_handle raw status pipe st = (h, st')" "status = Open_Fd_In \<or> status = Open_Fd_Out"
  shows "fd_safe st st'"
proof -
  obtain st1 where n: "zuo_handle raw status st = (h, st1)" and st': "st' = st1\<lparr>io_fds := (io_fds st1)(raw \<mapsto> (h, pipe))\<rparr>"
    using assms by (auto simp: zuo_fd_handle_def split: prod.splits)
  have "handle_of g st' = handle_of g st1" for g using st' by (intro handle_of_cong) simp
  then show ?thesis using zuo_handle_safe [OF n assms(2)] new_handle(1) [OF n] st' assms(2)
    by (auto simp: fd_safe_def handles_grow_def fds_ok_def)
qed

lemma io_symbol_safe: "io_symbol name st = (s, st') \<Longrightarrow> fd_safe st st'"
  by (auto simp: io_symbol_def intro!: fd_safe_same split: prod.splits)

lemma exists_mode_safe: "exists_mode modes v st = Inr (mode, st') \<Longrightarrow> fd_safe st st'"
proof (induction modes v st rule: exists_mode.induct)
  case (2 name mode modes v st)
  then show ?case using io_symbol_safe fd_safe_trans by (fastforce split: prod.splits if_splits)
qed simp

lemma world_safe: "fd_safe st (st\<lparr>io_world := w\<rparr>)"
  by (rule fd_safe_same) simp_all

text \<open>The calculus of operations that keep \<open>fd_safe\<close>, along the structure of their definitions.\<close>

definition keeps :: "'w zio \<Rightarrow> ('a \<times> 'w zio) res \<Rightarrow> bool" where
  "keeps st r \<longleftrightarrow> (\<forall>v st'. r = Inr (v, st') \<longrightarrow> fd_safe st st')"

lemma keeps_Inl: "keeps st (Inl e)"
  and keeps_Inr: "fd_safe st st' \<Longrightarrow> keeps st (Inr (v, st'))"
  by (simp_all add: keeps_def)

lemma keeps_pair: "(\<And>v st'. p = (v, st') \<Longrightarrow> fd_safe st st') \<Longrightarrow> keeps st (Inr p)"
  by (simp add: keeps_def)

lemma keeps_if: "(b \<Longrightarrow> keeps st r) \<Longrightarrow> (\<not> b \<Longrightarrow> keeps st r') \<Longrightarrow> keeps st (if b then r else r')"
  by simp

lemma keeps_check: "(\<And>x. m = Inr x \<Longrightarrow> keeps st (f x)) \<Longrightarrow> keeps st (rbind m f)"
  by (cases m) (auto simp: keeps_def)

lemma keeps_prod: "(\<And>a b. p = (a, b) \<Longrightarrow> keeps st (f a b)) \<Longrightarrow> keeps st (case p of (a, b) \<Rightarrow> f a b)"
  by (cases p) simp

lemma keeps_after: "fd_safe st st1 \<Longrightarrow> keeps st1 r \<Longrightarrow> keeps st r"
  unfolding keeps_def using fd_safe_trans by blast

lemma keeps_then: "keeps st m \<Longrightarrow> (\<And>v st1. keeps st1 (f (v, st1))) \<Longrightarrow> keeps st (rbind m f)"
  by (cases m) (auto simp: keeps_def intro: fd_safe_trans)

lemma keeps_symbol: "(\<And>s st1. keeps st1 (f s st1)) \<Longrightarrow> keeps st (case io_symbol name st of (s, st1) \<Rightarrow> f s st1)"
  by (rule keeps_prod) (auto intro: keeps_after [OF io_symbol_safe])

lemma keeps_opened:
  "(\<And>w. keeps st (f w)) \<Longrightarrow> keeps st (case sys_open sys p flags (io_world st) of (fd, w) \<Rightarrow> if fd = -1 then Inl e else g fd w)"
  if "\<And>fd w. keeps st (g fd w)"
  using that by (auto simp: keeps_Inl split: prod.split)

lemma keeps_integer:
  assumes "\<And>i. keeps st (f i)"
  shows "keeps st (case v of VInteger i \<Rightarrow> f i | _ \<Rightarrow> Inl e)"
  using assms by (auto simp: keeps_Inl split: zval.split)

lemma keeps_new: "keeps st (Inr (zuo_handle raw Open_Fd_In st))"
  and keeps_new_out: "keeps st (Inr (zuo_handle raw Open_Fd_Out st))"
  by (rule keeps_pair, erule zuo_handle_safe, simp)+

lemmas keeps_rules = keeps_if keeps_check keeps_Inl keeps_symbol keeps_integer keeps_new keeps_new_out

lemma open_input_handle_keeps: "keeps st (zuo_fd_open_input_handle sys path options st)"
  unfolding zuo_fd_open_input_handle_def Let_def
  by (intro keeps_rules keeps_prod keeps_Inr world_safe fd_safe_same) simp_all

lemma open_input_keeps: "keeps st (zuo_fd_open_input sys path options st)"
  unfolding zuo_fd_open_input_def
  by (rule keeps_then [OF open_input_handle_keeps]) (simp add: keeps_new)

lemma exists_mode_keeps: "keeps st (exists_mode modes v st)"
  using exists_mode_safe by (fastforce simp: keeps_def)

lemma fd_handle_keeps: "keeps st (Inr (zuo_fd_handle fd Open_Fd_Out pipe (st\<lparr>io_world := w\<rparr>)))"
  by (rule keeps_after [OF world_safe], rule keeps_pair, erule zuo_fd_handle_safe) simp

lemma consume_option_safe: "zuo_consume_option t name st = (v, t', st') \<Longrightarrow> fd_safe st st'"
  by (auto simp: zuo_consume_option_def split: prod.split_asm option.split_asm dest: io_symbol_safe)

lemma keeps_option:
  "(\<And>v t' st1. keeps st1 (f v t' st1)) \<Longrightarrow> keeps st (case zuo_consume_option t name st of (v, t', st1) \<Rightarrow> f v t' st1)"
  by (auto split: prod.split intro: keeps_after consume_option_safe)

lemma keeps_mode:
  "(\<And>mode st1. keeps st1 (f mode st1)) \<Longrightarrow>
   keeps st (rbind (if b then Inr (m, st) else exists_mode modes v st) (\<lambda>(mode, st1). f mode st1))"
  by (rule keeps_then) (auto simp: exists_mode_keeps intro: keeps_Inr fd_safe_same)

lemma open_output_keeps: "keeps st (zuo_fd_open_output sys path options st)"
  unfolding zuo_fd_open_output_def Let_def
  by (intro keeps_if keeps_option keeps_mode keeps_rules keeps_prod fd_handle_keeps)

text \<open>Closing.\<close>

lemma handle_of_closed:
  assumes "handle_of h st = Some x"
  shows "handle_of g (set_status h status st) =
    (if g = h then Some (x\<lparr>h_status := status\<rparr>) else handle_of g st)"
proof -
  obtain i where i: "h = VHandle i" "0 \<le> i" "nat i < length (io_handles st)" "x = io_handles st ! nat i"
    using assms by (auto simp: handle_of_def split: zval.split_asm if_split_asm)
  have "nat j \<noteq> nat i" if "0 \<le> j" "j \<noteq> i" for j using that i(2) by simp
  then show ?thesis using i by (cases g) (auto simp: handle_of_def set_status_def nth_list_update)
qed

lemma close_safe:
  assumes "zuo_fd_close sys h st = Inr (v, st')"
  shows "fd_safe st st'" "\<exists>x. handle_of h st' = Some x \<and> h_status x = Closed"
proof -
  obtain x where x: "handle_of h st = Some x"
    and st': "st' = set_status h Closed (zuo_close sys (h_raw x) st)"
    using assms by (auto simp: zuo_fd_close_def zuo_check_input_output_fd_def zuo_is_input_output_fd_def
        split: if_split_asm option.split_asm)
  let ?st = "zuo_close sys (h_raw x) st"
  have same: "handle_of g ?st = handle_of g st" for g by (rule handle_of_cong) (simp add: zuo_close_def)
  have h: "handle_of g st' = (if g = h then Some (x\<lparr>h_status := Closed\<rparr>) else handle_of g st)" for g
    using handle_of_closed [of h ?st x g Closed] x same st' by simp
  have f: "io_fds st' = (io_fds st)(h_raw x := None)" using st' by (cases h) (simp_all add: set_status_def zuo_close_def)
  show "\<exists>x. handle_of h st' = Some x \<and> h_status x = Closed" using h by simp
  have "open_stream x"
    using assms x by (auto simp: zuo_fd_close_def zuo_check_input_output_fd_def zuo_is_input_output_fd_def open_stream_def
        split: if_split_asm)
  then have "handles_grow st st'" using h x by (auto simp: handles_grow_def)
  moreover have "fds_ok st'" if ok: "fds_ok st"
    unfolding fds_ok_def
  proof (intro allI impI)
    fix raw g pipe
    assume e: "io_fds st' raw = Some (g, pipe)"
    then have "io_fds st raw = Some (g, pipe)" "raw \<noteq> h_raw x" using f by (auto split: if_split_asm)
    then obtain y where "handle_of g st = Some y" "h_raw y = raw" "h_status y = Open_Fd_In \<or> h_status y = Open_Fd_Out"
      using ok unfolding fds_ok_def by blast
    moreover from this have "g \<noteq> h" using x \<open>raw \<noteq> h_raw x\<close> by auto
    ultimately show "\<exists>y. handle_of g st' = Some y \<and> h_raw y = raw \<and> (h_status y = Open_Fd_In \<or> h_status y = Open_Fd_Out)"
      using h by simp
  qed
  ultimately show "fd_safe st st'" by (simp add: fd_safe_def)
qed

lemma valid_keeps: "keeps st (zuo_fd_valid_p sys h st)"
  unfolding zuo_fd_valid_p_def by (intro keeps_check keeps_prod keeps_Inr world_safe)

lemma with_world_keeps: "with_world st r = Some (Inr (v, st')) \<Longrightarrow> fd_safe st st'"
  using world_safe by (auto simp: with_world_def rbind_eq_Inr_iff)

lemma read_amount_keeps: "keeps st (read_amount amount st)"
  unfolding read_amount_def Let_def
  by (cases amount) (auto intro!: keeps_if keeps_Inl keeps_symbol keeps_Inr fd_safe_same)

lemma read_safe: "zuo_fd_read sys junk n h amount st = Some (Inr (v, st')) \<Longrightarrow> fd_safe st st'"
  using read_amount_keeps [of st amount] fd_safe_trans
  by (fastforce simp: zuo_fd_read_def keeps_def dest: with_world_keeps split: option.split_asm if_split_asm sum.split_asm)

lemma write_safe: "zuo_fd_write sys n h str st = Some (Inr (v, st')) \<Longrightarrow> fd_safe st st'"
  by (auto simp: zuo_fd_write_def dest: with_world_keeps split: option.split_asm if_split_asm sum.split_asm)

lemma fd_step_safe: "fd_step sys junk n oper st = Some (Inr (v, st')) \<Longrightarrow> fd_safe st st'"
  using open_input_keeps [of st sys] open_output_keeps [of st sys] valid_keeps [of st sys]
    close_safe(1) [of sys _ st] read_safe [of sys junk n _ _ st] write_safe [of sys n _ _ st]
  by (cases oper) (simp_all add: fd_step_def keeps_def)

lemma fd_run_safe: "fd_run sys junk n ops st = Some (Inr st') \<Longrightarrow> fd_safe st st'"
proof (induction ops arbitrary: st)
  case (Cons oper ops)
  then show ?case using fd_step_safe fd_safe_trans by (fastforce split: option.split_asm sum.split_asm)
qed (simp add: fd_safe_same)



end
