(* ===== verification/Zuo_Modules.thy ===== *)
theory Zuo_Modules
  imports Zuo_Interp Zuo_Channel
begin

text \<open>
  Modules of \<^verbatim>\<open>zuo.c\<close>: the registry of loaded modules, the stack of modules being loaded, and the
  steps of \<^verbatim>\<open>module->hash\<close>: finding a module or reading its source and its language, getting the language's
  \<^verbatim>\<open>read-and-eval\<close>, and registering the result. The closure that composes the steps contains
  itself, which values modelled by their contents cannot; its runs are a relation. Logging is left out.
\<close>

section \<open>The registry\<close>

record 'w zmods =
  m_io :: "'w zio"
  m_modules :: "(zval \<times> zval) list"
  m_pending :: "zval list"

definition zuo_module_path_equal :: "zval \<Rightarrow> zval \<Rightarrow> bool res" where
  "zuo_module_path_equal a b =
     (if is_symbol a then Inr (a = b)
      else if is_symbol b then Inr False
      else rbind (zuo_string_eql a b) (\<lambda>r. Inr (r = VTrue)))"

fun find_module :: "zval \<Rightarrow> (zval \<times> zval) list \<Rightarrow> zval option res" where
  "find_module path [] = Inr None"
| "find_module path ((p, md) # l) =
     rbind (zuo_module_path_equal path p) (\<lambda>eq. if eq then Inr (Some md) else find_module path l)"

fun find_pending :: "zval \<Rightarrow> zval list \<Rightarrow> bool res" where
  "find_pending path [] = Inr False"
| "find_pending path (p # l) =
     rbind (zuo_module_path_equal path p) (\<lambda>eq. if eq then Inr True else find_pending path l)"

section \<open>Finding a module or its source\<close>

definition orbind :: "'a res option \<Rightarrow> ('a \<Rightarrow> 'b res option) \<Rightarrow> 'b res option" where
  "orbind m f = (case m of None \<Rightarrow> None | Some (Inl e) \<Rightarrow> Some (Inl e) | Some (Inr x) \<Rightarrow> f x)"

lemma orbind_simps [simp]:
  "orbind None f = None" "orbind (Some (Inl e)) f = Some (Inl e)" "orbind (Some (Inr x)) f = f x"
  by (simp_all add: orbind_def)

lemma orbind_eq_Inr_iff: "orbind m f = Some (Inr y) \<longleftrightarrow> (\<exists>x. m = Some (Inr x) \<and> f x = Some (Inr y))"
  by (auto simp: orbind_def split: option.splits sum.splits)

text \<open>The source of a module: the file is read to its end, and its first line names the language.\<close>

definition read_source ::
  "'w sys \<Rightarrow> char \<Rightarrow> nat \<Rightarrow> zval \<Rightarrow> zval \<Rightarrow> 'w zio \<Rightarrow> (zval \<times> 'w zio) res option" where
  "read_source sys junk n library_path path io =
     orbind (Some (if is_symbol path then map_sum id VString (zuo_library_path_to_file_path library_path path)
                   else Inr path)) (\<lambda>file_path.
     orbind (Some (zuo_fd_open_input_handle sys file_path (VTrie zuo_trie_node) io)) (\<lambda>(fd, io).
     orbind (zuo_drain sys junk n fd (-1) (io_world io)) (\<lambda>(str, w).
     orbind (Some (check_string ''string'' str)) (\<lambda>s.
     orbind (Some (zuo_read_language (cstr s) (mem_symtab (io_mem io)))) (\<lambda>(lang, post, tab).
     Some (Inr (VPair (VSymbol lang) (zlist [str, VInteger (of_nat post), path]),
       io\<lparr>io_world := sys_close sys fd w, io_mem := (io_mem io)\<lparr>mem_symtab := tab\<rparr>\<rparr>)))))))"

definition zuo_module_to_hash_star ::
  "'w sys \<Rightarrow> char \<Rightarrow> nat \<Rightarrow> zval \<Rightarrow> zval \<Rightarrow> 'w zmods \<Rightarrow> (zval \<times> 'w zmods) res option" where
  "zuo_module_to_hash_star sys junk n library_path path st =
     orbind (Some (check_module_path ''module->hash'' path)) (\<lambda>_.
     orbind (Some (find_module path (m_modules st))) (\<lambda>found.
     case found of
       Some md \<Rightarrow> Some (Inr (md, st))
     | None \<Rightarrow>
         orbind (Some (find_pending path (m_pending st))) (\<lambda>pending.
         if pending then Some (Inl (Fail1 ''cycle in module loading'' path))
         else orbind (read_source sys junk n library_path path (m_io st)) (\<lambda>(v, io).
           Some (Inr (v, st\<lparr>m_pending := path # m_pending st, m_io := io\<rparr>))))))"

section \<open>The other steps\<close>

text \<open>Whether two references are the same object is a parameter, as for \<^verbatim>\<open>eq?\<close>.\<close>

definition zuo_register_module :: "(zval \<Rightarrow> zval \<Rightarrow> bool) \<Rightarrow> zval \<Rightarrow> zval \<Rightarrow> 'w zmods \<Rightarrow> (zval \<times> 'w zmods) res" where
  "zuo_register_module same path md st =
     (case md of
        VTrie t \<Rightarrow>
          (case m_pending st of
             [] \<Rightarrow> Inl (Fail1 ''attempting to register unexpected module'' path)
           | p # ps \<Rightarrow>
               if \<not> same path p then Inl (Fail1 ''attempting to register unexpected module'' path)
               else Inr (md, st\<lparr>m_modules := (path, md) # m_modules st, m_pending := ps\<rparr>))
      | _ \<Rightarrow> Inl (Fail1 ''module did not produce a hash table'' path))"

definition zuo_get_read_and_eval :: "zval \<Rightarrow> zval \<Rightarrow> 'w zmods \<Rightarrow> (zval \<times> 'w zmods) res" where
  "zuo_get_read_and_eval lang md st =
     (case io_symbol ''read-and-eval'' (m_io st) of (s, io) \<Rightarrow>
      case md of
        VTrie t \<Rightarrow>
          (case zuo_trie_lookup t s of
             Some (VClosure lam env) \<Rightarrow> Inr (VClosure lam env, st\<lparr>m_io := io\<rparr>)
           | _ \<Rightarrow> Inl (Fail1 ''not a language module path'' lang))
      | _ \<Rightarrow> Inl (UB ''trie''))"

text \<open>
  The module \<^verbatim>\<open>zuo/kernel\<close> is there from the start; its \<^verbatim>\<open>read-and-eval\<close> is the closure
  \<^verbatim>\<open>(lambda arg "read-and-eval" (kernel-eval (kernel-read-string arg)))\<close>.
\<close>

definition kernel_read_and_eval :: "kforms \<Rightarrow> symbol \<Rightarrow> zval" where
  "kernel_read_and_eval F arg_id =
     VClosure
       (zlist [VSymbol (f_lambda F), VSymbol arg_id, VString ''read-and-eval'',
          zlist [VKernelEval, zlist [VPrimitive ''o_kernel_read_string'' (push_bit 1 1) VVoid, VSymbol arg_id]]])
       (VTrie zuo_trie_node)"

definition zuo_declare_kernel_module :: "kforms \<Rightarrow> 'w zmods \<Rightarrow> 'w zmods" where
  "zuo_declare_kernel_module F st =
     (case io_symbol ''arg'' (m_io st) of (arg_id, io) \<Rightarrow>
      case io_symbol ''read-and-eval'' io of (rae, io) \<Rightarrow>
      case io_symbol ''zuo/kernel'' io of (name, io) \<Rightarrow>
        st\<lparr>m_io := io,
           m_modules := (VSymbol name, VTrie (zuo_trie_extend zuo_trie_node rae (kernel_read_and_eval F arg_id))) # m_modules st\<rparr>)"

section \<open>Loading\<close>

text \<open>
  Runs of \<^verbatim>\<open>module->hash\<close> that return. Applying a language's \<^verbatim>\<open>read-and-eval\<close> runs the module's body, which is
  any program: it may change memory and the world, and load other modules in turn, before it
  returns any value. A body that leaves through a captured continuation is not covered.
\<close>

inductive loads :: "'w sys \<Rightarrow> char \<Rightarrow> zval \<Rightarrow> (zval \<Rightarrow> zval \<Rightarrow> bool) \<Rightarrow> zval \<Rightarrow> 'w zmods \<Rightarrow> zval \<Rightarrow> 'w zmods \<Rightarrow> bool"
  and body_runs :: "'w sys \<Rightarrow> char \<Rightarrow> zval \<Rightarrow> (zval \<Rightarrow> zval \<Rightarrow> bool) \<Rightarrow> 'w zmods \<Rightarrow> 'w zmods \<Rightarrow> bool"
  for sys junk library_path same where
  loads_found:
    "zuo_module_to_hash_star sys junk n library_path path st = Some (Inr (h, st1)) \<Longrightarrow> zuo_hash_p h = VTrue \<Longrightarrow>
     loads sys junk library_path same path st h st1"
| loads_source:
    "zuo_module_to_hash_star sys junk n library_path path st = Some (Inr (VPair lang args, st1)) \<Longrightarrow>
     loads sys junk library_path same lang st1 lang_mod st2 \<Longrightarrow>
     zuo_get_read_and_eval lang lang_mod st2 = Inr (proc, st3) \<Longrightarrow>
     body_runs sys junk library_path same st3 st4 \<Longrightarrow>
     zuo_register_module same path md st4 = Inr (h, st5) \<Longrightarrow>
     loads sys junk library_path same path st h st5"
| body_done: "body_runs sys junk library_path same st st"
| body_acts:
    "m_modules st1 = m_modules st \<Longrightarrow> m_pending st1 = m_pending st \<Longrightarrow>
     body_runs sys junk library_path same st1 st2 \<Longrightarrow> body_runs sys junk library_path same st st2"
| body_loads:
    "loads sys junk library_path same path st h st1 \<Longrightarrow>
     body_runs sys junk library_path same st1 st2 \<Longrightarrow> body_runs sys junk library_path same st st2"

text \<open>The registry: every module once, none both loaded and pending.\<close>

definition module_path :: "zval \<Rightarrow> bool" where
  "module_path v \<longleftrightarrow> zuo_is_module_path v \<noteq> None"

definition registry_ok :: "'w zmods \<Rightarrow> bool" where
  "registry_ok st \<longleftrightarrow> distinct (map fst (m_modules st) @ m_pending st) \<and>
     (\<forall>p \<in> set (map fst (m_modules st) @ m_pending st). module_path p) \<and>
     (\<forall>md \<in> set (map snd (m_modules st)). zuo_hash_p md = VTrue)"

lemma module_path_cases: "module_path v \<Longrightarrow> is_symbol v \<or> is_string v"
  by (auto simp: module_path_def zuo_is_module_path_def zuo_is_path_string_def zuo_is_string_without_nul_def
      split: zval.split_asm)

lemma path_equal: "module_path a \<Longrightarrow> module_path b \<Longrightarrow> zuo_module_path_equal a b = Inr (a = b)"
  by (drule module_path_cases)+ (auto simp: zuo_module_path_equal_def is_symbol_iff is_string_iff zuo_string_eql_def)

lemma find_module_map:
  "module_path path \<Longrightarrow> \<forall>p \<in> set (map fst l). module_path p \<Longrightarrow> find_module path l = Inr (map_of l path)"
  by (induction l) (auto simp: path_equal)

lemma find_pending_set:
  "module_path path \<Longrightarrow> \<forall>p \<in> set l. module_path p \<Longrightarrow> find_pending path l = Inr (path \<in> set l)"
  by (induction l) (auto simp: path_equal)

lemma module_to_hash_star:
  assumes "registry_ok st"
  shows "zuo_module_to_hash_star sys junk n library_path path st =
    (if \<not> module_path path then Some (Inl (Fail_Arg ''module->hash'' ''module path'' path))
     else case map_of (m_modules st) path of
       Some md \<Rightarrow> Some (Inr (md, st))
     | None \<Rightarrow>
         if path \<in> set (m_pending st) then Some (Inl (Fail1 ''cycle in module loading'' path))
         else orbind (read_source sys junk n library_path path (m_io st)) (\<lambda>(v, io).
           Some (Inr (v, st\<lparr>m_pending := path # m_pending st, m_io := io\<rparr>))))"
proof (cases "module_path path")
  case True
  moreover obtain b where "check_module_path ''module->hash'' path = Inr b"
    using True by (auto simp: check_module_path_def module_path_def)
  moreover have "find_module path (m_modules st) = Inr (map_of (m_modules st) path)"
    "find_pending path (m_pending st) = Inr (path \<in> set (m_pending st))"
    using assms True by (auto simp: registry_ok_def intro!: find_module_map find_pending_set)
  ultimately show ?thesis by (simp add: zuo_module_to_hash_star_def split: option.split)
next
  case False
  then show ?thesis by (simp add: zuo_module_to_hash_star_def check_module_path_def module_path_def)
qed

lemma read_source_pair: "read_source sys junk n library_path path io = Some (Inr (v, io')) \<Longrightarrow> \<exists>lang d. v = VPair (VSymbol lang) d"
  by (auto simp: read_source_def orbind_eq_Inr_iff split: if_split_asm)

text \<open>What a run keeps: the registry only grows, and the stack of pending modules is restored.\<close>

definition registry_grows :: "'w zmods \<Rightarrow> 'w zmods \<Rightarrow> bool" where
  "registry_grows st st' \<longleftrightarrow> registry_ok st' \<and> m_pending st' = m_pending st \<and> (\<exists>new. m_modules st' = new @ m_modules st)"

lemma registry_grows_trans: "registry_grows st1 st2 \<Longrightarrow> registry_grows st2 st3 \<Longrightarrow> registry_grows st1 st3"
  by (auto simp: registry_grows_def)

lemma registry_ok_cong:
  "m_modules st' = m_modules st \<Longrightarrow> m_pending st' = m_pending st \<Longrightarrow> registry_ok st' = registry_ok st"
  by (simp add: registry_ok_def)

lemma star_found:
  assumes "registry_ok st" "zuo_module_to_hash_star sys junk n library_path path st = Some (Inr (h, st1))" "zuo_hash_p h = VTrue"
  shows "st1 = st" "map_of (m_modules st) path = Some h"
proof -
  note star = assms(2) [unfolded module_to_hash_star [OF assms(1)]]
  have "map_of (m_modules st) path \<noteq> None"
  proof
    assume "map_of (m_modules st) path = None"
    then obtain io where "read_source sys junk n library_path path (m_io st) = Some (Inr (h, io))"
      using star by (auto simp: orbind_eq_Inr_iff split: if_split_asm)
    then show False using read_source_pair assms(3) by (fastforce simp: zuo_hash_p_def)
  qed
  then obtain md where "map_of (m_modules st) path = Some md" by blast
  then show "st1 = st" "map_of (m_modules st) path = Some h" using star by (simp_all split: if_split_asm)
qed

lemma star_source:
  assumes "registry_ok st" "zuo_module_to_hash_star sys junk n library_path path st = Some (Inr (VPair lang args, st1))"
  shows "registry_ok st1" "m_pending st1 = path # m_pending st" "m_modules st1 = m_modules st"
proof -
  have "zuo_hash_p md = VTrue" if "map_of (m_modules st) path = Some md" for md
    using assms(1) map_of_SomeD [OF that] by (force simp: registry_ok_def)
  then have n: "map_of (m_modules st) path = None" "path \<notin> set (m_pending st)" "module_path path"
    and st1: "m_pending st1 = path # m_pending st" "m_modules st1 = m_modules st"
    using assms(2) unfolding module_to_hash_star [OF assms(1)]
    by (auto simp: orbind_eq_Inr_iff zuo_hash_p_def split: if_split_asm option.split_asm)
  show "m_pending st1 = path # m_pending st" "m_modules st1 = m_modules st" by fact+
  show "registry_ok st1" using assms(1) n by (auto simp: registry_ok_def st1 map_of_eq_None_iff)
qed

lemma register_grows:
  assumes "registry_ok st4" "m_pending st4 = path # ps" "zuo_register_module same path md st4 = Inr (h, st5)"
  shows "registry_ok st5" "m_pending st5 = ps" "m_modules st5 = (path, h) # m_modules st4"
proof -
  obtain tr where "md = VTrie tr" using assms(3) by (cases md) (simp_all add: zuo_register_module_def)
  then have st5: "h = VTrie tr" "st5 = st4\<lparr>m_modules := (path, VTrie tr) # m_modules st4, m_pending := ps\<rparr>"
    using assms(2,3) by (auto simp: zuo_register_module_def split: if_split_asm)
  then show "m_pending st5 = ps" "m_modules st5 = (path, h) # m_modules st4" by simp_all
  show "registry_ok st5" using assms(1,2) unfolding registry_ok_def st5(2) by (auto simp: zuo_hash_p_def)
qed

lemma loads_grow:
  "loads sys junk library_path same path st h st' \<Longrightarrow> registry_ok st \<Longrightarrow>
     registry_grows st st' \<and> map_of (m_modules st') path = Some h"
  "body_runs sys junk library_path same st st' \<Longrightarrow> registry_ok st \<Longrightarrow> registry_grows st st'"
proof (induction rule: loads_body_runs.inducts)
  case (loads_found n path st h st1)
  note f = star_found [OF loads_found(3,1,2)]
  show ?case using f(2) loads_found(3) unfolding f(1) by (simp add: registry_grows_def)
next
  case (loads_source n path st lang args st1 lang_mod st2 proc st3 st4 md h st5)
  have got: "zuo_get_read_and_eval lang lang_mod st2 = Inr (proc, st3)"
    and registered: "zuo_register_module same path md st4 = Inr (h, st5)"
    and IH1: "registry_ok st1 \<Longrightarrow> registry_grows st1 st2 \<and> map_of (m_modules st2) lang = Some lang_mod"
    and IH2: "registry_ok st3 \<Longrightarrow> registry_grows st3 st4" by fact+
  note s1 = star_source [OF loads_source(8,1)]
  have 2: "registry_grows st1 st2" using IH1 s1(1) by simp
  have s3: "m_modules st3 = m_modules st2" "m_pending st3 = m_pending st2"
    using got by (auto simp: zuo_get_read_and_eval_def split: prod.split_asm zval.split_asm option.split_asm)
  then have 3: "registry_grows st1 st3" using 2 registry_ok_cong [of st3 st2] by (simp add: registry_grows_def)
  then have 4: "registry_grows st1 st4"
    using IH2 registry_grows_trans by (auto simp: registry_grows_def)
  then have "registry_ok st4" "m_pending st4 = path # m_pending st" using s1 by (simp_all add: registry_grows_def)
  note s5 = register_grows [OF this registered]
  then show ?case using 4 s1 by (auto simp: registry_grows_def)
next
  case (body_acts st1 st st2)
  then show ?case using registry_ok_cong [of st1 st] by (simp add: registry_grows_def)
next
  case (body_loads path st h st1 st2)
  then show ?case using registry_grows_trans by (auto simp: registry_grows_def)
qed (simp add: registry_grows_def)

text \<open>
  C11: every module is loaded at most once. If \<^verbatim>\<open>module->hash\<close> returns, however many modules the body and the
  language of the module have loaded on the way, then the module was not already being loaded, the
  registry has only grown, with no module twice and every earlier result in place, and from then
  on asking for the module gives the same table without a system call, while a module that is
  still being loaded is reported as a cycle.
\<close>

theorem modules_loaded_once:
  assumes "registry_ok st" "loads sys junk library_path same path st h st'"
  shows "registry_ok st' \<and> m_pending st' = m_pending st \<and> path \<notin> set (m_pending st) \<and>
    (\<forall>p md. map_of (m_modules st) p = Some md \<longrightarrow> map_of (m_modules st') p = Some md) \<and>
    (\<forall>sys' n. zuo_module_to_hash_star sys' junk' n library_path' path st' = Some (Inr (h, st'))) \<and>
    (\<forall>p \<in> set (m_pending st'). \<forall>sys' n. zuo_module_to_hash_star sys' junk' n library_path' p st' =
       Some (Inl (Fail1 ''cycle in module loading'' p)))"
proof -
  obtain new where g: "registry_ok st'" "m_pending st' = m_pending st" "m_modules st' = new @ m_modules st"
    and p: "map_of (m_modules st') path = Some h"
    using loads_grow(1) [OF assms(2,1)] by (auto simp: registry_grows_def)
  have d: "distinct (map fst (m_modules st') @ m_pending st')"
    and paths: "\<And>q. q \<in> set (map fst (m_modules st') @ m_pending st') \<Longrightarrow> module_path q"
    using g(1) by (auto simp: registry_ok_def)
  have mem: "map_of (m_modules st') q = Some md \<Longrightarrow> q \<in> set (map fst (m_modules st'))" for q md
    using map_of_SomeD [of "m_modules st'" q md] by force
  have "path \<notin> set (m_pending st)" using d mem [OF p] g(2) by auto
  moreover have "map_of (m_modules st') q = Some md" if "map_of (m_modules st) q = Some md" for q md
  proof -
    have "q \<in> set (map fst (m_modules st))" using map_of_SomeD [OF that] by force
    then have "map_of new q = None" using d g(3) by (auto simp: map_of_eq_None_iff)
    then show ?thesis using that g(3) by (simp add: map_add_def)
  qed
  moreover have "zuo_module_to_hash_star sys' junk' n library_path' path st' = Some (Inr (h, st'))" for sys' :: "'a sys" and n
    using module_to_hash_star [OF g(1), of sys' junk' n library_path' path] p paths [of path] mem [OF p] by simp
  moreover have "zuo_module_to_hash_star sys' junk' n library_path' q st' = Some (Inl (Fail1 ''cycle in module loading'' q))"
    if "q \<in> set (m_pending st')" for q and sys' :: "'a sys" and n
  proof -
    have "map_of (m_modules st') q = None" using that d by (auto simp: map_of_eq_None_iff)
    then show ?thesis
      using module_to_hash_star [OF g(1), of sys' junk' n library_path' q] paths [of q] that by simp
  qed
  ultimately show ?thesis using g(1,2) by blast
qed

text \<open>A file system with one module, after start-up.\<close>

definition one_file_sys :: "(string \<times> nat list) sys" where
  "one_file_sys = pipe_sys\<lparr>sys_open := (\<lambda>p flags w. (3, (''#lang zuo/kernel (hash)'', [5])))\<rparr>"

definition kernel_modules :: "(string \<times> nat list) zmods" where
  "kernel_modules = zuo_declare_kernel_module
     \<lparr>f_quote = Symbol 901 ''quote'', f_lambda = Symbol 902 ''lambda'', f_let = Symbol 903 ''let'',
      f_begin = Symbol 904 ''begin'', f_if = Symbol 905 ''if''\<rparr>
     \<lparr>m_io = \<lparr>io_mem = mem_init, io_handles = [], io_fds = Map.empty, io_world = ([], [])\<rparr>, m_modules = [], m_pending = []\<rparr>"

lemma kernel_modules_ok: "registry_ok kernel_modules"
  by code_simp

lemma kernel_star:
  "case zuo_module_to_hash_star one_file_sys CHR ''?'' 30 VFalse (VString ''m.zuo'') kernel_modules of
     Some (Inr (VPair lang args, st1)) \<Rightarrow>
       (case m_modules st1 of
          [(name, md)] \<Rightarrow> name = lang \<and> zuo_hash_p md = VTrue \<and>
            (case zuo_get_read_and_eval lang md st1 of Inr _ \<Rightarrow> True | Inl _ \<Rightarrow> False)
        | _ \<Rightarrow> False)
   | _ \<Rightarrow> False"
  by code_simp

lemma star_outcome:
  assumes "case r of Some (Inr (VPair lang args, st1)) \<Rightarrow> P lang st1 | _ \<Rightarrow> False"
  shows "\<exists>lang args st1. r = Some (Inr (VPair lang args, st1)) \<and> P lang st1"
proof -
  obtain a st1 where "r = Some (Inr (a, st1))" using assms by (auto split: option.split_asm sum.split_asm)
  then show ?thesis using assms by (cases a) auto
qed

lemma single_outcome:
  assumes "case l of [(name, md)] \<Rightarrow> P name md | _ \<Rightarrow> False"
  shows "\<exists>name md. l = [(name, md)] \<and> P name md"
proof (cases l)
  case (Cons x l')
  then show ?thesis using assms by (cases x; cases l') auto
qed (use assms in simp)

theorem modules_loaded_once_witness:
  "\<exists>st'. loads one_file_sys CHR ''?'' VFalse (=) (VString ''m.zuo'') kernel_modules (VTrie zuo_trie_node) st' \<and>
     m_pending st' = [] \<and>
     zuo_module_to_hash_star one_file_sys CHR ''?'' 0 VFalse (VString ''m.zuo'') st' = Some (Inr (VTrie zuo_trie_node, st'))"
proof -
  let ?p = "VString ''m.zuo''" and ?c = "CHR ''?''"
  obtain lang args st1 md proc st3 where
    star: "zuo_module_to_hash_star one_file_sys ?c 30 VFalse ?p kernel_modules = Some (Inr (VPair lang args, st1))"
    and st1: "m_modules st1 = [(lang, md)]" "zuo_hash_p md = VTrue"
    and got: "zuo_get_read_and_eval lang md st1 = Inr (proc, st3)"
    using star_outcome [OF kernel_star] by (fastforce dest!: single_outcome split: sum.split_asm)
  note s1 = star_source [OF kernel_modules_ok star]
  have "module_path lang" using s1(1) st1(1) by (simp add: registry_ok_def)
  then have "zuo_module_to_hash_star one_file_sys ?c 0 VFalse lang st1 = Some (Inr (md, st1))"
    using st1 by (simp add: module_to_hash_star [OF s1(1)])
  then have lang: "loads one_file_sys ?c VFalse (=) lang st1 md st1" by (rule loads_found) (rule st1(2))
  have "m_pending st3 = [?p]"
    using got s1(2) by (auto simp: zuo_get_read_and_eval_def kernel_modules_def zuo_declare_kernel_module_def
        split: prod.split_asm zval.split_asm option.split_asm)
  then obtain st' where "zuo_register_module (=) ?p (VTrie zuo_trie_node) st3 = Inr (VTrie zuo_trie_node, st')"
    by (simp add: zuo_register_module_def)
  then have l: "loads one_file_sys ?c VFalse (=) ?p kernel_modules (VTrie zuo_trie_node) st'"
    by (rule loads_source [OF star lang got body_done])
  have "m_pending kernel_modules = []"
    by (simp add: kernel_modules_def zuo_declare_kernel_module_def split: prod.split)
  then show ?thesis using modules_loaded_once [OF kernel_modules_ok l, of ?c VFalse] l by auto
qed

end
