(* ===== verification/Zuo_Process.thy ===== *)
theory Zuo_Process
  imports Zuo_Streams
begin

text \<open>
  Signals, cleanables and processes of \<^verbatim>\<open>zuo.c\<close> in the Unix configuration: suspending signals, the table of
  what is cleaned up on exit, \<^verbatim>\<open>process\<close> with its options, redirections and the calls that the new process
  makes before it runs its program, and \<^verbatim>\<open>process-wait\<close>. The system calls extend those of \<open>Zuo_Streams\<close>. A call
  to \<^verbatim>\<open>fork\<close> hands the calls of the child to the system and returns what the parent sees. The table of cleanables is a trie
  (theory \<open>Zuo_Trie\<close>); a key object that is a handle stands in it as the symbol with the handle's id.
\<close>

unbundle bit_operations_syntax

section \<open>System calls\<close>

datatype wait_status = Exited int | Terminated int

datatype child_call =
    C_Unblock | C_Dup2 int int | C_Close int | C_Chdir string
  | C_Exec "string list" "string list option" | C_Write string | C_Exit

text \<open>The argument of a list of calls tells whether the change of directory in it succeeds.\<close>

record 'w psys = "'w sys" +
  sys_pipe :: "'w \<Rightarrow> (int \<times> int) option \<times> 'w"
  sys_fork :: "(bool \<Rightarrow> child_call list) \<Rightarrow> 'w \<Rightarrow> int \<times> 'w"
  sys_wait :: "'w \<Rightarrow> (int \<times> wait_status) option \<times> 'w"
  sys_waitpid :: "int \<Rightarrow> 'w \<Rightarrow> 'w"
  sys_unlink :: "string \<Rightarrow> 'w \<Rightarrow> 'w"
  sys_sigmask :: "bool \<Rightarrow> 'w \<Rightarrow> 'w"

abbreviation stream_sys :: "'w psys \<Rightarrow> 'w sys" where "stream_sys \<equiv> sys.truncate"

text \<open>The table of cleanables is absent during start-up; the table of processes is a map from their numbers.\<close>

record 'w zproc =
  p_io :: "'w zio"
  p_suspended :: nat
  p_pids :: "int \<rightharpoonup> zval"
  p_cleanable :: "zval trie option"

definition on_world :: "('w \<Rightarrow> 'w) \<Rightarrow> 'w zproc \<Rightarrow> 'w zproc" where
  "on_world f st = st\<lparr>p_io := (p_io st)\<lparr>io_world := f (io_world (p_io st))\<rparr>\<rparr>"

section \<open>Signals\<close>

definition zuo_suspend_signal :: "'w psys \<Rightarrow> 'w zproc \<Rightarrow> 'w zproc" where
  "zuo_suspend_signal sys st =
     (let st' = (if p_suspended st = 0 then on_world (sys_sigmask sys True) st else st)
      in st'\<lparr>p_suspended := p_suspended st + 1\<rparr>)"

definition zuo_resume_signal :: "'w psys \<Rightarrow> 'w zproc \<Rightarrow> 'w zproc" where
  "zuo_resume_signal sys st =
     (if p_suspended st = 0 then st
      else
        let st' = st\<lparr>p_suspended := p_suspended st - 1\<rparr>
        in if p_suspended st' = 0 then on_world (sys_sigmask sys False) st' else st')"

section \<open>Cleanables\<close>

definition handle_key :: "zval \<Rightarrow> symbol" where
  "handle_key p = (case p of VHandle i \<Rightarrow> Symbol i [] | _ \<Rightarrow> Symbol 0 [])"

definition zuo_register_cleanable :: "zval \<Rightarrow> zval \<Rightarrow> 'w zproc \<Rightarrow> 'w zproc" where
  "zuo_register_cleanable p v st =
     st\<lparr>p_cleanable := map_option (\<lambda>t. zuo_trie_extend t (handle_key p) v) (p_cleanable st)\<rparr>"

definition zuo_unregister_cleanable :: "zval \<Rightarrow> 'w zproc \<Rightarrow> 'w zproc" where
  "zuo_unregister_cleanable p st =
     st\<lparr>p_cleanable := map_option (\<lambda>t. zuo_trie_remove t (handle_key p)) (p_cleanable st)\<rparr>"

text \<open>
  The keys of the table of descriptors, here in the order in which their handles were made; the
  order of a trie is another one, but closing one of them does not affect the others.
\<close>

definition open_fds :: "'w zio \<Rightarrow> zval list" where
  "open_fds io =
     filter (\<lambda>h. case handle_of h io of
         Some x \<Rightarrow> (case io_fds io (h_raw x) of Some (h', _) \<Rightarrow> h' = h | None \<Rightarrow> False)
       | None \<Rightarrow> False)
       (map (\<lambda>i. VHandle (int i)) [0..<length (io_handles io)])"

definition raw_of :: "'w zio \<Rightarrow> zval \<Rightarrow> int" where
  "raw_of io h = (case handle_of h io of Some x \<Rightarrow> h_raw x | None \<Rightarrow> -1)"

definition close_pipe :: "'w psys \<Rightarrow> zval \<Rightarrow> 'w zproc \<Rightarrow> 'w zproc" where
  "close_pipe sys h st =
     (case io_fds (p_io st) (raw_of (p_io st) h) of
        Some (_, True) \<Rightarrow> st\<lparr>p_io := zuo_close (stream_sys sys) (raw_of (p_io st) h) (p_io st)\<rparr>
      | _ \<Rightarrow> st)"

definition await_process :: "'w psys \<Rightarrow> zval trie \<Rightarrow> symbol \<Rightarrow> 'w zproc \<Rightarrow> 'w zproc" where
  "await_process sys table k st =
     (case zuo_trie_lookup table k of
        Some (VHandle i) \<Rightarrow> on_world (sys_waitpid sys (raw_of (p_io st) (VHandle i))) st
      | _ \<Rightarrow> st)"

definition delete_file :: "'w psys \<Rightarrow> zval trie \<Rightarrow> symbol \<Rightarrow> 'w zproc \<Rightarrow> 'w zproc" where
  "delete_file sys table k st =
     (case zuo_trie_lookup table k of
        Some (VString path) \<Rightarrow> on_world (sys_unlink sys path) st
      | _ \<Rightarrow> st)"

definition zuo_clean_all :: "'w psys \<Rightarrow> bool \<Rightarrow> 'w zproc \<Rightarrow> 'w zproc" where
  "zuo_clean_all sys skip_suspend st =
     (case p_cleanable st of
        None \<Rightarrow> st
      | Some table \<Rightarrow>
          let st = (if skip_suspend then st else zuo_suspend_signal sys st);
              keys = zuo_trie_keys table [];
              st = fold (close_pipe sys) (open_fds (p_io st)) st;
              st = fold (await_process sys table) keys st;
              st = fold (delete_file sys table) keys st;
              st = st\<lparr>p_cleanable := Some zuo_trie_node\<rparr>
          in if skip_suspend then st else zuo_resume_signal sys st)"

text \<open>What ends the process: an exit with a status, and a signal.\<close>

definition zuo_exit_int :: "'w psys \<Rightarrow> int \<Rightarrow> 'w zproc \<Rightarrow> int \<times> 'w zproc" where
  "zuo_exit_int sys v st = (v, zuo_clean_all sys False st)"

definition zuo_signal_received :: "'w psys \<Rightarrow> 'w zproc \<Rightarrow> int \<times> 'w zproc" where
  "zuo_signal_received sys st = (1, zuo_clean_all sys False st)"

definition zuo_cleanable_file :: "'w psys \<Rightarrow> zval \<Rightarrow> 'w zproc \<Rightarrow> (zval \<times> 'w zproc) res" where
  "zuo_cleanable_file sys path st =
     rbind (check_path_string ''cleanable-file'' path) (\<lambda>_.
       case zuo_handle 0 Cleanable (p_io st) of (p, io) \<Rightarrow>
         let st = st\<lparr>p_io := io\<rparr>;
             st = zuo_suspend_signal sys st;
             st = zuo_register_cleanable p path st
         in Inr (p, zuo_resume_signal sys st))"

definition zuo_cleanable_cancel :: "'w psys \<Rightarrow> zval \<Rightarrow> 'w zproc \<Rightarrow> (zval \<times> 'w zproc) res" where
  "zuo_cleanable_cancel sys p st =
     (if map_option h_status (handle_of p (p_io st)) \<noteq> Some Cleanable
      then Inl (Fail_Arg ''cleanable-cancel'' ''cleanable handle'' p)
      else
        let st = zuo_suspend_signal sys st;
            st = zuo_unregister_cleanable p st
        in Inr (VVoid, zuo_resume_signal sys st))"

section \<open>Arguments of a process\<close>

text \<open>
  Strings are collected, nested lists are spliced into what follows, and a last argument that is
  neither holds the options, unless it came from a list.
\<close>

lemma list_p_zend: "zuo_list_p a = VTrue \<longleftrightarrow> zend a = VNull"
  by (induction a rule: zuo_list_p.induct) auto

lemma append_pair:
  "zuo_list_p a = VTrue \<Longrightarrow> zuo_append (VPair a (VPair d VNull)) = Inr (zlist_onto (zelems a) d)"
  by (simp add: zuo_append_def list_p_zend)

lemma size_zlist_onto: "zend a = VNull \<Longrightarrow> size (zlist_onto (zelems a) d) = size a + size d"
  by (induction a rule: zend.induct) auto

function process_args :: "zval \<Rightarrow> bool \<Rightarrow> string list \<Rightarrow> zval trie \<Rightarrow> (string list \<times> zval trie) res" where
  "process_args l can_options rev_args options =
     (case l of
        VPair a d \<Rightarrow>
          if a = VNull then process_args d can_options rev_args options
          else if is_pair a \<and> zuo_list_p a = VTrue then
            rbind (zuo_append (VPair a (VPair d VNull))) (\<lambda>l.
              process_args l (can_options \<and> d \<noteq> VNull) rev_args options)
          else (case a of
            VString s \<Rightarrow> process_args d can_options (s # rev_args) options
          | VTrie t \<Rightarrow>
              if can_options \<and> d = VNull then process_args d can_options rev_args t
              else Inl (Fail_Arg ''process'' ''string or list'' a)
          | _ \<Rightarrow>
              if can_options \<and> d = VNull then Inl (Fail_Arg ''process'' ''string, list, or hash table'' a)
              else Inl (Fail_Arg ''process'' ''string or list'' a))
      | _ \<Rightarrow> Inr (rev_args, options))"
  by auto
termination
  by (relation "measure (\<lambda>(l, can_options, rev_args, options). size l)")
    (auto simp: append_pair list_p_zend size_zlist_onto)

declare process_args.simps [simp del]

definition env_pair :: "zval \<Rightarrow> (string \<times> string) option" where
  "env_pair a =
     (case a of
        VPair (VString name) val \<Rightarrow>
          if CHR ''='' \<in> set name \<or> NUL \<in> set name then None
          else (case val of VString v \<Rightarrow> Some (name, v) | _ \<Rightarrow> None)
      | _ \<Rightarrow> None)"

fun env_pairs :: "zval \<Rightarrow> (string \<times> string) list option" where
  "env_pairs (VPair a ol) =
     (case env_pair a of None \<Rightarrow> None | Some nv \<Rightarrow> map_option (Cons nv) (env_pairs ol))"
| "env_pairs VNull = Some []"
| "env_pairs _ = None"

definition zuo_envvars_block :: "(string \<times> string) list \<Rightarrow> string list" where
  "zuo_envvars_block envvars = map (\<lambda>(name, val). name @ ''='' @ val) envvars"

section \<open>Redirections\<close>

definition zuo_pipe :: "'w psys \<Rightarrow> 'w zproc \<Rightarrow> ((int \<times> int) \<times> 'w zproc) res" where
  "zuo_pipe sys st =
     (case sys_pipe sys (io_world (p_io st)) of
        (None, w) \<Rightarrow> Inl (Fail ''pipe creation failed'')
      | (Some (r, w'), w) \<Rightarrow> Inr ((r, w'), on_world (\<lambda>_. w) st))"

definition proc_symbol :: "string \<Rightarrow> 'w zproc \<Rightarrow> symbol \<times> 'w zproc" where
  "proc_symbol name st = (case io_symbol name (p_io st) of (s, io) \<Rightarrow> (s, st\<lparr>p_io := io\<rparr>))"

definition proc_option :: "zval trie \<Rightarrow> string \<Rightarrow> 'w zproc \<Rightarrow> zval \<times> zval trie \<times> 'w zproc" where
  "proc_option options name st =
     (case zuo_consume_option options name (p_io st) of (opt, options, io) \<Rightarrow> (opt, options, st\<lparr>p_io := io\<rparr>))"

text \<open>
  The child's descriptor, the parent's one, and whether they are the ends of a new pipe. For the
  standard input the child has the end for reading, otherwise the end for writing.
\<close>

record redirect =
  r_child :: int
  r_parent :: int
  r_piped :: bool

definition redirect_option ::
  "'w psys \<Rightarrow> string \<Rightarrow> int \<Rightarrow> zval trie \<Rightarrow> 'w zproc \<Rightarrow> (redirect \<times> zval trie \<times> 'w zproc) res" where
  "redirect_option sys name std options st =
     (let status = (if std = 0 then Open_Fd_In else Open_Fd_Out);
          what = (if std = 0 then ''not 'pipe or an open input file descriptor'' else ''not 'pipe or an open output file descriptor'') in
      case proc_option options name st of (opt, options, st) \<Rightarrow>
        if opt = VUndefined then Inr (\<lparr>r_child = std, r_parent = std, r_piped = False\<rparr>, options, st)
        else case proc_symbol ''pipe'' st of (pipe, st) \<Rightarrow>
          if opt = VSymbol pipe then
            rbind (zuo_pipe sys st) (\<lambda>((r, w), st).
              Inr (if std = 0 then \<lparr>r_child = r, r_parent = w, r_piped = True\<rparr>
                   else \<lparr>r_child = w, r_parent = r, r_piped = True\<rparr>, options, st))
          else (case handle_of opt (p_io st) of
              Some h \<Rightarrow>
                if h_status h = status then Inr (\<lparr>r_child = h_raw h, r_parent = std, r_piped = False\<rparr>, options, st)
                else Inl (Fail1w ''process'' what opt)
            | None \<Rightarrow> Inl (Fail1w ''process'' what opt)))"

text \<open>The calls of the child up to the change of directory.\<close>

definition child_redirect :: "redirect \<Rightarrow> int \<Rightarrow> child_call list" where
  "child_redirect r std =
     (if r_child r \<noteq> std then C_Dup2 (r_child r) std # (if r_piped r then [C_Close (r_parent r)] else []) else [])"

definition child_setup :: "redirect \<Rightarrow> redirect \<Rightarrow> redirect \<Rightarrow> int list \<Rightarrow> child_call list" where
  "child_setup rin rout rerr fds =
     child_redirect rin 0 @ child_redirect rout 1 @ child_redirect rerr 2 @ map C_Close fds"

text \<open>The new program sees of each string what comes before a NUL.\<close>

definition exec_string :: "string \<Rightarrow> string" where
  "exec_string = takeWhile (\<lambda>c. c \<noteq> NUL)"

definition child_exec :: "zval \<Rightarrow> string list \<Rightarrow> string list option \<Rightarrow> bool \<Rightarrow> child_call list" where
  "child_exec dir argv env chdir_ok =
     (let run = [C_Exec (map exec_string argv) (map_option (map exec_string) env), C_Write ''exec failed\<newline>'', C_Exit] in
      case dir of
        VString d \<Rightarrow> C_Chdir d # (if chdir_ok then run else [C_Write ''chdir failed\<newline>'', C_Exit])
      | _ \<Rightarrow> run)"

section \<open>Starting a process\<close>

datatype outcome = Returned zval | Replaced_By "bool \<Rightarrow> child_call list"

definition parent_close :: "'w psys \<Rightarrow> redirect \<Rightarrow> 'w zproc \<Rightarrow> 'w zproc" where
  "parent_close sys r st =
     (if r_piped r then st\<lparr>p_io := zuo_close (stream_sys sys) (r_child r) (p_io st)\<rparr> else st)"

definition parent_stream ::
  "string \<Rightarrow> handle_status \<Rightarrow> redirect \<Rightarrow> zval trie \<times> 'w zproc \<Rightarrow> zval trie \<times> 'w zproc" where
  "parent_stream name status r rs =
     (case rs of (result, st) \<Rightarrow>
        if r_piped r then
          (case proc_symbol name st of (s, st) \<Rightarrow>
           case zuo_fd_handle (r_parent r) status True (p_io st) of (h, io) \<Rightarrow>
             (zuo_trie_extend result s h, st\<lparr>p_io := io\<rparr>))
        else (result, st))"

definition process_options ::
  "'w psys \<Rightarrow> nat \<Rightarrow> zval trie \<Rightarrow> 'w zproc \<Rightarrow>
     ((redirect \<times> redirect \<times> redirect) \<times> (zval \<times> string list option) \<times> (bool \<times> bool) \<times> 'w zproc) res" where
  "process_options sys argc options st =
     rbind (redirect_option sys ''stdin'' 0 options st) (\<lambda>(rin, options, st).
     rbind (redirect_option sys ''stdout'' 1 options st) (\<lambda>(rout, options, st).
     rbind (redirect_option sys ''stderr'' 2 options st) (\<lambda>(rerr, options, st).
     case proc_option options ''dir'' st of (dir, options, st) \<Rightarrow>
     rbind (if dir \<noteq> VUndefined then check_path_string ''process'' dir else Inr []) (\<lambda>_.
     case proc_option options ''env'' st of (opt, options, st) \<Rightarrow>
     rbind (if opt \<noteq> VUndefined then
              (case env_pairs opt of
                 None \<Rightarrow> Inl (Fail_Arg ''process'' ''valid environment variables list'' opt)
               | Some vars \<Rightarrow> Inr (Some (zuo_envvars_block vars)))
            else Inr None) (\<lambda>env.
     case proc_option options ''cleanable?'' st of (opt, options, st) \<Rightarrow>
     let no_wait = (opt = VFalse) in
     case proc_option options ''exec?'' st of (opt, options, st) \<Rightarrow>
     let as_child = (opt = VFalse \<or> opt = VUndefined) in
     case proc_option options ''exact?'' st of (opt, options, st) \<Rightarrow>
     rbind (if opt = VFalse \<or> opt = VUndefined then Inr ()
            else if argc \<noteq> 2 then Inl (Fail1w ''process'' ''too many arguments for 'exact? mode'' opt)
            else Inl (Fail1w ''process'' (CHR 0x27 # ''exact? mode not suported'') opt)) (\<lambda>_.
     rbind (check_options_consumed ''process'' options) (\<lambda>_.
       Inr ((rin, rout, rerr), (dir, env), (no_wait, as_child), st))))))))"

definition register_process :: "'w psys \<Rightarrow> int \<Rightarrow> bool \<Rightarrow> 'w zproc \<Rightarrow> zval \<times> 'w zproc" where
  "register_process sys pid no_wait st =
     (case zuo_handle pid Process_Running (p_io st) of (p, io) \<Rightarrow>
        let st = st\<lparr>p_io := io, p_pids := (p_pids st)(pid \<mapsto> p)\<rparr>
        in (p, if no_wait then st else zuo_register_cleanable p p st))"

definition process_command :: "string \<Rightarrow> string res" where
  "process_command command =
     (if zuo_path_is_absolute command then Inr command
      else rbind (zuo_split_path (VString command)) (\<lambda>parts. rbind (ucar parts) (\<lambda>base.
        Inr (if base = VFalse then zuo_build_raw_path2 ''.'' command else command))))"

text \<open>
  With the option \<^verbatim>\<open>exec?\<close> the process cleans up and goes on as the child would. Otherwise the parent registers
  the child, closes the child's ends of the pipes and returns handles for its own.
\<close>

definition zuo_process :: "'w psys \<Rightarrow> zval \<Rightarrow> 'w zproc \<Rightarrow> (outcome \<times> 'w zproc) res" where
  "zuo_process sys command_and_args st =
     rbind (ucar command_and_args) (\<lambda>command. rbind (ucdr command_and_args) (\<lambda>args.
     rbind (check_path_string ''process'' command) (\<lambda>cmd.
     rbind (process_args args True [] zuo_trie_node) (\<lambda>(rev_args, options).
     rbind (process_command cmd) (\<lambda>cmd.
     rbind (process_options sys (length rev_args + 1) options st) (\<lambda>((rin, rout, rerr), (dir, env), (no_wait, as_child), st).
     let fds = map (raw_of (p_io st)) (open_fds (p_io st));
         unblock = (if p_suspended st = 0 then [C_Unblock] else []);
         script = (\<lambda>chdir_ok. unblock @ child_setup rin rout rerr fds @ child_exec dir (cmd # rev rev_args) env chdir_ok);
         st = zuo_suspend_signal sys st
     in if \<not> as_child then Inr (Replaced_By script, zuo_clean_all sys False st)
        else
          case sys_fork sys script (io_world (p_io st)) of (pid, w) \<Rightarrow>
          let st = on_world (\<lambda>_. w) st
          in if pid \<le> 0 then Inl (Fail ''exec failed'')
             else
               case register_process sys pid no_wait st of (p_handle, st) \<Rightarrow>
               let st = zuo_resume_signal sys st;
                   st = parent_close sys rerr (parent_close sys rout (parent_close sys rin st))
               in case proc_symbol ''process'' st of (s, st) \<Rightarrow>
                  case parent_stream ''stderr'' Open_Fd_In rerr
                        (parent_stream ''stdout'' Open_Fd_In rout
                          (parent_stream ''stdin'' Open_Fd_Out rin (zuo_trie_extend zuo_trie_node s p_handle, st))) of
                    (result, st) \<Rightarrow> Inr (Returned (VTrie result), st)))))))"

section \<open>Waiting\<close>

text \<open>The test lets every handle pass: no status is both of the two that it is compared with.\<close>

definition is_process_handle :: "zval \<Rightarrow> 'w zproc \<Rightarrow> bool" where
  "is_process_handle p st =
     (case handle_of p (p_io st) of
        Some h \<Rightarrow> h_status h \<noteq> Process_Done \<or> h_status h \<noteq> Process_Running
      | None \<Rightarrow> False)"

text \<open>
  The result of a process shares its memory with the descriptor of a handle, which has 32 bits; the
  other half of it, in a handle that has no result, is whatever was there.
\<close>

definition handle_result :: "32 word \<Rightarrow> handle \<Rightarrow> zval" where
  "handle_result junk h =
     (if h_status h = Process_Done then VInteger (word_of_int (h_raw h))
      else VInteger (push_bit 32 (ucast junk) OR ucast (word_of_int (h_raw h) :: 32 word)))"

definition zuo_process_status :: "32 word \<Rightarrow> zval \<Rightarrow> 'w zproc \<Rightarrow> (zval \<times> 'w zproc) res" where
  "zuo_process_status junk p st =
     (if \<not> is_process_handle p st then Inl (Fail_Arg ''process-status'' ''process handle'' p)
      else case handle_of p (p_io st) of
        Some h \<Rightarrow>
          if h_status h = Process_Running then (case proc_symbol ''running'' st of (s, st) \<Rightarrow> Inr (VSymbol s, st))
          else Inr (handle_result junk h, st)
      | None \<Rightarrow> Inl (UB ''handle''))"

definition status_code :: "wait_status \<Rightarrow> int" where
  "status_code stat_loc = (case stat_loc of Exited n \<Rightarrow> n | Terminated r \<Rightarrow> if r = 0 then 256 else r)"

definition set_result :: "zval \<Rightarrow> int \<Rightarrow> 'w zio \<Rightarrow> 'w zio" where
  "set_result p result io =
     (case p of
        VHandle i \<Rightarrow> io\<lparr>io_handles := (io_handles io)[nat i := \<lparr>h_raw = result, h_status = Process_Done\<rparr>]\<rparr>
      | _ \<Rightarrow> io)"

definition record_exit :: "'w psys \<Rightarrow> int \<Rightarrow> wait_status \<Rightarrow> 'w zproc \<Rightarrow> 'w zproc" where
  "record_exit sys pid stat_loc st =
     (case p_pids st pid of
        Some (VHandle i) \<Rightarrow>
          let p = VHandle i;
              st = st\<lparr>p_io := set_result p (status_code stat_loc) (p_io st), p_pids := (p_pids st)(pid := None)\<rparr>;
              st = zuo_suspend_signal sys st;
              st = zuo_unregister_cleanable p st
          in zuo_resume_signal sys st
      | _ \<Rightarrow> st)"

definition process_done :: "'w zproc \<Rightarrow> zval \<Rightarrow> bool" where
  "process_done st p \<longleftrightarrow> map_option h_status (handle_of p (p_io st)) = Some Process_Done"

fun wait_loop :: "'w psys \<Rightarrow> nat \<Rightarrow> zval list \<Rightarrow> 'w zproc \<Rightarrow> (zval \<times> 'w zproc) res option" where
  "wait_loop sys 0 ps st = None"
| "wait_loop sys (Suc n) ps st =
     (case find (process_done st) ps of
        Some p \<Rightarrow> Some (Inr (p, st))
      | None \<Rightarrow>
          (case sys_wait sys (io_world (p_io st)) of
             (None, w) \<Rightarrow> Some (Inl (Fail ''process wait failed''))
           | (Some (pid, stat_loc), w) \<Rightarrow> wait_loop sys n ps (record_exit sys pid stat_loc (on_world (\<lambda>_. w) st))))"

definition zuo_process_wait :: "'w psys \<Rightarrow> nat \<Rightarrow> zval \<Rightarrow> 'w zproc \<Rightarrow> (zval \<times> 'w zproc) res option" where
  "zuo_process_wait sys n pids_i st =
     (case find (\<lambda>p. \<not> is_process_handle p st) (zelems pids_i) of
        Some p \<Rightarrow> Some (Inl (Fail_Arg ''process-wait'' ''process handle'' p))
      | None \<Rightarrow> wait_loop sys n (zelems pids_i) st)"

end
