(* ===== verification/Zuo_Children.thy ===== *)
theory Zuo_Children
  imports Zuo_Process Zuo_Channel
begin

text \<open>
  What the process primitives of \<open>Zuo_Process\<close> promise: the descriptors that a new process sees, which handles
  \<^verbatim>\<open>process-status\<close> takes for processes, and that \<^verbatim>\<open>process-wait\<close> returns and attributes every exit to
  the handle of the process that exited.
\<close>

section \<open>The descriptors of a new process\<close>

text \<open>The effect of the child's calls on its table of descriptors, as POSIX defines them.\<close>

fun child_fds :: "child_call list \<Rightarrow> (int \<rightharpoonup> 'f) \<Rightarrow> (int \<rightharpoonup> 'f)" where
  "child_fds [] tab = tab"
| "child_fds (C_Dup2 old new # calls) tab = child_fds calls (if tab old = None then tab else tab(new := tab old))"
| "child_fds (C_Close fd # calls) tab = child_fds calls (tab(fd := None))"
| "child_fds (_ # calls) tab = child_fds calls tab"

lemma child_fds_append: "child_fds (xs @ ys) tab = child_fds ys (child_fds xs tab)"
proof (induction xs arbitrary: tab)
  case (Cons x xs)
  then show ?case by (cases x) (simp_all add: fun_upd_def)
qed simp

lemma child_fds_close: "child_fds (map C_Close fds) tab = (\<lambda>fd. if fd \<in> set fds then None else tab fd)"
  by (induction fds arbitrary: tab) auto

text \<open>A redirection: the child's end is open, and the parent's end of a pipe is not a standard descriptor.\<close>

definition redirect_ok :: "redirect \<Rightarrow> (int \<rightharpoonup> 'f) \<Rightarrow> bool" where
  "redirect_ok r tab \<longleftrightarrow> tab (r_child r) \<noteq> None \<and> (r_piped r \<longrightarrow> r_parent r \<notin> {0, 1, 2})"

definition closes :: "redirect \<Rightarrow> int \<Rightarrow> int \<Rightarrow> bool" where
  "closes r std fd \<longleftrightarrow> r_piped r \<and> r_child r \<noteq> std \<and> fd = r_parent r"

lemma child_redirect_fds:
  assumes "tab (r_child r) \<noteq> None" "\<not> closes r std std"
  shows "child_fds (child_redirect r std) tab fd =
    (if fd = std then tab (r_child r) else if closes r std fd then None else tab fd)"
  using assms by (auto simp: child_redirect_def closes_def)



section \<open>Status\<close>


text \<open>A state with one open stream and nothing else.\<close>

definition stream_state :: "'w \<Rightarrow> 'w zproc" where
  "stream_state w =
     \<lparr>p_io = \<lparr>io_mem = mem_init, io_handles = [\<lparr>h_raw = 4, h_status = Open_Fd_In\<rparr>], io_fds = Map.empty, io_world = w\<rparr>,
      p_suspended = 0, p_pids = Map.empty, p_cleanable = Some zuo_trie_node\<rparr>"


section \<open>Waiting\<close>

text \<open>The table of processes holds exactly the handles of running processes, each under its number.\<close>

definition pids_ok :: "'w zproc \<Rightarrow> bool" where
  "pids_ok st \<longleftrightarrow>
     (\<forall>pid h. p_pids st pid = Some h \<longrightarrow> handle_of h (p_io st) = Some \<lparr>h_raw = pid, h_status = Process_Running\<rparr>) \<and>
     (\<forall>h x. handle_of h (p_io st) = Some x \<longrightarrow> h_status x = Process_Running \<longrightarrow> p_pids st (h_raw x) = Some h)"

text \<open>
  What the code relies on: there are finitely many children whose end has not been reported, waiting
  reports the end of one of them with its own status, it only fails when there are none, and blocking
  signals has nothing to do with it.
\<close>

definition child_system :: "'w psys \<Rightarrow> ('w \<Rightarrow> int set) \<Rightarrow> ('w \<Rightarrow> int \<Rightarrow> wait_status) \<Rightarrow> bool" where
  "child_system sys kids fate \<longleftrightarrow>
     (\<forall>w. finite (kids w)) \<and>
     (\<forall>w pid s w'. sys_wait sys w = (Some (pid, s), w') \<longrightarrow>
        pid \<in> kids w \<and> s = fate w pid \<and> kids w' = kids w - {pid} \<and> (\<forall>q \<in> kids w'. fate w' q = fate w q)) \<and>
     (\<forall>w. kids w \<noteq> {} \<longrightarrow> fst (sys_wait sys w) \<noteq> None) \<and>
     (\<forall>b w. kids (sys_sigmask sys b w) = kids w \<and> fate (sys_sigmask sys b w) = fate w)"

lemma child_system_laws:
  assumes "child_system sys kids fate"
  shows finite_kids: "finite (kids w)"
    and wait_child: "sys_wait sys w = (Some (pid, s), w') \<Longrightarrow>
      pid \<in> kids w \<and> s = fate w pid \<and> kids w' = kids w - {pid} \<and> (\<forall>q \<in> kids w'. fate w' q = fate w q)"
    and wait_succeeds: "kids w \<noteq> {} \<Longrightarrow> fst (sys_wait sys w) \<noteq> None"
    and mask_kids: "kids (sys_sigmask sys b w) = kids w" "fate (sys_sigmask sys b w) = fate w"
  using assms unfolding child_system_def by blast+

abbreviation world :: "'w zproc \<Rightarrow> 'w" where "world st \<equiv> io_world (p_io st)"

text \<open>Handles change only in that processes end, each with the status of its own child.\<close>

definition exits :: "('w \<Rightarrow> int set) \<Rightarrow> ('w \<Rightarrow> int \<Rightarrow> wait_status) \<Rightarrow> 'w zproc \<Rightarrow> 'w zproc \<Rightarrow> bool" where
  "exits kids fate st st' \<longleftrightarrow> (\<forall>h. handle_of h (p_io st') =
     (case handle_of h (p_io st) of
        None \<Rightarrow> None
      | Some x \<Rightarrow>
          Some (if h_status x = Process_Running \<and> h_raw x \<notin> kids (world st')
                then \<lparr>h_raw = status_code (fate (world st) (h_raw x)), h_status = Process_Done\<rparr> else x)))"

lemma on_world_simps [simp]:
  "p_pids (on_world f st) = p_pids st" "p_cleanable (on_world f st) = p_cleanable st"
  "io_handles (p_io (on_world f st)) = io_handles (p_io st)" "io_fds (p_io (on_world f st)) = io_fds (p_io st)"
  "world (on_world f st) = f (world st)" "p_suspended (on_world f st) = p_suspended st"
  "handle_of h (p_io (on_world f st)) = handle_of h (p_io st)"
  by (simp_all add: on_world_def handle_of_cong [of "p_io st\<lparr>io_world := f (world st)\<rparr>" "p_io st"])

lemma suspend_simps [simp]:
  "p_pids (zuo_suspend_signal sys st) = p_pids st" "p_cleanable (zuo_suspend_signal sys st) = p_cleanable st"
  "io_handles (p_io (zuo_suspend_signal sys st)) = io_handles (p_io st)"
  "io_fds (p_io (zuo_suspend_signal sys st)) = io_fds (p_io st)"
  "p_suspended (zuo_suspend_signal sys st) = Suc (p_suspended st)"
  "handle_of h (p_io (zuo_suspend_signal sys st)) = handle_of h (p_io st)"
  by (simp_all add: zuo_suspend_signal_def Let_def)

lemma resume_simps [simp]:
  "p_pids (zuo_resume_signal sys st) = p_pids st" "p_cleanable (zuo_resume_signal sys st) = p_cleanable st"
  "io_handles (p_io (zuo_resume_signal sys st)) = io_handles (p_io st)"
  "io_fds (p_io (zuo_resume_signal sys st)) = io_fds (p_io st)"
  "p_suspended (zuo_resume_signal sys st) = p_suspended st - 1"
  "handle_of h (p_io (zuo_resume_signal sys st)) = handle_of h (p_io st)"
  by (simp_all add: zuo_resume_signal_def Let_def)

lemma unregister_simps [simp]:
  "p_pids (zuo_unregister_cleanable p st) = p_pids st" "p_io (zuo_unregister_cleanable p st) = p_io st"
  "p_suspended (zuo_unregister_cleanable p st) = p_suspended st"
  by (simp_all add: zuo_unregister_cleanable_def)

lemma handle_of_Some: "handle_of h io = Some x \<Longrightarrow> \<exists>i. h = VHandle i \<and> 0 \<le> i \<and> nat i < length (io_handles io) \<and> x = io_handles io ! nat i"
  by (auto simp: handle_of_def split: zval.split_asm if_split_asm)

lemma set_result_handle:
  assumes "handle_of h io = Some x"
  shows "handle_of g (set_result h r io) = (if g = h then Some \<lparr>h_raw = r, h_status = Process_Done\<rparr> else handle_of g io)"
proof -
  obtain i where i: "h = VHandle i" "0 \<le> i" "nat i < length (io_handles io)" using handle_of_Some [OF assms] by blast
  have "nat j \<noteq> nat i" if "0 \<le> j" "j \<noteq> i" for j using that i(2) by simp
  then show ?thesis using i by (cases g) (auto simp: handle_of_def set_result_def nth_list_update)
qed

text \<open>One exit is recorded.\<close>

lemma record_exit_known:
  assumes "pids_ok st" "p_pids st pid = Some h"
  shows "handle_of g (p_io (record_exit sys pid s st)) =
      (if g = h then Some \<lparr>h_raw = status_code s, h_status = Process_Done\<rparr> else handle_of g (p_io st))"
    and "p_pids (record_exit sys pid s st) = (p_pids st)(pid := None)"
    and "pids_ok (record_exit sys pid s st)"
proof -
  have h: "handle_of h (p_io st) = Some \<lparr>h_raw = pid, h_status = Process_Running\<rparr>" using assms by (simp add: pids_ok_def)
  then obtain i where i: "h = VHandle i" using handle_of_Some by blast
  show g: "handle_of g (p_io (record_exit sys pid s st)) =
      (if g = h then Some \<lparr>h_raw = status_code s, h_status = Process_Done\<rparr> else handle_of g (p_io st))" for g
    using assms(2) set_result_handle [OF h] by (simp add: record_exit_def i Let_def)
  show p: "p_pids (record_exit sys pid s st) = (p_pids st)(pid := None)"
    using assms(2) by (simp add: record_exit_def i Let_def)
  have q: "q = pid" if "p_pids st q = Some h" for q using that assms(1) h unfolding pids_ok_def by fastforce
  have u: "g = h" if "handle_of g (p_io st) = Some x" "h_status x = Process_Running" "h_raw x = pid" for g x
    using that assms unfolding pids_ok_def by fastforce
  show "pids_ok (record_exit sys pid s st)"
    unfolding pids_ok_def g p
  proof (intro conjI allI impI)
    fix q g
    assume "((p_pids st)(pid := None)) q = Some g"
    then have "q \<noteq> pid" "p_pids st q = Some g" by (auto split: if_split_asm)
    then show "(if g = h then Some \<lparr>h_raw = status_code s, h_status = Process_Done\<rparr> else handle_of g (p_io st)) =
        Some \<lparr>h_raw = q, h_status = Process_Running\<rparr>"
      using q assms(1) by (auto simp: pids_ok_def)
  next
    fix g x
    assume "(if g = h then Some \<lparr>h_raw = status_code s, h_status = Process_Done\<rparr> else handle_of g (p_io st)) = Some x"
      "h_status x = Process_Running"
    then have "g \<noteq> h" "handle_of g (p_io st) = Some x" "h_status x = Process_Running" by (auto split: if_split_asm)
    then show "((p_pids st)(pid := None)) (h_raw x) = Some g" using u assms(1) by (auto simp: pids_ok_def)
  qed
qed

lemma record_exit_unknown: "pids_ok st \<Longrightarrow> p_pids st pid = None \<Longrightarrow> record_exit sys pid s st = st"
  by (simp add: record_exit_def)

lemma record_exit_world:
  assumes "child_system sys kids fate"
  shows "kids (world (record_exit sys pid s st)) = kids (world st) \<and> fate (world (record_exit sys pid s st)) = fate (world st)"
  using mask_kids [OF assms]
  by (auto simp: record_exit_def Let_def zuo_suspend_signal_def zuo_resume_signal_def zuo_unregister_cleanable_def
      on_world_def set_result_def split: option.split zval.split)

lemma wait_step:
  assumes sys: "child_system sys kids fate"
    and "pids_ok st" "dom (p_pids st) \<subseteq> kids (world st)" "sys_wait sys (world st) = (Some (pid, s), w)"
  defines "st1 \<equiv> record_exit sys pid s (on_world (\<lambda>_. w) st)"
  shows "pids_ok st1 \<and> dom (p_pids st1) \<subseteq> kids (world st1) \<and> kids (world st1) = kids (world st) - {pid} \<and>
    pid \<in> kids (world st) \<and> exits kids fate st st1 \<and> (\<forall>q \<in> kids (world st1). fate (world st1) q = fate (world st) q)"
proof -
  let ?st = "on_world (\<lambda>_. w) st"
  note w = wait_child [OF sys assms(4)]
  have k: "kids (world st1) = kids (world st) - {pid}" "fate (world st1) = fate w"
    using record_exit_world [OF sys, of pid s ?st] w by (simp_all add: st1_def)
  have ok: "pids_ok ?st" using assms(2) by (simp add: pids_ok_def)
  have running: "h_status x = Process_Running \<Longrightarrow> handle_of g (p_io st) = Some x \<Longrightarrow>
      p_pids st (h_raw x) = Some g \<and> h_raw x \<in> kids (world st)" for g x
    using assms(2,3) unfolding pids_ok_def by fastforce
  have "pids_ok st1 \<and> dom (p_pids st1) \<subseteq> kids (world st1) \<and> exits kids fate st st1"
  proof (cases "p_pids st pid")
    case None
    then have st1: "st1 = ?st" using ok by (simp add: st1_def record_exit_unknown)
    have "pid \<noteq> h_raw x" if "h_status x = Process_Running" "handle_of g (p_io st) = Some x" for g x
      using running [OF that] None by auto
    then have "exits kids fate st st1"
      using running k(1) unfolding exits_def by (auto simp: st1 split: option.split)
    moreover have "dom (p_pids st) \<subseteq> kids (world st) - {pid}" using assms(3) None by auto
    ultimately show ?thesis using ok k(1) by (simp add: st1)
  next
    case (Some h)
    then have p: "p_pids ?st pid = Some h" by simp
    note r = record_exit_known [OF ok p, where sys = sys and s = s, folded st1_def]
    have h: "handle_of h (p_io st) = Some \<lparr>h_raw = pid, h_status = Process_Running\<rparr>"
      using assms(2) Some by (simp add: pids_ok_def)
    have only: "g = h" if "handle_of g (p_io st) = Some x" "h_status x = Process_Running" "h_raw x = pid" for g x
      using running [OF that(2,1)] that(3) Some by simp
    have "handle_of g (p_io st1) = (case handle_of g (p_io st) of None \<Rightarrow> None
      | Some x \<Rightarrow> Some (if h_status x = Process_Running \<and> h_raw x \<notin> kids (world st1)
          then \<lparr>h_raw = status_code (fate (world st) (h_raw x)), h_status = Process_Done\<rparr> else x))" for g
    proof (cases "g = h")
      case True
      then show ?thesis using k(1) h w by (simp add: r(1))
    next
      case False
      show ?thesis
      proof (cases "handle_of g (p_io st)")
        case x: (Some x)
        then have "\<not> (h_status x = Process_Running \<and> h_raw x \<notin> kids (world st1))"
          using running [OF _ x] only [OF x] False k(1) by auto
        then show ?thesis using False x by (simp only: r(1) if_False option.case on_world_simps)
      qed (use False in \<open>simp add: r(1)\<close>)
    qed
    then have "exits kids fate st st1" by (simp add: exits_def)
    moreover have "dom (p_pids st1) \<subseteq> kids (world st1)" using assms(3) k(1) by (auto simp: r(2))
    ultimately show ?thesis using r(3) by simp
  qed
  then show ?thesis using k w by simp
qed

lemma exits_trans:
  assumes "exits kids fate st1 st2" "exits kids fate st2 st3" "kids (world st3) \<subseteq> kids (world st2)"
    "\<forall>q \<in> kids (world st2). fate (world st2) q = fate (world st1) q"
  shows "exits kids fate st1 st3"
  unfolding exits_def
proof
  fix h
  show "handle_of h (p_io st3) = (case handle_of h (p_io st1) of None \<Rightarrow> None
    | Some x \<Rightarrow> Some (if h_status x = Process_Running \<and> h_raw x \<notin> kids (world st3)
        then \<lparr>h_raw = status_code (fate (world st1) (h_raw x)), h_status = Process_Done\<rparr> else x))"
    using assms(1) [unfolded exits_def, THEN spec, of h] assms(2) [unfolded exits_def, THEN spec, of h] assms(3,4)
    by (auto split: option.split)
qed

definition reaps :: "('w \<Rightarrow> int set) \<Rightarrow> ('w \<Rightarrow> int \<Rightarrow> wait_status) \<Rightarrow> 'w zproc \<Rightarrow> 'w zproc \<Rightarrow> bool" where
  "reaps kids fate st st' \<longleftrightarrow> pids_ok st' \<and> dom (p_pids st') \<subseteq> kids (world st') \<and> kids (world st') \<subseteq> kids (world st) \<and>
     (\<forall>q \<in> kids (world st'). fate (world st') q = fate (world st) q) \<and> exits kids fate st st'"

lemma reaps_refl:
  assumes "pids_ok st" "dom (p_pids st) \<subseteq> kids (world st)"
  shows "reaps kids fate st st"
proof -
  have "h_raw x \<in> kids (world st)" if "handle_of h (p_io st) = Some x" "h_status x = Process_Running" for h x
    using that assms unfolding pids_ok_def by fastforce
  then show ?thesis using assms by (auto simp: reaps_def exits_def split: option.split)
qed

lemma reaps_trans:
  assumes "reaps kids fate st1 st2" "reaps kids fate st2 st3"
  shows "reaps kids fate st1 st3"
proof -
  have "exits kids fate st1 st3"
    by (rule exits_trans [of kids fate st1 st2]) (use assms in \<open>simp_all add: reaps_def\<close>)
  moreover have "fate (world st3) q = fate (world st1) q" if "q \<in> kids (world st3)" for q
    using assms that unfolding reaps_def by (metis subsetD)
  ultimately show ?thesis using assms by (auto simp: reaps_def)
qed

lemma wait_loop_returns:
  assumes sys: "child_system sys kids fate" and "pids_ok st" "dom (p_pids st) \<subseteq> kids (world st)" "card (kids (world st)) < n"
    "p \<in> set ps" "handle_of p (p_io st) = Some x" "h_status x = Process_Running \<or> h_status x = Process_Done"
  shows "\<exists>p' st'. wait_loop sys n ps st = Some (Inr (p', st')) \<and> p' \<in> set ps \<and> process_done st' p' \<and> reaps kids fate st st'"
  using assms(2-)
proof (induction n arbitrary: st x)
  case (Suc n)
  show ?case
  proof (cases "find (process_done st) ps")
    case (Some p')
    then have "p' \<in> set ps" "process_done st p'" by (auto simp: find_Some_iff)
    then show ?thesis using Some reaps_refl [where kids = kids and fate = fate, OF Suc.prems(1,2)] by simp
  next
    case None
    then have "\<not> process_done st p" using Suc.prems(4) by (auto simp: find_None_iff)
    then have run: "h_status x = Process_Running" using Suc.prems(5,6) by (auto simp: process_done_def)
    then have "h_raw x \<in> kids (world st)" using Suc.prems(1,2,5) unfolding pids_ok_def by fastforce
    then have "fst (sys_wait sys (world st)) \<noteq> None" using wait_succeeds [OF sys] by blast
    then obtain pid s w where w: "sys_wait sys (world st) = (Some (pid, s), w)"
      by (cases "sys_wait sys (world st)") auto
    let ?st1 = "record_exit sys pid s (on_world (\<lambda>_. w) st)"
    note step = wait_step [OF sys Suc.prems(1,2) w]
    then have r: "reaps kids fate st ?st1" unfolding reaps_def by blast
    have "card (kids (world ?st1)) < card (kids (world st))"
      using step finite_kids [OF sys, of "world st"] by (metis card_Diff1_less)
    then have n: "card (kids (world ?st1)) < n" using Suc.prems(3) by simp
    obtain x1 where "handle_of p (p_io ?st1) = Some x1" "h_status x1 = Process_Running \<or> h_status x1 = Process_Done"
      using r Suc.prems(5) run unfolding reaps_def exits_def by (fastforce split: if_split_asm)
    note x1 = this
    have "pids_ok ?st1" "dom (p_pids ?st1) \<subseteq> kids (world ?st1)" using r by (simp_all only: reaps_def)
    from Suc.IH [OF this n Suc.prems(4) x1] obtain p' st' where
      "wait_loop sys n ps ?st1 = Some (Inr (p', st'))" "p' \<in> set ps" "process_done st' p'" "reaps kids fate ?st1 st'" by auto
    moreover have "wait_loop sys (Suc n) ps st = wait_loop sys n ps ?st1" using None w by simp
    ultimately show ?thesis using reaps_trans [OF r] by metis
  qed
qed simp

text \<open>
  C14: \<^verbatim>\<open>process-wait\<close> on handles of processes returns, after at most as many waits as there are children, one
  of the handles, whose process has ended. Every child that was waited for on the way is accounted for: the
  handle of a process has the status with which its own child ended, the handles of
  running children and all other handles are as before, and waiting for the same handles again returns at once.
\<close>

theorem process_wait_returns:
  assumes "child_system sys kids fate" "pids_ok st" "dom (p_pids st) \<subseteq> kids (world st)" "card (kids (world st)) < n" "ps \<noteq> []"
    "\<forall>p \<in> set ps. \<exists>x. handle_of p (p_io st) = Some x \<and> (h_status x = Process_Running \<or> h_status x = Process_Done)"
  shows "\<exists>p st'. zuo_process_wait sys n (zlist ps) st = Some (Inr (p, st')) \<and> p \<in> set ps \<and> process_done st' p \<and>
    exits kids fate st st' \<and> pids_ok st' \<and> dom (p_pids st') \<subseteq> kids (world st') \<and> kids (world st') \<subseteq> kids (world st) \<and>
    (\<exists>p'. zuo_process_wait sys 1 (zlist ps) st' = Some (Inr (p', st')))"
proof -
  have checked: "find (\<lambda>p. \<not> is_process_handle p st') ps = None" if "\<forall>p \<in> set ps. handle_of p (p_io st') \<noteq> None" for st' :: "'a zproc"
    using that by (fastforce simp: find_None_iff is_process_handle_def)
  obtain p x where "p \<in> set ps" "handle_of p (p_io st) = Some x" "h_status x = Process_Running \<or> h_status x = Process_Done"
    using assms(5,6) by (metis list.set_intros(1) neq_Nil_conv)
  then obtain p' st' where w: "wait_loop sys n ps st = Some (Inr (p', st'))" "p' \<in> set ps" "process_done st' p'"
    and r: "reaps kids fate st st'"
    using wait_loop_returns [OF assms(1-4)] by metis
  have e: "exits kids fate st st'" "pids_ok st'" "dom (p_pids st') \<subseteq> kids (world st')" "kids (world st') \<subseteq> kids (world st)"
    using r unfolding reaps_def by blast+
  have "handle_of p (p_io st') \<noteq> None" if "p \<in> set ps" for p
    using e(1) assms(6) that unfolding exits_def by (metis (no_types, lifting) option.case(2) option.distinct(1))
  then have c: "find (\<lambda>p. \<not> is_process_handle p st) ps = None" "find (\<lambda>p. \<not> is_process_handle p st') ps = None"
    using assms(6) by (auto intro!: checked)
  obtain p'' where "find (process_done st') ps = Some p''" using w(2,3) by (cases "find (process_done st') ps") (auto simp: find_None_iff)
  then have "zuo_process_wait sys 1 (zlist ps) st' = Some (Inr (p'', st'))" using c(2) by (simp add: zuo_process_wait_def)
  then show ?thesis using w e c(1) by (auto simp: zuo_process_wait_def)
qed

text \<open>A system whose children end in the order of a list.\<close>

definition ended_sys :: "(int \<times> wait_status) list psys" where
  "ended_sys = \<lparr>sys_open = (\<lambda>_ _ w. (-1, w)), sys_close = (\<lambda>_ w. w), sys_read = (\<lambda>_ _ w. (Read_Error, w)),
     sys_write = (\<lambda>_ _ w. (-1, w)), sys_getfl = (\<lambda>_ w. (0, w)), sys_setfl = (\<lambda>_ _ w. (0, w)),
     sys_pipe = Pair None, sys_fork = (\<lambda>_ w. (-1, w)),
     sys_wait = (\<lambda>w. case w of [] \<Rightarrow> (None, []) | (pid, s) # w \<Rightarrow> (Some (pid, s), filter (\<lambda>q. fst q \<noteq> pid) w)),
     sys_waitpid = (\<lambda>_ w. w), sys_unlink = (\<lambda>_ w. w), sys_sigmask = (\<lambda>_ w. w)\<rparr>"

definition ended_kids :: "(int \<times> wait_status) list \<Rightarrow> int set" where
  "ended_kids w = fst ` set w"

definition ended_fate :: "(int \<times> wait_status) list \<Rightarrow> int \<Rightarrow> wait_status" where
  "ended_fate w pid = the (map_of w pid)"

lemma child_system_ended: "child_system ended_sys ended_kids ended_fate"
proof -
  have "map_of (filter (\<lambda>q. fst q \<noteq> pid) w) r = map_of w r" if "r \<noteq> pid" for pid r and w :: "(int \<times> wait_status) list"
    using that by (induction w) auto
  then show ?thesis
    by (auto simp: child_system_def ended_sys_def ended_kids_def ended_fate_def split: list.split_asm list.split prod.split_asm)
qed

text \<open>Two running processes; a third child, of some other part of the program, ends before them.\<close>

definition two_running :: "(int \<times> wait_status) list zproc" where
  "two_running =
     \<lparr>p_io = \<lparr>io_mem = mem_init, io_handles = [\<lparr>h_raw = 7, h_status = Process_Running\<rparr>, \<lparr>h_raw = 8, h_status = Process_Running\<rparr>],
        io_fds = Map.empty, io_world = [(9, Exited 0), (8, Exited 3), (7, Terminated 9)]\<rparr>,
      p_suspended = 0, p_pids = [7 \<mapsto> VHandle 0, 8 \<mapsto> VHandle 1], p_cleanable = Some zuo_trie_node\<rparr>"

lemma two_running_handle:
  "handle_of h (p_io two_running) =
     (if h = VHandle 0 then Some \<lparr>h_raw = 7, h_status = Process_Running\<rparr>
      else if h = VHandle 1 then Some \<lparr>h_raw = 8, h_status = Process_Running\<rparr> else None)"
proof -
  have "nat i = 0 \<longleftrightarrow> i \<le> 0" "nat i < 2 \<longleftrightarrow> i < 2" for i by auto
  then show ?thesis
    by (cases h) (auto simp: two_running_def handle_of_def nth_Cons' numeral_2_eq_2)
qed

theorem process_wait_returns_witness:
  "\<exists>p st'. zuo_process_wait ended_sys 4 (VPair (VHandle 0) (VPair (VHandle 1) VNull)) two_running = Some (Inr (p, st')) \<and>
     p \<in> {VHandle 0, VHandle 1} \<and> process_done st' p"
proof -
  have "pids_ok two_running"
    by (auto simp: pids_ok_def two_running_handle) (auto simp: two_running_def split: if_split_asm)
  moreover have "dom (p_pids two_running) \<subseteq> ended_kids (world two_running)" "card (ended_kids (world two_running)) < 4"
    by (auto simp: two_running_def ended_kids_def split: if_split_asm)
  ultimately show ?thesis
    using process_wait_returns [OF child_system_ended, of two_running 4 "[VHandle 0, VHandle 1]"]
    by (auto simp: two_running_handle)
qed

end
