(* ===== verification/Zuo_Cleanup.thy ===== *)
theory Zuo_Cleanup
  imports Zuo_Children
begin

text \<open>
  What an exit cleans up. Operations that make handles, register and cancel files, start and end
  processes, and open and close streams are mirrored on a specification that keeps maps from handles to what is to be
  cleaned up; the calls of \<^verbatim>\<open>zuo_clean_all\<close> are read off the maps.
\<close>

section \<open>The calls of an exit\<close>

datatype clean_call = Mask bool | Close_Fd int | Wait_For int | Delete string

primrec perform :: "'w psys \<Rightarrow> clean_call \<Rightarrow> 'w \<Rightarrow> 'w" where
  "perform sys (Mask b) = sys_sigmask sys b"
| "perform sys (Close_Fd fd) = sys_close (stream_sys sys) fd"
| "perform sys (Wait_For pid) = sys_waitpid sys pid"
| "perform sys (Delete path) = sys_unlink sys path"

lemma raw_of_cong: "io_handles io = io_handles io' \<Longrightarrow> raw_of io = raw_of io'"
  by (simp add: raw_of_def fun_eq_iff handle_of_cong [of io io'])

lemma close_pipes:
  "\<exists>fds. world (fold (close_pipe sys) hs st) = fold (perform sys) (map Close_Fd fds) (world st) \<and>
     io_handles (p_io (fold (close_pipe sys) hs st)) = io_handles (p_io st) \<and>
     p_suspended (fold (close_pipe sys) hs st) = p_suspended st \<and>
     distinct fds \<and> set fds = {raw \<in> raw_of (p_io st) ` set hs. \<exists>h. io_fds (p_io st) raw = Some (h, True)}"
proof (induction hs arbitrary: st)
  case (Cons h hs)
  let ?st = "close_pipe sys h st" and ?raw = "raw_of (p_io st) h"
  obtain fds where fds: "world (fold (close_pipe sys) hs ?st) = fold (perform sys) (map Close_Fd fds) (world ?st)"
    "io_handles (p_io (fold (close_pipe sys) hs ?st)) = io_handles (p_io ?st)"
    "p_suspended (fold (close_pipe sys) hs ?st) = p_suspended ?st"
    "distinct fds" "set fds = {raw \<in> raw_of (p_io ?st) ` set hs. \<exists>h. io_fds (p_io ?st) raw = Some (h, True)}"
    using Cons.IH by blast
  show ?case
  proof (cases "\<exists>g. io_fds (p_io st) ?raw = Some (g, True)")
    case True
    then have st: "?st = st\<lparr>p_io := zuo_close (stream_sys sys) ?raw (p_io st)\<rparr>" by (auto simp: close_pipe_def)
    have "raw_of (p_io ?st) = raw_of (p_io st)" by (rule raw_of_cong) (simp add: st zuo_close_def)
    then show ?thesis using fds True by (intro exI [of _ "?raw # fds"]) (auto simp: st zuo_close_def)
  next
    case False
    then have "?st = st" by (auto simp: close_pipe_def split: option.split bool.split prod.split)
    then show ?thesis using fds False by (intro exI [of _ fds]) auto
  qed
qed simp

lemma close_pipes_cleanable: "p_cleanable (fold (close_pipe sys) hs st) = p_cleanable st"
proof (induction hs arbitrary: st)
  case (Cons h hs)
  have "p_cleanable (close_pipe sys h st) = p_cleanable st"
    by (simp add: close_pipe_def split: option.split bool.split prod.split)
  then show ?case using Cons by simp
qed simp

definition awaited :: "'w zio \<Rightarrow> zval trie \<Rightarrow> symbol \<Rightarrow> int option" where
  "awaited io t k = (case zuo_trie_lookup t k of Some (VHandle i) \<Rightarrow> Some (raw_of io (VHandle i)) | _ \<Rightarrow> None)"

definition deleted :: "zval trie \<Rightarrow> symbol \<Rightarrow> string option" where
  "deleted t k = (case zuo_trie_lookup t k of Some (VString p) \<Rightarrow> Some p | _ \<Rightarrow> None)"

lemma on_world_on_world: "on_world f (on_world g st) = on_world (\<lambda>w. f (g w)) st"
  by (simp add: on_world_def)

lemma await_processes:
  "fold (await_process sys t) ks st =
     on_world (fold (perform sys) (map Wait_For (List.map_filter (awaited (p_io st) t) ks))) st"
proof (induction ks arbitrary: st)
  case (Cons k ks)
  have raw: "raw_of (p_io (on_world f st)) = raw_of (p_io st)" for f by (rule raw_of_cong) simp
  have awaited: "awaited (p_io (on_world f st)) t = awaited (p_io st) t" for f by (rule ext) (simp only: awaited_def raw)
  have "await_process sys t k st =
      (case awaited (p_io st) t k of None \<Rightarrow> st | Some pid \<Rightarrow> on_world (sys_waitpid sys pid) st)"
    by (simp add: await_process_def awaited_def split: option.split zval.split)
  then show ?case
    using Cons by (cases "awaited (p_io st) t k") (simp_all add: map_filter_simps awaited on_world_on_world)
qed (simp add: map_filter_simps on_world_def)

lemma delete_files:
  "fold (delete_file sys t) ks st = on_world (fold (perform sys) (map Delete (List.map_filter (deleted t) ks))) st"
proof (induction ks arbitrary: st)
  case (Cons k ks)
  have "delete_file sys t k st = (case deleted t k of None \<Rightarrow> st | Some p \<Rightarrow> on_world (sys_unlink sys p) st)"
    by (simp add: delete_file_def deleted_def split: option.split zval.split)
  then show ?case using Cons by (cases "deleted t k") (simp_all add: map_filter_simps on_world_on_world)
qed (simp add: map_filter_simps on_world_def)

section \<open>The history of an exit\<close>

datatype clean_op =
    Add_File string | Cancel zval | Start int bool | Ended int wait_status | Stream int bool | Pipe_End int bool | Close_Stream zval

text \<open>A stream is for input or for output; the end of a pipe stands in the table of descriptors.\<close>

definition stream_status :: "bool \<Rightarrow> handle_status" where
  "stream_status inp = (if inp then Open_Fd_In else Open_Fd_Out)"

definition succeeded :: "('a \<times> 's) res \<Rightarrow> 's option" where
  "succeeded r = (case r of Inr (v, st) \<Rightarrow> Some st | Inl e \<Rightarrow> None)"

definition clean_step :: "'w psys \<Rightarrow> clean_op \<Rightarrow> 'w zproc \<Rightarrow> 'w zproc option" where
  "clean_step sys oper st =
     (case oper of
        Add_File path \<Rightarrow> succeeded (zuo_cleanable_file sys (VString path) st)
      | Cancel h \<Rightarrow> succeeded (zuo_cleanable_cancel sys h st)
      | Start pid no_wait \<Rightarrow>
          Some (zuo_resume_signal sys (snd (register_process sys pid no_wait (zuo_suspend_signal sys st))))
      | Ended pid s \<Rightarrow> Some (record_exit sys pid s st)
      | Stream raw inp \<Rightarrow> Some (st\<lparr>p_io := snd (zuo_handle raw (stream_status inp) (p_io st))\<rparr>)
      | Pipe_End raw inp \<Rightarrow> Some (st\<lparr>p_io := snd (zuo_fd_handle raw (stream_status inp) True (p_io st))\<rparr>)
      | Close_Stream h \<Rightarrow>
          map_option (\<lambda>io. st\<lparr>p_io := io\<rparr>) (succeeded (zuo_fd_close (stream_sys sys) h (p_io st))))"

fun clean_run :: "'w psys \<Rightarrow> clean_op list \<Rightarrow> 'w zproc \<Rightarrow> 'w zproc option" where
  "clean_run sys [] st = Some st"
| "clean_run sys (oper # ops) st = (case clean_step sys oper st of None \<Rightarrow> None | Some st \<Rightarrow> clean_run sys ops st)"

text \<open>
  The specification numbers the handles, and maps those of registered files to their paths, those of processes to wait
  for to the numbers of the processes, and the numbers of all running processes to their handles.
\<close>

record clean_spec =
  c_next :: int
  c_files :: "int \<rightharpoonup> string"
  c_procs :: "int \<rightharpoonup> int"
  c_pids :: "int \<rightharpoonup> int"

definition spec_start :: clean_spec where
  "spec_start = \<lparr>c_next = 0, c_files = Map.empty, c_procs = Map.empty, c_pids = Map.empty\<rparr>"

primrec spec_step :: "clean_op \<Rightarrow> clean_spec \<Rightarrow> clean_spec" where
  "spec_step (Add_File path) g = g\<lparr>c_next := c_next g + 1, c_files := (c_files g)(c_next g \<mapsto> path)\<rparr>"
| "spec_step (Cancel h) g = (case h of VHandle i \<Rightarrow> g\<lparr>c_files := (c_files g)(i := None)\<rparr> | _ \<Rightarrow> g)"
| "spec_step (Start pid no_wait) g =
     g\<lparr>c_next := c_next g + 1, c_pids := (c_pids g)(pid \<mapsto> c_next g),
       c_procs := (if no_wait then c_procs g else (c_procs g)(c_next g \<mapsto> pid))\<rparr>"
| "spec_step (Ended pid s) g =
     (case c_pids g pid of
        None \<Rightarrow> g
      | Some i \<Rightarrow> g\<lparr>c_pids := (c_pids g)(pid := None), c_procs := (c_procs g)(i := None)\<rparr>)"
| "spec_step (Stream raw inp) g = g\<lparr>c_next := c_next g + 1\<rparr>"
| "spec_step (Pipe_End raw inp) g = g\<lparr>c_next := c_next g + 1\<rparr>"
| "spec_step (Close_Stream h) g = g"

definition clean_start :: "'w \<Rightarrow> 'w zproc" where
  "clean_start w =
     \<lparr>p_io = \<lparr>io_mem = mem_init, io_handles = [], io_fds = Map.empty, io_world = w\<rparr>,
      p_suspended = 0, p_pids = Map.empty, p_cleanable = Some zuo_trie_node\<rparr>"

text \<open>The handle with a number.\<close>

definition hnd :: "'w zproc \<Rightarrow> int \<Rightarrow> handle option" where
  "hnd st i = handle_of (VHandle i) (p_io st)"

definition cleanables :: "clean_spec \<Rightarrow> int \<rightharpoonup> zval" where
  "cleanables g i = (case c_files g i of Some p \<Rightarrow> Some (VString p) | None \<Rightarrow> map_option (\<lambda>_. VHandle i) (c_procs g i))"

definition mirrors :: "'w zproc \<Rightarrow> clean_spec \<Rightarrow> bool" where
  "mirrors st g \<longleftrightarrow>
     p_suspended st = 0 \<and> c_next g = int (length (io_handles (p_io st))) \<and>
     (\<exists>t. p_cleanable st = Some t \<and> trie_wf t \<and> trie_keyed t \<and> trie_abs t = cleanables g) \<and>
     (\<forall>i p. c_files g i = Some p \<longrightarrow> map_option h_status (hnd st i) = Some Cleanable) \<and>
     (\<forall>i pid. c_procs g i = Some pid \<longrightarrow> hnd st i = Some \<lparr>h_raw = pid, h_status = Process_Running\<rparr>) \<and>
     (\<forall>pid i. c_pids g pid = Some i \<longrightarrow> hnd st i = Some \<lparr>h_raw = pid, h_status = Process_Running\<rparr>) \<and>
     p_pids st = (\<lambda>pid. map_option VHandle (c_pids g pid)) \<and> fds_ok (p_io st)"

lemma mirrors_start: "mirrors (clean_start w) spec_start"
  by (simp add: mirrors_def clean_start_def spec_start_def cleanables_def fun_eq_iff fds_ok_def trie_map.inv_empty)

text \<open>Streams leave the handles of files and of processes alone.\<close>

lemma mirrors_streams:
  assumes "mirrors st g" "fd_safe (p_io st) io" "int (length (io_handles io)) = c_next g + d"
  shows "mirrors (st\<lparr>p_io := io\<rparr>) (g\<lparr>c_next := c_next g + d\<rparr>)"
proof -
  let ?st = "st\<lparr>p_io := io\<rparr>"
  have keep: "hnd ?st i = Some x" if x: "hnd st i = Some x" "\<not> open_stream x" for i x
  proof -
    obtain x' where "handle_of (VHandle i) io = Some x'" "h_raw x' = h_raw x" "h_status x' = h_status x"
      using assms(2) x unfolding fd_safe_def handles_grow_def hnd_def by blast
    then show ?thesis by (simp add: hnd_def)
  qed
  have files: "map_option h_status (hnd ?st i) = Some Cleanable" if "map_option h_status (hnd st i) = Some Cleanable" for i
    using that keep by (auto simp: open_stream_def)
  have procs: "hnd ?st i = Some \<lparr>h_raw = pid, h_status = Process_Running\<rparr>"
    if "hnd st i = Some \<lparr>h_raw = pid, h_status = Process_Running\<rparr>" for i pid
    using that by (rule keep) (simp add: open_stream_def)
  have "cleanables (g\<lparr>c_next := c_next g + d\<rparr>) = cleanables g" by (simp add: cleanables_def fun_eq_iff split: option.split)
  then show ?thesis using assms files procs unfolding mirrors_def by (auto simp: fd_safe_def)
qed

text \<open>A new handle has the next number.\<close>

lemma mirrors_next: "mirrors st g \<Longrightarrow> hnd st (c_next g) = None"
  by (simp add: mirrors_def hnd_def handle_of_def)

lemma mirrors_trie:
  assumes "trie_wf t" "trie_keyed t" "trie_abs t = m" "0 \<le> i"
  shows "trie_wf (zuo_trie_extend t (handle_key (VHandle i)) v) \<and> trie_keyed (zuo_trie_extend t (handle_key (VHandle i)) v) \<and>
      trie_abs (zuo_trie_extend t (handle_key (VHandle i)) v) = m(i \<mapsto> v)"
    and "trie_wf (zuo_trie_remove t (handle_key (VHandle i))) \<and> trie_keyed (zuo_trie_remove t (handle_key (VHandle i))) \<and>
      trie_abs (zuo_trie_remove t (handle_key (VHandle i))) = m(i := None)"
  using trie_abs_apply [of t "Op_Extend (Symbol i []) v"] trie_abs_apply [of t "Op_Remove (Symbol i [])"] assms
  by (simp_all add: handle_key_def)

lemma mirrors_new:
  assumes "mirrors st g" "zuo_handle raw status (p_io st) = (h, io)"
    and "io_handles (p_io st') = io_handles io" "io_fds (p_io st') = io_fds io"
  shows "h = VHandle (c_next g)" "0 \<le> c_next g" "int (length (io_handles (p_io st'))) = c_next g + 1"
    and "hnd st' i = (if i = c_next g then Some \<lparr>h_raw = raw, h_status = status\<rparr> else hnd st i)"
    and "fds_ok (p_io st')"
proof -
  have n: "c_next g = int (length (io_handles (p_io st)))" "fds_ok (p_io st)" using assms(1) by (simp_all add: mirrors_def)
  then show h: "h = VHandle (c_next g)" "0 \<le> c_next g" "int (length (io_handles (p_io st'))) = c_next g + 1"
    using assms(2,3) by (auto simp: zuo_handle_def)
  have st': "handle_of v (p_io st') = handle_of v io" for v by (rule handle_of_cong) (rule assms(3))
  show "hnd st' i = (if i = c_next g then Some \<lparr>h_raw = raw, h_status = status\<rparr> else hnd st i)"
    using handle_of_new [OF assms(2)] h(1) by (simp add: hnd_def st')
  have "io_fds io = io_fds (p_io st)" using assms(2) by (auto simp: zuo_handle_def)
  then show "fds_ok (p_io st')"
    using n(2) new_handle(2) [OF assms(2)] assms(4) unfolding fds_ok_def st' by metis
qed

lemma mirrors_fresh:
  assumes "mirrors st g"
  shows "c_files g (c_next g) = None" "c_procs g (c_next g) = None" "c_pids g pid \<noteq> Some (c_next g)"
  using assms mirrors_next [OF assms] unfolding mirrors_def by force+

lemma mirrors_add_file:
  assumes "mirrors st g" "clean_step sys (Add_File path) st = Some st'"
  shows "mirrors st' (spec_step (Add_File path) g)"
proof -
  let ?n = "c_next g"
  obtain t where t: "p_cleanable st = Some t" "trie_wf t" "trie_keyed t" "trie_abs t = cleanables g"
    using assms(1) by (auto simp: mirrors_def)
  obtain h io where new: "zuo_handle 0 Cleanable (p_io st) = (h, io)" by (cases "zuo_handle 0 Cleanable (p_io st)")
  have st': "st' = zuo_resume_signal sys (zuo_register_cleanable h (VString path) (zuo_suspend_signal sys (st\<lparr>p_io := io\<rparr>)))"
    using assms(2) new by (cases "check_path_string ''cleanable-file'' (VString path)")
      (simp_all add: clean_step_def zuo_cleanable_file_def succeeded_def Let_def)
  have same: "io_handles (p_io st') = io_handles io" "io_fds (p_io st') = io_fds io" "p_pids st' = p_pids st"
    "p_suspended st' = p_suspended st" "p_cleanable st' = Some (zuo_trie_extend t (handle_key h) (VString path))"
    using t(1) by (simp_all add: st' zuo_register_cleanable_def)
  note n = mirrors_new [OF assms(1) new same(1,2)]
  have "(cleanables g)(?n \<mapsto> VString path) = cleanables (spec_step (Add_File path) g)"
    using mirrors_fresh [OF assms(1)] by (simp add: cleanables_def fun_eq_iff split: option.split)
  then have "\<exists>t. p_cleanable st' = Some t \<and> trie_wf t \<and> trie_keyed t \<and> trie_abs t = cleanables (spec_step (Add_File path) g)"
    using mirrors_trie(1) [OF t(2-4) n(2), of "VString path"] same(5) n(1) by simp
  then show ?thesis
    using assms(1) n(3-5) same(3,4) mirrors_fresh [OF assms(1)] unfolding mirrors_def by auto
qed

lemma mirrors_start_process:
  assumes "mirrors st g" "clean_step sys (Start pid no_wait) st = Some st'"
  shows "mirrors st' (spec_step (Start pid no_wait) g)"
proof -
  let ?n = "c_next g"
  obtain t where t: "p_cleanable st = Some t" "trie_wf t" "trie_keyed t" "trie_abs t = cleanables g"
    using assms(1) by (auto simp: mirrors_def)
  obtain h io where new: "zuo_handle pid Process_Running (p_io st) = (h, io)" by (cases "zuo_handle pid Process_Running (p_io st)")
  obtain h' io' where new': "zuo_handle pid Process_Running (p_io (zuo_suspend_signal sys st)) = (h', io')"
    by (cases "zuo_handle pid Process_Running (p_io (zuo_suspend_signal sys st))")
  have h': "h' = h" "io_handles io' = io_handles io" "io_fds io' = io_fds io"
    using new new' by (auto simp: zuo_handle_def)
  have st': "st' = zuo_resume_signal sys (snd (register_process sys pid no_wait (zuo_suspend_signal sys st)))"
    using assms(2) by (simp add: clean_step_def)
  have same: "io_handles (p_io st') = io_handles io" "io_fds (p_io st') = io_fds io" "p_pids st' = (p_pids st)(pid \<mapsto> h)"
    "p_suspended st' = p_suspended st"
    "p_cleanable st' = Some (if no_wait then t else zuo_trie_extend t (handle_key h) h)"
    using t(1) by (simp_all add: st' register_process_def new' h' zuo_register_cleanable_def Let_def)
  note n = mirrors_new [OF assms(1) new same(1,2)]
  have "cleanables (spec_step (Start pid no_wait) g) = (if no_wait then cleanables g else (cleanables g)(?n \<mapsto> VHandle ?n))"
    using mirrors_fresh [OF assms(1)] by (simp add: cleanables_def fun_eq_iff split: option.split)
  then have "\<exists>t. p_cleanable st' = Some t \<and> trie_wf t \<and> trie_keyed t \<and> trie_abs t = cleanables (spec_step (Start pid no_wait) g)"
    using mirrors_trie(1) [OF t(2-4) n(2), of "VHandle ?n"] same(5) n(1) t(2-4) by simp
  then show ?thesis
    using assms(1) n(1,3-5) same(3,4) mirrors_fresh [OF assms(1)] unfolding mirrors_def by (auto simp: fun_eq_iff)
qed

lemma mirrors_cancel:
  assumes "mirrors st g" "clean_step sys (Cancel h) st = Some st'"
  shows "mirrors st' (spec_step (Cancel h) g)"
proof -
  obtain t where t: "p_cleanable st = Some t" "trie_wf t" "trie_keyed t" "trie_abs t = cleanables g"
    using assms(1) by (auto simp: mirrors_def)
  have "map_option h_status (handle_of h (p_io st)) = Some Cleanable"
    and st': "st' = zuo_resume_signal sys (zuo_unregister_cleanable h (zuo_suspend_signal sys st))"
    using assms(2) by (auto simp: clean_step_def zuo_cleanable_cancel_def succeeded_def Let_def split: if_split_asm)
  then obtain x where x: "handle_of h (p_io st) = Some x" "h_status x = Cleanable" by auto
  then obtain i where i: "h = VHandle i" "0 \<le> i" using handle_of_Some by blast
  have same: "io_handles (p_io st') = io_handles (p_io st)" "io_fds (p_io st') = io_fds (p_io st)" "p_pids st' = p_pids st"
    "p_suspended st' = p_suspended st" "p_cleanable st' = Some (zuo_trie_remove t (handle_key h))"
    using t(1) by (simp_all add: st' zuo_unregister_cleanable_def)
  have hnd: "hnd st' j = hnd st j" for j unfolding hnd_def by (rule handle_of_cong) (rule same(1))
  have fds: "fds_ok (p_io st')" using assms(1) same_fds [OF same(1,2)] by (simp add: mirrors_def)
  have "h_status y = Process_Running" if "c_procs g i = Some pid" "hnd st i = Some y" for pid y
    using assms(1) that unfolding mirrors_def by fastforce
  then have "c_procs g i = None" using x i(1) assms(1) by (cases "c_procs g i") (auto simp: hnd_def)
  then have "(cleanables g)(i := None) = cleanables (spec_step (Cancel h) g)"
    by (simp add: cleanables_def fun_eq_iff i split: option.split)
  then have "\<exists>t. p_cleanable st' = Some t \<and> trie_wf t \<and> trie_keyed t \<and> trie_abs t = cleanables (spec_step (Cancel h) g)"
    using mirrors_trie(2) [OF t(2-4) i(2)] same(5) i(1) by simp
  then show ?thesis using assms(1) fds same(1,3,4) unfolding mirrors_def hnd by (auto simp: i)
qed

lemma mirrors_ended:
  assumes "mirrors st g" "clean_step sys (Ended pid s) st = Some st'"
  shows "mirrors st' (spec_step (Ended pid s) g)"
proof (cases "c_pids g pid")
  case None
  then have "p_pids st pid = None" using assms(1) by (simp add: mirrors_def)
  then show ?thesis using assms None by (simp add: clean_step_def record_exit_def)
next
  case (Some i)
  obtain t where t: "p_cleanable st = Some t" "trie_wf t" "trie_keyed t" "trie_abs t = cleanables g"
    using assms(1) by (auto simp: mirrors_def)
  have p: "p_pids st pid = Some (VHandle i)" and i: "hnd st i = Some \<lparr>h_raw = pid, h_status = Process_Running\<rparr>"
    using assms(1) Some by (simp_all add: mirrors_def)
  then have i0: "0 \<le> i" using handle_of_Some by (fastforce simp: hnd_def)
  let ?io = "set_result (VHandle i) (status_code s) (p_io st)"
  have st': "st' = record_exit sys pid s st" using assms(2) by (simp add: clean_step_def)
  have same: "io_handles (p_io st') = io_handles ?io" "io_fds (p_io st') = io_fds (p_io st)" "p_pids st' = (p_pids st)(pid := None)"
    "p_suspended st' = p_suspended st" "p_cleanable st' = Some (zuo_trie_remove t (handle_key (VHandle i)))"
    using t(1) by (simp_all add: st' record_exit_def p Let_def zuo_unregister_cleanable_def set_result_def)
  have len: "length (io_handles (p_io st')) = length (io_handles (p_io st))" by (simp add: same set_result_def)
  have h: "handle_of v (p_io st') = (if v = VHandle i then Some \<lparr>h_raw = status_code s, h_status = Process_Done\<rparr> else handle_of v (p_io st))" for v
    using set_result_handle [of "VHandle i" "p_io st" "\<lparr>h_raw = pid, h_status = Process_Running\<rparr>" v "status_code s"] i
      handle_of_cong [of "p_io st'" ?io v] same(1) by (simp add: hnd_def)
  have hnd: "hnd st' j = (if j = i then Some \<lparr>h_raw = status_code s, h_status = Process_Done\<rparr> else hnd st j)" for j
    by (simp add: hnd_def h)
  have fds: "fds_ok (p_io st')" using assms(1) i unfolding mirrors_def fds_ok_def h same(2) by (fastforce simp: hnd_def)
  have files: "c_files g i = None" using assms(1) i unfolding mirrors_def by force
  have other: "j \<noteq> i" if "c_pids g q = Some j" "q \<noteq> pid" for q j using assms(1) i that unfolding mirrors_def by force
  have "(cleanables g)(i := None) = cleanables (spec_step (Ended pid s) g)"
    using files by (simp add: cleanables_def fun_eq_iff Some split: option.split)
  then have "\<exists>t. p_cleanable st' = Some t \<and> trie_wf t \<and> trie_keyed t \<and> trie_abs t = cleanables (spec_step (Ended pid s) g)"
    using mirrors_trie(2) [OF t(2-4) i0] same(5) by simp
  moreover have "p_pids st' = (\<lambda>q. map_option VHandle (c_pids (spec_step (Ended pid s) g) q))"
    using assms(1) by (simp add: mirrors_def same(3) Some fun_eq_iff)
  ultimately show ?thesis
    using assms(1) fds same(4) len files other unfolding mirrors_def hnd by (auto simp: Some split: if_split_asm)
qed

lemma mirrors_step:
  assumes "mirrors st g" "clean_step sys oper st = Some st'"
  shows "mirrors st' (spec_step oper g)"
proof (cases oper)
  case (Stream raw inp)
  obtain h io where h: "zuo_handle raw (stream_status inp) (p_io st) = (h, io)" by (cases "zuo_handle raw (stream_status inp) (p_io st)")
  then have "fd_safe (p_io st) io" by (rule zuo_handle_safe) (simp add: stream_status_def)
  moreover have "int (length (io_handles io)) = c_next g + 1" using h assms(1) by (auto simp: zuo_handle_def mirrors_def)
  ultimately have "mirrors (st\<lparr>p_io := io\<rparr>) (g\<lparr>c_next := c_next g + 1\<rparr>)" by (rule mirrors_streams [OF assms(1)])
  moreover have "st' = st\<lparr>p_io := io\<rparr>" using assms(2) h by (simp add: Stream clean_step_def)
  ultimately show ?thesis by (simp add: Stream)
next
  case (Pipe_End raw inp)
  obtain h io where h: "zuo_fd_handle raw (stream_status inp) True (p_io st) = (h, io)"
    by (cases "zuo_fd_handle raw (stream_status inp) True (p_io st)")
  then have "fd_safe (p_io st) io" by (rule zuo_fd_handle_safe) (simp add: stream_status_def)
  moreover have "int (length (io_handles io)) = c_next g + 1"
    using h assms(1) by (auto simp: zuo_fd_handle_def zuo_handle_def mirrors_def)
  ultimately have "mirrors (st\<lparr>p_io := io\<rparr>) (g\<lparr>c_next := c_next g + 1\<rparr>)" by (rule mirrors_streams [OF assms(1)])
  moreover have "st' = st\<lparr>p_io := io\<rparr>" using assms(2) h by (simp add: Pipe_End clean_step_def)
  ultimately show ?thesis by (simp add: Pipe_End)
next
  case (Close_Stream h)
  obtain v io where c: "zuo_fd_close (stream_sys sys) h (p_io st) = Inr (v, io)" "st' = st\<lparr>p_io := io\<rparr>"
    using assms(2) by (auto simp: Close_Stream clean_step_def succeeded_def split: sum.split_asm)
  have "length (io_handles io) = length (io_handles (p_io st))"
    using c(1) by (cases h) (auto simp: zuo_fd_close_def set_status_def zuo_close_def rbind_eq_Inr_iff)
  then have "int (length (io_handles io)) = c_next g + 0" using assms(1) by (simp add: mirrors_def)
  from mirrors_streams [OF assms(1) close_safe(1) [OF c(1)] this] show ?thesis by (simp add: Close_Stream c(2))
next
  case (Ended pid s)
  then show ?thesis using mirrors_ended [OF assms(1)] assms(2) by simp
qed (use assms mirrors_add_file mirrors_cancel mirrors_start_process in blast)+

lemma mirrors_run: "mirrors st g \<Longrightarrow> clean_run sys ops st = Some st' \<Longrightarrow> mirrors st' (fold spec_step ops g)"
proof (induction ops arbitrary: st g)
  case (Cons oper ops)
  then show ?case using mirrors_step by (fastforce split: option.split_asm)
qed simp

section \<open>Exits\<close>

lemma map_filter_ids:
  "\<forall>k \<in> set ks. f k = m (sym_id k) \<Longrightarrow>
   List.map_filter f ks = map (the \<circ> m) (filter (\<lambda>i. m i \<noteq> None) (map sym_id ks))"
  by (induction ks) (auto simp: map_filter_simps)

lemma mirrors_keys:
  assumes "mirrors st g" "p_cleanable st = Some t"
  defines "ids \<equiv> map sym_id (zuo_trie_keys t [])"
  shows "distinct ids" "set ids = dom (c_files g) \<union> dom (c_procs g)"
    and "List.map_filter (awaited (p_io st) t) (zuo_trie_keys t []) = map (the \<circ> c_procs g) (filter (\<lambda>i. c_procs g i \<noteq> None) ids)"
    and "List.map_filter (deleted t) (zuo_trie_keys t []) = map (the \<circ> c_files g) (filter (\<lambda>i. c_files g i \<noteq> None) ids)"
proof -
  have t: "trie_wf t \<and> trie_keyed t" "trie_abs t = cleanables g" using assms(1,2) by (auto simp: mirrors_def)
  show "distinct ids" unfolding ids_def using trie_map.keys_distinct [OF t(1)] by simp
  have dom: "set ids = dom (cleanables g)" using trie_abs_dom(1) [OF t(1)] t(2) by (simp add: ids_def)
  then show "set ids = dom (c_files g) \<union> dom (c_procs g)" by (auto simp: cleanables_def split: option.splits)
  have lookup: "zuo_trie_lookup t k = cleanables g (sym_id k)" if "k \<in> set (zuo_trie_keys t [])" for k
  proof -
    have "sym_id k \<in> set ids" using that by (simp add: ids_def)
    then have "sym_id k \<in> dom (trie_abs t)" by (simp only: dom t(2))
    then show ?thesis by (auto simp: zuo_trie_lookup_def t(2) [symmetric] trie_abs_def split: if_split_asm)
  qed
  have not_both: "c_files g i = None" if "c_procs g i = Some pid" for i pid using assms(1) that unfolding mirrors_def by force
  have raw: "raw_of (p_io st) (VHandle i) = pid" if "c_procs g i = Some pid" for i pid
    using assms(1) that unfolding mirrors_def by (auto simp: raw_of_def hnd_def)
  have "awaited (p_io st) t k = c_procs g (sym_id k)" if "k \<in> set (zuo_trie_keys t [])" for k
    using not_both raw
    by (cases "c_procs g (sym_id k)")
      (auto simp: awaited_def lookup [OF that] cleanables_def split: option.split)
  then show "List.map_filter (awaited (p_io st) t) (zuo_trie_keys t []) = map (the \<circ> c_procs g) (filter (\<lambda>i. c_procs g i \<noteq> None) ids)"
    unfolding ids_def by (intro map_filter_ids) blast
  have "deleted t k = c_files g (sym_id k)" if "k \<in> set (zuo_trie_keys t [])" for k
    by (auto simp: deleted_def lookup [OF that] cleanables_def map_option_case split: option.split)
  then show "List.map_filter (deleted t) (zuo_trie_keys t []) = map (the \<circ> c_files g) (filter (\<lambda>i. c_files g i \<noteq> None) ids)"
    unfolding ids_def by (intro map_filter_ids) blast
qed

text \<open>Every named descriptor of a pipe is among the open ones.\<close>

lemma open_fds_pipes:
  assumes "fds_ok io"
  shows "{raw \<in> raw_of io ` set (open_fds io). \<exists>h. io_fds io raw = Some (h, True)} = {raw. \<exists>h. io_fds io raw = Some (h, True)}"
proof -
  have "raw \<in> raw_of io ` set (open_fds io)" if e: "io_fds io raw = Some (h, True)" for raw h
  proof -
    obtain x where x: "handle_of h io = Some x" "h_raw x = raw" using assms e unfolding fds_ok_def by blast
    then obtain i where i: "h = VHandle i" "0 \<le> i" "nat i < length (io_handles io)" using handle_of_Some by blast
    then have "h = VHandle (int (nat i))" "nat i \<in> set [0..<length (io_handles io)]" by simp_all
    then have "h \<in> set (map (\<lambda>i. VHandle (int i)) [0..<length (io_handles io)])" unfolding set_map by (rule image_eqI)
    then have "h \<in> set (open_fds io)" using x e by (simp add: open_fds_def)
    moreover have "raw_of io h = raw" using x by (simp add: raw_of_def)
    ultimately show ?thesis by blast
  qed
  then show ?thesis by blast
qed

text \<open>
  C15: an exit, by whatever way the program ends, cleans up exactly what is due. After any operations that register and
  cancel files, start and end processes, and open and close streams, it blocks signals, closes each
  open pipe once, then waits once for each child that is not to be left alone and has not been reaped, then
  deletes each registered file that has not been cancelled, and afterwards nothing is registered.
\<close>

theorem exit_cleans_up:
  assumes "clean_run sys ops (clean_start w) = Some st"
  defines "g \<equiv> fold spec_step ops spec_start"
  shows "\<exists>fds procs files.
     set fds = {raw. \<exists>h. io_fds (p_io st) raw = Some (h, True)} \<and> distinct fds \<and>
     set procs = dom (c_procs g) \<and> distinct procs \<and> set files = dom (c_files g) \<and> distinct files \<and>
     (case zuo_exit_int sys v st of (status, st') \<Rightarrow>
        status = v \<and> p_cleanable st' = Some zuo_trie_node \<and>
        world st' = fold (perform sys)
          (Mask True # map Close_Fd fds @ map (\<lambda>i. Wait_For (the (c_procs g i))) procs @
           map (\<lambda>i. Delete (the (c_files g i))) files @ [Mask False]) (world st))"
proof -
  have m: "mirrors st g" unfolding g_def using mirrors_run [OF mirrors_start assms(1)] .
  then obtain t where t: "p_cleanable st = Some t" and zero: "p_suspended st = 0" and ok: "fds_ok (p_io st)"
    by (auto simp: mirrors_def)
  define st0 where "st0 = zuo_suspend_signal sys st"
  define st1 where "st1 = fold (close_pipe sys) (open_fds (p_io st0)) st0"
  have open0: "open_fds (p_io st0) = open_fds (p_io st)" "raw_of (p_io st0) = raw_of (p_io st)"
    by (auto simp: st0_def open_fds_def cong: option.case_cong intro: raw_of_cong)
  obtain fds where fds: "world st1 = fold (perform sys) (map Close_Fd fds) (world st0)"
    "io_handles (p_io st1) = io_handles (p_io st0)" "p_suspended st1 = p_suspended st0" "distinct fds"
    "set fds = {raw \<in> raw_of (p_io st0) ` set (open_fds (p_io st0)). \<exists>h. io_fds (p_io st0) raw = Some (h, True)}"
    using close_pipes [of sys "open_fds (p_io st0)" st0] unfolding st1_def by blast
  have fds_set: "set fds = {raw. \<exists>h. io_fds (p_io st) raw = Some (h, True)}"
    using fds(5) open_fds_pipes [OF ok] open0 by (simp add: st0_def)
  have "raw_of (p_io st1) = raw_of (p_io st)" by (rule raw_of_cong) (simp add: fds(2) st0_def)
  then have awaited: "awaited (p_io st1) t = awaited (p_io st) t" by (intro ext) (simp only: awaited_def)
  note keys = mirrors_keys [OF m t]
  let ?ids = "map sym_id (zuo_trie_keys t [])"
  define procs where "procs = filter (\<lambda>i. c_procs g i \<noteq> None) ?ids"
  define files where "files = filter (\<lambda>i. c_files g i \<noteq> None) ?ids"
  have lists: "set procs = dom (c_procs g)" "distinct procs" "set files = dom (c_files g)" "distinct files"
    using keys(1,2) by (auto simp: procs_def files_def)
  let ?keys = "zuo_trie_keys t []"
  have all: "zuo_clean_all sys False st = zuo_resume_signal sys
      ((fold (delete_file sys t) ?keys (fold (await_process sys t) ?keys st1))\<lparr>p_cleanable := Some zuo_trie_node\<rparr>)"
    by (simp add: zuo_clean_all_def t st1_def st0_def Let_def)
  have "p_suspended st0 = 1" "world st0 = sys_sigmask sys True (world st)"
    by (simp_all add: st0_def zero zuo_suspend_signal_def Let_def)
  then have "world (snd (zuo_exit_int sys v st)) = fold (perform sys)
      (Mask True # map Close_Fd fds @ map (\<lambda>i. Wait_For (the (c_procs g i))) procs @
       map (\<lambda>i. Delete (the (c_files g i))) files @ [Mask False]) (world st)"
    and "p_cleanable (snd (zuo_exit_int sys v st)) = Some zuo_trie_node" "fst (zuo_exit_int sys v st) = v"
    using fds(1,3)
    by (simp_all add: zuo_exit_int_def all await_processes delete_files awaited keys(3,4) zuo_resume_signal_def Let_def
        procs_def files_def comp_def)
  then show ?thesis using fds(4) fds_set lists
    by (intro exI [of _ fds] exI [of _ procs] exI [of _ files]) (simp add: split_def)
qed

text \<open>A system that records the calls.\<close>

definition log_sys :: "clean_call list psys" where
  "log_sys = \<lparr>sys_open = (\<lambda>_ _ w. (-1, w)), sys_close = (\<lambda>fd w. w @ [Close_Fd fd]), sys_read = (\<lambda>_ _ w. (Read_Error, w)),
     sys_write = (\<lambda>_ _ w. (-1, w)), sys_getfl = (\<lambda>_ w. (0, w)), sys_setfl = (\<lambda>_ _ w. (0, w)),
     sys_pipe = Pair None, sys_fork = (\<lambda>_ w. (-1, w)), sys_wait = Pair None,
     sys_waitpid = (\<lambda>pid w. w @ [Wait_For pid]), sys_unlink = (\<lambda>path w. w @ [Delete path]),
     sys_sigmask = (\<lambda>b w. w @ [Mask b])\<rparr>"

definition sample_ops :: "clean_op list" where
  "sample_ops = [Add_File ''a.tmp'', Start 7 False, Add_File ''b.tmp'', Pipe_End 5 True, Cancel (VHandle 0),
     Start 8 False, Ended 7 (Exited 0)]"

lemma sample_run: "clean_run log_sys sample_ops (clean_start []) \<noteq> None"
  by code_simp

theorem exit_cleans_up_witness:
  "\<exists>st fds. clean_run log_sys sample_ops (clean_start []) = Some st \<and>
     world (snd (zuo_exit_int log_sys 0 st)) =
       world st @ Mask True # map Close_Fd fds @ [Wait_For 8, Delete ''b.tmp'', Mask False]"
proof -
  obtain st where st: "clean_run log_sys sample_ops (clean_start []) = Some st" using sample_run by blast
  let ?g = "fold spec_step sample_ops spec_start"
  have g: "c_procs ?g = [4 \<mapsto> 8]" "c_files ?g = [2 \<mapsto> ''b.tmp'']"
    by (simp_all add: sample_ops_def spec_start_def fun_eq_iff)
  have one: "xs = [x]" if "set xs = {x}" "distinct xs" for x and xs :: "int list"
    using that by (cases xs) (auto simp: distinct_card [symmetric] dest: subset_singletonD)
  have log: "fold (perform log_sys) calls w = w @ calls" for calls w
  proof (induction calls arbitrary: w)
    case (Cons c calls)
    then show ?case by (cases c) (simp_all add: log_sys_def sys.truncate_def)
  qed simp
  have mask: "sys_sigmask log_sys b w = w @ [Mask b]" for b w by (simp add: log_sys_def)
  from exit_cleans_up [OF st, of 0] g obtain fds procs files where
    "set procs = {4}" "distinct procs" "set files = {2}" "distinct files"
    "world (snd (zuo_exit_int log_sys 0 st)) = fold (perform log_sys)
       (Mask True # map Close_Fd fds @ map (\<lambda>i. Wait_For (the (c_procs ?g i))) procs @
        map (\<lambda>i. Delete (the (c_files ?g i))) files @ [Mask False]) (world st)"
    by (auto simp: split_def)
  then show ?thesis using st g one [of procs 4] one [of files 2] by (auto simp: log mask)
qed

end
