(* ===== verification/Zuo_Files.thy ===== *)
theory Zuo_Files
  imports Zuo_Channel
begin

text \<open>
  Files and directories of \<^verbatim>\<open>zuo.c\<close> in the Unix configuration: status, deleting, moving, directories, links,
  copying, and the time. The calls extend those of \<open>Zuo_Streams\<close>. Reading a link and copying take a number
  of rounds. For \<^verbatim>\<open>cp\<close> it is shown what arrives at the destination when writes are partial.
\<close>

unbundle bit_operations_syntax

section \<open>System calls\<close>

text \<open>
  The fields of \<^verbatim>\<open>struct stat\<close> that the code reads, and the answer of the calls that fill it: \<^verbatim>\<open>ENOENT\<close> is told
  from other errors.
\<close>

record file_stat =
  st_mode :: int
  st_dev :: int
  st_ino :: int
  st_nlink :: int
  st_uid :: int
  st_gid :: int
  st_rdev :: int
  st_size :: int
  st_blksize :: int
  st_blocks :: int
  st_atim :: "int \<times> int"
  st_mtim :: "int \<times> int"
  st_ctim :: "int \<times> int"

datatype stat_answer = Stat_Ok file_stat | No_Entry | Stat_Error

text \<open>Calls without a result answer whether they succeeded.\<close>

record 'w fsys = "'w sys" +
  fs_stat :: "string \<Rightarrow> 'w \<Rightarrow> stat_answer \<times> 'w"
  fs_lstat :: "string \<Rightarrow> 'w \<Rightarrow> stat_answer \<times> 'w"
  fs_fstat :: "int \<Rightarrow> 'w \<Rightarrow> stat_answer \<times> 'w"
  fs_unlink :: "string \<Rightarrow> 'w \<Rightarrow> bool \<times> 'w"
  fs_rename :: "string \<Rightarrow> string \<Rightarrow> 'w \<Rightarrow> bool \<times> 'w"
  fs_mkdir :: "string \<Rightarrow> int \<Rightarrow> 'w \<Rightarrow> bool \<times> 'w"
  fs_rmdir :: "string \<Rightarrow> 'w \<Rightarrow> bool \<times> 'w"
  fs_readdir :: "string \<Rightarrow> 'w \<Rightarrow> string list option \<times> 'w"
  fs_readlink :: "string \<Rightarrow> nat \<Rightarrow> 'w \<Rightarrow> string option \<times> 'w"
  fs_symlink :: "string \<Rightarrow> string \<Rightarrow> 'w \<Rightarrow> bool \<times> 'w"
  fs_open_mode :: "string \<Rightarrow> int \<Rightarrow> int \<Rightarrow> 'w \<Rightarrow> int \<times> 'w"
  fs_fchmod :: "int \<Rightarrow> int \<Rightarrow> 'w \<Rightarrow> bool \<times> 'w"
  fs_time :: "'w \<Rightarrow> (int \<times> int) option \<times> 'w"

abbreviation file_sys :: "'w fsys \<Rightarrow> 'w sys" where "file_sys \<equiv> sys.truncate"

section \<open>Status\<close>

definition S_IFMT :: int where "S_IFMT = 0xF000"

definition S_ISDIR :: "int \<Rightarrow> bool" where "S_ISDIR mode \<longleftrightarrow> mode AND S_IFMT = 0x4000"
definition S_ISLNK :: "int \<Rightarrow> bool" where "S_ISLNK mode \<longleftrightarrow> mode AND S_IFMT = 0xA000"

definition stat_type :: "file_stat \<Rightarrow> string" where
  "stat_type buf = (if S_ISDIR (st_mode buf) then ''dir'' else if S_ISLNK (st_mode buf) then ''link'' else ''file'')"

definition stat_fields :: "file_stat \<Rightarrow> (string \<times> int) list" where
  "stat_fields buf =
     [(''mode'', st_mode buf), (''device-id'', st_dev buf), (''inode'', st_ino buf), (''hardlink-count'', st_nlink buf),
      (''user-id'', st_uid buf), (''group-id'', st_gid buf), (''device-id-for-special-file'', st_rdev buf),
      (''size'', st_size buf), (''block-size'', st_blksize buf), (''block-count'', st_blocks buf),
      (''access-time-seconds'', fst (st_atim buf)), (''access-time-nanoseconds'', snd (st_atim buf)),
      (''modify-time-seconds'', fst (st_mtim buf)), (''modify-time-nanoseconds'', snd (st_mtim buf)),
      (''change-time-seconds'', fst (st_ctim buf)), (''change-time-nanoseconds'', snd (st_ctim buf))]"

definition stat_put :: "string \<times> int \<Rightarrow> zval trie \<times> 'w zio \<Rightarrow> zval trie \<times> 'w zio" where
  "stat_put field rs =
     (case field of (name, i) \<Rightarrow> case rs of (result, st) \<Rightarrow> case io_symbol name st of (s, st) \<Rightarrow>
        (zuo_trie_extend result s (VInteger (word_of_int i)), st))"

definition zuo_stat :: "'w fsys \<Rightarrow> zval \<Rightarrow> zval \<Rightarrow> zval \<Rightarrow> 'w zio \<Rightarrow> (zval \<times> 'w zio) res" where
  "zuo_stat sys path follow_links false_on_error st =
     (let follow_links = (if follow_links = VUndefined then VTrue else follow_links);
          false_on_error = (if false_on_error = VUndefined then VFalse else false_on_error) in
      rbind (check_path_string ''stat'' path) (\<lambda>p.
      case (if follow_links = VFalse then fs_lstat sys p (io_world st) else fs_stat sys p (io_world st)) of (answer, w) \<Rightarrow>
        let st = st\<lparr>io_world := w\<rparr> in
        case answer of
          No_Entry \<Rightarrow> Inr (VFalse, st)
        | Stat_Error \<Rightarrow> if false_on_error = VFalse then Inl (Fail1w ''stat'' ''failed'' path) else Inr (VFalse, st)
        | Stat_Ok buf \<Rightarrow>
            (case io_symbol ''type'' st of (key, st) \<Rightarrow>
             case io_symbol (stat_type buf) st of (kind, st) \<Rightarrow>
             case fold stat_put (stat_fields buf) (zuo_trie_extend zuo_trie_node key (VSymbol kind), st) of (result, st) \<Rightarrow>
               Inr (VTrie result, st))))"

section \<open>Directory entries\<close>

definition file_call :: "string \<Rightarrow> zval \<Rightarrow> bool \<times> 'w \<Rightarrow> 'w zio \<Rightarrow> (zval \<times> 'w zio) res" where
  "file_call who obj answer st =
     (case answer of (ok, w) \<Rightarrow> if ok then Inr (VVoid, st\<lparr>io_world := w\<rparr>) else Inl (Fail1w who ''failed'' obj))"

definition zuo_rm :: "'w fsys \<Rightarrow> zval \<Rightarrow> 'w zio \<Rightarrow> (zval \<times> 'w zio) res" where
  "zuo_rm sys file_path st =
     rbind (check_path_string ''rm'' file_path) (\<lambda>p. file_call ''rm'' file_path (fs_unlink sys p (io_world st)) st)"

definition zuo_mv :: "'w fsys \<Rightarrow> zval \<Rightarrow> zval \<Rightarrow> 'w zio \<Rightarrow> (zval \<times> 'w zio) res" where
  "zuo_mv sys from_path to_path st =
     rbind (check_path_string ''mv'' from_path) (\<lambda>p. rbind (check_path_string ''mv'' to_path) (\<lambda>q.
       file_call ''mv'' (VPair from_path (VPair to_path VNull)) (fs_rename sys p q (io_world st)) st))"

definition zuo_mkdir :: "'w fsys \<Rightarrow> zval \<Rightarrow> 'w zio \<Rightarrow> (zval \<times> 'w zio) res" where
  "zuo_mkdir sys dir_path st =
     rbind (check_path_string ''mkdir'' dir_path) (\<lambda>p. file_call ''mkdir'' dir_path (fs_mkdir sys p 511 (io_world st)) st)"

definition zuo_rmdir :: "'w fsys \<Rightarrow> zval \<Rightarrow> 'w zio \<Rightarrow> (zval \<times> 'w zio) res" where
  "zuo_rmdir sys dir_path st =
     rbind (check_path_string ''rmdir'' dir_path) (\<lambda>p. file_call ''rmdir'' dir_path (fs_rmdir sys p (io_world st)) st)"

text \<open>The list is built in place, from its end.\<close>

fun ls_entries :: "string list \<Rightarrow> zval list" where
  "ls_entries [] = []"
| "ls_entries (d_name # es) =
     (if char_at d_name 0 = CHR ''.'' \<and> (char_at d_name 1 = NUL \<or> char_at d_name 1 = CHR ''.'' \<and> char_at d_name 2 = NUL)
      then ls_entries es else VString d_name # ls_entries es)"

definition zuo_ls :: "'w fsys \<Rightarrow> zval \<Rightarrow> 'w zio \<Rightarrow> (zval \<times> 'w zio) res" where
  "zuo_ls sys dir_path st =
     rbind (check_path_string ''ls'' dir_path) (\<lambda>p.
       case fs_readdir sys p (io_world st) of
         (None, w) \<Rightarrow> Inl (Fail1w ''ls'' ''failed'' dir_path)
       | (Some es, w) \<Rightarrow> Inr (zlist (ls_entries es), st\<lparr>io_world := w\<rparr>))"

section \<open>Links\<close>

fun readlink_loop :: "'w fsys \<Rightarrow> nat \<Rightarrow> zval \<Rightarrow> string \<Rightarrow> nat \<Rightarrow> 'w \<Rightarrow> (string \<times> 'w) res option" where
  "readlink_loop sys 0 link_path p buf_len w = None"
| "readlink_loop sys (Suc n) link_path p buf_len w =
     (case fs_readlink sys p buf_len w of
        (None, w) \<Rightarrow> Some (Inl (Fail1w ''readlink'' ''failed'' link_path))
      | (Some s, w) \<Rightarrow>
          if length s = buf_len then readlink_loop sys n link_path p (2 * buf_len) w else Some (Inr (s, w)))"

definition zuo_readlink :: "'w fsys \<Rightarrow> nat \<Rightarrow> zval \<Rightarrow> 'w zio \<Rightarrow> (zval \<times> 'w zio) res option" where
  "zuo_readlink sys n link_path st =
     (case check_path_string ''readlink'' link_path of
        Inl e \<Rightarrow> Some (Inl e)
      | Inr p \<Rightarrow> with_world st (map_option (map_sum id (\<lambda>(s, w). (VString s, w))) (readlink_loop sys n link_path p 256 (io_world st))))"

definition zuo_ln :: "'w fsys \<Rightarrow> zval \<Rightarrow> zval \<Rightarrow> 'w zio \<Rightarrow> (zval \<times> 'w zio) res" where
  "zuo_ln sys target_path link_path st =
     rbind (check_path_string ''symlink'' target_path) (\<lambda>p. rbind (check_path_string ''symlink'' link_path) (\<lambda>q.
       file_call ''symlink'' (VPair target_path (VPair link_path VNull)) (fs_symlink sys p q (io_world st)) st))"

section \<open>Copying\<close>

text \<open>
  The inner loop writes what remains of the buffer; each round writes from the start of the buffer, also
  after a partial write.
\<close>

fun cp_write :: "'w sys \<Rightarrow> nat \<Rightarrow> zval \<Rightarrow> int \<Rightarrow> string \<Rightarrow> nat \<Rightarrow> 'w \<Rightarrow> (unit \<times> 'w) res option" where
  "cp_write sys 0 dest_path dest_fd buf amt w = None"
| "cp_write sys (Suc n) dest_path dest_fd buf amt w =
     (if amt > 0 then
        (case sys_write sys dest_fd (take amt buf) w of
           (len, w) \<Rightarrow> if len < 0 then Some (Inl (Fail1w ''cp'' ''destination write failed'' dest_path))
                     else cp_write sys n dest_path dest_fd buf (amt - nat len) w)
      else Some (Inr ((), w)))"

fun cp_loop :: "'w sys \<Rightarrow> nat \<Rightarrow> zval \<Rightarrow> zval \<Rightarrow> int \<Rightarrow> int \<Rightarrow> 'w \<Rightarrow> (unit \<times> 'w) res option" where
  "cp_loop sys 0 src_path dest_path src_fd dest_fd w = None"
| "cp_loop sys (Suc n) src_path dest_path src_fd dest_fd w =
     (case sys_read sys src_fd 4096 w of
        (Got buf, w) \<Rightarrow>
          if buf = [] then Some (Inr ((), w))
          else (case cp_write sys (Suc n) dest_path dest_fd buf (length buf) w of
                  None \<Rightarrow> None
                | Some (Inl e) \<Rightarrow> Some (Inl e)
                | Some (Inr (_, w)) \<Rightarrow> cp_loop sys n src_path dest_path src_fd dest_fd w)
      | (_, w) \<Rightarrow> Some (Inl (Fail1w ''cp'' ''source read failed'' src_path)))"

definition cp_mode :: "zval \<Rightarrow> int option res" where
  "cp_mode perms =
     (if perms = VUndefined then Inr None
      else case perms of
        VInteger i \<Rightarrow>
          if sint i < 0 \<or> sint i > 65535 then Inl (Fail1w ''cp'' ''not an integer in 0 to 65535'' perms) else Inr (Some (sint i))
      | _ \<Rightarrow> Inl (Fail1w ''cp'' ''not an integer in 0 to 65535'' perms))"

text \<open>The test on the option \<^verbatim>\<open>replace-mode\<close>, which no value fails.\<close>

definition cp_replace_perms :: "zval \<Rightarrow> bool" where
  "cp_replace_perms replace_mode \<longleftrightarrow> replace_mode \<noteq> VUndefined \<or> replace_mode \<noteq> VFalse"

text \<open>The two descriptors that are copied between, with the mode of the new file.\<close>

definition cp_open :: "'w fsys \<Rightarrow> zval \<Rightarrow> zval \<Rightarrow> string \<Rightarrow> string \<Rightarrow> int option \<Rightarrow> bool \<Rightarrow> 'w \<Rightarrow> ((int \<times> int) \<times> 'w) res" where
  "cp_open sys src_path dest_path p q mode replace w =
     (case sys_open (file_sys sys) p O_RDONLY w of (src_fd, w) \<Rightarrow>
      if src_fd = -1 then Inl (Fail1w ''cp'' ''source open failed'' src_path)
      else
        rbind (case mode of
                 Some m \<Rightarrow> Inr (m, w)
               | None \<Rightarrow>
                   (case fs_fstat sys src_fd w of
                      (Stat_Ok buf, w) \<Rightarrow> Inr (st_mode buf, w)
                    | (_, w) \<Rightarrow> Inl (Fail1w ''cp'' ''source stat failed'' src_path))) (\<lambda>(m, w).
        case fs_open_mode sys q (O_WRONLY OR O_CREAT OR O_TRUNC) m w of (dest_fd, w) \<Rightarrow>
        if dest_fd = -1 then Inl (Fail1w ''cp'' ''destination open failed'' dest_path)
        else if replace then
          (case fs_fchmod sys dest_fd m w of (ok, w) \<Rightarrow>
             if ok then Inr ((src_fd, dest_fd), w)
             else Inl (Fail1w ''cp'' ''destination permissions update failed'' dest_path))
        else Inr ((src_fd, dest_fd), w)))"

definition cp_copy :: "'w sys \<Rightarrow> nat \<Rightarrow> zval \<Rightarrow> zval \<Rightarrow> int \<Rightarrow> int \<Rightarrow> 'w \<Rightarrow> (zval \<times> 'w) res option" where
  "cp_copy sys n src_path dest_path src_fd dest_fd w =
     map_option (map_sum id (\<lambda>(_, w). (VVoid, sys_close sys dest_fd (sys_close sys src_fd w))))
       (cp_loop sys n src_path dest_path src_fd dest_fd w)"

definition zuo_cp :: "'w fsys \<Rightarrow> nat \<Rightarrow> zval \<Rightarrow> zval \<Rightarrow> zval \<Rightarrow> 'w zio \<Rightarrow> (zval \<times> 'w zio) res option" where
  "zuo_cp sys n src_path dest_path options st =
     (case
        rbind (check_path_string ''cp'' src_path) (\<lambda>p. rbind (check_path_string ''cp'' dest_path) (\<lambda>q.
        rbind (check_hash ''cp'' (or_empty options)) (\<lambda>options.
        case zuo_consume_option options ''mode'' st of (perms, options, st) \<Rightarrow>
        rbind (cp_mode perms) (\<lambda>mode.
        case zuo_consume_option options ''replace-mode'' st of (replace_mode, options, st) \<Rightarrow>
        rbind (check_options_consumed ''cp'' options) (\<lambda>_.
        rbind (cp_open sys src_path dest_path p q mode (cp_replace_perms replace_mode) (io_world st)) (\<lambda>(fds, w).
          Inr (fds, st\<lparr>io_world := w\<rparr>))))))) of
        Inl e \<Rightarrow> Some (Inl e)
      | Inr ((src_fd, dest_fd), st) \<Rightarrow> with_world st (cp_copy (file_sys sys) n src_path dest_path src_fd dest_fd (io_world st)))"

section \<open>The time\<close>

text \<open>Seconds and microseconds, as \<^verbatim>\<open>gettimeofday\<close> returns them.\<close>

definition zuo_current_time :: "'w fsys \<Rightarrow> 'w zio \<Rightarrow> (zval \<times> 'w zio) res" where
  "zuo_current_time sys st =
     (case fs_time sys (io_world st) of
        (None, w) \<Rightarrow> Inl (Fail ''error getting time'')
      | (Some (tv_sec, tv_usec), w) \<Rightarrow>
          Inr (VPair (VInteger (word_of_int tv_sec)) (VInteger (word_of_int (tv_usec * 1000))), st\<lparr>io_world := w\<rparr>))"

section \<open>What is copied\<close>

text \<open>What arrives of a buffer that is written with transfers of the given sizes.\<close>

definition refill :: "string \<Rightarrow> nat list \<Rightarrow> string" where
  "refill buf ks = concat (map (\<lambda>k. take k buf) ks)"

inductive copied :: "string \<Rightarrow> string \<Rightarrow> bool" where
  copied_end: "copied [] []"
| copied_chunk: "sum_list ks = length c \<Longrightarrow> 0 \<notin> set ks \<Longrightarrow> c \<noteq> [] \<Longrightarrow> length c \<le> 4096 \<Longrightarrow> copied s t \<Longrightarrow>
    copied (c @ s) (refill c ks @ t)"

lemma refill_length: "sum_list ks \<le> length buf \<Longrightarrow> length (refill buf ks) = sum_list ks"
  by (induction ks) (auto simp: refill_def)

lemma copied_length: "copied s t \<Longrightarrow> length t = length s"
  by (induction rule: copied.induct) (simp_all add: refill_length)

text \<open>
  A source that is read in pieces and a destination that takes at least one byte in each write,
  neither changed by the other's calls or by closing.
\<close>

definition copy_system :: "'w sys \<Rightarrow> int \<Rightarrow> int \<Rightarrow> ('w \<Rightarrow> string) \<Rightarrow> ('w \<Rightarrow> string) \<Rightarrow> bool" where
  "copy_system sys src_fd dest_fd src dst \<longleftrightarrow>
     (\<forall>w. src w \<noteq> [] \<longrightarrow> (\<exists>k w'. sys_read sys src_fd 4096 w = (Got (take k (src w)), w') \<and> 0 < k \<and> k \<le> 4096 \<and>
        k \<le> length (src w) \<and> src w' = drop k (src w) \<and> dst w' = dst w)) \<and>
     (\<forall>w. src w = [] \<longrightarrow> (\<exists>w'. sys_read sys src_fd 4096 w = (Got [], w') \<and> dst w' = dst w)) \<and>
     (\<forall>w bs. bs \<noteq> [] \<longrightarrow> (\<exists>k w'. sys_write sys dest_fd bs w = (int k, w') \<and> 0 < k \<and> k \<le> length bs \<and>
        src w' = src w \<and> dst w' = dst w @ take k bs)) \<and>
     (\<forall>w fd. dst (sys_close sys fd w) = dst w)"

definition full_writes :: "'w sys \<Rightarrow> int \<Rightarrow> bool" where
  "full_writes sys dest_fd \<longleftrightarrow> (\<forall>bs w. bs \<noteq> [] \<longrightarrow> fst (sys_write sys dest_fd bs w) = int (length bs))"

lemma cp_write_writes:
  assumes "copy_system sys src_fd dest_fd src dst"
  shows "amt \<le> length buf \<Longrightarrow> amt < n \<Longrightarrow> \<exists>ks w'. cp_write sys n dest_path dest_fd buf amt w = Some (Inr ((), w')) \<and>
     src w' = src w \<and> dst w' = dst w @ refill buf ks \<and> sum_list ks = amt \<and> 0 \<notin> set ks \<and>
     (full_writes sys dest_fd \<longrightarrow> ks = (if amt = 0 then [] else [amt]))"
proof (induction n arbitrary: amt w)
  case (Suc n)
  show ?case
  proof (cases "amt = 0")
    case True
    then show ?thesis by (intro exI [of _ "[]"] exI [of _ w]) (simp add: refill_def)
  next
    case False
    then have ne: "take amt buf \<noteq> []" using Suc.prems(1) by auto
    then obtain k w1 where k: "sys_write sys dest_fd (take amt buf) w = (int k, w1)" "0 < k" "k \<le> amt"
      "src w1 = src w" "dst w1 = dst w @ take k (take amt buf)"
      using assms Suc.prems(1) unfolding copy_system_def by (metis length_take min_absorb2)
    have "amt - k \<le> length buf" "amt - k < n" using Suc.prems k(2,3) by linarith+
    from Suc.IH [OF this, of w1] obtain ks w' where "cp_write sys n dest_path dest_fd buf (amt - k) w1 = Some (Inr ((), w'))"
      "src w' = src w1" "dst w' = dst w1 @ refill buf ks" "sum_list ks = amt - k" "0 \<notin> set ks"
      "full_writes sys dest_fd \<longrightarrow> ks = (if amt - k = 0 then [] else [amt - k])"
      by blast
    moreover have "k = amt" if "full_writes sys dest_fd"
      using that ne k(1) Suc.prems(1) unfolding full_writes_def by (metis fst_conv length_take min_absorb2 of_nat_eq_iff)
    ultimately show ?thesis using k False
      by (intro exI [of _ "k # ks"] exI [of _ w']) (auto simp: refill_def min_def)
  qed
qed simp

lemma cp_loop_copies:
  assumes "copy_system sys src_fd dest_fd src dst"
  shows "length (src w) < n \<Longrightarrow> \<exists>t w'. cp_loop sys n src_path dest_path src_fd dest_fd w = Some (Inr ((), w')) \<and>
     dst w' = dst w @ t \<and> copied (src w) t \<and> (full_writes sys dest_fd \<longrightarrow> t = src w)"
proof (induction n arbitrary: w)
  case (Suc n)
  show ?case
  proof (cases "src w = []")
    case True
    then obtain w' where "sys_read sys src_fd 4096 w = (Got [], w')" "dst w' = dst w"
      using assms unfolding copy_system_def by metis
    then show ?thesis using True by (auto intro: copied_end)
  next
    case False
    then obtain k w1 where k: "sys_read sys src_fd 4096 w = (Got (take k (src w)), w1)" "0 < k" "k \<le> 4096"
      "k \<le> length (src w)" "src w1 = drop k (src w)" "dst w1 = dst w"
      using assms unfolding copy_system_def by metis
    let ?c = "take k (src w)"
    have c: "?c \<noteq> []" "length ?c = k" using k(2,4) by auto
    have "length ?c < Suc n" using k(4) Suc.prems by simp
    then obtain ks w2 where w2: "cp_write sys (Suc n) dest_path dest_fd ?c (length ?c) w1 = Some (Inr ((), w2))"
      "src w2 = src w1" "dst w2 = dst w1 @ refill ?c ks" "sum_list ks = length ?c" "0 \<notin> set ks"
      "full_writes sys dest_fd \<longrightarrow> ks = [length ?c]"
      using cp_write_writes [OF assms, of "length ?c" ?c "Suc n" dest_path w1] c by auto
    have "length (src w2) < n" using w2(2) k(2,4,5) Suc.prems by simp
    then obtain t w' where t: "cp_loop sys n src_path dest_path src_fd dest_fd w2 = Some (Inr ((), w'))"
      "dst w' = dst w2 @ t" "copied (src w2) t" "full_writes sys dest_fd \<longrightarrow> t = src w2"
      using Suc.IH by blast
    have "copied (?c @ src w2) (refill ?c ks @ t)" using w2(4,5) c k(3) t(3) by (intro copied_chunk) simp_all
    then have "copied (src w) (refill ?c ks @ t)" using w2(2) k(5) by simp
    moreover have "refill ?c ks @ t = src w" if "full_writes sys dest_fd"
      using that w2(2,6) t(4) k(4,5) by (simp add: refill_def min.absorb2)
    moreover have "cp_loop sys (Suc n) src_path dest_path src_fd dest_fd w = Some (Inr ((), w'))"
      using k(1) c(1) w2(1) t(1) by (simp del: cp_write.simps)
    ultimately show ?thesis using w2(3) k(6) t(2) by (intro exI [of _ "refill ?c ks @ t"] exI [of _ w']) simp
  qed
qed simp

text \<open>
  C16: \<^verbatim>\<open>cp\<close> copies a file, however few bytes each read returns, if every write is complete. A write that
  takes a part of the buffer makes the next one start from the beginning of the buffer again: what then arrives
  has the length of the source, and consists of beginnings of its pieces.
\<close>

theorem cp_copies:
  assumes "copy_system (file_sys sys) src_fd dest_fd src dst"
    and "zuo_is_path_string (VString p)" "zuo_is_path_string (VString q)"
    and "cp_open sys (VString p) (VString q) p q None True (io_world st) = Inr ((src_fd, dest_fd), w)"
    and "dst w = []" "length (src w) < n"
  shows "\<exists>t st'. zuo_cp sys n (VString p) (VString q) VUndefined st = Some (Inr (VVoid, st')) \<and>
    dst (io_world st') = t \<and> copied (src w) t \<and> length t = length (src w) \<and>
    (full_writes (file_sys sys) dest_fd \<longrightarrow> t = src w)"
proof -
  obtain t w' where t: "cp_loop (file_sys sys) n (VString p) (VString q) src_fd dest_fd w = Some (Inr ((), w'))"
    "dst w' = t" "copied (src w) t" "full_writes (file_sys sys) dest_fd \<longrightarrow> t = src w"
    using cp_loop_copies [OF assms(1,6), of "VString p" "VString q"] assms(5) by auto
  have close: "dst (sys_close (file_sys sys) fd v) = dst v" for fd v using assms(1) by (simp add: copy_system_def)
  have paths: "check_path_string ''cp'' (VString p) = Inr p" "check_path_string ''cp'' (VString q) = Inr q"
    using assms(2,3) by (simp_all add: check_path_string_def)
  have option: "zuo_consume_option zuo_trie_node name st1 = (VUndefined, zuo_trie_node, snd (io_symbol name st1))" for name and st1 :: "'a zio"
    by (simp add: zuo_consume_option_def zuo_trie_lookup_def split_def)
  have world: "io_world (snd (io_symbol name st1)) = io_world st1" for name and st1 :: "'a zio"
    by (simp add: io_symbol_def split_def)
  have "\<exists>st'. zuo_cp sys n (VString p) (VString q) VUndefined st = Some (Inr (VVoid, st')) \<and>
      io_world st' = sys_close (file_sys sys) dest_fd (sys_close (file_sys sys) src_fd w')"
    using assms(4) t(1)
    by (simp add: zuo_cp_def paths or_empty_def option world cp_mode_def cp_replace_perms_def check_options_consumed_def
        with_world_def cp_copy_def check_hash_def)
  then show ?thesis using t(2-4) copied_length [OF t(3)] by (auto simp: close)
qed

text \<open>A source, a destination, and the sizes of the writes to come.\<close>

definition disk_sys :: "(string \<times> string \<times> nat list) fsys" where
  "disk_sys =
     \<lparr>sys_open = (\<lambda>p flags w. (3, w)), sys_close = (\<lambda>fd w. w),
      sys_read = (\<lambda>fd amt (s, d, ks). (Got (take amt s), (drop amt s, d, ks))),
      sys_write = (\<lambda>fd bs (s, d, ks). let k = transfer_size ks (length bs) in (int k, (s, d @ take k bs, tl ks))),
      sys_getfl = (\<lambda>fd w. (0, w)), sys_setfl = (\<lambda>fd flags w. (0, w)),
      fs_stat = (\<lambda>p w. (No_Entry, w)), fs_lstat = (\<lambda>p w. (No_Entry, w)),
      fs_fstat = (\<lambda>fd w. (Stat_Ok \<lparr>st_mode = 0x81A4, st_dev = 1, st_ino = 2, st_nlink = 1, st_uid = 0, st_gid = 0, st_rdev = 0,
         st_size = 2, st_blksize = 4096, st_blocks = 8, st_atim = (0, 0), st_mtim = (0, 0), st_ctim = (0, 0)\<rparr>, w)),
      fs_unlink = (\<lambda>p w. (True, w)), fs_rename = (\<lambda>p q w. (True, w)), fs_mkdir = (\<lambda>p m w. (True, w)), fs_rmdir = (\<lambda>p w. (True, w)),
      fs_readdir = (\<lambda>p w. (None, w)), fs_readlink = (\<lambda>p n w. (None, w)), fs_symlink = (\<lambda>p q w. (True, w)),
      fs_open_mode = (\<lambda>p flags m (s, d, ks). (4, (s, [], ks))), fs_fchmod = (\<lambda>fd m w. (True, w)), fs_time = Pair None\<rparr>"

definition disk_state :: "string \<Rightarrow> nat list \<Rightarrow> (string \<times> string \<times> nat list) zio" where
  "disk_state s ks = \<lparr>io_mem = mem_init, io_handles = [], io_fds = Map.empty, io_world = (s, ''old'', ks)\<rparr>"

lemma disk_copies: "copy_system (file_sys disk_sys) 3 4 fst (fst \<circ> snd)"
proof -
  have "\<exists>k. take 4096 s = take k s \<and> 0 < k \<and> k \<le> 4096 \<and> k \<le> length s \<and> drop 4096 s = drop k s" if "s \<noteq> []" for s :: string
    using that by (intro exI [of _ "min 4096 (length s)"]) (auto simp: min_def)
  then show ?thesis
    unfolding copy_system_def
    by (auto simp: disk_sys_def sys.truncate_def Let_def transfer_size)
qed

theorem cp_copies_witness:
  "\<exists>t st'. zuo_cp disk_sys 9 (VString ''a'') (VString ''b'') VUndefined (disk_state ''hello'' [2]) = Some (Inr (VVoid, st')) \<and>
     fst (snd (io_world st')) = t \<and> copied ''hello'' t"
proof -
  have "cp_open disk_sys (VString ''a'') (VString ''b'') ''a'' ''b'' None True (io_world (disk_state ''hello'' [2])) =
      Inr ((3, 4), (''hello'', [], [2]))"
    by (simp add: cp_open_def disk_sys_def disk_state_def sys.truncate_def)
  from cp_copies [OF disk_copies _ _ this, of 9] show ?thesis
    by (auto simp: zuo_is_path_string_def zuo_is_string_without_nul_def)
qed

text \<open>One short write is enough for a wrong copy.\<close>

lemma cp_short_write:
  "map_option (map_sum id (\<lambda>(v, st). fst (snd (io_world st))))
     (zuo_cp disk_sys 9 (VString ''a'') (VString ''b'') VUndefined (disk_state ''hello'' [2])) = Some (Inr ''hehel'')"
  by code_simp

section \<open>Links\<close>

text \<open>The buffer for a link doubles until the link is shorter than it.\<close>

lemma readlink_loop_reads:
  assumes "\<forall>m w. fst (fs_readlink sys p m w) = Some (take m target)"
  shows "0 < buf_len \<Longrightarrow> length target < buf_len * 2 ^ n \<Longrightarrow>
    \<exists>w'. readlink_loop sys (Suc n) link_path p buf_len w = Some (Inr (target, w'))"
proof (induction n arbitrary: buf_len w)
  case (Suc n)
  obtain w1 where r: "fs_readlink sys p buf_len w = (Some (take buf_len target), w1)" using assms by (metis prod.collapse)
  show ?case
  proof (cases "length target < buf_len")
    case False
    then have "readlink_loop sys (Suc (Suc n)) link_path p buf_len w = readlink_loop sys (Suc n) link_path p (2 * buf_len) w1"
      using r by (simp del: readlink_loop.simps(2) add: readlink_loop.simps(2) [of sys "Suc n"])
    then show ?thesis using Suc.IH [of "2 * buf_len" w1] Suc.prems by simp
  qed (use r in simp)
next
  case 0
  obtain w1 where "fs_readlink sys p buf_len w = (Some (take buf_len target), w1)" using assms by (metis prod.collapse)
  then show ?case using 0 by simp
qed

end
