(* ===== verification/Zuo_Main.thy ===== *)
theory Zuo_Main
  imports Zuo_Files Zuo_Process
begin

text \<open>
  The start of a script: \<^verbatim>\<open>zuo_main\<close> of \<^verbatim>\<open>zuo.c\<close> in the Unix configuration, from the command line to the
  module to run and back from the module's result to its main procedure, and the runtime
  environment with the environment variables. The current directory, the path of the executable and the
  variables are arguments; loading a module is the subject of \<open>Zuo_Modules\<close>. Environment variables that are given to
  a process are shown to be the ones that it sees.
\<close>

section \<open>Environment variables\<close>

text \<open>An entry without an equals sign is read beyond its end.\<close>

definition envvar_entry :: "string \<Rightarrow> zval res" where
  "envvar_entry p =
     (let j = length (takeWhile (\<lambda>c. c \<noteq> CHR ''='') p) in
      if j = length p then Inl (UB ''environ'')
      else Inr (VPair (VString (take j p)) (VString (drop (j + 1) p))))"

fun zuo_get_envvars :: "string list \<Rightarrow> zval res" where
  "zuo_get_envvars [] = Inr VNull"
| "zuo_get_envvars (p # ea) = rbind (envvar_entry p) (\<lambda>a. rbind (zuo_get_envvars ea) (\<lambda>l. Inr (VPair a l)))"

lemma takeWhile_cut: "x \<notin> set xs \<Longrightarrow> takeWhile (\<lambda>c. c \<noteq> x) (xs @ x # ys) = xs"
  by (induction xs) auto

lemma env_pair_Some:
  "env_pair a = Some (name, v) \<longleftrightarrow> a = VPair (VString name) (VString v) \<and> CHR ''='' \<notin> set name \<and> NUL \<notin> set name"
  by (auto simp: env_pair_def split: zval.split if_split_asm)

lemma envvar_entry_block:
  assumes "CHR ''='' \<notin> set name" "NUL \<notin> set name"
  shows "envvar_entry (exec_string (name @ CHR ''='' # v)) = Inr (VPair (VString name) (VString (exec_string v)))"
proof -
  have "exec_string (name @ CHR ''='' # v) = name @ CHR ''='' # exec_string v"
    using assms(2) by (induction name) (auto simp: exec_string_def)
  then show ?thesis using takeWhile_cut [OF assms(1)] by (simp add: envvar_entry_def Let_def)
qed

lemma env_pairs_Some:
  "env_pairs l = Some vars \<Longrightarrow>
     (\<forall>(name, v) \<in> set vars. CHR ''='' \<notin> set name \<and> NUL \<notin> set name) \<and>
     l = zlist (map (\<lambda>(name, v). VPair (VString name) (VString v)) vars)"
proof (induction l arbitrary: vars rule: env_pairs.induct)
  case (1 a ol)
  from 1(2) obtain name v vs where a: "env_pair a = Some (name, v)" "env_pairs ol = Some vs" "vars = (name, v) # vs"
    by (auto split: option.split_asm)
  then show ?case using 1(1) [OF a(1) a(2)] by (auto simp: env_pair_Some)
qed auto

text \<open>
  C34: environment variables survive the way into a process. A process that is started with
  a list of variables sees, in its runtime environment, that list, in the same order, when no value contains a NUL; in general it
  sees each value up to its first NUL.
\<close>

theorem envvars_round_trip:
  assumes "env_pairs l = Some vars"
  shows "zuo_get_envvars (map exec_string (zuo_envvars_block vars)) =
      Inr (zlist (map (\<lambda>(name, v). VPair (VString name) (VString (exec_string v))) vars)) \<and>
    ((\<forall>(name, v) \<in> set vars. NUL \<notin> set v) \<longrightarrow> zuo_get_envvars (map exec_string (zuo_envvars_block vars)) = Inr l)"
proof -
  have names: "\<forall>(name, v) \<in> set vars. CHR ''='' \<notin> set name \<and> NUL \<notin> set name"
    and l: "l = zlist (map (\<lambda>(name, v). VPair (VString name) (VString v)) vars)"
    using env_pairs_Some [OF assms] by blast+
  have seen: "zuo_get_envvars (map exec_string (zuo_envvars_block vars)) =
      Inr (zlist (map (\<lambda>(name, v). VPair (VString name) (VString (exec_string v))) vars))"
    using names by (induction vars) (auto simp: zuo_envvars_block_def envvar_entry_block)
  have "exec_string v = v" if "NUL \<notin> set v" for v
    using that by (simp add: exec_string_def takeWhile_eq_all_conv) (metis)
  then have "map (\<lambda>(name, v). VPair (VString name) (VString (exec_string v))) vars =
      map (\<lambda>(name, v). VPair (VString name) (VString v)) vars" if "\<forall>(name, v) \<in> set vars. NUL \<notin> set v"
    using that by (auto intro!: map_cong)
  then show ?thesis using seen l by simp
qed

theorem envvars_round_trip_witness:
  "zuo_get_envvars (map exec_string (zuo_envvars_block [(''PATH'', ''bin''), (''EQ'', ''a=b'')])) =
     Inr (VPair (VPair (VString ''PATH'') (VString ''bin'')) (VPair (VPair (VString ''EQ'') (VString ''a=b'')) VNull))"
  using envvars_round_trip [of "VPair (VPair (VString ''PATH'') (VString ''bin'')) (VPair (VPair (VString ''EQ'') (VString ''a=b'')) VNull)"
      "[(''PATH'', ''bin''), (''EQ'', ''a=b'')]"]
  by (simp add: env_pair_def exec_string_def)

section \<open>The command line\<close>

text \<open>
  The static variables that the switches set. The library path is the one of the configuration, unless the environment
  variable replaces it, and \<^verbatim>\<open>-X\<close> with an empty argument clears it.
\<close>

record main_args =
  boot_image :: "string option"
  library_path :: "string option"
  zuo_lib_path :: "string option"
  zuo_file_logging :: "string option"
  eval_argument :: bool

datatype main_stop = Show_Help | Message string | Failed zerror

definition zuo_configure_lib_path :: "(string \<Rightarrow> string option) \<Rightarrow> string option \<Rightarrow> string option" where
  "zuo_configure_lib_path getenv lib_path = (case getenv ''ZUO_LIB_PATH'' of Some s \<Rightarrow> Some s | None \<Rightarrow> lib_path)"

fun main_options :: "string list \<Rightarrow> main_args \<Rightarrow> main_stop + (main_args \<times> string list)" where
  "main_options [] a = Inr (a, [])"
| "main_options (arg # argv) a =
     (if arg = ''-h'' \<or> arg = ''--help'' then Inl Show_Help
      else if arg = ''-B'' \<or> arg = ''--boot'' then
        (case argv of
           v # argv \<Rightarrow> main_options argv (a\<lparr>boot_image := Some v\<rparr>)
         | [] \<Rightarrow> Inl (Message ''expected a path after -B''))
      else if arg = ''-X'' \<or> arg = ''--collects'' then
        (case argv of
           v # argv \<Rightarrow> main_options argv (if v = [] then a\<lparr>zuo_lib_path := None\<rparr> else a\<lparr>library_path := Some v\<rparr>)
         | [] \<Rightarrow> Inl (Message ''expected a path after -X''))
      else if arg = ''-M'' then
        (case argv of
           v # argv \<Rightarrow> main_options argv (a\<lparr>zuo_file_logging := Some v\<rparr>)
         | [] \<Rightarrow> Inl (Message ''expected a path after -M''))
      else if arg = ''-c'' then main_options argv (a\<lparr>eval_argument := True\<rparr>)
      else if arg = ''--'' then Inr (a, argv)
      else if char_at arg 0 = CHR ''-'' then Inl (Message (''unrecognized flag: '' @ arg))
      else Inr (a, arg # argv))"

definition main_load_file :: "main_args \<Rightarrow> string list \<Rightarrow> main_stop + (string option \<times> string list)" where
  "main_load_file a argv =
     (case argv of
        f # argv \<Rightarrow> Inr (Some f, argv)
      | [] \<Rightarrow> if eval_argument a then Inl (Message ''expected an argument after -c'') else Inr (None, []))"

text \<open>Switches as the usage message lists them, each with its long form if it has one.\<close>

datatype switch = Boot string | Collects string | Log string | Text

primrec switch_args :: "bool \<Rightarrow> switch \<Rightarrow> string list" where
  "switch_args long (Boot v) = [if long then ''--boot'' else ''-B'', v]"
| "switch_args long (Collects v) = [if long then ''--collects'' else ''-X'', v]"
| "switch_args long (Log v) = [''-M'', v]"
| "switch_args long Text = [''-c'']"

text \<open>The last of the values that a list of switches gives.\<close>

definition last_value :: "(switch \<Rightarrow> string option) \<Rightarrow> switch list \<Rightarrow> string option \<Rightarrow> string option" where
  "last_value f sws v = (case List.map_filter f sws of [] \<Rightarrow> v | vs \<Rightarrow> Some (last vs))"

lemma last_value_simps:
  "last_value f [] v = v"
  "last_value f (s # sws) v = last_value f sws (case f s of None \<Rightarrow> v | Some x \<Rightarrow> Some x)"
  by (auto simp: last_value_def map_filter_simps split: option.split list.split)

lemma last_value_None: "last_value f sws v = None \<longleftrightarrow> v = None \<and> (\<forall>s \<in> set sws. f s = None)"
  by (induction sws arbitrary: v) (auto simp: last_value_simps split: option.split)

definition boot_value :: "switch \<Rightarrow> string option" where
  "boot_value s = (case s of Boot v \<Rightarrow> Some v | _ \<Rightarrow> None)"

definition collects_value :: "switch \<Rightarrow> string option" where
  "collects_value s = (case s of Collects v \<Rightarrow> if v = [] then None else Some v | _ \<Rightarrow> None)"

definition log_value :: "switch \<Rightarrow> string option" where
  "log_value s = (case s of Log v \<Rightarrow> Some v | _ \<Rightarrow> None)"

definition switched :: "switch list \<Rightarrow> main_args \<Rightarrow> main_args" where
  "switched sws a =
     \<lparr>boot_image = last_value boot_value sws (boot_image a), library_path = last_value collects_value sws (library_path a),
      zuo_lib_path = (if Collects [] \<in> set sws then None else zuo_lib_path a),
      zuo_file_logging = last_value log_value sws (zuo_file_logging a), eval_argument = (Text \<in> set sws \<or> eval_argument a)\<rparr>"

lemma main_options_switches:
  "main_options (concat (map (\<lambda>(long, s). switch_args long s) sws) @ argv) a = main_options argv (switched (map snd sws) a)"
proof (induction sws arbitrary: a)
  case Nil
  then show ?case by (cases a) (simp add: switched_def last_value_simps)
next
  case (Cons ls sws)
  obtain long s where ls: "ls = (long, s)" by (cases ls)
  show ?case
    by (cases s; simp add: ls Cons.IH switched_def last_value_simps boot_value_def collects_value_def log_value_def)
qed

section \<open>The library and the module\<close>

definition main_lib_path :: "string \<Rightarrow> main_args \<Rightarrow> string \<Rightarrow> zval res" where
  "main_lib_path cwd a exe_path =
     (case library_path a of
        Some p \<Rightarrow> Inr (VString (zuo_path_to_complete_path cwd p))
      | None \<Rightarrow>
          (case zuo_lib_path a of
             Some l \<Rightarrow>
               rbind (zuo_relative_path_p (VString l)) (\<lambda>relative.
                 if relative = VTrue then
                   rbind (zuo_split_path (VString exe_path)) (\<lambda>parts. rbind (ucar parts) (\<lambda>dir.
                     case dir of VString d \<Rightarrow> Inr (VString (zuo_build_path2 d l)) | _ \<Rightarrow> Inl (UB ''build-path'')))
                 else Inr (VString l))
           | None \<Rightarrow> Inr VFalse))"

lemma main_lib_path_False: "main_lib_path cwd a self = Inr VFalse \<longleftrightarrow> library_path a = None \<and> zuo_lib_path a = None"
proof (cases "zuo_lib_path a")
  case (Some l)
  have "rbind m (\<lambda>dir. case dir of VString d \<Rightarrow> Inr (VString (f d)) | _ \<Rightarrow> Inl e) \<noteq> Inr VFalse" for m f and e :: zerror
    by (auto simp: rbind_eq_Inr_iff split: zval.split_asm)
  then show ?thesis using Some
    by (auto simp: main_lib_path_def rbind_eq_Inr_iff [of "zuo_relative_path_p x" for x]
        rbind_eq_Inr_iff [of "zuo_split_path x" for x] split: option.split if_split_asm)
qed (simp add: main_lib_path_def split: option.split)

lemma switched_no_library:
  assumes "library_path a = None"
  shows "main_lib_path cwd (switched ss a) self = Inr VFalse \<longleftrightarrow>
    (\<forall>v. Collects v \<in> set ss \<longrightarrow> v = []) \<and> (Collects [] \<in> set ss \<or> zuo_lib_path a = None)"
proof -
  have "collects_value s = None \<longleftrightarrow> (\<forall>v. s = Collects v \<longrightarrow> v = [])" for s
    by (cases s) (simp_all add: collects_value_def)
  then have "(\<forall>s \<in> set ss. collects_value s = None) \<longleftrightarrow> (\<forall>v. Collects v \<in> set ss \<longrightarrow> v = [])" by blast
  then show ?thesis using assms by (simp add: main_lib_path_False switched_def last_value_None)
qed

lemma main_options_file: "char_at f 0 \<noteq> CHR ''-'' \<Longrightarrow> main_options (f # argv) a = Inr (a, f # argv)"
proof -
  assume "char_at f 0 \<noteq> CHR ''-''"
  moreover from this have "f \<noteq> CHR ''-'' # t" for t by auto
  ultimately show ?thesis by (simp only: main_options.simps simp_thms if_False)
qed

text \<open>
  C35: of each switch the last instance counts, in its short or its long form, up to the first argument that is
  not a switch or that is \<^verbatim>\<open>--\<close>; what follows is the file and its arguments. The exception is \<^verbatim>\<open>-X\<close> with an empty
  argument, which is to disable the library: it does so only if no other \<^verbatim>\<open>-X\<close> is given, before or after it.
\<close>

theorem main_options_last:
  "main_options (concat (map (\<lambda>(long, s). switch_args long s) sws) @ ''--'' # argv) a = Inr (switched (map snd sws) a, argv) \<and>
   (argv = [] \<or> char_at (hd argv) 0 \<noteq> CHR ''-'' \<longrightarrow>
     main_options (concat (map (\<lambda>(long, s). switch_args long s) sws) @ argv) a = Inr (switched (map snd sws) a, argv)) \<and>
   (library_path a = None \<longrightarrow>
     (main_lib_path cwd (switched (map snd sws) a) self = Inr VFalse \<longleftrightarrow>
       (\<forall>v. Collects v \<in> set (map snd sws) \<longrightarrow> v = []) \<and> (Collects [] \<in> set (map snd sws) \<or> zuo_lib_path a = None)))"
proof -
  let ?a = "switched (map snd sws) a"
  have files: "main_options argv ?a = Inr (?a, argv)" if "argv = [] \<or> char_at (hd argv) 0 \<noteq> CHR ''-''"
  proof (cases argv)
    case (Cons f fs)
    then show ?thesis using that main_options_file by simp
  qed simp
  have "main_options (''--'' # argv) ?a = Inr (?a, argv)" by simp
  then show ?thesis
    unfolding main_options_switches using files switched_no_library [of a cwd "map snd sws" self] by blast
qed

theorem main_options_last_witness:
  "let a = \<lparr>boot_image = None, library_path = None, zuo_lib_path = Some ''lib'', zuo_file_logging = None, eval_argument = False\<rparr>;
       a' = \<lparr>boot_image = Some ''new'', library_path = Some ''mine'', zuo_lib_path = None, zuo_file_logging = None, eval_argument = False\<rparr>
   in main_options [''-B'', ''old'', ''-X'', ''mine'', ''--boot'', ''new'', ''-X'', [], ''a.zuo'', ''-c''] a = Inr (a', [''a.zuo'', ''-c'']) \<and>
     main_lib_path ''d'' a' ''e'' \<noteq> Inr VFalse"
  using main_options_last [of "[(False, Boot ''old''), (False, Collects ''mine''), (True, Boot ''new''), (False, Collects [])]"
      "[''a.zuo'', ''-c'']" "\<lparr>boot_image = None, library_path = None, zuo_lib_path = Some ''lib'', zuo_file_logging = None, eval_argument = False\<rparr>"
      "''d''" "''e''"]
  by (simp add: switched_def last_value_simps boot_value_def collects_value_def log_value_def Let_def)

text \<open>What to run: the text of the argument, the text on the standard input, or the module in a file.\<close>

datatype main_source = Argument_Text string | Input_Text | Module_File

definition main_source :: "'w fsys \<Rightarrow> main_args \<Rightarrow> string option \<Rightarrow> 'w zio \<Rightarrow> main_stop + ((string \<times> string \<times> main_source) \<times> 'w zio)" where
  "main_source sys a load_file st =
     (case load_file of
        None \<Rightarrow>
          (case zuo_stat sys (VString ''main.zuo'') VTrue VTrue st of
             Inl e \<Rightarrow> Inl (Failed e)
           | Inr (found, st) \<Rightarrow>
               if found = VFalse then Inl (Message ''no file specified, and no main.zuo found'')
               else Inr ((''main.zuo'', ''main.zuo'', Module_File), st))
      | Some f \<Rightarrow>
          if eval_argument a then Inr ((f, ''argument'', Argument_Text f), st)
          else if f = [] then Inr ((f, ''stdin'', Input_Text), st)
          else
            let load_path = zuo_normalize_input_path f in
            case zuo_stat sys (VString load_path) VTrue VTrue st of
              Inl e \<Rightarrow> Inl (Failed e)
            | Inr (found, st) \<Rightarrow>
                (case found of
                   VTrie t \<Rightarrow>
                     (case io_symbol ''type'' st of (type, st) \<Rightarrow>
                      case io_symbol ''dir'' st of (dir, st) \<Rightarrow>
                        if zuo_trie_lookup t type = Some (VSymbol dir) then
                          Inr ((f, if f = ''.'' then ''main.zuo'' else zuo_build_path2 load_path ''main.zuo'', Module_File), st)
                        else Inr ((f, load_path, Module_File), st))
                 | _ \<Rightarrow> Inr ((f, load_path, Module_File), st)))"

section \<open>The runtime environment\<close>

definition env_put :: "string \<Rightarrow> zval \<Rightarrow> zval trie \<times> 'w zio \<Rightarrow> zval trie \<times> 'w zio" where
  "env_put name v hs = (case hs of (ht, st) \<Rightarrow> case io_symbol name st of (s, st) \<Rightarrow> (zuo_trie_extend ht s v, st))"

definition zuo_make_runtime_env :: "zval \<Rightarrow> string \<Rightarrow> string list \<Rightarrow> 'w zio \<Rightarrow> zval trie \<times> 'w zio" where
  "zuo_make_runtime_env exe_path load_file argv st =
     env_put ''script'' (VString load_file)
       (env_put ''args'' (zlist (map VString argv)) (env_put ''exe'' exe_path (zuo_trie_node, st)))"

definition ZUO_VERSION :: int where "ZUO_VERSION = 1"
definition ZUO_MINOR_VERSION :: int where "ZUO_MINOR_VERSION = 15"

definition zuo_finish_runtime_env :: "string \<Rightarrow> string list \<Rightarrow> zval trie \<times> 'w zio \<Rightarrow> (zval trie \<times> 'w zio) res" where
  "zuo_finish_runtime_env cwd environ hs =
     rbind (zuo_get_envvars environ) (\<lambda>vars.
       let hs = env_put ''minor-version'' (VInteger (word_of_int ZUO_MINOR_VERSION))
                  (env_put ''version'' (VInteger (word_of_int ZUO_VERSION)) hs);
           hs = env_put ''env'' vars (env_put ''dir'' (VString cwd) hs)
       in case hs of (ht, st) \<Rightarrow> case io_symbol ''unix'' st of (unix, st) \<Rightarrow>
         Inr (env_put ''toolchain-type'' (VSymbol unix)
           (env_put ''system-type'' (VSymbol unix) (env_put ''can-exec?'' VTrue (ht, st)))))"

section \<open>Starting up and running the main procedure\<close>

text \<open>What start-up leaves: the roots of the machine that \<^verbatim>\<open>zuo_runtime_init\<close> sets.\<close>

record main_roots =
  o_library_path :: zval
  o_runtime_env :: "zval trie"

definition zuo_runtime_init :: "string \<Rightarrow> string list \<Rightarrow> zval \<Rightarrow> zval trie \<times> 'w zio \<Rightarrow> (main_roots \<times> 'w zio) res" where
  "zuo_runtime_init cwd environ lib_path hs =
     rbind (zuo_finish_runtime_env cwd environ hs) (\<lambda>(env, st).
       Inr (\<lparr>o_library_path = lib_path, o_runtime_env = env\<rparr>, st\<lparr>io_fds := Map.empty\<rparr>))"

definition main_setup ::
  "'w fsys \<Rightarrow> string \<Rightarrow> string list \<Rightarrow> string \<Rightarrow> main_args \<Rightarrow> string list \<Rightarrow> 'w zio \<Rightarrow>
     main_stop + ((main_args \<times> main_roots \<times> string \<times> main_source) \<times> 'w zio)" where
  "main_setup sys cwd environ self a argv st =
     rbind (main_options argv a) (\<lambda>(a, argv).
     rbind (main_load_file a argv) (\<lambda>(load_file, argv).
     rbind (map_sum Failed id (main_lib_path cwd a self)) (\<lambda>lib_path.
     rbind (main_source sys a load_file st) (\<lambda>((load_file, load_path, source), st).
     rbind (map_sum Failed id (zuo_runtime_init cwd environ lib_path (zuo_make_runtime_env (VString self) load_file argv st)))
       (\<lambda>(roots, st). Inr ((a, roots, load_path, source), st))))))"

text \<open>
  The expression to evaluate after the module's result is there: a call of the procedure \<^verbatim>\<open>main\<close> among the
  submodules, if there is one.
\<close>

definition main_call :: "zval trie \<Rightarrow> 'w zio \<Rightarrow> (zval option \<times> 'w zio) res" where
  "main_call mod_ht st =
     (case io_symbol ''submodules'' st of (s, st) \<Rightarrow>
        (case zuo_trie_lookup mod_ht s of
           Some (VTrie submods) \<Rightarrow>
             (case io_symbol ''main'' st of (s, st) \<Rightarrow>
                (case zuo_trie_lookup submods s of
                   None \<Rightarrow> Inr (None, st)
                 | Some main_proc \<Rightarrow>
                     if zuo_procedure_p main_proc \<noteq> VTrue then Inl (Fail1 ''main is not a procedure'' main_proc)
                     else Inr (Some (VPair main_proc VNull), st)))
         | _ \<Rightarrow> Inr (None, st)))"

end
