(* ===== verification/Zuo_Sha256_Spec.thy ===== *)
theory Zuo_Sha256_Spec
  imports Zuo_Sha256
begin

text \<open>
  The standard's SHA-256 and SHA-224 (FIPS 180), written from its text: constants from the roots of
  the first primes, the message schedule, the rounds on eight registers, padding with a 64-bit length.
  The functions of \<open>Zuo_Sha256\<close> compute it: the unrolled block function and the compact one, in any division of
  the message into pieces, as long as the length counter sees every piece.
\<close>

unbundle bit_operations_syntax

section \<open>The standard\<close>

text \<open>The integer part of the \<open>n\<close>-th root, bit by bit.\<close>

fun int_root :: "nat \<Rightarrow> int \<Rightarrow> nat \<Rightarrow> int \<Rightarrow> int" where
  "int_root n x 0 r = r"
| "int_root n x (Suc b) r = int_root n x b (if (r + 2 ^ b) ^ n \<le> x then r + 2 ^ b else r)"

definition fips_primes :: "int list" where
  "fips_primes =
     [2, 3, 5, 7, 11, 13, 17, 19, 23, 29, 31, 37, 41, 43, 47, 53, 59, 61, 67, 71, 73, 79, 83, 89, 97, 101, 103, 107, 109,
      113, 127, 131, 137, 139, 149, 151, 157, 163, 167, 173, 179, 181, 191, 193, 197, 199, 211, 223, 227, 229, 233, 239,
      241, 251, 257, 263, 269, 271, 277, 281, 283, 293, 307, 311]"

definition root_bits :: "nat \<Rightarrow> nat \<Rightarrow> int \<Rightarrow> 32 word" where
  "root_bits n bits p = word_of_int (int_root n (p * 2 ^ (n * bits)) (bits + 8) 0)"

definition fips_K :: "32 word list" where
  "fips_K = map (root_bits 3 32) fips_primes"

definition fips_H :: "bool \<Rightarrow> 32 word list" where
  "fips_H is224 =
     (if is224 then map (root_bits 2 64) (take 8 (drop 8 fips_primes)) else map (root_bits 2 32) (take 8 fips_primes))"

definition Ch :: "32 word \<Rightarrow> 32 word \<Rightarrow> 32 word \<Rightarrow> 32 word" where "Ch x y z = (x AND y) XOR (NOT x AND z)"
definition Maj :: "32 word \<Rightarrow> 32 word \<Rightarrow> 32 word \<Rightarrow> 32 word" where "Maj x y z = (x AND y) XOR (x AND z) XOR (y AND z)"
definition Sigma0 :: "32 word \<Rightarrow> 32 word" where "Sigma0 x = word_rotr 2 x XOR word_rotr 13 x XOR word_rotr 22 x"
definition Sigma1 :: "32 word \<Rightarrow> 32 word" where "Sigma1 x = word_rotr 6 x XOR word_rotr 11 x XOR word_rotr 25 x"
definition sigma0 :: "32 word \<Rightarrow> 32 word" where "sigma0 x = word_rotr 7 x XOR word_rotr 18 x XOR drop_bit 3 x"
definition sigma1 :: "32 word \<Rightarrow> 32 word" where "sigma1 x = word_rotr 17 x XOR word_rotr 19 x XOR drop_bit 10 x"

definition be_word :: "8 word list \<Rightarrow> nat \<Rightarrow> 32 word" where
  "be_word b i = ucast (b ! i) * 2 ^ 24 + ucast (b ! (i + 1)) * 2 ^ 16 + ucast (b ! (i + 2)) * 2 ^ 8 + ucast (b ! (i + 3))"

definition be_bytes :: "nat \<Rightarrow> int \<Rightarrow> 8 word list" where
  "be_bytes n x = map (\<lambda>i. word_of_int (x div 256 ^ (n - 1 - i))) [0..<n]"

definition schedule_step :: "nat \<Rightarrow> 32 word list \<Rightarrow> 32 word list" where
  "schedule_step t W = W @ [sigma1 (W ! (t - 2)) + W ! (t - 7) + sigma0 (W ! (t - 15)) + W ! (t - 16)]"

definition fips_schedule :: "nat \<Rightarrow> 8 word list \<Rightarrow> 32 word list" where
  "fips_schedule n M = fold schedule_step [16..<n] (map (\<lambda>t. be_word M (4 * t)) [0..<16])"

definition fips_round :: "32 word list \<Rightarrow> nat \<Rightarrow> 32 word list \<Rightarrow> 32 word list" where
  "fips_round W t R =
     (case R of [a, b, c, d, e, f, g, h] \<Rightarrow>
        let T1 = h + Sigma1 e + Ch e f g + fips_K ! t + W ! t; T2 = Sigma0 a + Maj a b c
        in [T1 + T2, a, b, c, d + T1, e, f, g]
      | _ \<Rightarrow> R)"

definition fips_block :: "8 word list \<Rightarrow> 32 word list \<Rightarrow> 32 word list" where
  "fips_block M H = map2 (+) H (fold (fips_round (fips_schedule 64 M)) [0..<64] H)"

fun fips_blocks :: "8 word list \<Rightarrow> 8 word list list" where
  "fips_blocks m = (if length m < 64 then [] else take 64 m # fips_blocks (drop 64 m))"

declare fips_blocks.simps [simp del]

text \<open>Padding with a given length, which is the length of the message.\<close>

definition pad_with :: "int \<Rightarrow> 8 word list \<Rightarrow> 8 word list" where
  "pad_with len m = m @ 0x80 # replicate (nat ((55 - int (length m)) mod 64)) 0 @ be_bytes 8 (8 * len)"

definition hash_with :: "bool \<Rightarrow> int \<Rightarrow> 8 word list \<Rightarrow> 8 word list" where
  "hash_with is224 len m =
     concat (map (\<lambda>w. be_bytes 4 (uint w))
       (take (if is224 then 7 else 8) (fold fips_block (fips_blocks (pad_with len m)) (fips_H is224))))"

definition fips_hash :: "bool \<Rightarrow> 8 word list \<Rightarrow> 8 word list" where
  "fips_hash is224 m = hash_with is224 (int (length m)) m"

section \<open>Constants and functions\<close>

lemma K_fips: "sha_K = fips_K"
  by code_simp

lemma H_fips: "sha_state (mbedtls_sha256_starts_ret is224 ctx) = fips_H is224"
proof -
  have "fips_H False = [0x6A09E667, 0xBB67AE85, 0x3C6EF372, 0xA54FF53A, 0x510E527F, 0x9B05688C, 0x1F83D9AB, 0x5BE0CD19]"
    "fips_H True = [0xC1059ED8, 0x367CD507, 0x3070DD17, 0xF70E5939, 0xFFC00B31, 0x68581511, 0x64F98FA7, 0xBEFA4FA4]"
    by code_simp+
  then show ?thesis by (cases is224) (simp_all add: mbedtls_sha256_starts_ret_def)
qed

lemma sha_SHR_drop: "sha_SHR x n = drop_bit n x"
proof -
  have "x AND 0xFFFFFFFF = x AND mask 32" by (simp add: mask_eq_exp_minus_1)
  also have "\<dots> = x" by (rule bit_word_eqI) (auto simp: bit_and_iff bit_mask_iff)
  finally show ?thesis by (simp add: sha_SHR_def)
qed

lemma sha_ROTR_rotr:
  assumes "0 < n" "n < 32"
  shows "sha_ROTR x n = word_rotr n x"
  unfolding sha_ROTR_def sha_SHR_drop
proof (rule bit_word_eqI)
  fix k
  assume "k < LENGTH(32)"
  then have k: "k < 32" by simp
  show "bit (drop_bit n x OR push_bit (32 - n) x) k \<longleftrightarrow> bit (word_rotr n x) k"
  proof (cases "k + n < 32")
    case True
    then show ?thesis using k assms by (auto simp: bit_or_iff bit_drop_bit_eq bit_push_bit_iff bit_word_rotr_iff add.commute)
  next
    case False
    moreover from this have "\<not> bit x (n + k)" using bit_imp_le_length [of x "n + k"] by auto
    moreover from False have "(k + n) mod 32 = k + n - 32" using k assms by (simp add: mod_if)
    ultimately show ?thesis using k assms
      by (auto simp: bit_or_iff bit_drop_bit_eq bit_push_bit_iff bit_word_rotr_iff)
  qed
qed

lemma sha_functions:
  "sha_S0 x = sigma0 x" "sha_S1 x = sigma1 x" "sha_S2 x = Sigma0 x" "sha_S3 x = Sigma1 x"
  by (simp_all add: sha_S0_def sha_S1_def sha_S2_def sha_S3_def sigma0_def sigma1_def Sigma0_def Sigma1_def
      sha_ROTR_rotr sha_SHR_drop)

lemma sha_F0_Maj: "sha_F0 x y z = Maj x y z"
  unfolding sha_F0_def Maj_def by (rule bit_word_eqI) (auto simp: bit_and_iff bit_or_iff bit_xor_iff)

lemma sha_F1_Ch: "sha_F1 x y z = Ch x y z"
  unfolding sha_F1_def Ch_def by (rule bit_word_eqI) (auto simp: bit_and_iff bit_not_iff bit_xor_iff)

lemma GET_be_word: "GET_UINT32_BE b i = be_word b i"
proof -
  let ?x = "\<lambda>k. ucast (b ! (i + k)) :: 32 word"
  have small: "\<not> bit (ucast (c :: 8 word) :: 32 word) k" if "8 \<le> k" for c k
    using that bit_imp_le_length [of c k] by (auto simp: bit_ucast_iff)
  have step: "push_bit n x + y = push_bit n x OR y" if "\<And>k. n \<le> k \<Longrightarrow> \<not> bit y k" for n and x y :: "32 word"
    by (rule disjunctive_add) (use that in \<open>auto simp: bit_push_bit_iff\<close>)
  have "be_word b i = push_bit 24 (?x 0) + (push_bit 16 (?x 1) + (push_bit 8 (?x 2) + ?x 3))"
    by (simp add: be_word_def push_bit_eq_mult add.assoc)
  also have "push_bit 8 (?x 2) + ?x 3 = push_bit 8 (?x 2) OR ?x 3"
    by (rule step) (simp add: small)
  also have "push_bit 16 (?x 1) + (push_bit 8 (?x 2) OR ?x 3) = push_bit 16 (?x 1) OR (push_bit 8 (?x 2) OR ?x 3)"
    by (rule step) (simp add: small bit_or_iff bit_push_bit_iff)
  also have "push_bit 24 (?x 0) + (push_bit 16 (?x 1) OR (push_bit 8 (?x 2) OR ?x 3))
      = push_bit 24 (?x 0) OR (push_bit 16 (?x 1) OR (push_bit 8 (?x 2) OR ?x 3))"
    by (rule step) (simp add: small bit_or_iff bit_push_bit_iff)
  finally show ?thesis by (simp add: GET_UINT32_BE_def)
qed

lemma PUT_be_bytes: "PUT_UINT32_BE (word_of_int x) = be_bytes 4 x"
proof -
  have "ucast (drop_bit k (word_of_int x :: 32 word)) = (word_of_int (x div 2 ^ k) :: 8 word)" if "k \<le> 24" for k
    by (rule bit_word_eqI)
      (use that in \<open>auto simp: bit_ucast_iff bit_drop_bit_eq bit_word_of_int_iff drop_bit_eq_div [symmetric]\<close>)
  from this [of 24] this [of 16] this [of 8] this [of 0] show ?thesis
    by (simp add: PUT_UINT32_BE_def be_bytes_def numeral_eq_Suc)
qed

section \<open>Blocks\<close>

text \<open>One round with the registers in place, then moved.\<close>

definition sha_rot :: "32 word list \<Rightarrow> 32 word list" where
  "sha_rot A = [A ! 7, A ! 0, A ! 1, A ! 2, A ! 3, A ! 4, A ! 5, A ! 6]"

definition sha_turn :: "32 word list \<Rightarrow> nat \<Rightarrow> 32 word list \<Rightarrow> 32 word list" where
  "sha_turn W t A = sha_rot (sha_P 0 1 2 3 4 5 6 7 (W ! t) (sha_K ! t) A)"

lemma length_8: "length A = 8 \<longleftrightarrow> (\<exists>a b c d e f g h. A = [a, b, c, d, e, f, g, h])"
  by (auto simp: numeral_eq_Suc length_Suc_conv)

lemma sha_turn_fips: "length A = 8 \<Longrightarrow> sha_turn W t A = fips_round W t A"
  unfolding length_8 by (auto simp: sha_turn_def sha_rot_def sha_P_def fips_round_def sha_functions sha_F0_Maj sha_F1_Ch
      K_fips Let_def ac_simps)

lemma length_fips_round: "length A = 8 \<Longrightarrow> length (fips_round W t A) = 8"
  unfolding length_8 by (auto simp: fips_round_def Let_def)

lemma length_fold_round: "length A = 8 \<Longrightarrow> length (fold (fips_round W) ts A) = 8"
  by (induction ts arbitrary: A) (simp_all add: length_fips_round)

lemma length_sha_P [simp]: "length (sha_P a b c d e f g h x k A) = length A"
  by (simp add: sha_P_def Let_def)

text \<open>The rounds of the unrolled code work on registers that have not moved.\<close>

lemma sha_P_rots:
  assumes "length A = 8"
  shows
    "sha_rot (sha_P 7 0 1 2 3 4 5 6 x k A) = sha_P 0 1 2 3 4 5 6 7 x k (sha_rot A)"
    "sha_rot (sha_P 6 7 0 1 2 3 4 5 x k A) = sha_P 7 0 1 2 3 4 5 6 x k (sha_rot A)"
    "sha_rot (sha_P 5 6 7 0 1 2 3 4 x k A) = sha_P 6 7 0 1 2 3 4 5 x k (sha_rot A)"
    "sha_rot (sha_P 4 5 6 7 0 1 2 3 x k A) = sha_P 5 6 7 0 1 2 3 4 x k (sha_rot A)"
    "sha_rot (sha_P 3 4 5 6 7 0 1 2 x k A) = sha_P 4 5 6 7 0 1 2 3 x k (sha_rot A)"
    "sha_rot (sha_P 2 3 4 5 6 7 0 1 x k A) = sha_P 3 4 5 6 7 0 1 2 x k (sha_rot A)"
    "sha_rot (sha_P 1 2 3 4 5 6 7 0 x k A) = sha_P 2 3 4 5 6 7 0 1 x k (sha_rot A)"
  using assms unfolding length_8 by (auto simp: sha_rot_def sha_P_def Let_def)

lemma length_sha_rot [simp]: "length (sha_rot A) = 8"
  by (simp add: sha_rot_def)

lemma sha_rot_8: "length A = 8 \<Longrightarrow> sha_rot (sha_rot (sha_rot (sha_rot (sha_rot (sha_rot (sha_rot (sha_rot A))))))) = A"
  unfolding length_8 by (auto simp: sha_rot_def)

lemma upt_8: "[i..<i + 8] = [i, i + 1, i + 2, i + 3, i + 4, i + 5, i + 6, i + 7]"
  by (simp add: upt_rec)

lemma sha_eight_turns:
  assumes "length A = 8"
  shows "sha_eight_first W i A = fold (sha_turn W) [i..<i + 8] A"
proof -
  have "sha_eight_first W i A = sha_rot (sha_rot (sha_rot (sha_rot (sha_rot (sha_rot (sha_rot (sha_rot (sha_eight_first W i A))))))))"
    using assms by (simp add: sha_rot_8 sha_eight_first_def Let_def)
  also have "\<dots> = fold (sha_turn W) [i..<i + 8] A"
    unfolding upt_8 using assms by (simp add: sha_eight_first_def Let_def sha_P_rots sha_turn_def del: One_nat_def)
  finally show ?thesis .
qed

text \<open>The array \<^verbatim>\<open>W\<close>: the schedule as far as it has been computed.\<close>

lemma length_fips_schedule [simp]: "length (fips_schedule n M) = max 16 n"
proof -
  have "length (fold schedule_step ts W) = length W + length ts" for ts W
    by (induction ts arbitrary: W) (simp_all add: schedule_step_def)
  then show ?thesis by (simp add: fips_schedule_def)
qed

lemma fips_schedule_Suc: "16 \<le> n \<Longrightarrow> fips_schedule (Suc n) M = schedule_step n (fips_schedule n M)"
  by (simp add: fips_schedule_def)

lemma fips_schedule_nth: "16 \<le> n \<Longrightarrow> n \<le> m \<Longrightarrow> j < n \<Longrightarrow> fips_schedule m M ! j = fips_schedule n M ! j"
proof (induction m)
  case (Suc m)
  then show ?case
    by (cases "n = Suc m") (simp_all add: fips_schedule_Suc schedule_step_def nth_append)
qed simp

definition sha_W :: "nat \<Rightarrow> 8 word list \<Rightarrow> 32 word list" where
  "sha_W n M = fips_schedule n M @ replicate (64 - n) 0"

lemma sha_W_nth: "16 \<le> n \<Longrightarrow> n \<le> 64 \<Longrightarrow> j < n \<Longrightarrow> sha_W n M ! j = fips_schedule 64 M ! j"
  using fips_schedule_nth [of n 64 j M] by (simp add: sha_W_def nth_append)

lemma sha_R_W: "16 \<le> n \<Longrightarrow> n < 64 \<Longrightarrow> sha_R n (sha_W n M) = sha_W (Suc n) M"
  unfolding sha_R_def sha_W_def
  by (cases "64 - n") (simp_all add: nth_append fips_schedule_Suc schedule_step_def sha_functions list_update_append)

lemma sha_W_start: "fold (\<lambda>i W. W[i := GET_UINT32_BE M (4 * i)]) [0..<16] (replicate 64 0) = sha_W 16 M"
proof -
  have "fold (\<lambda>i W. W[i := f i]) [0..<n] (replicate 64 0) = map f [0..<n] @ replicate (64 - n) 0" if "n \<le> 64" for n and f :: "nat \<Rightarrow> 32 word"
    using that
  proof (induction n)
    case (Suc n)
    then have "replicate (64 - n) (0 :: 32 word) = 0 # replicate (64 - Suc n) 0"
      by (simp flip: replicate_Suc add: Suc_diff_Suc)
    with Suc show ?case by (simp add: list_update_append)
  qed simp
  from this [of 16] show ?thesis by (simp add: sha_W_def fips_schedule_def GET_be_word)
qed

lemma sha_first_schedule:
  "i + 8 \<le> 16 \<Longrightarrow> sha_eight_first (sha_W 16 M) i = sha_eight_first (fips_schedule 64 M) i"
  by (rule ext) (simp add: sha_eight_first_def sha_W_nth)

lemma sha_next_schedule:
  assumes "16 \<le> i" "i + 8 \<le> 64"
  shows "sha_eight_next i (sha_W i M, A) = (sha_W (i + 8) M, sha_eight_first (fips_schedule 64 M) i A)"
proof -
  have R: "sha_R (i + 0) (sha_W i M) = sha_W (i + 1) M" "sha_R (i + 1) (sha_W (i + 1) M) = sha_W (i + 2) M"
    "sha_R (i + 2) (sha_W (i + 2) M) = sha_W (i + 3) M" "sha_R (i + 3) (sha_W (i + 3) M) = sha_W (i + 4) M"
    "sha_R (i + 4) (sha_W (i + 4) M) = sha_W (i + 5) M" "sha_R (i + 5) (sha_W (i + 5) M) = sha_W (i + 6) M"
    "sha_R (i + 6) (sha_W (i + 6) M) = sha_W (i + 7) M" "sha_R (i + 7) (sha_W (i + 7) M) = sha_W (i + 8) M"
    using assms by (simp_all add: sha_R_W numeral_eq_Suc)
  show ?thesis
    unfolding sha_eight_next_def sha_eight_first_def Let_def split R using assms by (simp add: sha_W_nth)
qed

lemma fold_turn_round: "length A = 8 \<Longrightarrow> fold (sha_turn W) ts A = fold (fips_round W) ts A"
  by (induction ts arbitrary: A) (simp_all add: sha_turn_fips length_fips_round)

lemma sha_eight_rounds:
  "length A = 8 \<Longrightarrow> sha_eight_first W i A = fold (fips_round W) [i..<i + 8] A"
  by (simp only: sha_eight_turns fold_turn_round)

lemma sha_process_fips:
  assumes "length (sha_state ctx) = 8"
  shows "mbedtls_internal_sha256_process M ctx = ctx\<lparr>sha_state := fips_block M (sha_state ctx)\<rparr>"
proof -
  let ?S = "fips_schedule 64 M" and ?H = "sha_state ctx"
  let ?r = "\<lambda>ts A. fold (fips_round ?S) ts A"
  have l: "length (?r ts ?H) = 8" for ts using assms by (rule length_fold_round)
  have first: "fold (sha_eight_first (sha_W 16 M)) [0, 8] ?H = ?r ([0..<8] @ [8..<16]) ?H"
    using sha_eight_rounds [OF assms, of ?S 0] sha_eight_rounds [OF l [of "[0..<8]"], of ?S 8]
    by (simp add: sha_first_schedule)
  have "sha_eight_next i (sha_W i M, ?r [0..<i] ?H) = (sha_W (i + 8) M, ?r [0..<i + 8] ?H)"
    if "16 \<le> i" "i + 8 \<le> 64" for i
    unfolding sha_next_schedule [OF that] sha_eight_rounds [OF l] upt_add_eq_append [OF le0] by simp
  from this [of 16] this [of 24] this [of 32] this [of 40] this [of 48] this [of 56]
  have "fold sha_eight_next [16, 24, 32, 40, 48, 56] (sha_W 16 M, ?r [0..<16] ?H) = (sha_W 64 M, ?r [0..<64] ?H)"
    by simp
  moreover have "[0..<8] @ [8..<16] = [0..<16 :: nat]" using upt_add_eq_append [of 0 8 8] by simp
  ultimately show ?thesis
    unfolding mbedtls_internal_sha256_process_def sha_W_start Let_def first by (simp add: fips_block_def)
qed

lemma sha_smaller_fips:
  assumes "length (sha_state ctx) = 8"
  shows "sha256_process_smaller M ctx = ctx\<lparr>sha_state := fips_block M (sha_state ctx)\<rparr>"
proof -
  let ?S = "fips_schedule 64 M" and ?H = "sha_state ctx"
  let ?G = "\<lambda>n. map (\<lambda>i. be_word M (4 * i)) [0..<n] @ replicate (64 - n) 0"
  have l: "length (fold (fips_round ?S) ts ?H) = 8" for ts using assms by (rule length_fold_round)
  have turn: "fips_round ?S n A = (let A = sha_P 0 1 2 3 4 5 6 7 (?S ! n) (sha_K ! n) A
      in [A ! 7, A ! 0, A ! 1, A ! 2, A ! 3, A ! 4, A ! 5, A ! 6])" if "length A = 8" for n A
    using sha_turn_fips [OF that, of ?S n] by (simp add: sha_turn_def sha_rot_def Let_def)
  have early: "fold (sha_small_round M) [0..<n] (replicate 64 0, ?H) = (?G n, fold (fips_round ?S) [0..<n] ?H)" if "n \<le> 16" for n
    using that
  proof (induction n)
    case (Suc n)
    have "replicate (64 - n) (0 :: 32 word) = 0 # replicate (64 - Suc n) 0"
      using Suc.prems by (simp flip: replicate_Suc add: Suc_diff_Suc)
    then have G: "(?G n)[n := GET_UINT32_BE M (4 * n)] = ?G (Suc n)" by (simp add: list_update_append GET_be_word)
    have "?G (Suc n) ! n = fips_schedule 16 M ! n" using Suc.prems by (simp add: nth_append fips_schedule_def)
    also have "\<dots> = ?S ! n" using fips_schedule_nth [of 16 64 n M] Suc.prems by simp
    finally show ?case using Suc G turn [OF l] by (simp add: sha_small_round_def Let_def)
  qed simp
  have late: "fold (sha_small_round M) [0..<n] (replicate 64 0, ?H) = (sha_W n M, fold (fips_round ?S) [0..<n] ?H)"
    if "16 \<le> n" "n \<le> 64" for n
    using that
  proof (induction n rule: dec_induct)
    case base
    show ?case using early [of 16] by (simp add: sha_W_def fips_schedule_def)
  next
    case (step n)
    then show ?case
      using turn [OF l] sha_W_nth [of "Suc n" n M] by (simp add: sha_small_round_def Let_def sha_R_W)
  qed
  from late [of 64] show ?thesis by (simp add: sha256_process_smaller_def fips_block_def)
qed

section \<open>Updates\<close>

text \<open>What is left of a message after its whole blocks.\<close>

definition block_rest :: "8 word list \<Rightarrow> 8 word list" where
  "block_rest m = drop (64 * (length m div 64)) m"

lemma length_block_rest [simp]: "length (block_rest m) = length m mod 64"
  by (simp add: block_rest_def minus_mult_div_eq_mod)

lemma block_rest_short [simp]: "length m < 64 \<Longrightarrow> block_rest m = m"
  by (simp add: block_rest_def)

lemma block_rest_drop: "64 \<le> length m \<Longrightarrow> block_rest (drop 64 m) = block_rest m"
  by (simp add: block_rest_def le_div_geq add.commute)

lemma fips_blocks_short [simp]: "length m < 64 \<Longrightarrow> fips_blocks m = []"
  by (subst fips_blocks.simps) simp

lemma fips_blocks_long: "64 \<le> length m \<Longrightarrow> fips_blocks m = take 64 m # fips_blocks (drop 64 m)"
  by (subst fips_blocks.simps) simp

lemma blocks_append: "fips_blocks (m @ x) = fips_blocks m @ fips_blocks (block_rest m @ x) \<and>
    block_rest (m @ x) = block_rest (block_rest m @ x)"
proof (induction m rule: fips_blocks.induct)
  case (1 m)
  show ?case
  proof (cases "length m < 64")
    case False
    then have "fips_blocks (m @ x) = take 64 m # fips_blocks (drop 64 m @ x)"
      "block_rest (m @ x) = block_rest (drop 64 m @ x)"
      using fips_blocks_long [of "m @ x"] block_rest_drop [of "m @ x"] by simp_all
    with 1 False show ?thesis by (simp add: fips_blocks_long block_rest_drop)
  qed simp
qed

lemma length_fips_block: "length H = 8 \<Longrightarrow> length (fips_block M H) = 8"
  by (simp add: fips_block_def length_fold_round)

lemma length_fold_block: "length H = 8 \<Longrightarrow> length (fold fips_block bs H) = 8"
  by (induction bs arbitrary: H) (simp_all add: length_fips_block)

lemma sha_whole_blocks_fips:
  "length (sha_state ctx) = 8 \<Longrightarrow>
     sha_whole_blocks m ctx = (block_rest m, ctx\<lparr>sha_state := fold fips_block (fips_blocks m) (sha_state ctx)\<rparr>)"
proof (induction m ctx rule: sha_whole_blocks.induct)
  case (1 m ctx)
  show ?case
  proof (cases "64 \<le> length m")
    case True
    with 1 show ?thesis
      by (subst sha_whole_blocks.simps)
        (simp add: sha_process_fips length_fips_block block_rest_drop fips_blocks_long)
  qed (subst sha_whole_blocks.simps; simp)
qed

text \<open>The context after a message \<open>m\<close>, for the initial state \<open>H\<close>.\<close>

definition ctx_ok :: "32 word list \<Rightarrow> 8 word list \<Rightarrow> zuo_sha2_ctx \<Rightarrow> bool" where
  "ctx_ok H m ctx \<longleftrightarrow> length H = 8 \<and> sha_total0 ctx = word_of_nat (length m) \<and>
     sha_state ctx = fold fips_block (fips_blocks m) H \<and> length (sha_buffer ctx) = 64 \<and>
     take (length m mod 64) (sha_buffer ctx) = block_rest m"

lemma total_left: "unat (word_of_nat n AND (0x3F :: 32 word)) = n mod 64"
proof -
  have "word_of_nat n AND (0x3F :: 32 word) = take_bit 6 (word_of_nat n)"
    by (simp add: take_bit_eq_mask mask_eq_exp_minus_1)
  then show ?thesis by (simp only: unsigned_take_bit_eq unat_of_nat) (simp add: take_bit_eq_mod mod_mod_cancel)
qed

lemma and_ones: "(x :: 32 word) AND 0xFFFFFFFF = x"
  using sha_SHR_drop [of x 0] by (simp add: sha_SHR_def)

lemma sha_memcpy_0:
  "length r \<le> length b \<Longrightarrow> length (sha_memcpy 0 r b) = length b \<and> take (length r) (sha_memcpy 0 r b) = r"
  by (simp add: sha_memcpy_def)

lemma update_ok:
  assumes "ctx_ok H m ctx"
  shows "ctx_ok H (m @ x) (mbedtls_sha256_update_ret x ctx)"
    and "sha_is224 (mbedtls_sha256_update_ret x ctx) = sha_is224 ctx"
    and "x \<noteq> [] \<Longrightarrow> sha_total1 (mbedtls_sha256_update_ret x ctx) =
      sha_total1 ctx + of_bool (word_of_nat (length (m @ x)) < (word_of_nat (length x) :: 32 word))"
proof -
  let ?left = "length m mod 64" and ?len = "word_of_nat (length x) :: 32 word"
  define ctx1 where "ctx1 =
    (if word_of_nat (length m) + ?len < ?len
     then ctx\<lparr>sha_total0 := word_of_nat (length m) + ?len, sha_total1 := sha_total1 ctx + 1\<rparr>
     else ctx\<lparr>sha_total0 := word_of_nat (length m) + ?len\<rparr>)"
  have c: "length H = 8" "sha_total0 ctx = word_of_nat (length m)" "sha_state ctx = fold fips_block (fips_blocks m) H"
    "length (sha_buffer ctx) = 64" "take ?left (sha_buffer ctx) = block_rest m"
    using assms by (simp_all add: ctx_ok_def)
  have l8: "length (fold fips_block bs H) = 8" for bs using c(1) by (rule length_fold_block)
  have c1: "sha_total0 ctx1 = word_of_nat (length (m @ x))" "sha_state ctx1 = sha_state ctx"
    "sha_buffer ctx1 = sha_buffer ctx" "sha_is224 ctx1 = sha_is224 ctx"
    "sha_total1 ctx1 = sha_total1 ctx + of_bool (word_of_nat (length (m @ x)) < ?len)"
    by (simp_all add: ctx1_def)
  have left: "unat (sha_total0 ctx AND 0x3F) = ?left" by (simp add: c(2) total_left)
  have upd: "mbedtls_sha256_update_ret x ctx =
     (let (input, left, ctx) =
        (if ?left \<noteq> 0 \<and> length x \<ge> 64 - ?left then
           let ctx = ctx1\<lparr>sha_buffer := sha_memcpy ?left (take (64 - ?left) x) (sha_buffer ctx1)\<rparr>
           in (drop (64 - ?left) x, 0, mbedtls_internal_sha256_process (sha_buffer ctx) ctx)
         else (x, ?left, ctx1));
        (input, ctx) = sha_whole_blocks input ctx
      in if input \<noteq> [] then ctx\<lparr>sha_buffer := sha_memcpy left input (sha_buffer ctx)\<rparr> else ctx)" if "x \<noteq> []"
    unfolding mbedtls_sha256_update_ret_def left ctx1_def using that by (simp add: Let_def and_ones c(2) split del: if_split cong: if_cong)
  note app = blocks_append [of m x]
  have rest: "length (block_rest m) = ?left" by simp
  consider "x = []" | "x \<noteq> []" "?left = 0" | "x \<noteq> []" "?left \<noteq> 0" "length x < 64 - ?left"
    | "x \<noteq> []" "?left \<noteq> 0" "64 - ?left \<le> length x" by linarith
  then have "ctx_ok H (m @ x) (mbedtls_sha256_update_ret x ctx) \<and>
    sha_is224 (mbedtls_sha256_update_ret x ctx) = sha_is224 ctx \<and>
    (x \<noteq> [] \<longrightarrow> sha_total1 (mbedtls_sha256_update_ret x ctx) = sha_total1 ctx1)"
  proof cases
    case 1
    then show ?thesis using assms by (simp add: mbedtls_sha256_update_ret_def)
  next
    case 2
    then have r: "block_rest m = []" using rest by (simp only: length_0_conv)
    have w: "sha_whole_blocks x ctx1 = (block_rest x, ctx1\<lparr>sha_state := fold fips_block (fips_blocks x) (sha_state ctx)\<rparr>)"
      by (simp add: sha_whole_blocks_fips c1 c(3) l8)
    have "length (m @ x) mod 64 = length x mod 64"
      using arg_cong [OF conjunct2 [OF app], of length] r by simp
    moreover have "block_rest x = [] \<longleftrightarrow> length x mod 64 = 0"
      by (metis length_block_rest length_0_conv)
    ultimately show ?thesis using 2 app r c upd by (auto simp: w ctx_ok_def c1 sha_memcpy_def)
  next
    case 3
    have w: "sha_whole_blocks x ctx1 = (x, ctx1)"
      using 3 by (simp add: sha_whole_blocks_fips c1 c(3) l8)
    have short: "length (block_rest m @ x) < 64" using 3 rest by simp
    have "(length m + length x) mod 64 = (?left + length x) mod 64" by (simp add: mod_add_left_eq)
    then have "(length m + length x) mod 64 = ?left + length x" using 3 by simp
    then show ?thesis using 3 short app c upd rest by (auto simp: w ctx_ok_def c1 sha_memcpy_def)
  next
    case 4
    let ?fill = "64 - ?left" let ?b = "block_rest m @ take ?fill x"
    have b: "length ?b = 64" using 4 rest by simp
    have copied: "sha_memcpy ?left (take ?fill x) (sha_buffer ctx1) = ?b"
      using 4 c by (simp add: sha_memcpy_def c1)
    have split: "block_rest m @ x = ?b @ drop ?fill x" by simp
    have app4: "fips_blocks (m @ x) = fips_blocks m @ ?b # fips_blocks (drop ?fill x)"
      "block_rest (m @ x) = block_rest (drop ?fill x)"
      using app fips_blocks_long [of "?b @ drop ?fill x"] block_rest_drop [of "?b @ drop ?fill x"] b
      unfolding split by simp_all
    let ?ctx = "ctx1\<lparr>sha_buffer := ?b\<rparr>"
    have p: "mbedtls_internal_sha256_process ?b ?ctx = ?ctx\<lparr>sha_state := fips_block ?b (sha_state ctx)\<rparr>"
      using sha_process_fips [of ?ctx ?b] by (simp add: c1 c(3) l8)
    have w: "sha_whole_blocks (drop ?fill x) (?ctx\<lparr>sha_state := fips_block ?b (sha_state ctx)\<rparr>) =
        (block_rest (drop ?fill x), ?ctx\<lparr>sha_state := fold fips_block (fips_blocks (drop ?fill x)) (fips_block ?b (sha_state ctx))\<rparr>)"
      by (simp add: sha_whole_blocks_fips c(3) l8 length_fips_block)
    let ?R = "block_rest (drop ?fill x)" and ?ctx2 = "mbedtls_sha256_update_ret x ctx"
    have "?ctx2 =
       (let ctx' = ?ctx\<lparr>sha_state := fold fips_block (fips_blocks (drop ?fill x)) (fips_block ?b (sha_state ctx))\<rparr>
        in if ?R \<noteq> [] then ctx'\<lparr>sha_buffer := sha_memcpy 0 ?R ?b\<rparr> else ctx')"
      using 4 by (simp add: upd copied p w)
    then have u: "sha_total0 ?ctx2 = sha_total0 ctx1" "sha_total1 ?ctx2 = sha_total1 ctx1" "sha_is224 ?ctx2 = sha_is224 ctx1"
      "sha_state ?ctx2 = fold fips_block (fips_blocks (drop ?fill x)) (fips_block ?b (sha_state ctx))"
      "sha_buffer ?ctx2 = (if ?R \<noteq> [] then sha_memcpy 0 ?R ?b else ?b)"
      by (simp_all add: Let_def)
    have R: "length (m @ x) mod 64 = length ?R" using arg_cong [OF app4(2), of length] by simp
    moreover have "length ?R \<le> 64" by simp
    ultimately have "length (sha_buffer ?ctx2) = 64 \<and> take (length (m @ x) mod 64) (sha_buffer ?ctx2) = ?R"
      unfolding u R using b sha_memcpy_0 [of ?R ?b] by (simp del: length_block_rest)
    then show ?thesis
      using c(1) unfolding ctx_ok_def u c1 app4 c(3) by simp
  qed
  then show "ctx_ok H (m @ x) (mbedtls_sha256_update_ret x ctx)"
    "sha_is224 (mbedtls_sha256_update_ret x ctx) = sha_is224 ctx"
    "x \<noteq> [] \<Longrightarrow> sha_total1 (mbedtls_sha256_update_ret x ctx) =
      sha_total1 ctx + of_bool (word_of_nat (length (m @ x)) < ?len)" by (simp_all add: c1)
qed

section \<open>The digest\<close>

lemma total1_carry:
  assumes "b < 2 ^ 32"
  shows "word_of_nat (a div 2 ^ 32) + of_bool (word_of_nat (a + b) < (word_of_nat b :: 32 word)) =
    (word_of_nat ((a + b) div 2 ^ 32) :: 32 word)"
proof -
  have "(a + b) div 2 ^ 32 = a div 2 ^ 32 + of_bool ((a + b) mod 2 ^ 32 < b)"
  proof -
    define N :: nat where "N = 2 ^ 32"
    have N: "0 < N" "b < N" using assms by (simp_all add: N_def)
    have r: "a mod N < N" using N by simp
    have "(a + b) div N = a div N + (a mod N + b) div N" "(a + b) mod N = (a mod N + b) mod N"
      using N by (simp_all add: div_add1_eq [of a b] mod_add_left_eq)
    moreover have "(a mod N + b) div N = of_bool ((a mod N + b) mod N < b)"
    proof (cases "a mod N + b < N")
      case False
      then have "a mod N + b - N < b" "a mod N + b - N < N" "N \<le> a mod N + b" using r N by linarith+
      then show ?thesis by (simp add: le_div_geq le_mod_geq)
    qed simp
    ultimately show ?thesis by (simp add: N_def)
  qed
  moreover have "word_of_nat (a + b) < (word_of_nat b :: 32 word) \<longleftrightarrow> (a + b) mod 2 ^ 32 < b"
    unfolding word_less_nat_alt unat_of_nat using assms by simp
  ultimately show ?thesis by (simp only: of_nat_add of_nat_of_bool)
qed

lemma be_bytes_8: "be_bytes 8 x = be_bytes 4 (x div 2 ^ 32) @ be_bytes 4 x"
  by (simp add: be_bytes_def upt_rec flip: zdiv_zmult2_eq)

lemma msglen_bytes:
  "PUT_UINT32_BE (drop_bit 29 (word_of_int len) OR push_bit 3 (word_of_int (len div 2 ^ 32))) @
   PUT_UINT32_BE (push_bit 3 (word_of_int len)) = be_bytes 8 (8 * len)"
proof -
  have "push_bit 3 (word_of_int len) = (word_of_int (8 * len) :: 32 word)"
    by (simp add: push_bit_eq_mult)
  moreover have "drop_bit 29 (word_of_int len) OR push_bit 3 (word_of_int (len div 2 ^ 32)) =
      (word_of_int ((8 * len) div 2 ^ 32) :: 32 word)"
  proof -
    have "(8 * len) div 2 ^ 32 = drop_bit 29 len" by (simp add: drop_bit_eq_div)
    moreover have "len div 2 ^ 32 = drop_bit 32 len" by (simp add: drop_bit_eq_div)
    ultimately show ?thesis
      by (intro bit_word_eqI) (auto simp: bit_or_iff bit_drop_bit_eq bit_push_bit_iff bit_word_of_int_iff)
  qed
  ultimately show ?thesis by (simp only: PUT_be_bytes be_bytes_8)
qed

lemma padding_bytes:
  fixes n :: nat and lo :: "32 word"
  assumes lo: "lo = word_of_nat n AND 0x3F"
  shows "take (unat (if lo < 56 then 56 - lo else 120 - lo)) sha256_padding =
    0x80 # replicate (nat ((55 - int n) mod 64)) 0"
proof -
  have l: "unat lo = n mod 64" using total_left [of n] by (simp only: lo)
  then have less: "lo < 56 \<longleftrightarrow> n mod 64 < 56" by (simp add: word_less_nat_alt)
  have m: "(55 - int n) mod 64 = (55 - int (n mod 64)) mod 64" by (simp add: zmod_int mod_diff_right_eq)
  have le: "lo \<le> 56 \<longleftrightarrow> n mod 64 \<le> 56" "lo \<le> 120" using l by (simp_all add: word_le_nat_alt)
  have "unat (if lo < 56 then 56 - lo else 120 - lo) = Suc (nat ((55 - int n) mod 64))"
  proof (cases "n mod 64 < 56")
    case True
    then have "unat (56 - lo) = 56 - n mod 64" using le l by (simp add: unat_sub)
    moreover have "nat ((55 - int n) mod 64) = 55 - n mod 64" unfolding m using True by simp
    moreover have "56 - n mod 64 = Suc (55 - n mod 64)" using True by linarith
    ultimately show ?thesis using True less by (simp only: if_True)
  next
    case False
    then have "unat (120 - lo) = 120 - n mod 64" using le l by (simp add: unat_sub)
    moreover have "nat ((55 - int n) mod 64) = 119 - n mod 64"
    proof -
      have "(55 - int (n mod 64)) mod 64 = (55 - int (n mod 64) + 64) mod 64"
        by (simp only: mod_add_self2)
      also have "\<dots> = 119 - int (n mod 64)" using False by (subst mod_pos_pos_trivial) auto
      finally show ?thesis unfolding m by simp
    qed
    moreover have "120 - n mod 64 = Suc (119 - n mod 64)" using mod_less_divisor [of 64 n] by linarith
    ultimately show ?thesis using False less by (simp only: if_False)
  qed
  moreover have "nat ((55 - int n) mod 64) \<le> 63" using pos_mod_bound [of 64 "55 - int n"] by simp
  ultimately show ?thesis by (simp add: sha256_padding_def)
qed

lemma sha_finish_ok:
  assumes "ctx_ok (fips_H (sha_is224 ctx)) m ctx" "sha_total0 ctx = word_of_int len" "sha_total1 ctx = word_of_int (len div 2 ^ 32)"
  shows "mbedtls_sha256_finish_ret ctx = hash_with (sha_is224 ctx) len m"
proof -
  let ?H = "fips_H (sha_is224 ctx)" let ?pad = "0x80 # replicate (nat ((55 - int (length m)) mod 64)) (0 :: 8 word)"
  have t0: "sha_total0 ctx = word_of_nat (length m)" using assms(1) by (simp add: ctx_ok_def)
  have pad: "take (unat (if sha_total0 ctx AND 0x3F < 56 then 56 - (sha_total0 ctx AND 0x3F) else 120 - (sha_total0 ctx AND 0x3F)))
      sha256_padding = ?pad"
    unfolding t0 by (rule padding_bytes [OF refl])
  have msglen: "PUT_UINT32_BE (drop_bit 29 (sha_total0 ctx) OR push_bit 3 (sha_total1 ctx)) @
      PUT_UINT32_BE (push_bit 3 (sha_total0 ctx)) = be_bytes 8 (8 * len)"
    unfolding assms(2,3) by (rule msglen_bytes)
  define ctx2 where "ctx2 = mbedtls_sha256_update_ret (be_bytes 8 (8 * len)) (mbedtls_sha256_update_ret ?pad ctx)"
  have "ctx_ok ?H ((m @ ?pad) @ be_bytes 8 (8 * len)) ctx2" and kind: "sha_is224 ctx2 = sha_is224 ctx"
    unfolding ctx2_def using update_ok(1) [OF update_ok(1) [OF assms(1)]] by (simp_all only: update_ok(2) [OF assms(1)] update_ok(2) [OF update_ok(1) [OF assms(1)]])
  then have st: "sha_state ctx2 = fold fips_block (fips_blocks (pad_with len m)) ?H" and l: "length (sha_state ctx2) = 8"
    by (simp_all add: ctx_ok_def pad_with_def length_fold_block)
  have words: "(if sha_is224 ctx2 then take 7 (sha_state ctx2) else take 8 (sha_state ctx2)) =
      take (if sha_is224 ctx then 7 else 8) (sha_state ctx2)" by (simp add: kind)
  have put: "PUT_UINT32_BE = (\<lambda>w. be_bytes 4 (uint w))"
    using PUT_be_bytes [of "uint w" for w :: "32 word"] by (simp add: fun_eq_iff)
  show ?thesis
    unfolding mbedtls_sha256_finish_ret_def Let_def pad msglen ctx2_def [symmetric] words
    unfolding hash_with_def st put ..
qed

lemma start_ok:
  "ctx_ok (fips_H is224) [] (mbedtls_sha256_starts_ret is224 mbedtls_sha256_init)"
  "sha_is224 (mbedtls_sha256_starts_ret is224 mbedtls_sha256_init) = is224"
  "sha_total1 (mbedtls_sha256_starts_ret is224 mbedtls_sha256_init) = 0"
  by (simp_all add: ctx_ok_def H_fips) (simp_all add: fips_H_def fips_primes_def mbedtls_sha256_starts_ret_def mbedtls_sha256_init_def)

definition hex_digits :: "8 word list \<Rightarrow> string" where
  "hex_digits bs = concat (map (\<lambda>d. [''0123456789abcdef'' ! (unat d div 16), ''0123456789abcdef'' ! (unat d mod 16)]) bs)"

lemma hex_char_digit: "n < 16 \<Longrightarrow> hex_char n = ''0123456789abcdef'' ! n"
proof -
  have "\<forall>n \<in> set [0..<16]. hex_char n = ''0123456789abcdef'' ! n" by code_simp
  then show "n < 16 \<Longrightarrow> hex_char n = ''0123456789abcdef'' ! n" by simp
qed

lemma hex_pair: "[hex_char (unat (drop_bit 4 d)), hex_char (unat (d AND 0xF))] =
    [''0123456789abcdef'' ! (unat d div 16), ''0123456789abcdef'' ! (unat d mod 16)]" for d :: "8 word"
proof -
  have "d AND 0xF = take_bit 4 d" by (simp add: take_bit_eq_mask mask_eq_exp_minus_1)
  then have "unat (d AND 0xF) = unat d mod 16" by (simp only: unsigned_take_bit_eq) (simp add: take_bit_eq_mod)
  moreover have less: "unat d < 256" using unsigned_less [of d] by simp
  moreover have "unat (drop_bit 4 d) = unat d div 16"
    using less by (simp only: unsigned_drop_bit_eq) (simp add: drop_bit_eq_div take_bit_eq_mod)
  ultimately show ?thesis by (simp add: hex_char_digit)
qed

lemma updates_ok:
  assumes "ctx_ok H m ctx" "sha_total1 ctx = word_of_nat (length m div 2 ^ 32)" "\<forall>x \<in> set chunks. length x < 2 ^ 32"
  shows "ctx_ok H (m @ concat chunks) (fold mbedtls_sha256_update_ret chunks ctx) \<and>
    sha_is224 (fold mbedtls_sha256_update_ret chunks ctx) = sha_is224 ctx \<and>
    sha_total1 (fold mbedtls_sha256_update_ret chunks ctx) = word_of_nat (length (m @ concat chunks) div 2 ^ 32)"
  using assms
proof (induction chunks arbitrary: m ctx)
  case (Cons x chunks)
  let ?ctx = "mbedtls_sha256_update_ret x ctx"
  note u = update_ok [OF Cons.prems(1), of x]
  have "sha_total1 ?ctx = word_of_nat (length (m @ x) div 2 ^ 32)"
  proof (cases "x = []")
    case True
    then show ?thesis using Cons.prems(2) by (simp add: mbedtls_sha256_update_ret_def)
  next
    case False
    then show ?thesis using u(3) Cons.prems(2,3) total1_carry [of "length x" "length m"] by simp
  qed
  from Cons.IH [OF u(1) this] Cons.prems(3) u(2) show ?case by simp
qed simp

text \<open>
  C13: SHA-256 and SHA-224 of a message given in pieces of less than 4 GiB each, of any sizes, are the
  digests that the standard defines for the whole message: the constants are the standard's roots of primes,
  the unrolled rounds are the standard's, blocks are collected across pieces, and the 64-bit
  length is counted with its carry.
\<close>

theorem sha256_streaming:
  assumes "\<forall>x \<in> set chunks. length x < 2 ^ 32"
  shows "mbedtls_sha256_finish_ret (fold mbedtls_sha256_update_ret chunks (mbedtls_sha256_starts_ret is224 mbedtls_sha256_init)) =
    fips_hash is224 (concat chunks)"
proof -
  let ?ctx = "fold mbedtls_sha256_update_ret chunks (mbedtls_sha256_starts_ret is224 mbedtls_sha256_init)"
  let ?n = "length (concat chunks)"
  have u: "ctx_ok (fips_H is224) (concat chunks) ?ctx" "sha_is224 ?ctx = is224" "sha_total1 ?ctx = word_of_nat (?n div 2 ^ 32)"
    using updates_ok [OF start_ok(1) _ assms, of is224] start_ok(2,3) [of is224] by simp_all
  have "sha_total0 ?ctx = word_of_int (int ?n)" using u(1) by (simp add: ctx_ok_def)
  moreover have "sha_total1 ?ctx = word_of_int (int ?n div 2 ^ 32)"
  proof -
    have "int ?n div 2 ^ 32 = int (?n div 2 ^ 32)" by (simp only: zdiv_int of_nat_power of_nat_numeral)
    then show ?thesis by (simp only: u(3) of_int_of_nat_eq)
  qed
  ultimately show ?thesis using sha_finish_ok [of ?ctx "concat chunks" "int ?n"] u(1,2) by (simp add: fips_hash_def)
qed

theorem sha256_streaming_witness:
  "mbedtls_sha256_finish_ret (fold mbedtls_sha256_update_ret [[97], [98, 99], replicate 70 100]
       (mbedtls_sha256_starts_ret True mbedtls_sha256_init)) =
     fips_hash True ([97, 98, 99] @ replicate 70 100)"
  using sha256_streaming [of "[[97], [98, 99], replicate 70 100]" True] by simp

text \<open>
  C32: \<^verbatim>\<open>string-sha256\<close> returns the digest of the standard in hexadecimal for every string of less
  than 4 GiB. A longer string is hashed with its length modulo \<^term>\<open>2 ^ 32 :: nat\<close> in the padding, since the counter
  sees only the low half of the length of a piece.
\<close>

theorem string_sha256_correct:
  "zuo_string_sha256 (VString s) =
     Inr (VString (hex_digits (hash_with False (int (length s mod 2 ^ 32)) (string_octets s)))) \<and>
   (length s < 2 ^ 32 \<longrightarrow> zuo_string_sha256 (VString s) = Inr (VString (hex_digits (fips_hash False (string_octets s)))))"
proof -
  let ?x = "string_octets s" let ?ctx = "mbedtls_sha256_update_ret ?x zuo_sha256_init" and ?n = "length s"
  have start: "ctx_ok (fips_H False) [] zuo_sha256_init" "sha_is224 zuo_sha256_init = False" "sha_total1 zuo_sha256_init = 0"
    unfolding zuo_sha256_init_def by (rule start_ok)+
  have len: "length ?x = ?n" by (simp add: string_octets_def)
  note u = update_ok [OF start(1), of ?x]
  have c: "ctx_ok (fips_H (sha_is224 ?ctx)) ?x ?ctx" using u(1,2) start(2) by simp
  have "sha_total0 ?ctx = word_of_nat ?n" using u(1) by (simp add: ctx_ok_def len)
  also have "\<dots> = word_of_nat (?n mod 2 ^ 32)"
    by (simp only: word_of_nat_eq_iff) (simp add: take_bit_eq_mod)
  finally have "sha_total0 ?ctx = word_of_int (int (?n mod 2 ^ 32))" by simp
  moreover have "sha_total1 ?ctx = word_of_int (int (?n mod 2 ^ 32) div 2 ^ 32)"
  proof -
    have "int (?n mod 2 ^ 32) div 2 ^ 32 = 0" by (simp add: zmod_int)
    moreover have "sha_total1 ?ctx = 0"
      using u(3) start(3) by (cases "?x = []") (simp_all add: mbedtls_sha256_update_ret_def)
    ultimately show ?thesis by simp
  qed
  ultimately have "mbedtls_sha256_finish_ret ?ctx = hash_with False (int (?n mod 2 ^ 32)) ?x"
    using sha_finish_ok [OF c] u(2) start(2) by simp
  then show ?thesis
    by (simp add: zuo_string_sha256_def zuo_sha256_final_def zuo_sha256_update_def hex_pair hex_digits_def fips_hash_def len)
qed

theorem string_sha256_correct_witness:
  "zuo_string_sha256 (VString ''abc'') = Inr (VString (hex_digits (fips_hash False [97, 98, 99])))"
  using string_sha256_correct [of "''abc''"] by (simp add: string_octets_def fips_hash_def)

text \<open>
  C33: both configurations of the block function, the unrolled one that leaves the registers in place and the
  compact one that moves them, compute the compression of the standard from any state of eight registers.
\<close>

theorem sha256_configurations_agree:
  assumes "length (sha_state ctx) = 8"
  shows "mbedtls_internal_sha256_process M ctx = sha256_process_smaller M ctx \<and>
    sha_state (sha256_process_smaller M ctx) = fips_block M (sha_state ctx)"
  by (simp add: sha_process_fips sha_smaller_fips assms)

theorem sha256_configurations_agree_witness:
  "mbedtls_internal_sha256_process (replicate 64 97) zuo_sha256_init = sha256_process_smaller (replicate 64 97) zuo_sha256_init"
  using sha256_configurations_agree [of zuo_sha256_init "replicate 64 97"]
  by (simp add: zuo_sha256_init_def mbedtls_sha256_starts_ret_def)

end
