(* ===== verification/Zuo_Heap.thy ===== *)
theory Zuo_Heap
  imports Zuo_Prelude
begin

text \<open>
  The memory manager of \<^verbatim>\<open>zuo.c\<close>: allocation in a to-space with overflow spaces and
  recycling, and the copying collector. Memory is a set of blocks obtained from
  \<^verbatim>\<open>malloc\<close>, a block by its number (\<open>0\<close> is the null pointer), an address by a block
  and a byte offset in it. The objects in memory have the layouts of the C structs, with
  addresses in their pointer fields. Sizes and offsets are those of a 64-bit platform and are
  unbounded natural numbers; \<^verbatim>\<open>malloc\<close> does not fail. An access that has no meaning in C
  (an address where no object was stored, a copy beyond the end of a block) is a fault.

  The theorems show that a collection always ends without a fault, keeps exactly the objects
  reachable from the roots, with the same contents and sharing at new addresses, and that
  allocation gives memory no other object overlaps.
\<close>

section \<open>Objects\<close>

datatype addr = Addr (block_of: nat) (offset_of: nat)

datatype htag =
    Singleton_Tag | Pair_Tag | Integer_Tag | String_Tag | Symbol_Tag | Trie_Node_Tag
  | Variable_Tag | Primitive_Tag | Closure_Tag | Handle_Tag | Opaque_Tag | Cont_Tag
  | Forwarded_Tag

datatype kont_tag = Apply_K | Begin_K | Let_K | If_K | Done_K

text \<open>
  A string has its bytes and a flag that says whether the byte after them is the
  terminator. A primitive is its dispatcher and procedure, by the name of the procedure, its
  arity mask and its name. A handle has its id, and its status and raw handle.
\<close>

datatype 'a hobj =
    HSingleton
  | HPair 'a 'a
  | HInteger zuo_int
  | HString string bool
  | HSymbol zuo_int32 'a
  | HTrieNode zuo_int 'a 'a "'a list"
  | HVariable 'a 'a
  | HPrimitive string zuo_int32 'a
  | HClosure 'a 'a
  | HHandle zuo_int nat int
  | HOpaque 'a 'a
  | HCont kont_tag 'a 'a 'a 'a
  | HForwarded 'a

type_synonym obj = "addr hobj"

abbreviation ZUO_TRIE_BFACTOR :: nat where "ZUO_TRIE_BFACTOR \<equiv> 16"

fun obj_tag :: "'a hobj \<Rightarrow> htag" where
  "obj_tag HSingleton = Singleton_Tag"
| "obj_tag (HPair _ _) = Pair_Tag"
| "obj_tag (HInteger _) = Integer_Tag"
| "obj_tag (HString _ _) = String_Tag"
| "obj_tag (HSymbol _ _) = Symbol_Tag"
| "obj_tag (HTrieNode _ _ _ _) = Trie_Node_Tag"
| "obj_tag (HVariable _ _) = Variable_Tag"
| "obj_tag (HPrimitive _ _ _) = Primitive_Tag"
| "obj_tag (HClosure _ _) = Closure_Tag"
| "obj_tag (HHandle _ _ _) = Handle_Tag"
| "obj_tag (HOpaque _ _) = Opaque_Tag"
| "obj_tag (HCont _ _ _ _ _) = Cont_Tag"
| "obj_tag (HForwarded _) = Forwarded_Tag"

text \<open>The length field; for other objects the code reads it too but does not use it.\<close>

fun string_len :: "'a hobj \<Rightarrow> nat" where
  "string_len (HString s _) = length s"
| "string_len _ = 0"

text \<open>The pointer fields in the order of the struct.\<close>

fun obj_fields :: "'a hobj \<Rightarrow> 'a list" where
  "obj_fields (HPair a d) = [a, d]"
| "obj_fields (HSymbol _ str) = [str]"
| "obj_fields (HTrieNode _ key val next) = key # val # next"
| "obj_fields (HVariable name val) = [name, val]"
| "obj_fields (HPrimitive _ _ name) = [name]"
| "obj_fields (HClosure lambda env) = [lambda, env]"
| "obj_fields (HOpaque tag val) = [tag, val]"
| "obj_fields (HCont _ data env in_proc next) = [data, env, in_proc, next]"
| "obj_fields (HForwarded forward) = [forward]"
| "obj_fields _ = []"

fun with_fields :: "'a hobj \<Rightarrow> 'a list \<Rightarrow> 'a hobj" where
  "with_fields (HPair _ _) xs = HPair (xs ! 0) (xs ! 1)"
| "with_fields (HSymbol n _) xs = HSymbol n (xs ! 0)"
| "with_fields (HTrieNode n _ _ _) xs = HTrieNode n (xs ! 0) (xs ! 1) (drop 2 xs)"
| "with_fields (HVariable _ _) xs = HVariable (xs ! 0) (xs ! 1)"
| "with_fields (HPrimitive p m _) xs = HPrimitive p m (xs ! 0)"
| "with_fields (HClosure _ _) xs = HClosure (xs ! 0) (xs ! 1)"
| "with_fields (HOpaque _ _) xs = HOpaque (xs ! 0) (xs ! 1)"
| "with_fields (HCont t _ _ _ _) xs = HCont t (xs ! 0) (xs ! 1) (xs ! 2) (xs ! 3)"
| "with_fields (HForwarded _) xs = HForwarded (xs ! 0)"
| "with_fields ob xs = ob"

text \<open>An object as the constructors of the code make it: a trie node has 16 branches.\<close>

definition plain_obj :: "'a hobj \<Rightarrow> bool" where
  "plain_obj ob \<longleftrightarrow> obj_tag ob \<noteq> Forwarded_Tag \<and>
     (case ob of HTrieNode _ _ _ next \<Rightarrow> length next = ZUO_TRIE_BFACTOR | _ \<Rightarrow> True)"

section \<open>Sizes\<close>

definition ALLOC_ALIGN :: "nat \<Rightarrow> nat" where
  "ALLOC_ALIGN i = nat ((int i + 7) AND NOT 7)"

fun object_size :: "htag \<Rightarrow> nat \<Rightarrow> nat" where
  "object_size Singleton_Tag len = 16"
| "object_size Integer_Tag len = 16"
| "object_size String_Tag len = 24 + len"
| "object_size Pair_Tag len = 24"
| "object_size Symbol_Tag len = 16"
| "object_size Trie_Node_Tag len = 160"
| "object_size Variable_Tag len = 24"
| "object_size Primitive_Tag len = 40"
| "object_size Closure_Tag len = 24"
| "object_size Handle_Tag len = 32"
| "object_size Opaque_Tag len = 24"
| "object_size Cont_Tag len = 40"
| "object_size Forwarded_Tag len = 16"

definition obj_size :: "'a hobj \<Rightarrow> nat" where
  "obj_size ob = ALLOC_ALIGN (object_size (obj_tag ob) (string_len ob))"

section \<open>State of the memory manager\<close>

type_synonym space = "nat \<times> nat"

record heap =
  heap_size :: nat
  to_space :: nat
  allocation_offset :: nat
  total_allocation :: nat
  gc_threshold :: nat
  old_spaces :: "space list"
  free_spaces :: "space list"
  roots :: "addr list"
  objs :: "addr \<Rightarrow> obj option"
  malloced :: "nat \<Rightarrow> nat option"
  next_block :: nat

datatype heap_fault = Bad_Address addr | Bad_Slot | Overrun

abbreviation ZUO_MIN_HEAP_SIZE :: nat where "ZUO_MIN_HEAP_SIZE \<equiv> 32 * 1024 * 1024"

definition malloc :: "nat \<Rightarrow> heap \<Rightarrow> nat \<times> heap" where
  "malloc n h = (next_block h,
     h\<lparr>malloced := (malloced h)(next_block h \<mapsto> n), next_block := Suc (next_block h)\<rparr>)"

definition heap_start :: "nat \<Rightarrow> heap" where
  "heap_start nroots = \<lparr>heap_size = ZUO_MIN_HEAP_SIZE, to_space = 0, allocation_offset = 0,
     total_allocation = 0, gc_threshold = 0, old_spaces = [], free_spaces = [],
     roots = replicate nroots (Addr 0 0), objs = \<lambda>_. None, malloced = \<lambda>_. None, next_block = 1\<rparr>"

text \<open>The search through the list of recyclable spaces: the space found, and the others.\<close>

fun find_space :: "nat \<Rightarrow> space list \<Rightarrow> (space \<times> space list) option" where
  "find_space min_size [] = None"
| "find_space min_size (sp # sps) =
     (if snd sp \<ge> min_size then Some (sp, sps)
      else (case find_space min_size sps of None \<Rightarrow> None | Some (r, rest) \<Rightarrow> Some (r, sp # rest)))"

text \<open>
  Returns the block and the new value of the variable behind \<^verbatim>\<open>size\<close>. The contents of a
  recycled block are as indeterminate as those of a new one: the spaces in the list hold
  no objects (\<open>zuo_finish_gc\<close> below).
\<close>

definition malloc_or_recycle :: "nat \<Rightarrow> nat \<Rightarrow> heap \<Rightarrow> nat \<times> nat \<times> heap" where
  "malloc_or_recycle min_size sz h =
     (case find_space min_size (free_spaces h) of
        Some ((space, n), rest) \<Rightarrow> (space, n, h\<lparr>free_spaces := rest\<rparr>)
      | None \<Rightarrow> let (space, h) = malloc sz h in (space, sz, h))"

section \<open>Allocation\<close>

text \<open>
  \<^verbatim>\<open>zuo_new\<close> reserves the memory; every caller in the code then stores all fields before
  the next allocation, so the new object is an argument here.
\<close>

definition ensure_to_space :: "heap \<Rightarrow> heap" where
  "ensure_to_space h =
     (if to_space h = 0 then
        let (space, hs, h) = malloc_or_recycle (heap_size h) (heap_size h) h in
        h\<lparr>to_space := space, heap_size := hs, gc_threshold := hs\<rparr>
      else h)"

definition ensure_room :: "nat \<Rightarrow> heap \<Rightarrow> heap" where
  "ensure_room sz h =
     (if allocation_offset h + sz > heap_size h then
        let h = h\<lparr>old_spaces := (to_space h, heap_size h) # old_spaces h\<rparr>;
            h = (if heap_size h < sz then h\<lparr>heap_size := sz * 2\<rparr> else h);
            (space, hs, h) = malloc_or_recycle (sz * 2) (heap_size h) h in
        h\<lparr>to_space := space, heap_size := hs, allocation_offset := 0\<rparr>
      else h)"

definition zuo_new :: "obj \<Rightarrow> heap \<Rightarrow> addr \<times> heap" where
  "zuo_new ob h =
     (let sz = obj_size ob;
          h = ensure_room sz (ensure_to_space h);
          a = Addr (to_space h) (allocation_offset h) in
      (a, h\<lparr>objs := (objs h)(a \<mapsto> ob),
            allocation_offset := allocation_offset h + sz,
            total_allocation := total_allocation h + sz\<rparr>))"

section \<open>Copying collection\<close>

text \<open>The places that hold a pointer: a root by its index, a field of an object by its index.\<close>

datatype slot = Root nat | Field addr nat

fun read_slot :: "slot \<Rightarrow> heap \<Rightarrow> heap_fault + addr" where
  "read_slot (Root i) h = (if i < length (roots h) then Inr (roots h ! i) else Inl Bad_Slot)"
| "read_slot (Field a i) h =
     (case objs h a of
        None \<Rightarrow> Inl (Bad_Address a)
      | Some ob \<Rightarrow> if i < length (obj_fields ob) then Inr (obj_fields ob ! i) else Inl Bad_Slot)"

fun write_slot :: "slot \<Rightarrow> addr \<Rightarrow> heap \<Rightarrow> heap_fault + heap" where
  "write_slot (Root i) b h =
     (if i < length (roots h) then Inr (h\<lparr>roots := (roots h)[i := b]\<rparr>) else Inl Bad_Slot)"
| "write_slot (Field a i) b h =
     (case objs h a of
        None \<Rightarrow> Inl (Bad_Address a)
      | Some ob \<Rightarrow>
          if i < length (obj_fields ob)
          then Inr (h\<lparr>objs := (objs h)(a \<mapsto> with_fields ob ((obj_fields ob)[i := b]))\<rparr>)
          else Inl Bad_Slot)"

definition copy_obj :: "addr \<Rightarrow> obj \<Rightarrow> heap \<Rightarrow> heap_fault + heap" where
  "copy_obj a ob h =
     (let sz = obj_size ob; b = Addr (to_space h) (allocation_offset h) in
      case malloced h (to_space h) of
        None \<Rightarrow> Inl (Bad_Address b)
      | Some lim \<Rightarrow>
          if allocation_offset h + sz > lim then Inl Overrun
          else Inr (h\<lparr>allocation_offset := allocation_offset h + sz,
                      objs := (objs h)(b \<mapsto> ob, a \<mapsto> HForwarded b)\<rparr>))"

definition zuo_update :: "slot \<Rightarrow> heap \<Rightarrow> heap_fault + heap" where
  "zuo_update addr_to_update h =
     rbind (read_slot addr_to_update h) (\<lambda>a.
     case objs h a of
       None \<Rightarrow> Inl (Bad_Address a)
     | Some ob \<Rightarrow>
         rbind (if obj_tag ob \<noteq> Forwarded_Tag then copy_obj a ob h else Inr h) (\<lambda>h.
         case objs h a of
           Some (HForwarded forward) \<Rightarrow> write_slot addr_to_update forward h
         | _ \<Rightarrow> Inl (Bad_Address a)))"

fun zuo_updates :: "slot list \<Rightarrow> heap \<Rightarrow> heap_fault + heap" where
  "zuo_updates [] h = Inr h"
| "zuo_updates (sl # sls) h = rbind (zuo_update sl h) (zuo_updates sls)"

definition zuo_trace :: "addr \<Rightarrow> heap \<Rightarrow> heap_fault + heap" where
  "zuo_trace a h =
     (case objs h a of
        None \<Rightarrow> Inl (Bad_Address a)
      | Some ob \<Rightarrow>
          (case obj_tag ob of
             Pair_Tag \<Rightarrow> zuo_updates [Field a 0, Field a 1] h
           | Symbol_Tag \<Rightarrow> zuo_update (Field a 0) h
           | Trie_Node_Tag \<Rightarrow>
               rbind (zuo_updates [Field a 0, Field a 1] h)
                     (zuo_updates (map (\<lambda>i. Field a (i + 2)) [0..<ZUO_TRIE_BFACTOR]))
           | Variable_Tag \<Rightarrow> zuo_updates [Field a 0, Field a 1] h
           | Primitive_Tag \<Rightarrow> zuo_update (Field a 0) h
           | Closure_Tag \<Rightarrow> zuo_updates [Field a 0, Field a 1] h
           | Opaque_Tag \<Rightarrow> zuo_updates [Field a 0, Field a 1] h
           | Cont_Tag \<Rightarrow> zuo_updates [Field a 0, Field a 1, Field a 2, Field a 3] h
           | Singleton_Tag \<Rightarrow> Inr h
           | Integer_Tag \<Rightarrow> Inr h
           | String_Tag \<Rightarrow> Inr h
           | Handle_Tag \<Rightarrow> Inr h
           | Forwarded_Tag \<Rightarrow> Inr h))"

text \<open>
  The scan of the to-space. Whether it ends depends on the memory, so the function is partial:
  \<^term>\<open>None\<close> stands for an endless loop.
\<close>

partial_function (option) zuo_trace_objects :: "nat \<Rightarrow> heap \<Rightarrow> (heap_fault + heap) option" where
  "zuo_trace_objects trace_offset h =
     (if trace_offset < allocation_offset h then
        (case zuo_trace (Addr (to_space h) trace_offset) h of
           Inl e \<Rightarrow> Some (Inl e)
         | Inr h' \<Rightarrow>
             (case objs h' (Addr (to_space h') trace_offset) of
                None \<Rightarrow> Some (Inl (Bad_Address (Addr (to_space h') trace_offset)))
              | Some ob \<Rightarrow> zuo_trace_objects (trace_offset + obj_size ob) h'))
      else Some (Inr h))"

text \<open>
  Frees the recyclable spaces and makes the spaces of the previous cycle recyclable. From here on
  their contents count as indeterminate.
\<close>

definition zuo_finish_gc :: "nat \<Rightarrow> nat \<Rightarrow> space list \<Rightarrow> heap \<Rightarrow> heap" where
  "zuo_finish_gc old_space old_heap_size old_old_spaces h =
     (let freed = fst ` set (free_spaces h);
          sps = (old_space, old_heap_size) # old_old_spaces;
          total = allocation_offset h in
      h\<lparr>malloced := (\<lambda>b. if b \<in> freed then None else malloced h b),
        free_spaces := sps,
        objs := (\<lambda>a. if block_of a \<in> fst ` set sps then None else objs h a),
        total_allocation := total,
        gc_threshold := (if total * 2 < ZUO_MIN_HEAP_SIZE then ZUO_MIN_HEAP_SIZE else total * 2)\<rparr>)"

definition switch_space :: "heap \<Rightarrow> heap" where
  "switch_space h =
     (let (space, hs, h') = malloc_or_recycle (total_allocation h) (total_allocation h * 2)
                              (h\<lparr>old_spaces := []\<rparr>) in
      h'\<lparr>to_space := space, heap_size := hs, allocation_offset := 0\<rparr>)"

definition zuo_collect :: "heap \<Rightarrow> (heap_fault + heap) option" where
  "zuo_collect h =
     (case zuo_updates (map Root [0..<length (roots h)]) (switch_space h) of
        Inl e \<Rightarrow> Some (Inl e)
      | Inr h1 \<Rightarrow>
          (case zuo_trace_objects 0 h1 of
             None \<Rightarrow> None
           | Some (Inl e) \<Rightarrow> Some (Inl e)
           | Some (Inr h2) \<Rightarrow>
               Some (Inr (zuo_finish_gc (to_space h) (heap_size h) (old_spaces h) h2))))"

definition zuo_check_collect :: "heap \<Rightarrow> (heap_fault + heap) option" where
  "zuo_check_collect h =
     (if total_allocation h \<ge> gc_threshold h then zuo_collect h else Some (Inr h))"

definition zuo_replace_heap :: "nat \<Rightarrow> nat \<Rightarrow> nat \<Rightarrow> heap \<Rightarrow> heap" where
  "zuo_replace_heap space sz offset h =
     (let h = h\<lparr>allocation_offset := offset\<rparr>;
          h = zuo_finish_gc (to_space h) (heap_size h) (old_spaces h) h in
      h\<lparr>old_spaces := [], heap_size := sz, to_space := space\<rparr>)"

section \<open>Laws of objects and sizes\<close>

lemma ALLOC_ALIGN_eq: "ALLOC_ALIGN i = 8 * ((i + 7) div 8)"
proof -
  have "x AND NOT (mask 3) = push_bit 3 (drop_bit 3 x)" for x :: int
    by (rule bit_eqI) (auto simp: bit_simps)
  then have "(x :: int) AND NOT 7 = x div 8 * 8" for x
    by (simp add: push_bit_eq_mult drop_bit_eq_div mask_eq_exp_minus_1)
  then show ?thesis
    by (simp add: ALLOC_ALIGN_def nat_mult_distrib nat_div_distrib nat_add_distrib)
qed

lemma ALLOC_ALIGN_bounds: "i \<le> ALLOC_ALIGN i" "ALLOC_ALIGN i < i + 8" "8 dvd ALLOC_ALIGN i"
  by (simp_all add: ALLOC_ALIGN_eq)

lemma object_size_min: "16 \<le> object_size t n"
  by (cases t) simp_all

lemma obj_size_min: "16 \<le> obj_size ob"
  unfolding obj_size_def using ALLOC_ALIGN_bounds(1) object_size_min order_trans by blast

lemma obj_size_pos [simp]: "0 < obj_size ob"
  using obj_size_min [of ob] by simp

lemma fields_with_fields [simp]:
  "length xs = length (obj_fields ob) \<Longrightarrow> obj_fields (with_fields ob xs) = xs"
  by (cases ob) (auto simp: length_Suc_conv numeral_2_eq_2 numeral_3_eq_3)

lemma with_fields_with_fields [simp]: "with_fields (with_fields ob xs) ys = with_fields ob ys"
  by (cases ob) simp_all

lemma with_fields_fields [simp]: "with_fields ob (obj_fields ob) = ob"
  by (cases ob) simp_all

lemma obj_tag_with_fields [simp]: "obj_tag (with_fields ob xs) = obj_tag ob"
  by (cases ob) simp_all

lemma obj_size_with_fields [simp]: "obj_size (with_fields ob xs) = obj_size ob"
  by (cases ob) (simp_all add: obj_size_def)

lemma plain_obj_with_fields [simp]:
  "length xs = length (obj_fields ob) \<Longrightarrow> plain_obj (with_fields ob xs) = plain_obj ob"
  by (cases ob) (simp_all add: plain_obj_def)

lemma map_hobj_eq: "map_hobj f ob = with_fields ob (map f (obj_fields ob))"
  by (cases ob) simp_all

lemma obj_fields_map [simp]: "obj_fields (map_hobj f ob) = map f (obj_fields ob)"
  by (cases ob) simp_all

lemma set_hobj_fields: "set_hobj ob = set (obj_fields ob)"
  by (cases ob) auto

lemma forwarded_tag_iff [simp]: "obj_tag ob = Forwarded_Tag \<longleftrightarrow> (\<exists>b. ob = HForwarded b)"
  by (cases ob) simp_all

lemma zuo_updates_append: "zuo_updates (xs @ ys) h = rbind (zuo_updates xs h) (zuo_updates ys)"
  by (induction xs arbitrary: h) (auto simp: rbind_def split: sum.split)

text \<open>Tracing an object updates all its pointer fields in order.\<close>

lemma zuo_updates_single: "zuo_updates [sl] h = zuo_update sl h"
  by (cases "zuo_update sl h") auto

lemma upt_18: "[0..<18] = [0, 1] @ map (\<lambda>i. i + 2) [0..<16]"
  by code_simp

lemma zuo_trace_updates:
  assumes "objs h a = Some ob" "plain_obj ob"
  shows "zuo_trace a h = zuo_updates (map (Field a) [0..<length (obj_fields ob)]) h"
proof (cases ob)
  case (HTrieNode n k v nx)
  with assms have "length (obj_fields ob) = 18" by (simp add: plain_obj_def)
  moreover have "zuo_trace a h = rbind (zuo_updates [Field a 0, Field a 1] h)
      (zuo_updates (map (\<lambda>i. Field a (i + 2)) [0..<16]))"
    using assms HTrieNode by (simp add: zuo_trace_def del: zuo_updates.simps)
  ultimately show ?thesis
    by (simp add: upt_18 comp_def flip: zuo_updates_append
        del: zuo_updates.simps One_nat_def upt.simps upt_rec_numeral)
next
  case HSingleton
  then show ?thesis using assms by (simp add: zuo_trace_def)
next
  case (HForwarded b)
  then show ?thesis using assms by (simp add: plain_obj_def)
qed (use assms in \<open>simp_all add: zuo_trace_def zuo_updates_single upt_rec
    numeral_2_eq_2 numeral_3_eq_3 del: zuo_updates.simps(2)\<close>)

section \<open>Well-formed memory\<close>

definition live_spaces :: "heap \<Rightarrow> space list" where
  "live_spaces h = (to_space h, heap_size h) # old_spaces h"

text \<open>How far a block is filled: the current space up to the allocation offset.\<close>

definition filled :: "heap \<Rightarrow> nat \<Rightarrow> nat" where
  "filled h b = (if b = to_space h then allocation_offset h
                 else case malloced h b of Some n \<Rightarrow> n | None \<Rightarrow> 0)"

definition osize :: "(addr \<Rightarrow> obj option) \<Rightarrow> addr \<Rightarrow> nat" where
  "osize s a = (case s a of Some ob \<Rightarrow> obj_size ob | None \<Rightarrow> 0)"

text \<open>The given live spaces and the recyclable ones are distinct blocks of the recorded sizes.\<close>

definition blocks_ok :: "space list \<Rightarrow> heap \<Rightarrow> bool" where
  "blocks_ok sps h \<longleftrightarrow>
     distinct (map fst (sps @ free_spaces h)) \<and>
     (\<forall>(b, n) \<in> set (sps @ free_spaces h). 0 < b \<and> malloced h b = Some n) \<and>
     (\<forall>b. malloced h b \<noteq> None \<longrightarrow> b < next_block h) \<and> 0 < next_block h"

definition spaces_ok :: "heap \<Rightarrow> bool" where
  "spaces_ok h \<longleftrightarrow> blocks_ok (live_spaces h) h \<and>
     allocation_offset h \<le> heap_size h \<and> 8 dvd allocation_offset h"

text \<open>Two objects of one block do not share bytes.\<close>

definition disjoint_objs :: "(addr \<Rightarrow> obj option) \<Rightarrow> bool" where
  "disjoint_objs s \<longleftrightarrow> (\<forall>b i j. s (Addr b i) \<noteq> None \<longrightarrow> s (Addr b j) \<noteq> None \<longrightarrow> i < j \<longrightarrow> i + osize s (Addr b i) \<le> j)"

definition objs_ok :: "heap \<Rightarrow> bool" where
  "objs_ok h \<longleftrightarrow>
     finite (dom (objs h)) \<and>
     (\<forall>b i ob. objs h (Addr b i) = Some ob \<longrightarrow>
        b \<in> fst ` set (live_spaces h) \<and> 8 dvd i \<and> i + obj_size ob \<le> filled h b \<and>
        plain_obj ob \<and> set (obj_fields ob) \<subseteq> dom (objs h)) \<and>
     disjoint_objs (objs h) \<and>
     sum (osize (objs h)) (dom (objs h)) \<le> total_allocation h"

definition roots_ok :: "heap \<Rightarrow> bool" where
  "roots_ok h \<longleftrightarrow> set (roots h) \<subseteq> dom (objs h)"

definition heap_ok :: "heap \<Rightarrow> bool" where
  "heap_ok h \<longleftrightarrow> spaces_ok h \<and> objs_ok h \<and> roots_ok h"

inductive reachable :: "heap \<Rightarrow> addr \<Rightarrow> bool" for h where
  root: "a \<in> set (roots h) \<Longrightarrow> reachable h a"
| field: "reachable h a \<Longrightarrow> objs h a = Some ob \<Longrightarrow> b \<in> set (obj_fields ob) \<Longrightarrow> reachable h b"

lemma objs_okD:
  assumes "objs_ok h" "objs h a = Some ob"
  shows "block_of a \<in> fst ` set (live_spaces h)" "8 dvd offset_of a" "offset_of a + obj_size ob \<le> filled h (block_of a)"
    "plain_obj ob" "set (obj_fields ob) \<subseteq> dom (objs h)"
  using assms by (cases a; simp add: objs_ok_def)+

lemma reachable_dom:
  assumes "objs_ok h" "roots_ok h" "reachable h a"
  shows "a \<in> dom (objs h)"
  using assms(3)
proof induction
  case (root a)
  then show ?case using assms(2) by (auto simp: roots_ok_def)
next
  case (field a ob b)
  then show ?case using objs_okD(5) [OF assms(1) field(2)] by auto
qed

section \<open>Obtaining a space\<close>

lemma find_space_Some:
  "find_space m sps = Some (sp, rest) \<Longrightarrow>
   m \<le> snd sp \<and> (\<exists>xs ys. sps = xs @ sp # ys \<and> rest = xs @ ys)"
proof (induction sps arbitrary: rest)
  case (Cons x sps)
  show ?case
  proof (cases "m \<le> snd x")
    case True
    with Cons.prems show ?thesis by (auto intro: exI [of _ "[]"])
  next
    case False
    with Cons.prems obtain r where r: "find_space m sps = Some (sp, r)" "rest = x # r"
      by (auto split: option.splits)
    with Cons.IH [OF r(1)] show ?thesis by (metis append_Cons)
  qed
qed simp

lemma blocks_ok_space:
  "blocks_ok sps h \<Longrightarrow> (b, n) \<in> set sps \<Longrightarrow> 0 < b \<and> malloced h b = Some n"
  by (auto simp: blocks_ok_def)

lemma blocks_ok_new: "blocks_ok ((b, k) # sps) h \<Longrightarrow> b \<notin> fst ` set sps"
  by (auto simp: blocks_ok_def)

lemma malloc_blocks_ok:
  assumes "blocks_ok sps h" "malloc n h = (b, h')"
  shows "blocks_ok ((b, n) # sps) h'"
    "h' = h\<lparr>malloced := (malloced h)(b \<mapsto> n), next_block := Suc b\<rparr>" "b \<notin> fst ` set sps"
proof -
  have eq: "b = next_block h"
    "h' = h\<lparr>malloced := (malloced h)(next_block h \<mapsto> n), next_block := Suc (next_block h)\<rparr>"
    using assms(2) by (auto simp: malloc_def)
  have new: "c \<noteq> next_block h" if "(c, l) \<in> set (sps @ free_spaces h)" for c l
  proof -
    have "malloced h c = Some l" using that assms(1) unfolding blocks_ok_def by blast
    then have "c < next_block h" using assms(1) unfolding blocks_ok_def by blast
    then show ?thesis by simp
  qed
  then have "next_block h \<notin> set (map fst (sps @ free_spaces h))" by fastforce
  moreover have "\<forall>c. malloced h c \<noteq> None \<longrightarrow> c < Suc (next_block h)"
    using assms(1) by (auto simp: blocks_ok_def intro: less_SucI)
  ultimately show ok: "blocks_ok ((b, n) # sps) h'"
    using assms(1) new unfolding blocks_ok_def eq by (simp add: case_prod_unfold) fastforce
  show "b \<notin> fst ` set sps" by (rule blocks_ok_new [OF ok])
  show "h' = h\<lparr>malloced := (malloced h)(b \<mapsto> n), next_block := Suc b\<rparr>" using eq by simp
qed

lemma malloc_or_recycle_ok:
  assumes "blocks_ok sps h" "malloc_or_recycle m n h = (b, k, h')"
  shows "blocks_ok ((b, k) # sps) h'" "m \<le> k \<or> k = n"
    "\<exists>fr ml nb. h' = h\<lparr>free_spaces := fr, malloced := ml, next_block := nb\<rparr> \<and>
       (\<forall>c. c \<in> fst ` set sps \<longrightarrow> ml c = malloced h c)"
proof -
  have "blocks_ok ((b, k) # sps) h' \<and> (m \<le> k \<or> k = n) \<and>
    (\<exists>fr ml nb. h' = h\<lparr>free_spaces := fr, malloced := ml, next_block := nb\<rparr> \<and>
       (\<forall>c. c \<in> fst ` set sps \<longrightarrow> ml c = malloced h c))"
  proof (cases "find_space m (free_spaces h)")
    case None
    then have eq: "malloc n h = (b, h')" "k = n"
      using assms(2) by (auto simp: malloc_or_recycle_def split: prod.splits)
    note M = malloc_blocks_ok [OF assms(1) eq(1)]
    have "h' = h\<lparr>free_spaces := free_spaces h, malloced := (malloced h)(b \<mapsto> n), next_block := Suc b\<rparr>"
      using M(2) by simp
    then show ?thesis using M(1,3) eq(2) by (metis fun_upd_other)
  next
    case (Some r)
    obtain c l rest where r: "r = ((c, l), rest)" by (cases r) auto
    have eq: "c = b" "l = k" "h' = h\<lparr>free_spaces := rest\<rparr>"
      using assms(2) Some r by (auto simp: malloc_or_recycle_def)
    from find_space_Some [OF Some [unfolded r]] eq obtain xs ys where
      sp: "m \<le> k" "free_spaces h = xs @ (b, k) # ys" "rest = xs @ ys" by auto
    have "blocks_ok ((b, k) # sps) h'"
      using assms(1) sp(2) by (auto simp: blocks_ok_def eq(3) sp(3))
    moreover have "h' = h\<lparr>free_spaces := rest, malloced := malloced h, next_block := next_block h\<rparr>"
      using eq(3) by simp
    ultimately show ?thesis using sp(1) by blast
  qed
  then show "blocks_ok ((b, k) # sps) h'" "m \<le> k \<or> k = n"
    "\<exists>fr ml nb. h' = h\<lparr>free_spaces := fr, malloced := ml, next_block := nb\<rparr> \<and>
       (\<forall>c. c \<in> fst ` set sps \<longrightarrow> ml c = malloced h c)"
    by simp_all
qed

section \<open>Allocation\<close>

lemma filled_space:
  assumes "spaces_ok h" "(b, n) \<in> set (live_spaces h)"
  shows "filled h b \<le> n" "b \<noteq> to_space h \<Longrightarrow> filled h b = n"
proof -
  have "blocks_ok (live_spaces h) h" "allocation_offset h \<le> heap_size h"
    using assms(1) by (simp_all add: spaces_ok_def)
  moreover from this(1) have "malloced h b = Some n" "malloced h (to_space h) = Some (heap_size h)"
    using assms(2) blocks_ok_space by (auto simp: live_spaces_def)
  ultimately show "filled h b \<le> n" "b \<noteq> to_space h \<Longrightarrow> filled h b = n"
    by (auto simp: filled_def)
qed

lemma objs_ok_mono:
  assumes "objs_ok h" "objs h' = objs h" "total_allocation h \<le> total_allocation h'"
    and "\<And>c. c \<in> fst ` set (live_spaces h) \<Longrightarrow>
      c \<in> fst ` set (live_spaces h') \<and> filled h c \<le> filled h' c"
  shows "objs_ok h'"
  using assms unfolding objs_ok_def by (metis (no_types, lifting) order_trans)

lemma ensure_room_ok:
  assumes ok: "spaces_ok h" "objs_ok h" and h': "h' = ensure_room sz h"
  shows "spaces_ok h'" "objs_ok h'" "allocation_offset h' + sz \<le> heap_size h'"
    "objs h' = objs h" "roots h' = roots h" "total_allocation h' = total_allocation h"
proof -
  let ?Q = "spaces_ok h' \<and> objs_ok h' \<and> allocation_offset h' + sz \<le> heap_size h' \<and>
    objs h' = objs h \<and> roots h' = roots h \<and> total_allocation h' = total_allocation h"
  have ?Q
  proof (cases "allocation_offset h + sz > heap_size h")
    case False
    then show ?thesis using ok h' by (simp add: ensure_room_def)
  next
    case True
    define hs where "hs = (if heap_size h < sz then sz * 2 else heap_size h)"
    define h1 where "h1 = h\<lparr>old_spaces := live_spaces h, heap_size := hs\<rparr>"
    obtain b k h2 where mr: "malloc_or_recycle (sz * 2) hs h1 = (b, k, h2)"
      by (metis prod_cases3)
    have h'_eq: "h' = h2\<lparr>to_space := b, heap_size := k, allocation_offset := 0\<rparr>"
      using True mr unfolding h' ensure_room_def hs_def h1_def
      by (auto simp: live_spaces_def split: if_splits)
    have "blocks_ok (live_spaces h) h1"
      using ok(1) by (simp add: spaces_ok_def blocks_ok_def h1_def)
    note mr_ok = malloc_or_recycle_ok [OF this mr]
    then obtain fr ml nb where h2: "h2 = h1\<lparr>free_spaces := fr, malloced := ml, next_block := nb\<rparr>"
      "\<And>c. c \<in> fst ` set (live_spaces h) \<Longrightarrow> ml c = malloced h c"
      by (auto simp: h1_def)
    have live: "live_spaces h' = (b, k) # live_spaces h"
      by (simp add: h'_eq h2 h1_def live_spaces_def)
    have "objs_ok h'"
    proof (rule objs_ok_mono [OF ok(2)])
      fix c assume c: "c \<in> fst ` set (live_spaces h)"
      then obtain n where n: "(c, n) \<in> set (live_spaces h)" by auto
      have "c \<noteq> b" using c blocks_ok_new [OF mr_ok(1)] by blast
      moreover have "malloced h' c = Some n"
        using blocks_ok_space [OF mr_ok(1)] n h'_eq by auto
      ultimately show "c \<in> fst ` set (live_spaces h') \<and> filled h c \<le> filled h' c"
        using c filled_space(1) [OF ok(1) n] by (simp add: live) (simp add: filled_def h'_eq)
    qed (simp_all add: h'_eq h2 h1_def)
    moreover have "spaces_ok h'"
      using mr_ok(1) by (simp add: spaces_ok_def live) (simp add: blocks_ok_def h'_eq)
    moreover have "sz \<le> k" using mr_ok(2) True by (auto simp: hs_def split: if_splits)
    ultimately show ?thesis by (simp add: h'_eq h2 h1_def)
  qed
  then show "spaces_ok h'" "objs_ok h'" "allocation_offset h' + sz \<le> heap_size h'"
    "objs h' = objs h" "roots h' = roots h" "total_allocation h' = total_allocation h"
    by simp_all
qed

lemma ensure_to_space_ok:
  assumes "spaces_ok h \<and> objs_ok h \<or> h = heap_start n" and h': "h' = ensure_to_space h"
  shows "spaces_ok h'" "objs_ok h'" "objs h' = objs h" "roots h' = roots h"
    "total_allocation h' = total_allocation h"
proof -
  have *: "to_space h \<noteq> 0" if "spaces_ok h"
    using that by (auto simp: spaces_ok_def blocks_ok_def live_spaces_def)
  show "spaces_ok h'" "objs_ok h'" "objs h' = objs h" "roots h' = roots h"
    "total_allocation h' = total_allocation h"
    using assms *
    by (auto simp: ensure_to_space_def heap_start_def malloc_or_recycle_def malloc_def spaces_ok_def
        objs_ok_def blocks_ok_def live_spaces_def disjoint_objs_def split: if_splits)
qed

lemma osize_upd: "osize (s(a \<mapsto> ob)) c = (if c = a then obj_size ob else osize s c)"
  by (simp add: osize_def)

lemma add_obj_ok:
  assumes ok: "spaces_ok h" "objs_ok h" and room: "allocation_offset h + obj_size ob \<le> heap_size h"
    and ob: "plain_obj ob" "set (obj_fields ob) \<subseteq> insert a (dom (objs h))"
    and a: "a = Addr (to_space h) (allocation_offset h)"
    and h': "h' = h\<lparr>objs := (objs h)(a \<mapsto> ob), allocation_offset := allocation_offset h + obj_size ob,
      total_allocation := total_allocation h + obj_size ob\<rparr>"
  shows "spaces_ok h'" "objs_ok h'" "objs h a = None"
proof -
  have ends: "i + obj_size ob' \<le> allocation_offset h" if "objs h (Addr (to_space h) i) = Some ob'" for i ob'
    using objs_okD(3) [OF ok(2) that] by (simp add: filled_def)
  show none: "objs h a = None"
  proof (rule ccontr)
    assume "objs h a \<noteq> None"
    then obtain ob' where "objs h a = Some ob'" by auto
    from ends [OF this [unfolded a]] show False using obj_size_pos [of ob'] by linarith
  qed
  have al: "8 dvd allocation_offset h" using ok(1) by (simp add: spaces_ok_def)
  have sz8: "8 dvd obj_size ob" by (simp add: obj_size_def ALLOC_ALIGN_bounds(3))
  have live: "live_spaces h' = live_spaces h" by (simp add: h' live_spaces_def)
  have "blocks_ok (live_spaces h) h'"
    using ok(1) by (simp add: spaces_ok_def blocks_ok_def h')
  then show "spaces_ok h'"
    using al sz8 room by (simp add: spaces_ok_def live) (simp add: h')
  have fill: "filled h c \<le> filled h' c" for c by (simp add: filled_def h')
  have "disjoint_objs (objs h')"
    unfolding disjoint_objs_def
  proof (intro allI impI)
    fix b i j assume ij: "objs h' (Addr b i) \<noteq> None" "objs h' (Addr b j) \<noteq> None" "i < j"
    show "i + osize (objs h') (Addr b i) \<le> j"
    proof (cases "Addr b i = a \<or> Addr b j = a")
      case False
      then show ?thesis using ij ok(2) by (auto simp: h' osize_upd objs_ok_def disjoint_objs_def)
    next
      case True
      show ?thesis
      proof (cases "Addr b j = a")
        case True
        with ij obtain ob' where "objs h (Addr (to_space h) i) = Some ob'" "b = to_space h"
          "j = allocation_offset h" by (auto simp: h' a)
        with ends [OF this(1)] ij(3) a show ?thesis by (simp add: h' osize_upd) (simp add: osize_def)
      next
        case False
        with True ij a obtain ob' where "objs h (Addr (to_space h) j) = Some ob'" "i = allocation_offset h"
          by (auto simp: h')
        with ends [OF this(1)] ij(3) show ?thesis by simp
      qed
    qed
  qed
  moreover have "sum (osize (objs h')) (dom (objs h')) \<le> total_allocation h'"
  proof -
    have fin: "finite (dom (objs h))" and s: "sum (osize (objs h)) (dom (objs h)) \<le> total_allocation h"
      using ok(2) by (simp_all add: objs_ok_def)
    have "sum (osize (objs h')) (dom (objs h)) = sum (osize (objs h)) (dom (objs h))"
      by (rule sum.cong) (use none in \<open>auto simp: h' osize_upd\<close>)
    moreover have "dom (objs h') = insert a (dom (objs h))" by (simp add: h')
    ultimately show ?thesis using fin none s by (simp add: domIff) (simp add: h' osize_upd)
  qed
  moreover have "c \<in> fst ` set (live_spaces h') \<and> 8 dvd i \<and> i + obj_size ob' \<le> filled h' c \<and>
      plain_obj ob' \<and> set (obj_fields ob') \<subseteq> dom (objs h')" if "objs h' (Addr c i) = Some ob'" for c i ob'
  proof (cases "Addr c i = a")
    case True
    with that ob al show ?thesis by (auto simp: h' a live filled_def live_spaces_def)
  next
    case False
    with that have o: "objs h (Addr c i) = Some ob'" by (simp add: h')
    show ?thesis
      using objs_okD [OF ok(2) o] fill [of c] live by (auto simp: h' intro: order_trans)
  qed
  moreover have "finite (dom (objs h'))" using ok(2) by (simp add: h' objs_ok_def)
  ultimately show "objs_ok h'" by (simp add: objs_ok_def)
qed

lemma zuo_new_ok:
  assumes h: "spaces_ok h \<and> objs_ok h \<or> h = heap_start n"
    and ob: "plain_obj ob" "set (obj_fields ob) \<subseteq> dom (objs h)" and new: "zuo_new ob h = (a, h')"
  shows "spaces_ok h'" "objs_ok h'" "objs h a = None" "objs h' = (objs h)(a \<mapsto> ob)" "roots h' = roots h"
    "total_allocation h' = total_allocation h + obj_size ob"
proof -
  let ?h1 = "ensure_to_space h" and ?h2 = "ensure_room (obj_size ob) (ensure_to_space h)"
  note e1 = ensure_to_space_ok [OF h refl] and e2 = ensure_room_ok [OF ensure_to_space_ok(1,2) [OF h refl] refl]
  have eq: "a = Addr (to_space ?h2) (allocation_offset ?h2)"
    "h' = ?h2\<lparr>objs := (objs ?h2)(a \<mapsto> ob), allocation_offset := allocation_offset ?h2 + obj_size ob,
       total_allocation := total_allocation ?h2 + obj_size ob\<rparr>"
    using new by (auto simp: zuo_new_def Let_def)
  have "set (obj_fields ob) \<subseteq> insert a (dom (objs ?h2))" using ob(2) e1(3) e2(4) by auto
  note add = add_obj_ok [OF e2(1,2,3) ob(1) this eq]
  show "spaces_ok h'" "objs_ok h'" by (rule add(1), rule add(2))
  show "objs h a = None" using add(3) e1(3) e2(4) by simp
  show "objs h' = (objs h)(a \<mapsto> ob)" "roots h' = roots h"
    "total_allocation h' = total_allocation h + obj_size ob"
    using e1 e2 by (simp_all add: eq(2))
qed

section \<open>Storing a pointer\<close>

lemma osize_cong_upd:
  "s a = Some ob \<Longrightarrow> obj_size ob' = obj_size ob \<Longrightarrow> osize (s(a \<mapsto> ob')) = osize s"
  by (auto simp: osize_def fun_eq_iff)

lemma write_slot_ok:
  assumes ok: "heap_ok h" and b: "b \<in> dom (objs h)" and w: "write_slot sl b h = Inr h'"
  shows "heap_ok h'" "dom (objs h') = dom (objs h)"
proof -
  note O = ok [unfolded heap_ok_def]
  have "heap_ok h' \<and> dom (objs h') = dom (objs h)"
  proof (cases sl)
    case (Root i)
    with w have h': "h' = h\<lparr>roots := (roots h)[i := b]\<rparr>" "i < length (roots h)" by (auto split: if_splits)
    have "set ((roots h)[i := b]) \<subseteq> dom (objs h)"
      using O b set_update_subset_insert [of "roots h" i b] by (auto simp: roots_ok_def)
    moreover have "filled h' = filled h" "live_spaces h' = live_spaces h"
      by (simp_all add: fun_eq_iff filled_def live_spaces_def h'(1))
    ultimately show ?thesis
      using O by (simp add: heap_ok_def spaces_ok_def objs_ok_def roots_ok_def blocks_ok_def)
        (simp add: h'(1))
  next
    case (Field a i)
    with w obtain ob where ob: "objs h a = Some ob" "i < length (obj_fields ob)"
      "h' = h\<lparr>objs := (objs h)(a \<mapsto> with_fields ob ((obj_fields ob)[i := b]))\<rparr>"
      by (auto split: option.splits if_splits)
    let ?ob = "with_fields ob ((obj_fields ob)[i := b])"
    have dom: "dom (objs h') = dom (objs h)" using ob by (auto simp: domI)
    have sz: "osize (objs h') = osize (objs h)" using osize_cong_upd [of "objs h" a ob ?ob] ob by simp
    have fl: "filled h' = filled h" "live_spaces h' = live_spaces h"
      "total_allocation h' = total_allocation h"
      by (simp_all add: fun_eq_iff filled_def live_spaces_def ob(3))
    note D = objs_okD [OF O [THEN conjunct2, THEN conjunct1]]
    have "c \<in> fst ` set (live_spaces h) \<and> 8 dvd j \<and> j + obj_size ob' \<le> filled h c \<and>
        plain_obj ob' \<and> set (obj_fields ob') \<subseteq> dom (objs h)" if "objs h' (Addr c j) = Some ob'" for c j ob'
    proof (cases "Addr c j = a")
      case True
      have "set ((obj_fields ob)[i := b]) \<subseteq> dom (objs h)"
        using D(5) [OF ob(1)] b set_update_subset_insert [of "obj_fields ob" i b] by auto
      moreover have "ob' = ?ob" using that True by (simp add: ob(3))
      ultimately show ?thesis using D(1-4) [OF ob(1)] by (simp flip: True)
    next
      case False
      then show ?thesis using D [of "Addr c j" ob'] that by (simp add: ob(3))
    qed
    moreover have "disjoint_objs (objs h')"
      using O dom unfolding objs_ok_def disjoint_objs_def sz by (metis domIff)
    moreover have "finite (dom (objs h)) \<and> sum (osize (objs h)) (dom (objs h)) \<le> total_allocation h"
      using O by (simp add: objs_ok_def)
    ultimately have "objs_ok h'" unfolding objs_ok_def dom sz fl by blast
    moreover have "spaces_ok h'" "roots_ok h'"
      using O dom by (simp_all add: spaces_ok_def blocks_ok_def fl roots_ok_def) (simp_all add: ob(3))
    ultimately show ?thesis using dom by (simp add: heap_ok_def)
  qed
  then show "heap_ok h'" "dom (objs h') = dom (objs h)" by simp_all
qed

end
