(* ===== verification/Zuo_Collect.thy ===== *)
theory Zuo_Collect
  imports Zuo_Heap
begin

text \<open>
  Correctness of the copying collector of theory \<open>Zuo_Heap\<close>. At every moment of a
  collection the memory is determined by the memory at its start, the list \<open>L\<close> of the objects
  copied so far, in the order of copying, and the set \<open>D\<close> of the slots updated so far: the
  invariant \<open>gc_inv\<close>. A slot that is not yet updated holds its old address, an updated one the
  address of the copy; copies lie one after the other in the new space.
\<close>

section \<open>Forwarding addresses\<close>

definition osum :: "(addr \<Rightarrow> obj option) \<Rightarrow> addr list \<Rightarrow> nat" where
  "osum s L = sum_list (map (osize s) L)"

text \<open>The address of the copy of \<open>a\<close>: behind the copies of the objects before it.\<close>

definition fwd :: "(addr \<Rightarrow> obj option) \<Rightarrow> nat \<Rightarrow> addr list \<Rightarrow> addr \<Rightarrow> addr" where
  "fwd s T L a = Addr T (osum s (takeWhile (\<lambda>x. x \<noteq> a) L))"

lemma osum_simps [simp]:
  "osum s [] = 0" "osum s (x # L) = osize s x + osum s L" "osum s (L @ M) = osum s L + osum s M"
  by (simp_all add: osum_def)

lemma block_fwd [simp]: "block_of (fwd s T L a) = T"
  by (simp add: fwd_def)

lemma fwd_append [simp]: "a \<in> set L \<Longrightarrow> fwd s T (L @ M) a = fwd s T L a"
  by (simp add: fwd_def)

lemma fwd_new: "x \<notin> set L \<Longrightarrow> fwd s T (L @ x # M) x = Addr T (osum s L)"
proof -
  assume "x \<notin> set L"
  then have "takeWhile (\<lambda>y. y \<noteq> x) (L @ x # M) = L"
    by (subst takeWhile_append2) auto
  then show ?thesis by (simp add: fwd_def)
qed

lemma fwd_nth: "distinct L \<Longrightarrow> k < length L \<Longrightarrow> fwd s T L (L ! k) = Addr T (osum s (take k L))"
proof -
  assume *: "distinct L" "k < length L"
  then have "L ! k \<notin> set (take k L)" by (auto simp: in_set_conv_nth nth_eq_iff_index_eq)
  from fwd_new [OF this, of s T "drop (Suc k) L"] show ?thesis
    using id_take_nth_drop [OF *(2)] by simp
qed

lemma osize_pos: "a \<in> dom s \<Longrightarrow> 0 < osize s a"
  by (auto simp: osize_def)

lemma fwd_end: "a \<in> set L \<Longrightarrow> offset_of (fwd s T L a) + osize s a \<le> osum s L"
proof (induction L rule: rev_induct)
  case (snoc x L)
  then show ?case by (cases "a \<in> set L") (auto simp: fwd_new)
qed simp

lemma fwd_less: "a \<in> set L \<Longrightarrow> set L \<subseteq> dom s \<Longrightarrow> offset_of (fwd s T L a) < osum s L"
  using fwd_end [of a L s T] osize_pos [of a s] subsetD [of "set L" "dom s" a] by linarith

lemma fwd_inj: "set L \<subseteq> dom s \<Longrightarrow> inj_on (fwd s T L) (set L)"
proof (induction L rule: rev_induct)
  case (snoc x L)
  then have L: "set L \<subseteq> dom s" by simp
  show ?case
  proof (cases "x \<in> set L")
    case True
    then show ?thesis using snoc.IH [OF L] by (simp add: inj_on_def)
  next
    case False
    have "fwd s T L a \<noteq> fwd s T (L @ [x]) x" if "a \<in> set L" for a
      using fwd_less [OF that L, of T] fwd_new [OF False, of s T "[]"] by (metis less_irrefl addr.sel(2))
    then show ?thesis using snoc.IH [OF L] by (simp add: inj_on_def) metis
  qed
qed simp

section \<open>The invariant of a collection\<close>

definition gc_start :: "heap \<Rightarrow> bool" where
  "gc_start h0 \<longleftrightarrow>
     finite (dom (objs h0)) \<and>
     (\<forall>a ob. objs h0 a = Some ob \<longrightarrow>
        block_of a \<noteq> to_space h0 \<and> plain_obj ob \<and> set (obj_fields ob) \<subseteq> dom (objs h0)) \<and>
     set (roots h0) \<subseteq> dom (objs h0) \<and> allocation_offset h0 = 0 \<and>
     (\<exists>lim. malloced h0 (to_space h0) = Some lim \<and> sum (osize (objs h0)) (dom (objs h0)) \<le> lim)"

abbreviation phi :: "heap \<Rightarrow> addr list \<Rightarrow> addr \<Rightarrow> addr" where
  "phi h0 L \<equiv> fwd (objs h0) (to_space h0) L"

text \<open>The address a slot held before the collection.\<close>

fun orig :: "heap \<Rightarrow> addr list \<Rightarrow> slot \<Rightarrow> addr \<Rightarrow> bool" where
  "orig h0 L (Root i) x \<longleftrightarrow> i < length (roots h0) \<and> x = roots h0 ! i"
| "orig h0 L (Field b i) x \<longleftrightarrow>
     (\<exists>a\<in>set L. b = phi h0 L a \<and>
        (\<exists>ob. objs h0 a = Some ob \<and> i < length (obj_fields ob) \<and> x = obj_fields ob ! i))"

definition slot_val :: "heap \<Rightarrow> addr list \<Rightarrow> slot set \<Rightarrow> slot \<Rightarrow> addr \<Rightarrow> addr" where
  "slot_val h0 L D sl x = (if sl \<in> D then phi h0 L x else x)"

definition new_fields :: "heap \<Rightarrow> addr list \<Rightarrow> slot set \<Rightarrow> addr \<Rightarrow> obj \<Rightarrow> addr list" where
  "new_fields h0 L D b ob =
     map (\<lambda>i. slot_val h0 L D (Field b i) (obj_fields ob ! i)) [0..<length (obj_fields ob)]"

definition same_spaces :: "heap \<Rightarrow> heap \<Rightarrow> bool" where
  "same_spaces h0 h \<longleftrightarrow>
     heap_size h = heap_size h0 \<and> to_space h = to_space h0 \<and> old_spaces h = old_spaces h0 \<and>
     free_spaces h = free_spaces h0 \<and> malloced h = malloced h0 \<and> next_block h = next_block h0"

definition gc_inv :: "heap \<Rightarrow> addr list \<Rightarrow> slot set \<Rightarrow> heap \<Rightarrow> bool" where
  "gc_inv h0 L D h \<longleftrightarrow>
     same_spaces h0 h \<and>
     distinct L \<and> (\<forall>a. a \<in> set L \<longrightarrow> reachable h0 a) \<and>
     (\<forall>sl. sl \<in> D \<longrightarrow> (\<exists>x\<in>set L. orig h0 L sl x)) \<and>
     allocation_offset h = osum (objs h0) L \<and>
     roots h = map (\<lambda>i. slot_val h0 L D (Root i) (roots h0 ! i)) [0..<length (roots h0)] \<and>
     (\<forall>a. block_of a \<noteq> to_space h0 \<longrightarrow>
        objs h a = (if a \<in> set L then Some (HForwarded (phi h0 L a)) else objs h0 a)) \<and>
     (\<forall>a ob. a \<in> set L \<longrightarrow> objs h0 a = Some ob \<longrightarrow>
        objs h (phi h0 L a) = Some (with_fields ob (new_fields h0 L D (phi h0 L a) ob))) \<and>
     (\<forall>b. block_of b = to_space h0 \<longrightarrow> objs h b \<noteq> None \<longrightarrow> b \<in> phi h0 L ` set L)"

lemma gc_invD:
  assumes "gc_inv h0 L D h"
  shows "same_spaces h0 h" "distinct L" "\<And>a. a \<in> set L \<Longrightarrow> reachable h0 a"
    "\<And>sl. sl \<in> D \<Longrightarrow> \<exists>x\<in>set L. orig h0 L sl x"
    "allocation_offset h = osum (objs h0) L"
    "roots h = map (\<lambda>i. slot_val h0 L D (Root i) (roots h0 ! i)) [0..<length (roots h0)]"
    "\<And>a. block_of a \<noteq> to_space h0 \<Longrightarrow>
        objs h a = (if a \<in> set L then Some (HForwarded (phi h0 L a)) else objs h0 a)"
    "\<And>a ob. a \<in> set L \<Longrightarrow> objs h0 a = Some ob \<Longrightarrow>
        objs h (phi h0 L a) = Some (with_fields ob (new_fields h0 L D (phi h0 L a) ob))"
    "\<And>b. block_of b = to_space h0 \<Longrightarrow> objs h b \<noteq> None \<Longrightarrow> b \<in> phi h0 L ` set L"
  using assms unfolding gc_inv_def by blast+

lemma gc_start_reachable: "gc_start h0 \<Longrightarrow> reachable h0 a \<Longrightarrow> a \<in> dom (objs h0)"
  by (rotate_tac 1, induction rule: reachable.induct) (auto simp: gc_start_def subset_iff)

lemma gc_inv_dom: "gc_start h0 \<Longrightarrow> gc_inv h0 L D h \<Longrightarrow> set L \<subseteq> dom (objs h0)"
  using gc_start_reachable gc_invD(3) by blast

lemma length_new_fields [simp]: "length (new_fields h0 L D b ob) = length (obj_fields ob)"
  by (simp add: new_fields_def)

lemma orig_append: "orig h0 L sl x \<Longrightarrow> orig h0 (L @ M) sl x"
proof (cases sl)
  case (Field b i)
  assume "orig h0 L sl x"
  with Field obtain a ob where "a \<in> set L" "b = phi h0 (L @ M) a" "objs h0 a = Some ob"
    "i < length (obj_fields ob)" "x = obj_fields ob ! i" by auto
  with Field show ?thesis by (auto simp del: fwd_append)
qed simp

lemma orig_fun:
  assumes "set L \<subseteq> dom (objs h0)" "orig h0 L sl x" "orig h0 L sl y"
  shows "x = y"
proof (cases sl)
  case (Field b i)
  then obtain a a' where "a \<in> set L" "a' \<in> set L" "phi h0 L a = phi h0 L a'"
    "\<exists>ob. objs h0 a = Some ob \<and> x = obj_fields ob ! i"
    "\<exists>ob. objs h0 a' = Some ob \<and> y = obj_fields ob ! i"
    using assms(2,3) by fastforce
  moreover from this have "a = a'" using inj_onD [OF fwd_inj [OF assms(1)]] by blast
  ultimately show ?thesis by auto
qed (use assms in auto)

lemma orig_reachable:
  assumes "gc_inv h0 L D h" "orig h0 L sl x"
  shows "reachable h0 x"
proof (cases sl)
  case (Root i)
  then show ?thesis using assms(2) by (auto intro: reachable.root)
next
  case (Field b i)
  then show ?thesis using assms by (auto simp: gc_inv_def intro: reachable.field)
qed

section \<open>One update\<close>

lemma read_slot_inv:
  assumes "gc_inv h0 L D h" "orig h0 L sl x" "sl \<notin> D"
  shows "read_slot sl h = Inr x"
proof (cases sl)
  case (Root i)
  then show ?thesis using assms(2,3) gc_invD(6) [OF assms(1)] by (simp add: slot_val_def)
next
  case (Field b i)
  with assms obtain a ob where a: "a \<in> set L" "b = phi h0 L a" "objs h0 a = Some ob"
    "i < length (obj_fields ob)" "x = obj_fields ob ! i" by auto
  then have "objs h b = Some (with_fields ob (new_fields h0 L D b ob))"
    using gc_invD(8) [OF assms(1)] by simp
  then show ?thesis using a Field assms(3) by (simp add: new_fields_def slot_val_def)
qed

lemma slot_val_append:
  assumes "set L \<subseteq> dom (objs h0)" "gc_inv h0 L D h" "orig h0 L sl y"
  shows "slot_val h0 (L @ M) D sl y = slot_val h0 L D sl y"
proof (cases "sl \<in> D")
  case True
  then obtain x where "x \<in> set L" "orig h0 L sl x" using gc_invD(4) [OF assms(2)] by blast
  moreover from this have "x = y" using orig_fun [OF assms(1) _ assms(3)] by blast
  ultimately show ?thesis by (simp add: slot_val_def)
qed (simp add: slot_val_def)

lemma osum_le_sum:
  assumes "distinct L" "set L \<subseteq> dom s" "finite (dom s)"
  shows "osum s L \<le> sum (osize s) (dom s)"
  using assms sum_mono2 [of "dom s" "set L" "osize s"]
  by (simp add: osum_def sum_list_distinct_conv_sum_set)

lemma copy_obj_inv:
  assumes start: "gc_start h0" and inv: "gc_inv h0 L D h"
    and x: "reachable h0 x" "x \<notin> set L" "objs h0 x = Some ob"
  shows "\<exists>h'. copy_obj x ob h = Inr h' \<and> gc_inv h0 (L @ [x]) D h'"
proof -
  let ?T = "to_space h0" and ?s = "objs h0"
  let ?b = "Addr ?T (osum ?s L)"
  note I = gc_invD [OF inv]
  have dom: "set L \<subseteq> dom ?s" by (rule gc_inv_dom [OF start inv])
  have h: "to_space h = ?T" "malloced h = malloced h0" "allocation_offset h = osum ?s L"
    using I(1,5) by (simp_all add: same_spaces_def)
  obtain lim where lim: "malloced h0 ?T = Some lim" "sum (osize ?s) (dom ?s) \<le> lim" "finite (dom ?s)"
    using start unfolding gc_start_def by blast
  have "osum ?s (L @ [x]) \<le> lim"
    using osum_le_sum [of "L @ [x]" ?s] lim(2,3) dom x I(2) by (auto simp: domI)
  moreover have sz: "osize ?s x = obj_size ob" by (simp add: osize_def x(3))
  ultimately have copy: "copy_obj x ob h = Inr (h\<lparr>allocation_offset := osum ?s (L @ [x]),
      objs := (objs h)(?b \<mapsto> ob, x \<mapsto> HForwarded ?b)\<rparr>)" (is "_ = Inr ?h'")
    using lim(1) by (simp add: copy_obj_def h Let_def)
  have xT: "block_of x \<noteq> ?T" using start x(3) unfolding gc_start_def by blast
  then have xb: "phi h0 M a \<noteq> x" "?b \<noteq> x" for M a by (metis block_fwd, metis addr.sel(1))
  have phix: "phi h0 (L @ [x]) x = ?b" using fwd_new [OF x(2)] by simp
  have fresh: "phi h0 L a \<noteq> ?b" if "a \<in> set L" for a
    using fwd_less [OF that dom, of ?T] by (metis addr.sel(2) less_irrefl)
  have notD: "Field ?b i \<notin> D" for i using I(4) [of "Field ?b i"] fresh by fastforce
  have "gc_inv h0 (L @ [x]) D ?h'"
    unfolding gc_inv_def
  proof (intro conjI allI impI)
    show "same_spaces h0 ?h'" using I(1) by (simp add: same_spaces_def)
    show "distinct (L @ [x])" using I(2) x(2) by simp
    show "reachable h0 a" if "a \<in> set (L @ [x])" for a using that I(3) x(1) by auto
    show "\<exists>y\<in>set (L @ [x]). orig h0 (L @ [x]) sl y" if "sl \<in> D" for sl
      using I(4) [OF that] orig_append by fastforce
    show "allocation_offset ?h' = osum ?s (L @ [x])" by simp
    have "slot_val h0 (L @ [x]) D (Root i) (roots h0 ! i) = slot_val h0 L D (Root i) (roots h0 ! i)"
      if "i < length (roots h0)" for i
      using slot_val_append [OF dom inv, of "Root i"] that by simp
    then show "roots ?h' = map (\<lambda>i. slot_val h0 (L @ [x]) D (Root i) (roots h0 ! i)) [0..<length (roots h0)]"
      using I(6) by simp
    show "objs ?h' a = (if a \<in> set (L @ [x]) then Some (HForwarded (phi h0 (L @ [x]) a)) else objs h0 a)"
      if "block_of a \<noteq> ?T" for a
      using I(7) [OF that] phix x(2) that by auto
    show "objs ?h' (phi h0 (L @ [x]) a) =
        Some (with_fields ob' (new_fields h0 (L @ [x]) D (phi h0 (L @ [x]) a) ob'))"
      if a: "a \<in> set (L @ [x])" "objs h0 a = Some ob'" for a ob'
    proof (cases "a = x")
      case True
      have "new_fields h0 (L @ [x]) D ?b ob' = obj_fields ob'"
        by (simp add: new_fields_def slot_val_def notD map_nth)
      then show ?thesis using True a x(3) xb by (simp add: phix)
    next
      case False
      then have aL: "a \<in> set L" using a by simp
      have "new_fields h0 (L @ [x]) D (phi h0 L a) ob' = new_fields h0 L D (phi h0 L a) ob'"
        unfolding new_fields_def
        by (rule map_cong [OF refl], rule slot_val_append [OF dom inv]) (use aL a(2) in auto)
      then show ?thesis using I(8) [OF aL a(2)] fresh [OF aL] xb aL by simp
    qed
    show "b \<in> phi h0 (L @ [x]) ` set (L @ [x])" if b: "block_of b = ?T" "objs ?h' b \<noteq> None" for b
    proof (cases "b = ?b")
      case True
      then show ?thesis using phix by auto
    next
      case False
      then have "objs h b \<noteq> None" using b xT by (auto split: if_splits)
      from I(9) [OF b(1) this] show ?thesis by auto
    qed
  qed
  with copy show ?thesis by blast
qed

lemma slot_val_insert:
  "slot_val h0 L (insert sl D) sl' y = (if sl' = sl then phi h0 L y else slot_val h0 L D sl' y)"
  by (simp add: slot_val_def)

lemma new_fields_insert:
  assumes "i < length (obj_fields ob)"
  shows "new_fields h0 L (insert (Field b i) D) b ob =
    (new_fields h0 L D b ob)[i := phi h0 L (obj_fields ob ! i)]"
  by (rule nth_equalityI) (use assms in \<open>auto simp: new_fields_def slot_val_insert nth_list_update\<close>)

lemma new_fields_insert_other:
  "(\<And>i. sl \<noteq> Field b i) \<Longrightarrow> new_fields h0 L (insert sl D) b ob = new_fields h0 L D b ob"
  by (auto simp: new_fields_def slot_val_insert)

lemma write_root_inv:
  assumes inv: "gc_inv h0 L D h" and x: "x \<in> set L" "orig h0 L (Root i) x"
  shows "\<exists>h'. write_slot (Root i) (phi h0 L x) h = Inr h' \<and> gc_inv h0 L (insert (Root i) D) h'"
proof -
  note I = gc_invD [OF inv]
  let ?h' = "h\<lparr>roots := (roots h)[i := phi h0 L x]\<rparr>"
  have "(roots h)[i := phi h0 L x] =
      map (\<lambda>j. slot_val h0 L (insert (Root i) D) (Root j) (roots h0 ! j)) [0..<length (roots h0)]"
    by (rule nth_equalityI) (use x(2) I(6) in \<open>auto simp: slot_val_insert nth_list_update\<close>)
  moreover have "\<exists>x\<in>set L. orig h0 L sl x" if "sl \<in> insert (Root i) D" for sl
    using that I(4) x by auto
  ultimately have "gc_inv h0 L (insert (Root i) D) ?h'"
    using inv by (simp add: gc_inv_def same_spaces_def new_fields_insert_other)
  then show ?thesis using x(2) I(6) by simp
qed

lemma write_field_inv:
  assumes start: "gc_start h0" and inv: "gc_inv h0 L D h" and x: "x \<in> set L" "orig h0 L (Field b i) x"
  shows "\<exists>h'. write_slot (Field b i) (phi h0 L x) h = Inr h' \<and> gc_inv h0 L (insert (Field b i) D) h'"
proof -
  note I = gc_invD [OF inv]
  let ?D = "insert (Field b i) D"
  from x(2) obtain a ob where a: "a \<in> set L" "b = phi h0 L a" "objs h0 a = Some ob"
    "i < length (obj_fields ob)" "x = obj_fields ob ! i" by auto
  let ?ob = "with_fields ob (new_fields h0 L ?D b ob)"
  let ?h' = "h\<lparr>objs := (objs h)(b \<mapsto> ?ob)\<rparr>"
  have b: "objs h b = Some (with_fields ob (new_fields h0 L D b ob))" using I(8) a by simp
  have w: "write_slot (Field b i) (phi h0 L x) h = Inr ?h'"
    using b a(4,5) by (simp add: new_fields_insert)
  have other: "phi h0 L a' \<noteq> b" if "a' \<in> set L" "a' \<noteq> a" for a'
    using that a fwd_inj [OF gc_inv_dom [OF start inv]] by (auto dest: inj_onD)
  have "objs ?h' (phi h0 L a') = Some (with_fields ob' (new_fields h0 L ?D (phi h0 L a') ob'))"
    if "a' \<in> set L" "objs h0 a' = Some ob'" for a' ob'
  proof (cases "a' = a")
    case False
    then have "Field b i \<noteq> Field (phi h0 L a') j" for j using other [OF that(1)] by auto
    from new_fields_insert_other [OF this] show ?thesis using I(8) [OF that] other [OF that(1) False] by simp
  qed (use that a in simp)
  moreover have "\<exists>x\<in>set L. orig h0 L sl x" if "sl \<in> ?D" for sl
    using that I(4) x by blast
  moreover have "block_of b = to_space h0" using a(2) by simp
  ultimately have "gc_inv h0 L ?D ?h'"
    using inv a(1,2) by (auto simp: gc_inv_def same_spaces_def slot_val_insert)
  then show ?thesis using w by blast
qed

lemma zuo_update_inv:
  assumes start: "gc_start h0" and inv: "gc_inv h0 L D h" and x: "orig h0 L sl x" "sl \<notin> D"
  shows "\<exists>h' M. zuo_update sl h = Inr h' \<and> gc_inv h0 (L @ M) (insert sl D) h'"
proof -
  note I = gc_invD [OF inv]
  have rx: "reachable h0 x" by (rule orig_reachable [OF inv x(1)])
  then obtain ob where ob: "objs h0 x = Some ob" using gc_start_reachable [OF start] by blast
  then have old: "block_of x \<noteq> to_space h0" "plain_obj ob"
    using start unfolding gc_start_def by blast+
  have wr: "\<exists>h'. write_slot sl (phi h0 L' x) h1 = Inr h' \<and> gc_inv h0 L' (insert sl D) h'"
    if "gc_inv h0 L' D h1" "x \<in> set L'" "orig h0 L' sl x" for L' h1
    using that write_root_inv write_field_inv [OF start] by (cases sl) blast+
  show ?thesis
  proof (cases "x \<in> set L")
    case True
    with wr [OF inv True x(1)] obtain h' where
      "write_slot sl (phi h0 L x) h = Inr h'" "gc_inv h0 L (insert sl D) h'" by blast
    moreover have "objs h x = Some (HForwarded (phi h0 L x))" using I(7) [OF old(1)] True by simp
    ultimately show ?thesis
      using read_slot_inv [OF inv x] by (auto simp: zuo_update_def intro: exI [of _ "[]"])
  next
    case False
    obtain h1 where h1: "copy_obj x ob h = Inr h1" "gc_inv h0 (L @ [x]) D h1"
      using copy_obj_inv [OF start inv rx False ob] by blast
    obtain h' where h': "write_slot sl (phi h0 (L @ [x]) x) h1 = Inr h'"
      "gc_inv h0 (L @ [x]) (insert sl D) h'"
      using wr [OF h1(2)] orig_append [OF x(1)] by auto
    have "objs h1 x = Some (HForwarded (phi h0 (L @ [x]) x))" using gc_invD(7) [OF h1(2) old(1)] by simp
    moreover have "objs h x = Some ob" using I(7) [OF old(1)] False ob by simp
    ultimately have "zuo_update sl h = Inr h'"
      using read_slot_inv [OF inv x] h1(1) h'(1) old(2) by (auto simp: zuo_update_def plain_obj_def)
    then show ?thesis using h'(2) by blast
  qed
qed

lemma zuo_updates_inv:
  assumes start: "gc_start h0"
  shows "gc_inv h0 L D h \<Longrightarrow> distinct sls \<Longrightarrow> (\<And>sl. sl \<in> set sls \<Longrightarrow> sl \<notin> D \<and> (\<exists>x. orig h0 L sl x)) \<Longrightarrow>
    \<exists>h' M. zuo_updates sls h = Inr h' \<and> gc_inv h0 (L @ M) (D \<union> set sls) h'"
proof (induction sls arbitrary: L D h)
  case Nil
  then show ?case by (auto intro: exI [of _ "[]"])
next
  case (Cons sl sls)
  obtain x where "orig h0 L sl x" "sl \<notin> D" using Cons.prems(3) [of sl] by auto
  from zuo_update_inv [OF start Cons.prems(1) this] obtain h1 M where
    h1: "zuo_update sl h = Inr h1" "gc_inv h0 (L @ M) (insert sl D) h1" by blast
  have "sl' \<notin> insert sl D \<and> (\<exists>x. orig h0 (L @ M) sl' x)" if "sl' \<in> set sls" for sl'
    using Cons.prems(2,3) that orig_append by fastforce
  from Cons.IH [OF h1(2) _ this] Cons.prems(2) h1(1) show ?case by auto
qed

section \<open>The scan\<close>

definition root_slots :: "heap \<Rightarrow> slot set" where
  "root_slots h0 = set (map Root [0..<length (roots h0)])"

text \<open>The fields of the copies of the first \<open>k\<close> copied objects.\<close>

definition field_slots :: "heap \<Rightarrow> addr list \<Rightarrow> nat \<Rightarrow> slot set" where
  "field_slots h0 L k = (\<Union>a \<in> set (take k L).
     case objs h0 a of None \<Rightarrow> {} | Some ob \<Rightarrow> Field (phi h0 L a) ` {0..<length (obj_fields ob)})"

lemma field_slots_Suc:
  assumes "k < length L" "objs h0 (L ! k) = Some ob"
  shows "field_slots h0 (L @ M) (Suc k) =
    field_slots h0 L k \<union> set (map (Field (phi h0 L (L ! k))) [0..<length (obj_fields ob)])"
proof -
  let ?F = "\<lambda>L a. case objs h0 a of None \<Rightarrow> {}
    | Some ob \<Rightarrow> Field (phi h0 L a) ` {0..<length (obj_fields ob)}"
  have "take (Suc k) (L @ M) = take k L @ [L ! k]"
    using assms(1) by (simp add: take_Suc_conv_app_nth)
  moreover have "?F (L @ M) a = ?F L a" if "a \<in> set L" for a
    using that by (cases "objs h0 a") simp_all
  then have "\<Union> (?F (L @ M) ` set (take k L)) = \<Union> (?F L ` set (take k L))"
    by (intro SUP_cong refl) (auto dest: in_set_takeD)
  ultimately show ?thesis using assms by (simp add: field_slots_def Un_commute)
qed

lemma scan_step:
  assumes start: "gc_start h0" and k: "k < length L"
    and inv: "gc_inv h0 L (root_slots h0 \<union> field_slots h0 L k) h"
  shows "\<exists>h' M. zuo_trace (Addr (to_space h) (osum (objs h0) (take k L))) h = Inr h' \<and>
    gc_inv h0 (L @ M) (root_slots h0 \<union> field_slots h0 (L @ M) (Suc k)) h' \<and>
    (\<exists>ob. objs h' (Addr (to_space h') (osum (objs h0) (take k L))) = Some ob \<and>
       osum (objs h0) (take k L) + obj_size ob = osum (objs h0) (take (Suc k) (L @ M)))"
proof -
  note I = gc_invD [OF inv] and dom = gc_inv_dom [OF start inv]
  let ?a = "L ! k" and ?b = "Addr (to_space h0) (osum (objs h0) (take k L))"
  have aL: "?a \<in> set L" using k by simp
  then obtain ob where ob: "objs h0 ?a = Some ob" using dom by blast
  have b: "phi h0 L ?a = ?b" by (rule fwd_nth [OF I(2) k])
  have "plain_obj ob" using start ob unfolding gc_start_def by blast
  then have tr: "zuo_trace ?b h = zuo_updates (map (Field ?b) [0..<length (obj_fields ob)]) h"
    using I(8) [OF aL ob] b zuo_trace_updates [of h ?b] by simp
  have "Field ?b i \<notin> field_slots h0 L k" for i
  proof
    assume "Field ?b i \<in> field_slots h0 L k"
    then obtain a where a: "a \<in> set (take k L)" "phi h0 L a = ?b"
      by (auto simp: field_slots_def split: option.splits)
    then have "a = ?a" using b aL fwd_inj [OF dom, THEN inj_onD] by (metis in_set_takeD)
    then show False using a(1) I(2) k by (auto simp: in_set_conv_nth nth_eq_iff_index_eq)
  qed
  moreover have "\<exists>x. orig h0 L (Field ?b i) x" if "i < length (obj_fields ob)" for i
    using aL ob that by (auto simp flip: b)
  ultimately have "\<exists>h' M. zuo_trace ?b h = Inr h' \<and> gc_inv h0 (L @ M) (root_slots h0 \<union>
      field_slots h0 L k \<union> set (map (Field ?b) [0..<length (obj_fields ob)])) h'"
    unfolding tr
    by (intro zuo_updates_inv [OF start inv])
      (auto simp: root_slots_def distinct_map inj_on_def simp del: orig.simps)
  then obtain h' M where h': "zuo_trace ?b h = Inr h'"
    "gc_inv h0 (L @ M) (root_slots h0 \<union> field_slots h0 (L @ M) (Suc k)) h'"
    using field_slots_Suc [OF k ob] b by (metis Un_assoc)
  have "objs h' ?b = Some (with_fields ob (new_fields h0 (L @ M)
      (root_slots h0 \<union> field_slots h0 (L @ M) (Suc k)) ?b ob))"
    using gc_invD(8) [OF h'(2), of ?a] aL ob b by simp
  moreover have "osum (objs h0) (take (Suc k) (L @ M)) = osum (objs h0) (take k L) + obj_size ob"
    using k ob by (simp add: take_Suc_conv_app_nth osize_def nth_append)
  moreover have "to_space h = to_space h0" "to_space h' = to_space h0"
    using I(1) gc_invD(1) [OF h'(2)] by (simp_all add: same_spaces_def)
  ultimately show ?thesis using h' by (intro exI [of _ h'] exI [of _ M]) simp
qed

lemma scan_ends:
  assumes start: "gc_start h0"
  shows "k \<le> length L \<Longrightarrow> gc_inv h0 L (root_slots h0 \<union> field_slots h0 L k) h \<Longrightarrow>
    \<exists>h' L'. zuo_trace_objects (osum (objs h0) (take k L)) h = Some (Inr h') \<and>
      gc_inv h0 L' (root_slots h0 \<union> field_slots h0 L' (length L')) h'"
proof (induction "card (dom (objs h0)) - k" arbitrary: k L h rule: less_induct)
  case less
  note inv = less.prems(2) and dom = gc_inv_dom [OF start less.prems(2)]
  show ?case
  proof (cases "k = length L")
    case True
    then show ?thesis
      using inv gc_invD(5) [OF inv] by (subst zuo_trace_objects.simps) auto
  next
    case False
    then have k: "k < length L" using less.prems(1) by simp
    obtain h1 M ob where h1: "zuo_trace (Addr (to_space h) (osum (objs h0) (take k L))) h = Inr h1"
      "gc_inv h0 (L @ M) (root_slots h0 \<union> field_slots h0 (L @ M) (Suc k)) h1"
      "objs h1 (Addr (to_space h1) (osum (objs h0) (take k L))) = Some ob"
      "osum (objs h0) (take k L) + obj_size ob = osum (objs h0) (take (Suc k) (L @ M))"
      using scan_step [OF start k inv] by blast
    have "length L \<le> card (dom (objs h0))"
      using dom gc_invD(2) [OF inv] start by (metis card_mono distinct_card gc_start_def)
    then have "card (dom (objs h0)) - Suc k < card (dom (objs h0)) - k" using k by linarith
    from less.hyps [OF this _ h1(2)] k obtain h' L' where
      h': "zuo_trace_objects (osum (objs h0) (take (Suc k) (L @ M))) h1 = Some (Inr h')"
      "gc_inv h0 L' (root_slots h0 \<union> field_slots h0 L' (length L')) h'" by auto
    have "L ! k \<in> dom (objs h0)" using subsetD [OF dom nth_mem [OF k]] .
    then have "osum (objs h0) (take k L) < osum (objs h0) (take (Suc k) L)"
      using k osize_pos by (simp add: take_Suc_conv_app_nth)
    also have "\<dots> \<le> osum (objs h0) L"
      by (metis append_take_drop_id le_add1 osum_simps(3))
    finally have "osum (objs h0) (take k L) < allocation_offset h" using gc_invD(5) [OF inv] by simp
    then have "zuo_trace_objects (osum (objs h0) (take k L)) h = Some (Inr h')"
      using h1 h'(1) by (subst zuo_trace_objects.simps) simp
    then show ?thesis using h'(2) by blast
  qed
qed

section \<open>A complete collection\<close>

text \<open>
  The specification: \<open>f\<close> moves the reachable part of memory. Different objects stay different,
  and every pointer in a root or a field points to the copy of the object it pointed to.
\<close>

definition heap_iso :: "(addr \<Rightarrow> addr) \<Rightarrow> heap \<Rightarrow> heap \<Rightarrow> bool" where
  "heap_iso f h h' \<longleftrightarrow>
     inj_on f {a. reachable h a} \<and> roots h' = map f (roots h) \<and>
     (\<forall>a. reachable h a \<longrightarrow> objs h' (f a) = map_option (map_hobj f) (objs h a))"

lemma reachable_cong:
  assumes "roots h' = roots h" "objs h' = objs h"
  shows "reachable h' a \<longleftrightarrow> reachable h a"
proof -
  have "reachable h2 a" if "reachable h1 a" "roots h1 = roots h2" "objs h1 = objs h2" for h1 h2
    using that by (induction rule: reachable.induct) (auto intro: reachable.intros)
  then show ?thesis using assms by metis
qed

lemma scan_complete:
  assumes start: "gc_start h0" and inv: "gc_inv h0 L (root_slots h0 \<union> field_slots h0 L (length L)) h"
  shows "set L = {a. reachable h0 a}" "roots h = map (phi h0 L) (roots h0)"
    "\<And>a. a \<in> set L \<Longrightarrow> objs h (phi h0 L a) = map_option (map_hobj (phi h0 L)) (objs h0 a)"
proof -
  note I = gc_invD [OF inv] and dom = gc_inv_dom [OF start inv]
  let ?D = "root_slots h0 \<union> field_slots h0 L (length L)"
  have fld: "Field (phi h0 L a) i \<in> ?D"
    if "a \<in> set L" "objs h0 a = Some ob" "i < length (obj_fields ob)" for a ob i
    using that by (force simp: field_slots_def)
  have target: "x \<in> set L" if "sl \<in> ?D" "orig h0 L sl x" for sl x
    using I(4) [OF that(1)] orig_fun [OF dom that(2)] by blast
  have "a \<in> set L" if "reachable h0 a" for a
    using that
  proof induction
    case (root a)
    then obtain i where "i < length (roots h0)" "a = roots h0 ! i" by (auto simp: in_set_conv_nth)
    then show ?case using target [of "Root i" a] by (simp add: root_slots_def)
  next
    case (field a ob b)
    then obtain i where "i < length (obj_fields ob)" "b = obj_fields ob ! i"
      by (auto simp: in_set_conv_nth)
    with field show ?case using target [OF fld [OF field.IH field(2)]] by auto
  qed
  then show "set L = {a. reachable h0 a}" using I(3) by blast
  show "roots h = map (phi h0 L) (roots h0)"
    using I(6) by (auto simp: slot_val_def root_slots_def intro: nth_equalityI)
  fix a assume a: "a \<in> set L"
  then obtain ob where ob: "objs h0 a = Some ob" using dom by blast
  have "new_fields h0 L ?D (phi h0 L a) ob = map (phi h0 L) (obj_fields ob)"
    using fld [OF a ob] by (auto simp: new_fields_def slot_val_def intro: nth_equalityI)
  then show "objs h (phi h0 L a) = map_option (map_hobj (phi h0 L)) (objs h0 a)"
    using I(8) [OF a ob] ob by (simp add: map_hobj_eq)
qed

lemma osum_aligned: "8 dvd osum s L"
  by (induction L) (auto simp: osize_def obj_size_def ALLOC_ALIGN_bounds(3) split: option.split)

lemma fwd_disjoint:
  assumes "a \<in> set L" "a' \<in> set L" "offset_of (fwd s T L a) < offset_of (fwd s T L a')"
  shows "offset_of (fwd s T L a) + osize s a \<le> offset_of (fwd s T L a')"
  using assms
proof (induction L rule: rev_induct)
  case (snoc x L)
  show ?case
  proof (cases "a \<in> set L")
    case aL: True
    show ?thesis
    proof (cases "a' \<in> set L")
      case True
      then show ?thesis using snoc aL by simp
    next
      case False
      then show ?thesis using snoc.prems aL fwd_new [of x L s T "[]"] fwd_end [OF aL, of s T] by auto
    qed
  next
    case False
    then have "offset_of (fwd s T (L @ [x]) a) = osum s L"
      using snoc.prems(1) fwd_new [of x L s T "[]"] by auto
    moreover have "offset_of (fwd s T (L @ [x]) a') \<le> osum s L"
      using snoc.prems(2) fwd_new [of x L s T "[]"] fwd_end [of a' L s T]
      by (cases "a' \<in> set L") auto
    ultimately show ?thesis using snoc.prems(3) by simp
  qed
qed simp

lemma switch_space_start:
  assumes "heap_ok h" and h0: "h0 = switch_space h"
  shows "gc_start h0" "objs h0 = objs h" "roots h0 = roots h" "old_spaces h0 = []"
    "blocks_ok ((to_space h0, heap_size h0) # live_spaces h) h0"
    "malloced h0 (to_space h0) = Some (heap_size h0)" "total_allocation h \<le> heap_size h0"
proof -
  have ok: "spaces_ok h" "objs_ok h" "roots_ok h" using assms(1) by (simp_all add: heap_ok_def)
  let ?h1 = "h\<lparr>old_spaces := []\<rparr>"
  obtain b k h2 where mr: "malloc_or_recycle (total_allocation h) (total_allocation h * 2) ?h1 = (b, k, h2)"
    by (metis prod_cases3)
  have eq: "h0 = h2\<lparr>to_space := b, heap_size := k, allocation_offset := 0\<rparr>"
    by (simp add: h0 switch_space_def mr)
  have "blocks_ok (live_spaces h) ?h1" using ok(1) by (simp add: spaces_ok_def blocks_ok_def)
  note m = malloc_or_recycle_ok [OF this mr]
  show bl: "blocks_ok ((to_space h0, heap_size h0) # live_spaces h) h0"
    using m(1) by (simp add: eq blocks_ok_def)
  show tot: "total_allocation h \<le> heap_size h0" using m(2) by (auto simp: eq)
  show mal: "malloced h0 (to_space h0) = Some (heap_size h0)"
    using blocks_ok_space [OF bl] by simp
  show same: "objs h0 = objs h" "roots h0 = roots h" "old_spaces h0 = []"
    using m(3) by (auto simp: eq)
  have "block_of a \<noteq> to_space h0" if "objs h a = Some ob" for a ob
    using objs_okD(1) [OF ok(2) that] blocks_ok_new [OF bl] by metis
  moreover have "allocation_offset h0 = 0" by (simp add: eq)
  ultimately show "gc_start h0"
    using ok(2,3) objs_okD(4,5) [OF ok(2)] mal tot
    unfolding gc_start_def same roots_ok_def objs_ok_def by (meson order_trans)
qed

lemma finish_gc_simps [simp]:
  "to_space (zuo_finish_gc o1 o2 o3 h) = to_space h" "heap_size (zuo_finish_gc o1 o2 o3 h) = heap_size h"
  "old_spaces (zuo_finish_gc o1 o2 o3 h) = old_spaces h" "roots (zuo_finish_gc o1 o2 o3 h) = roots h"
  "allocation_offset (zuo_finish_gc o1 o2 o3 h) = allocation_offset h"
  "total_allocation (zuo_finish_gc o1 o2 o3 h) = allocation_offset h"
  "free_spaces (zuo_finish_gc o1 o2 o3 h) = (o1, o2) # o3"
  "next_block (zuo_finish_gc o1 o2 o3 h) = next_block h"
  "objs (zuo_finish_gc o1 o2 o3 h) a = (if block_of a \<in> fst ` set ((o1, o2) # o3) then None else objs h a)"
  "malloced (zuo_finish_gc o1 o2 o3 h) b = (if b \<in> fst ` set (free_spaces h) then None else malloced h b)"
  by (simp_all add: zuo_finish_gc_def Let_def)

lemma finish_threshold: "total_allocation (zuo_finish_gc o1 o2 o3 h) < gc_threshold (zuo_finish_gc o1 o2 o3 h)"
  by (simp add: zuo_finish_gc_def Let_def)

text \<open>The spaces of the previous cycle become the recyclable ones, and the old recyclable ones are freed.\<close>

lemma finish_blocks_ok:
  assumes "blocks_ok (sp # (o1, o2) # o3) h"
  shows "blocks_ok [sp] (zuo_finish_gc o1 o2 o3 h)"
proof -
  let ?h = "zuo_finish_gc o1 o2 o3 h"
  have "distinct (map fst ([sp] @ free_spaces ?h))" using assms by (simp add: blocks_ok_def)
  moreover have "0 < b \<and> malloced ?h b = Some n" if "(b, n) \<in> set (sp # (o1, o2) # o3)" for b n
  proof -
    have "set (map fst (sp # (o1, o2) # o3)) \<inter> set (map fst (free_spaces h)) = {}"
      using assms unfolding blocks_ok_def map_append distinct_append by blast
    moreover have "b \<in> set (map fst (sp # (o1, o2) # o3))" using that by force
    ultimately have "b \<notin> fst ` set (free_spaces h)" unfolding set_map by blast
    then show ?thesis using blocks_ok_space [OF assms that] by simp
  qed
  moreover have "\<forall>b. malloced ?h b \<noteq> None \<longrightarrow> b < next_block ?h" "0 < next_block ?h"
    using assms by (auto simp: blocks_ok_def)
  ultimately show ?thesis unfolding blocks_ok_def by auto
qed

lemma copied_objs_ok:
  assumes dom: "set L \<subseteq> dom s" "distinct L"
    and closed: "\<And>a ob. a \<in> set L \<Longrightarrow> s a = Some ob \<Longrightarrow> plain_obj ob \<and> set (obj_fields ob) \<subseteq> set L"
    and new: "\<And>a. a \<in> set L \<Longrightarrow> objs h (fwd s T L a) = map_option (map_hobj (fwd s T L)) (s a)"
    and dom': "dom (objs h) = fwd s T L ` set L"
    and h: "to_space h = T" "allocation_offset h = osum s L" "total_allocation h = osum s L"
  shows "objs_ok h"
proof -
  let ?f = "fwd s T L"
  have size': "osize (objs h) (?f a) = osize s a" if "a \<in> set L" for a
    using new [OF that] by (cases "s a") (auto simp: osize_def map_hobj_eq)
  have obtain_old: "\<exists>a ob'. a \<in> set L \<and> s a = Some ob' \<and> Addr b i = ?f a \<and> ob = map_hobj ?f ob'"
    if o: "objs h (Addr b i) = Some ob" for b i ob
  proof -
    obtain a where "a \<in> set L" "Addr b i = ?f a" using dom' o by (metis domI imageE)
    with o new [of a] show ?thesis by auto
  qed
  have "b \<in> fst ` set (live_spaces h) \<and> 8 dvd i \<and> i + obj_size ob \<le> filled h b \<and>
      plain_obj ob \<and> set (obj_fields ob) \<subseteq> dom (objs h)" if o: "objs h (Addr b i) = Some ob" for b i ob
  proof -
    obtain a ob' where a: "a \<in> set L" "s a = Some ob'" "Addr b i = ?f a" "ob = map_hobj ?f ob'"
      using obtain_old [OF o] by blast
    have bi: "b = T" "i = offset_of (?f a)" using a(3) by (metis addr.sel(1) block_fwd, metis addr.sel(2))
    have "i + obj_size ob \<le> osum s L"
      using fwd_end [OF a(1), of s T] a(2,4) bi(2) by (simp add: osize_def map_hobj_eq)
    moreover have "8 dvd i" using bi(2) osum_aligned by (simp add: fwd_def)
    ultimately show ?thesis
      using closed [OF a(1,2)] a(4) bi(1) h dom' by (auto simp: live_spaces_def filled_def map_hobj_eq)
  qed
  moreover have "disjoint_objs (objs h)"
    unfolding disjoint_objs_def
  proof (intro allI impI)
    fix b i j assume "objs h (Addr b i) \<noteq> None" "objs h (Addr b j) \<noteq> None" and ij: "i < j"
    then obtain a a' where a: "a \<in> set L" "Addr b i = ?f a" "a' \<in> set L" "Addr b j = ?f a'"
      using dom' by (metis domIff imageE)
    then have "i = offset_of (?f a)" "j = offset_of (?f a')" by (metis addr.sel(2))+
    with fwd_disjoint [OF a(1,3), of s T] ij size' [OF a(1)] a(2)
    show "i + osize (objs h) (Addr b i) \<le> j" by simp
  qed
  moreover have "sum (osize (objs h)) (dom (objs h)) = osum s L"
    using sum.reindex [OF fwd_inj [OF dom(1)], of "osize (objs h)" T] size' dom(2)
    by (simp add: dom' osum_def sum_list_distinct_conv_sum_set)
  ultimately show ?thesis using dom' h(3) by (simp add: objs_ok_def)
qed

lemma finish_ok:
  assumes ok: "heap_ok h" and h0: "h0 = switch_space h"
    and inv: "gc_inv h0 L (root_slots h0 \<union> field_slots h0 L (length L)) h2"
    and h': "h' = zuo_finish_gc (to_space h) (heap_size h) (old_spaces h) h2"
  shows "heap_iso (phi h0 L) h h'" "dom (objs h') = phi h0 L ` {a. reachable h a}" "heap_ok h'"
    "total_allocation h' = sum (osize (objs h)) {a. reachable h a}" "old_spaces h' = []"
proof -
  note sw = switch_space_start [OF ok h0] and I = gc_invD [OF inv]
  note start = sw(1) and dom = gc_inv_dom [OF sw(1) inv] and C = scan_complete [OF sw(1) inv]
  let ?f = "phi h0 L" and ?T = "to_space h0" and ?s = "objs h"
  have L: "set L = {a. reachable h a}" using C(1) reachable_cong [OF sw(3,2)] by simp
  have live: "(to_space h, heap_size h) # old_spaces h = live_spaces h" by (simp add: live_spaces_def)
  have T: "?T \<notin> fst ` set (live_spaces h)" by (rule blocks_ok_new [OF sw(5)])
  have objs: "objs h' b = (if block_of b = ?T then objs h2 b else None)" for b
  proof (cases "block_of b \<in> fst ` set (live_spaces h) \<or> block_of b = ?T")
    case True
    then show ?thesis using T by (auto simp: h' live)
  next
    case False
    then have "objs h b = None" using ok objs_okD(1) by (fastforce simp: heap_ok_def)
    then have "objs h2 b = None" using I(7) [of b] False sw(2) dom by auto
    then show ?thesis by (simp add: h')
  qed
  then have new: "objs h' (?f a) = map_option (map_hobj ?f) (?s a)" if "a \<in> set L" for a
    using C(3) [OF that] sw(2) by simp
  have inj: "inj_on ?f (set L)" by (rule fwd_inj [OF dom])
  show iso: "heap_iso ?f h h'"
    using inj new C(2) sw(3) L by (simp add: heap_iso_def) (simp add: h')
  have dom': "dom (objs h') = ?f ` set L"
    using I(9) objs new dom sw(2) by (force simp: dom_def split: if_splits)
  then show "dom (objs h') = ?f ` {a. reachable h a}" by (simp add: L)
  have off: "allocation_offset h2 = osum ?s L" using I(5) sw(2) by simp
  have sum: "osum ?s L = sum (osize ?s) (set L)"
    using I(2) by (simp add: osum_def sum_list_distinct_conv_sum_set)
  show "total_allocation h' = sum (osize ?s) {a. reachable h a}"
    by (simp add: h' off sum L)
  have spaces: "live_spaces h' = [(?T, heap_size h0)]"
    using I(1) sw(4) by (simp add: h' live_spaces_def same_spaces_def)
  then show "old_spaces h' = []" by (simp add: live_spaces_def)
  have "blocks_ok ((?T, heap_size h0) # live_spaces h) h2"
    using sw(5) I(1) by (simp add: blocks_ok_def same_spaces_def)
  from finish_blocks_ok [OF this [folded live]] have "blocks_ok (live_spaces h') h'"
    unfolding spaces by (simp only: h')
  moreover have "sum (osize ?s) (set L) \<le> heap_size h0"
    using osum_le_sum [OF I(2) dom] sw ok sum by (simp add: heap_ok_def objs_ok_def)
  ultimately have "spaces_ok h'"
    using I(1) osum_aligned by (simp add: spaces_ok_def) (simp add: h' off sum [symmetric] same_spaces_def)
  moreover have "plain_obj ob \<and> set (obj_fields ob) \<subseteq> set L" if "a \<in> set L" "?s a = Some ob" for a ob
    using that ok objs_okD(4) L by (auto simp: heap_ok_def intro: reachable.field)
  then have "objs_ok h'"
    using new dom' dom I(1,2) off sw(2) copied_objs_ok [of L ?s h' ?T]
    by (simp add: h' same_spaces_def)
  moreover have "set (roots h) \<subseteq> set L" using L by (auto intro: reachable.root)
  then have "roots_ok h'" using C(2) sw(3) dom' by (auto simp: roots_ok_def h')
  ultimately show "heap_ok h'" by (simp add: heap_ok_def)
qed

lemma zuo_collect_ok:
  assumes ok: "heap_ok h"
  shows "\<exists>h' f. zuo_collect h = Some (Inr h') \<and> heap_ok h' \<and> heap_iso f h h' \<and>
    dom (objs h') = f ` {a. reachable h a} \<and> old_spaces h' = [] \<and>
    total_allocation h' = sum (osize (objs h)) {a. reachable h a} \<and>
    total_allocation h' < gc_threshold h'"
proof -
  define h0 where "h0 = switch_space h"
  note sw = switch_space_start [OF ok h0_def]
  have "orig h0 [] (Root i) (roots h0 ! i)" if "i < length (roots h0)" for i using that by simp
  moreover have "objs h0 b = None" if "block_of b = to_space h0" for b
    using sw(1) that by (cases "objs h0 b") (auto simp: gc_start_def)
  then have "gc_inv h0 [] {} h0"
    using sw(1) by (simp add: gc_inv_def gc_start_def same_spaces_def slot_val_def map_nth)
  ultimately obtain h1 L where h1: "zuo_updates (map Root [0..<length (roots h0)]) h0 = Inr h1"
    "gc_inv h0 L (root_slots h0) h1"
    using zuo_updates_inv [OF sw(1), of "[]" "{}" h0 "map Root [0..<length (roots h0)]"]
    by (force simp: root_slots_def distinct_map inj_on_def)
  moreover have "field_slots h0 L 0 = {}" by (simp add: field_slots_def)
  ultimately obtain h2 L' where h2: "zuo_trace_objects 0 h1 = Some (Inr h2)"
    "gc_inv h0 L' (root_slots h0 \<union> field_slots h0 L' (length L')) h2"
    using scan_ends [OF sw(1), of 0 L h1] by auto
  let ?h' = "zuo_finish_gc (to_space h) (heap_size h) (old_spaces h) h2"
  have "zuo_collect h = Some (Inr ?h')"
    using h1(1) h2(1) sw(3) by (simp add: zuo_collect_def flip: h0_def)
  then show ?thesis using finish_ok [OF ok h0_def h2(2) refl] finish_threshold by blast
qed

section \<open>The interpreter as a client of the memory manager\<close>

text \<open>
  What the rest of the program does with memory between two calls of the interpreter loop's
  collection check: it allocates objects whose fields point to objects, stores the address
  of an object in a root or a field, and asks for a collection.
\<close>

inductive mutator_step :: "heap \<Rightarrow> heap \<Rightarrow> bool" where
  alloc: "plain_obj ob \<Longrightarrow> set (obj_fields ob) \<subseteq> dom (objs h) \<Longrightarrow> zuo_new ob h = (a, h') \<Longrightarrow> mutator_step h h'"
| store: "b \<in> dom (objs h) \<Longrightarrow> write_slot sl b h = Inr h' \<Longrightarrow> mutator_step h h'"
| collect: "zuo_check_collect h = Some (Inr h') \<Longrightarrow> mutator_step h h'"

text \<open>The contract between the memory manager and any code that uses it.\<close>

locale heap_client =
  fixes client_step :: "heap \<Rightarrow> heap \<Rightarrow> bool"
  assumes client_ok: "heap_ok h \<Longrightarrow> client_step h h' \<Longrightarrow> heap_ok h'"
begin

lemma client_run_ok: "client_step\<^sup>*\<^sup>* h h' \<Longrightarrow> heap_ok h \<Longrightarrow> heap_ok h'"
  by (induction rule: rtranclp_induct) (auto intro: client_ok)

lemma client_run_collects:
  assumes "client_step\<^sup>*\<^sup>* h h'" "heap_ok h"
  shows "\<exists>h'' f. zuo_collect h' = Some (Inr h'') \<and> heap_ok h'' \<and> heap_iso f h' h''"
  using zuo_collect_ok [OF client_run_ok [OF assms]] by blast

end

lemma zuo_new_heap_ok:
  assumes "heap_ok h" "plain_obj ob" "set (obj_fields ob) \<subseteq> dom (objs h)" "zuo_new ob h = (a, h')"
  shows "heap_ok h'"
proof -
  have "spaces_ok h \<and> objs_ok h \<or> h = heap_start 0" using assms(1) by (simp add: heap_ok_def)
  note n = zuo_new_ok [OF this assms(2-4)]
  have "roots_ok h'" using assms(1) n(4,5) by (auto simp: heap_ok_def roots_ok_def)
  with n(1,2) show ?thesis by (simp add: heap_ok_def)
qed

interpretation mutator: heap_client mutator_step
proof
  fix h h' assume ok: "heap_ok h" and "mutator_step h h'"
  from this(2) show "heap_ok h'"
  proof cases
    case (alloc ob a)
    then show ?thesis using zuo_new_heap_ok [OF ok] by blast
  next
    case (store b sl)
    then show ?thesis using write_slot_ok(1) [OF ok] by blast
  next
    case collect
    then show ?thesis using zuo_collect_ok [OF ok] ok by (auto simp: zuo_check_collect_def split: if_splits)
  qed
qed

lemma replace_heap_spaces:
  assumes "spaces_ok h" "blocks_ok ((b, n) # live_spaces h) h" "k \<le> n" "8 dvd k"
  shows "spaces_ok (zuo_replace_heap b n k h) \<and>
    live_spaces (zuo_replace_heap b n k h) = [(b, n)] \<and>
    free_spaces (zuo_replace_heap b n k h) = live_spaces h \<and>
    total_allocation (zuo_replace_heap b n k h) = k"
proof -
  let ?h = "h\<lparr>allocation_offset := k\<rparr>"
  have live: "live_spaces h = (to_space h, heap_size h) # old_spaces h" by (simp add: live_spaces_def)
  have "blocks_ok ((b, n) # (to_space h, heap_size h) # old_spaces h) ?h"
    using assms(2) by (simp add: live blocks_ok_def)
  from finish_blocks_ok [OF this] show ?thesis
    using assms(3,4) by (simp add: zuo_replace_heap_def spaces_ok_def live_spaces_def blocks_ok_def)
qed

section \<open>Properties\<close>

text \<open>A small memory: a pair that refers to itself and to a singleton, and a string nobody refers to.\<close>

definition sample_heap :: heap where
  "sample_heap = \<lparr>heap_size = 1024, to_space = 1, allocation_offset = 72, total_allocation = 72,
     gc_threshold = 64, old_spaces = [], free_spaces = [], roots = [Addr 1 16],
     objs = [Addr 1 0 \<mapsto> HSingleton, Addr 1 16 \<mapsto> HPair (Addr 1 0) (Addr 1 16),
             Addr 1 40 \<mapsto> HString ''x'' True],
     malloced = [1 \<mapsto> 1024], next_block = 2\<rparr>"

lemma sample_heap_ok: "heap_ok sample_heap"
proof -
  have al: "ALLOC_ALIGN 16 = 16" "ALLOC_ALIGN 24 = 24" "ALLOC_ALIGN 25 = 32"
    by (simp_all add: ALLOC_ALIGN_eq)
  have "spaces_ok sample_heap" "roots_ok sample_heap"
    by (auto simp: sample_heap_def spaces_ok_def blocks_ok_def live_spaces_def roots_ok_def)
  moreover have "disjoint_objs (objs sample_heap)"
    by (auto simp: disjoint_objs_def sample_heap_def osize_def obj_size_def al split: if_splits)
  then have "objs_ok sample_heap"
    by (auto simp: objs_ok_def) (auto simp: sample_heap_def live_spaces_def filled_def osize_def obj_size_def
        al plain_obj_def split: if_splits)
  ultimately show ?thesis by (simp add: heap_ok_def)
qed

text \<open>
  C5: a garbage collection of a well-formed memory always ends and reads and writes only memory
  that holds objects. Afterwards memory is well-formed and consists exactly of copies of the
  objects reachable from the roots, all in one space: distinct objects have distinct copies, every pointer points to
  the copy of what it pointed to, and all other contents are the same. The recorded amount of
  allocation is the size of the reachable objects, and the next collection is not yet due.
\<close>

theorem zuo_collect_correct:
  assumes "heap_ok h"
  shows "\<exists>h' f. zuo_collect h = Some (Inr h') \<and> heap_ok h' \<and> heap_iso f h h' \<and>
    dom (objs h') = f ` {a. reachable h a} \<and> old_spaces h' = [] \<and>
    total_allocation h' = sum (osize (objs h)) {a. reachable h a} \<and>
    total_allocation h' < gc_threshold h'"
  by (rule zuo_collect_ok [OF assms])

theorem zuo_collect_correct_witness:
  "heap_ok sample_heap \<and>
   (\<exists>h' f. zuo_collect sample_heap = Some (Inr h') \<and> heap_ok h' \<and> heap_iso f sample_heap h' \<and>
     dom (objs h') = f ` {a. reachable sample_heap a} \<and> old_spaces h' = [] \<and>
     total_allocation h' = sum (osize (objs sample_heap)) {a. reachable sample_heap a} \<and>
     total_allocation h' < gc_threshold h')"
  using zuo_collect_correct [OF sample_heap_ok] sample_heap_ok by blast

text \<open>
  C36: allocation in a well-formed memory, also the first one of all, returns an address where no
  object is stored, keeps every other object and the roots, and keeps memory well-formed: the new
  object lies within its block and shares no byte with another object. This covers the cases
  that open the first space, continue in the current space, or start another one.
\<close>

theorem zuo_new_correct:
  assumes "spaces_ok h \<and> objs_ok h \<or> h = heap_start n"
    and "plain_obj ob" "set (obj_fields ob) \<subseteq> dom (objs h)" "zuo_new ob h = (a, h')"
  shows "spaces_ok h' \<and> objs_ok h' \<and> objs h a = None \<and> objs h' = (objs h)(a \<mapsto> ob) \<and>
    roots h' = roots h \<and> total_allocation h' = total_allocation h + obj_size ob"
  using zuo_new_ok [OF assms] by blast

theorem zuo_new_correct_witness:
  "spaces_ok (snd (zuo_new HSingleton (heap_start 37))) \<and>
   objs (snd (zuo_new HSingleton (heap_start 37))) (fst (zuo_new HSingleton (heap_start 37))) = Some HSingleton"
  using zuo_new_correct [of "heap_start 37" 37 HSingleton "fst (zuo_new HSingleton (heap_start 37))"
      "snd (zuo_new HSingleton (heap_start 37))"]
  by (simp add: plain_obj_def)

text \<open>
  C30: from a well-formed memory, after any sequence of allocations, pointer stores and collections,
  memory is well-formed and the check for a due collection succeeds: it never reaches a bad
  address, never copies beyond the end of a space and never loops.
\<close>

theorem mutator_never_faults:
  assumes "heap_ok h" "mutator_step\<^sup>*\<^sup>* h h'"
  shows "heap_ok h' \<and> (\<exists>h''. zuo_check_collect h' = Some (Inr h'') \<and> heap_ok h'' \<and>
    (\<exists>f. heap_iso f h' h''))"
proof -
  have "map_option (map_hobj (\<lambda>a. a)) x = x" for x :: "obj option"
    by (cases x) (simp_all add: hobj.map_ident)
  then have "heap_iso (\<lambda>a. a) h' h'" by (simp add: heap_iso_def)
  with mutator.client_run_ok [OF assms(2,1)] mutator.client_run_collects [OF assms(2,1)] show ?thesis
    unfolding zuo_check_collect_def by metis
qed

theorem mutator_never_faults_witness:
  "\<exists>h. mutator_step sample_heap h \<and> (\<exists>h''. zuo_check_collect h = Some (Inr h'') \<and> heap_ok h'')"
proof -
  let ?ob = "HPair (Addr 1 0) (Addr 1 40)"
  have "plain_obj ?ob" "set (obj_fields ?ob) \<subseteq> dom (objs sample_heap)"
    by (simp_all add: plain_obj_def sample_heap_def)
  then have "mutator_step sample_heap (snd (zuo_new ?ob sample_heap))"
    by (rule mutator_step.alloc) (rule surjective_pairing)
  with mutator_never_faults [OF sample_heap_ok r_into_rtranclp [of mutator_step, OF this]] show ?thesis by blast
qed

text \<open>
  Replacing the whole memory by a restored image keeps the bookkeeping of blocks sound: when
  the new space is a block of its own, filled up to an aligned offset, the space becomes the current
  one, the former spaces become recyclable and the former recyclable ones are freed.
\<close>

theorem zuo_replace_heap_spaces:
  assumes "spaces_ok h" "blocks_ok ((b, n) # live_spaces h) h" "k \<le> n" "8 dvd k"
  shows "spaces_ok (zuo_replace_heap b n k h) \<and>
    live_spaces (zuo_replace_heap b n k h) = [(b, n)] \<and>
    free_spaces (zuo_replace_heap b n k h) = live_spaces h \<and>
    total_allocation (zuo_replace_heap b n k h) = k"
  using replace_heap_spaces [OF assms] .

theorem zuo_replace_heap_spaces_witness:
  "spaces_ok (zuo_replace_heap 2 4096 72 (snd (malloc 4096 sample_heap)))"
proof -
  have "spaces_ok (snd (malloc 4096 sample_heap))"
    "blocks_ok ((2, 4096) # live_spaces (snd (malloc 4096 sample_heap))) (snd (malloc 4096 sample_heap))"
    by (auto simp: malloc_def sample_heap_def spaces_ok_def blocks_ok_def live_spaces_def)
  from zuo_replace_heap_spaces [OF this, of 72] show ?thesis by simp
qed

end
