(* ===== verification/Zuo_Fasl.thy ===== *)
theory Zuo_Fasl
  imports Zuo_Collect
begin

text \<open>
  Saved images in \<^verbatim>\<open>zuo.c\<close>: the table of registered primitives, the dump of the part of memory
  that the image roots reach into an array of 32-bit words, and the restoration of such an array, which
  replaces memory. One C function, \<^verbatim>\<open>zuo_fasl\<close>, serves both directions; its two modes are two
  definitions here. Growing arrays are lists with a capacity, an access outside an array
  is \<open>Fault\<close>. The memory a restoration writes into comes from \<^verbatim>\<open>malloc\<close>, so fields that it does not
  write are indeterminate: they are the argument \<open>junk\<close>.
\<close>

section \<open>Registered primitives\<close>

datatype fasl_error = Fault | Panic string

text \<open>A primitive by its procedure, with the arity mask; the dispatcher goes with the procedure.\<close>

type_synonym prim_table = "(string \<times> zuo_int32) list"

abbreviation ZUO_MAX_PRIMITIVE_COUNT :: nat where "ZUO_MAX_PRIMITIVE_COUNT \<equiv> 128"

definition zuo_register_primitive :: "string \<Rightarrow> zuo_int32 \<Rightarrow> prim_table \<Rightarrow> fasl_error + prim_table" where
  "zuo_register_primitive proc arity_mask prims =
     (if length prims = ZUO_MAX_PRIMITIVE_COUNT then Inl (Panic ''primitive table is too small'')
      else Inr (prims @ [(proc, arity_mask)]))"

fun prim_index :: "string \<Rightarrow> prim_table \<Rightarrow> nat \<Rightarrow> fasl_error + nat" where
  "prim_index proc [] i = Inl (Panic ''could not find primitive'')"
| "prim_index proc (p # ps) i = (if proc = fst p then Inr i else prim_index proc ps (i + 1))"

definition zuo_primitive_to_id :: "prim_table \<Rightarrow> string \<Rightarrow> fasl_error + zuo_int32" where
  "zuo_primitive_to_id prims proc = rbind (prim_index proc prims 0) (\<lambda>i. Inr (of_nat i))"

definition zuo_id_to_primitive :: "prim_table \<Rightarrow> zuo_int32 \<Rightarrow> fasl_error + (string \<times> zuo_int32)" where
  "zuo_id_to_primitive prims i = (if unat i < length prims then Inr (prims ! unat i) else Inl Fault)"

section \<open>Words\<close>

text \<open>The magic number as a little-endian machine reads it.\<close>

definition zuo_magic :: zuo_int32 where
  "zuo_magic = 0x6F757A00"

definition SWAP_ENDIAN :: "zuo_int32 \<Rightarrow> zuo_int32" where
  "SWAP_ENDIAN n =
     (push_bit 24 (n AND 0xFF) OR push_bit 8 (n AND 0xFF00) OR drop_bit 8 (n AND 0xFF0000))
       OR (drop_bit 24 n AND 0xFF)"

definition BUILD_INT :: "zuo_int32 \<Rightarrow> zuo_int32 \<Rightarrow> zuo_int" where
  "BUILD_INT lo hi = push_bit 32 (scast hi) OR (scast lo AND 0xFFFFFFFF)"

fun tag_word :: "htag \<Rightarrow> zuo_int32" where
  "tag_word Singleton_Tag = 0"
| "tag_word Pair_Tag = 1"
| "tag_word Integer_Tag = 2"
| "tag_word String_Tag = 3"
| "tag_word Symbol_Tag = 4"
| "tag_word Trie_Node_Tag = 5"
| "tag_word Variable_Tag = 6"
| "tag_word Primitive_Tag = 7"
| "tag_word Closure_Tag = 8"
| "tag_word Handle_Tag = 9"
| "tag_word Opaque_Tag = 10"
| "tag_word Cont_Tag = 11"
| "tag_word Forwarded_Tag = 12"

definition word_tag :: "zuo_int32 \<Rightarrow> htag option" where
  "word_tag w = find (\<lambda>t. tag_word t = w)
     [Singleton_Tag, Pair_Tag, Integer_Tag, String_Tag, Symbol_Tag, Trie_Node_Tag, Variable_Tag,
      Primitive_Tag, Closure_Tag, Handle_Tag, Opaque_Tag, Cont_Tag, Forwarded_Tag]"

section \<open>Writing\<close>

record fasl_out =
  out_objs :: "addr list"
  out_map :: "nat list"
  map_size :: nat
  out_image :: "zuo_int32 list"
  image_size :: nat
  shadow :: "nat \<Rightarrow> nat option"

definition zuo_ensure_image_room :: "fasl_out \<Rightarrow> fasl_out" where
  "zuo_ensure_image_room st =
     (if image_size st = length (out_image st) then st\<lparr>image_size := image_size st * 2\<rparr> else st)"

definition zuo_ensure_map_room :: "fasl_out \<Rightarrow> fasl_out" where
  "zuo_ensure_map_room st =
     (if map_size st = length (out_objs st) then st\<lparr>map_size := map_size st * 2\<rparr> else st)"

definition put_image :: "zuo_int32 \<Rightarrow> fasl_out \<Rightarrow> fasl_error + fasl_out" where
  "put_image w st =
     (if length (out_image st) < image_size st then Inr (st\<lparr>out_image := out_image st @ [w]\<rparr>)
      else Inl Fault)"

definition put_obj :: "addr \<Rightarrow> fasl_out \<Rightarrow> fasl_error + fasl_out" where
  "put_obj a st =
     (if length (out_objs st) < map_size st then Inr (st\<lparr>out_objs := out_objs st @ [a]\<rparr>)
      else Inl Fault)"

text \<open>A pointer is written as the index of its object in the order of discovery.\<close>

definition fasl_ref_out :: "heap \<Rightarrow> addr \<Rightarrow> fasl_out \<Rightarrow> fasl_error + fasl_out" where
  "fasl_ref_out h obj st =
     (if block_of obj \<noteq> to_space h \<or> offset_of obj \<ge> allocation_offset h then Inl Fault
      else
        let delta = offset_of obj; st = zuo_ensure_image_room st in
        case shadow st delta of
          Some index \<Rightarrow> put_image (of_nat index) st
        | None \<Rightarrow>
            let st = zuo_ensure_map_room st;
                st = st\<lparr>shadow := (shadow st)(delta \<mapsto> length (out_objs st))\<rparr> in
            rbind (put_image (of_nat (length (out_objs st))) st) (put_obj obj))"

fun fasl_refs_out :: "heap \<Rightarrow> addr list \<Rightarrow> fasl_out \<Rightarrow> fasl_error + fasl_out" where
  "fasl_refs_out h [] st = Inr st"
| "fasl_refs_out h (a # as) st = rbind (fasl_ref_out h a st) (fasl_refs_out h as)"

definition fasl_int32_out :: "zuo_int32 \<Rightarrow> fasl_out \<Rightarrow> fasl_error + fasl_out" where
  "fasl_int32_out i st = put_image i (zuo_ensure_image_room st)"

fun fasl_int32s_out :: "zuo_int32 list \<Rightarrow> fasl_out \<Rightarrow> fasl_error + fasl_out" where
  "fasl_int32s_out [] st = Inr st"
| "fasl_int32s_out (i # is) st = rbind (fasl_int32_out i st) (fasl_int32s_out is)"

definition int_words :: "zuo_int \<Rightarrow> zuo_int32 list" where
  "int_words i = [ucast (i AND 0xFFFFFFFF), ucast (signed_drop_bit 32 i)]"

definition fasl_int_out :: "zuo_int \<Rightarrow> fasl_out \<Rightarrow> fasl_error + fasl_out" where
  "fasl_int_out i st = fasl_int32s_out (int_words i) st"

text \<open>The branches of a trie node that are written: those that are not the undefined object.\<close>

definition trie_mask :: "addr \<Rightarrow> addr list \<Rightarrow> zuo_int32" where
  "trie_mask undefined_obj next_objs =
     fold (\<lambda>i msk. if next_objs ! i \<noteq> undefined_obj then msk OR push_bit i 1 else msk)
       [0..<ZUO_TRIE_BFACTOR] 0"

definition masked_refs :: "zuo_int32 \<Rightarrow> addr list \<Rightarrow> addr list" where
  "masked_refs msk next_objs = map (\<lambda>i. next_objs ! i) (filter (\<lambda>i. bit msk i) [0..<ZUO_TRIE_BFACTOR])"

definition fasl_obj_out :: "prim_table \<Rightarrow> heap \<Rightarrow> obj \<Rightarrow> fasl_out \<Rightarrow> fasl_error + fasl_out" where
  "fasl_obj_out prims h ob st =
     rbind (fasl_int32_out (tag_word (obj_tag ob)) st) (\<lambda>st.
     case ob of
       HSingleton \<Rightarrow> Inr st
     | HInteger i \<Rightarrow> fasl_int_out i st
     | HString s terminated \<Rightarrow>
         rbind (fasl_int_out (of_nat (length s)) st) (fasl_int32s_out (map (\<lambda>c. of_nat (byte c)) s))
     | HPair a d \<Rightarrow> fasl_refs_out h [a, d] st
     | HSymbol n str \<Rightarrow> rbind (fasl_int32_out n st) (fasl_ref_out h str)
     | HTrieNode count key val next_objs \<Rightarrow>
         let msk = trie_mask (roots h ! 0) next_objs in
         rbind (fasl_int32_out msk st) (\<lambda>st.
         rbind (fasl_refs_out h [key, val] st) (fasl_refs_out h (masked_refs msk next_objs)))
     | HVariable name val \<Rightarrow> fasl_refs_out h [name, val] st
     | HPrimitive proc msk name \<Rightarrow>
         rbind (zuo_primitive_to_id prims proc) (\<lambda>i.
         rbind (fasl_int32_out i st) (fasl_ref_out h name))
     | HClosure lambda env \<Rightarrow> fasl_refs_out h [lambda, env] st
     | HOpaque tag val \<Rightarrow> fasl_refs_out h [tag, val] st
     | HCont tag data env in_proc next_k \<Rightarrow> fasl_refs_out h [data, env, in_proc, next_k] st
     | HHandle _ _ _ \<Rightarrow> Inl (Panic ''cannot dump heap with handles'')
     | HForwarded _ \<Rightarrow> Inl Fault)"

text \<open>The number of roots that belong to an image, the first ones; the others are run-time state.\<close>

abbreviation IMAGE_ROOTS :: nat where "IMAGE_ROOTS \<equiv> 24"

partial_function (option) dump_loop ::
    "prim_table \<Rightarrow> heap \<Rightarrow> nat \<Rightarrow> fasl_out \<Rightarrow> (fasl_error + fasl_out) option" where
  "dump_loop prims h map_done st =
     (if map_done < length (out_objs st) then
        (case objs h (out_objs st ! map_done) of
           None \<Rightarrow> Some (Inl Fault)
         | Some ob \<Rightarrow>
             (case fasl_obj_out prims h ob (st\<lparr>out_map := out_map st @ [length (out_image st)]\<rparr>) of
                Inl e \<Rightarrow> Some (Inl e)
              | Inr st' \<Rightarrow> dump_loop prims h (map_done + 1) st'))
      else Some (Inr st))"

definition fasl_out_start :: fasl_out where
  "fasl_out_start = \<lparr>out_objs = [], out_map = [], map_size = 1024, out_image = [], image_size = 4096,
     shadow = \<lambda>_. None\<rparr>"

definition dump_words :: "zuo_int32 \<Rightarrow> fasl_out \<Rightarrow> zuo_int32 list" where
  "dump_words symbol_count st =
     [zuo_magic, of_nat (length (out_objs st)), of_nat (length (out_image st)), symbol_count]
     @ map of_nat (out_map st) @ out_image st"

text \<open>The words of the dump and the collected memory.\<close>

definition zuo_fasl_dump ::
    "prim_table \<Rightarrow> zuo_int32 \<Rightarrow> heap \<Rightarrow> (fasl_error + zuo_int32 list \<times> heap) option" where
  "zuo_fasl_dump prims symbol_count h =
     (case zuo_collect h of
        None \<Rightarrow> None
      | Some (Inl e) \<Rightarrow> Some (Inl Fault)
      | Some (Inr h) \<Rightarrow>
          (case fasl_refs_out h (take IMAGE_ROOTS (roots h)) fasl_out_start of
             Inl e \<Rightarrow> Some (Inl e)
           | Inr st \<Rightarrow>
               (case dump_loop prims h 0 st of
                  None \<Rightarrow> None
                | Some (Inl e) \<Rightarrow> Some (Inl e)
                | Some (Inr st) \<Rightarrow> Some (Inr (dump_words symbol_count st, h)))))"

section \<open>Reading\<close>

record fasl_in =
  in_heap :: nat
  in_map :: "nat list"
  in_image :: "zuo_int32 list"
  in_offset :: nat

definition fasl_int32_in :: "fasl_in \<Rightarrow> fasl_error + zuo_int32 \<times> fasl_in" where
  "fasl_int32_in st =
     (if in_offset st < length (in_image st)
      then Inr (in_image st ! in_offset st, st\<lparr>in_offset := in_offset st + 1\<rparr>) else Inl Fault)"

definition fasl_ref_in :: "fasl_in \<Rightarrow> fasl_error + addr \<times> fasl_in" where
  "fasl_ref_in st =
     rbind (fasl_int32_in st) (\<lambda>(i, st).
     if unat i < length (in_map st) then Inr (Addr (in_heap st) (in_map st ! unat i), st) else Inl Fault)"

fun fasl_refs_in :: "nat \<Rightarrow> fasl_in \<Rightarrow> fasl_error + addr list \<times> fasl_in" where
  "fasl_refs_in 0 st = Inr ([], st)"
| "fasl_refs_in (Suc n) st =
     rbind (fasl_ref_in st) (\<lambda>(a, st). rbind (fasl_refs_in n st) (\<lambda>(as, st). Inr (a # as, st)))"

definition fasl_int_in :: "fasl_in \<Rightarrow> fasl_error + zuo_int \<times> fasl_in" where
  "fasl_int_in st =
     rbind (fasl_int32_in st) (\<lambda>(lo, st). rbind (fasl_int32_in st) (\<lambda>(hi, st). Inr (BUILD_INT lo hi, st)))"

fun fasl_chars_in :: "nat \<Rightarrow> fasl_in \<Rightarrow> fasl_error + string \<times> fasl_in" where
  "fasl_chars_in 0 st = Inr ([], st)"
| "fasl_chars_in (Suc n) st =
     rbind (fasl_int32_in st) (\<lambda>(i, st).
     rbind (fasl_chars_in n st) (\<lambda>(s, st). Inr (char_of (unat i mod 256) # s, st)))"

fun trie_branches_in :: "addr \<Rightarrow> zuo_int32 \<Rightarrow> nat list \<Rightarrow> fasl_in \<Rightarrow> fasl_error + addr list \<times> fasl_in" where
  "trie_branches_in undefined_obj msk [] st = Inr ([], st)"
| "trie_branches_in undefined_obj msk (i # is) st =
     rbind (if bit msk i then fasl_ref_in st else Inr (undefined_obj, st)) (\<lambda>(a, st).
     rbind (trie_branches_in undefined_obj msk is st) (\<lambda>(as, st). Inr (a # as, st)))"

text \<open>What memory from \<^verbatim>\<open>malloc\<close> holds where nothing is written.\<close>

record junk =
  junk_count :: zuo_int
  junk_kind :: kont_tag

definition fasl_obj_in :: "prim_table \<Rightarrow> junk \<Rightarrow> addr \<Rightarrow> fasl_in \<Rightarrow> fasl_error + obj \<times> fasl_in" where
  "fasl_obj_in prims junk undefined_obj st =
     rbind (fasl_int32_in st) (\<lambda>(tag, st).
     case word_tag tag of
       None \<Rightarrow> Inl Fault
     | Some t \<Rightarrow>
         (case t of
            Singleton_Tag \<Rightarrow> Inr (HSingleton, st)
          | Integer_Tag \<Rightarrow> rbind (fasl_int_in st) (\<lambda>(i, st). Inr (HInteger i, st))
          | String_Tag \<Rightarrow>
              rbind (fasl_int_in st) (\<lambda>(len, st).
              rbind (fasl_chars_in (nat (sint len)) st) (\<lambda>(s, st). Inr (HString s False, st)))
          | Pair_Tag \<Rightarrow> rbind (fasl_refs_in 2 st) (\<lambda>(as, st). Inr (HPair (as ! 0) (as ! 1), st))
          | Symbol_Tag \<Rightarrow>
              rbind (fasl_int32_in st) (\<lambda>(n, st). rbind (fasl_ref_in st) (\<lambda>(str, st). Inr (HSymbol n str, st)))
          | Trie_Node_Tag \<Rightarrow>
              rbind (fasl_int32_in st) (\<lambda>(msk, st).
              rbind (fasl_refs_in 2 st) (\<lambda>(as, st).
              rbind (trie_branches_in undefined_obj msk [0..<ZUO_TRIE_BFACTOR] st) (\<lambda>(next_objs, st).
              Inr (HTrieNode (junk_count junk) (as ! 0) (as ! 1) next_objs, st))))
          | Variable_Tag \<Rightarrow> rbind (fasl_refs_in 2 st) (\<lambda>(as, st). Inr (HVariable (as ! 0) (as ! 1), st))
          | Primitive_Tag \<Rightarrow>
              rbind (fasl_int32_in st) (\<lambda>(i, st).
              rbind (zuo_id_to_primitive prims i) (\<lambda>(proc, msk).
              rbind (fasl_ref_in st) (\<lambda>(name, st). Inr (HPrimitive proc msk name, st))))
          | Closure_Tag \<Rightarrow> rbind (fasl_refs_in 2 st) (\<lambda>(as, st). Inr (HClosure (as ! 0) (as ! 1), st))
          | Opaque_Tag \<Rightarrow> rbind (fasl_refs_in 2 st) (\<lambda>(as, st). Inr (HOpaque (as ! 0) (as ! 1), st))
          | Cont_Tag \<Rightarrow>
              rbind (fasl_refs_in 4 st) (\<lambda>(as, st).
              Inr (HCont (junk_kind junk) (as ! 0) (as ! 1) (as ! 2) (as ! 3), st))
          | Handle_Tag \<Rightarrow> Inl (Panic ''cannot dump heap with handles'')
          | Forwarded_Tag \<Rightarrow> Inl Fault))"

text \<open>
  The first pass: the size of every object from its tag, and for a string its length; the
  result is the new map, from indices to offsets in memory, and the total size.
\<close>

definition image_obj_size :: "zuo_int32 list \<Rightarrow> nat \<Rightarrow> fasl_error + nat" where
  "image_obj_size img delta =
     (if delta < length img then
        (case word_tag (img ! delta) of
           None \<Rightarrow> Inl Fault
         | Some String_Tag \<Rightarrow>
             if delta + 2 < length img
             then Inr (object_size String_Tag (nat (sint (BUILD_INT (img ! (delta + 1)) (img ! (delta + 2))))))
             else Inl Fault
         | Some Forwarded_Tag \<Rightarrow> Inl Fault
         | Some tag \<Rightarrow> Inr (object_size tag 0))
      else Inl Fault)"

fun image_offsets :: "zuo_int32 list \<Rightarrow> nat list \<Rightarrow> nat \<Rightarrow> fasl_error + nat list \<times> nat" where
  "image_offsets img [] heap_sz = Inr ([], heap_sz)"
| "image_offsets img (delta # map_words) heap_sz =
     rbind (image_obj_size img delta) (\<lambda>sz.
     rbind (image_offsets img map_words (heap_sz + ALLOC_ALIGN sz)) (\<lambda>(os, n). Inr (heap_sz # os, n)))"

fun restore_objs :: "prim_table \<Rightarrow> junk \<Rightarrow> addr \<Rightarrow> nat list \<Rightarrow> fasl_in \<Rightarrow> (addr \<Rightarrow> obj option) \<Rightarrow>
    fasl_error + (addr \<Rightarrow> obj option)" where
  "restore_objs prims junk undefined_obj [] st s = Inr s"
| "restore_objs prims junk undefined_obj (o1 # os) st s =
     rbind (fasl_obj_in prims junk undefined_obj st) (\<lambda>(ob, st).
     restore_objs prims junk undefined_obj os st (s(Addr (in_heap st) o1 \<mapsto> ob)))"

text \<open>
  The words are as they are in the file. The result is memory with the symbol count of the image. When the image roots have been read, the first one is the undefined object of the
  new memory, which the trie nodes refer to. The run-time roots are left alone.
\<close>

definition zuo_fasl_restore ::
    "prim_table \<Rightarrow> junk \<Rightarrow> zuo_int32 list \<Rightarrow> heap \<Rightarrow> fasl_error + zuo_int32 \<times> heap" where
  "zuo_fasl_restore prims junk dump_in h =
     (if length dump_in < 4 then Inl Fault
      else
        rbind (if dump_in ! 0 = zuo_magic then Inr dump_in
               else if dump_in ! 0 = SWAP_ENDIAN zuo_magic then Inr (map SWAP_ENDIAN dump_in)
               else Inl (Panic ''image does not start with zuo magic'')) (\<lambda>dump.
        let map_len = unat (dump ! 1);
            map_words = map unat (take map_len (drop 4 dump));
            img = drop (4 + map_len) dump in
        if length map_words < map_len then Inl Fault
        else
        rbind (image_offsets img map_words 0) (\<lambda>(offsets, heap_sz).
        let (space, h) = malloc (heap_sz * 2) h;
            st = \<lparr>in_heap = space, in_map = offsets, in_image = img, in_offset = 0\<rparr> in
        rbind (fasl_refs_in IMAGE_ROOTS st) (\<lambda>(image_roots, st).
        let h = h\<lparr>roots := image_roots @ drop IMAGE_ROOTS (roots h)\<rparr> in
        rbind (restore_objs prims junk (image_roots ! 0) offsets st (objs h)) (\<lambda>s.
        Inr (dump ! 3, zuo_replace_heap space (heap_sz * 2) heap_sz (h\<lparr>objs := s\<rparr>)))))))"

text \<open>What \<^verbatim>\<open>dump-image-and-exit\<close> does to the run-time roots before it dumps.\<close>

definition clear_runtime_roots :: "nat \<Rightarrow> nat \<Rightarrow> heap \<Rightarrow> heap" where
  "clear_runtime_roots interp_k interp_meta_k h =
     (let undefined_obj = roots h ! 0; null_obj = roots h ! 3; done_k = roots h ! 7;
          rs = take IMAGE_ROOTS (roots h) @ replicate (length (roots h) - IMAGE_ROOTS) undefined_obj in
      h\<lparr>roots := rs[interp_k := done_k, interp_meta_k := null_obj]\<rparr>)"

section \<open>Words and tables\<close>

lemma swap_swap [simp]: "SWAP_ENDIAN (SWAP_ENDIAN n) = n"
proof (rule bit_word_eqI)
  fix i assume "i < LENGTH(32)"
  then have "i \<in> set [0..<32]" by simp
  then show "bit (SWAP_ENDIAN (SWAP_ENDIAN n)) i = bit n i"
    unfolding SWAP_ENDIAN_def by (simp add: upt_rec bit_simps) (elim disjE; simp add: eval_nat_numeral)
qed

lemma swap_magic: "SWAP_ENDIAN zuo_magic \<noteq> zuo_magic"
  by (simp add: SWAP_ENDIAN_def zuo_magic_def)

lemma build_int_words: "BUILD_INT (ucast (i AND 0xFFFFFFFF)) (ucast (signed_drop_bit 32 i)) = i"
proof -
  have m: "(0xFFFFFFFF :: zuo_int) = mask 32" by (simp add: mask_eq_exp_minus_1)
  show ?thesis
    unfolding BUILD_INT_def m
  proof (rule bit_word_eqI)
    fix n assume "n < LENGTH(64)"
    then consider "n < 31" | "n = 31" | "32 \<le> n" "n < 63" | "n = 63" by fastforce
    then show "bit (push_bit 32 (scast (ucast (signed_drop_bit 32 i) :: zuo_int32)) OR
        (scast (ucast (i AND mask 32) :: zuo_int32) AND mask 32) :: zuo_int) n = bit i n"
      by cases (auto simp: bit_simps min_def)
  qed
qed

lemma word_tag_word [simp]: "word_tag (tag_word t) = Some t"
  by (cases t) (simp_all add: word_tag_def)

lemma prim_index_takeWhile:
  "map_of prims p = Some m \<Longrightarrow> prim_index p prims i = Inr (i + length (takeWhile (\<lambda>x. fst x \<noteq> p) prims)) \<and>
     prims ! length (takeWhile (\<lambda>x. fst x \<noteq> p) prims) = (p, m) \<and>
     length (takeWhile (\<lambda>x. fst x \<noteq> p) prims) < length prims"
  by (induction prims arbitrary: i) (auto split: if_splits)

lemma bit_trie_mask_upto:
  "bit (fold (\<lambda>i msk. if P i then msk OR push_bit i 1 else msk) xs (m :: zuo_int32)) j \<longleftrightarrow>
     bit m j \<or> j < 32 \<and> j \<in> set xs \<and> P j"
  by (induction xs arbitrary: m) (auto simp: bit_simps)

lemma bit_trie_mask: "i < 16 \<Longrightarrow> bit (trie_mask u nx) i \<longleftrightarrow> nx ! i \<noteq> u"
  unfolding trie_mask_def by (subst bit_trie_mask_upto) auto

end
