(* ===== verification/Zuo_Image.thy ===== *)
theory Zuo_Image
  imports Zuo_Fasl
begin

text \<open>
  Dumping memory to an image and restoring it gives the same memory, up to the fields the image
  does not carry (theory \<open>Zuo_Fasl\<close>). The dump numbers objects in the order of discovery \<open>L\<close>; the
  words it writes for an object are given by the function \<open>enc\<close>. Restoring
  lays the objects out in the same order, so addresses are those of the collector's
  forwarding function with the list \<open>L\<close>.
\<close>

section \<open>Numbering objects\<close>

definition idx :: "addr list \<Rightarrow> addr \<Rightarrow> nat" where
  "idx L a = length (takeWhile (\<lambda>x. x \<noteq> a) L)"

definition note_obj :: "addr list \<Rightarrow> addr \<Rightarrow> addr list" where
  "note_obj L a = (if a \<in> set L then L else L @ [a])"

definition note_objs :: "addr list \<Rightarrow> addr list \<Rightarrow> addr list" where
  "note_objs L as = foldl note_obj L as"

lemma idx_append [simp]: "a \<in> set L \<Longrightarrow> idx (L @ M) a = idx L a"
  by (simp add: idx_def)

lemma idx_less: "a \<in> set L \<Longrightarrow> idx L a < length L"
  by (induction L) (auto simp: idx_def)

lemma nth_idx: "a \<in> set L \<Longrightarrow> L ! idx L a = a"
  by (induction L) (auto simp: idx_def)

lemma idx_new: "a \<notin> set L \<Longrightarrow> idx (L @ [a]) a = length L"
  unfolding idx_def by (subst takeWhile_append2) auto

lemma note_objs_simps [simp]:
  "note_objs L [] = L" "note_objs L (a # as) = note_objs (note_obj L a) as"
  "note_objs L (as @ bs) = note_objs (note_objs L as) bs"
  by (simp_all add: note_objs_def)

lemma set_note_obj [simp]: "set (note_obj L a) = insert a (set L)"
  by (auto simp: note_obj_def)

lemma set_note_objs [simp]: "set (note_objs L as) = set L \<union> set as"
  by (induction as arbitrary: L) auto

lemma note_obj_append: "\<exists>M. note_obj L a = L @ M"
  by (auto simp: note_obj_def)

lemma note_objs_append: "\<exists>M. note_objs L as = L @ M"
proof (induction as arbitrary: L)
  case (Cons a as)
  show ?case using Cons [of "note_obj L a"] note_obj_append [of L a] by (metis append_assoc note_objs_simps(2))
qed simp

lemma idx_note_objs: "a \<in> set L \<Longrightarrow> idx (note_objs L as) a = idx L a"
  using note_objs_append [of L as] by auto

lemma distinct_note_objs: "distinct L \<Longrightarrow> distinct (note_objs L as)"
  by (induction as arbitrary: L) (auto simp: note_obj_def)

section \<open>Writing objects\<close>

text \<open>The pointers that are written for an object.\<close>

definition refs :: "addr \<Rightarrow> obj \<Rightarrow> addr list" where
  "refs u ob = (case ob of
     HTrieNode n key val nx \<Rightarrow> key # val # masked_refs (trie_mask u nx) nx
   | _ \<Rightarrow> obj_fields ob)"

definition enc :: "prim_table \<Rightarrow> addr \<Rightarrow> (addr \<Rightarrow> zuo_int32) \<Rightarrow> obj \<Rightarrow> zuo_int32 list" where
  "enc prims u f ob = tag_word (obj_tag ob) # (case ob of
     HInteger i \<Rightarrow> int_words i
   | HString s _ \<Rightarrow> int_words (of_nat (length s)) @ map (\<lambda>c. of_nat (byte c)) s
   | HSymbol n str \<Rightarrow> [n, f str]
   | HTrieNode n key val nx \<Rightarrow> trie_mask u nx # map f (refs u ob)
   | HPrimitive p m nm \<Rightarrow> [of_nat (length (takeWhile (\<lambda>x. fst x \<noteq> p) prims)), f nm]
   | _ \<Rightarrow> map f (obj_fields ob))"

definition ref_ok :: "heap \<Rightarrow> addr \<Rightarrow> bool" where
  "ref_ok h a \<longleftrightarrow> block_of a = to_space h \<and> offset_of a < allocation_offset h"

definition out_ok :: "heap \<Rightarrow> addr list \<Rightarrow> fasl_out \<Rightarrow> bool" where
  "out_ok h L st \<longleftrightarrow>
     out_objs st = L \<and> distinct L \<and> (\<forall>a. a \<in> set L \<longrightarrow> ref_ok h a) \<and>
     (\<forall>a. block_of a = to_space h \<longrightarrow>
        shadow st (offset_of a) = (if a \<in> set L then Some (idx L a) else None)) \<and>
     length L \<le> map_size st \<and> 0 < map_size st \<and>
     length (out_image st) \<le> image_size st \<and> 0 < image_size st"

text \<open>A piece of output: it ends without fault, finds the objects \<open>M\<close> and writes the words \<open>ws\<close>.\<close>

definition emits :: "heap \<Rightarrow> (fasl_error + fasl_out) \<Rightarrow> fasl_out \<Rightarrow> addr list \<Rightarrow> zuo_int32 list \<Rightarrow> bool" where
  "emits h r st L ws \<longleftrightarrow> (\<exists>st'. r = Inr st' \<and> out_ok h L st' \<and>
     out_image st' = out_image st @ ws \<and> out_map st' = out_map st)"

lemma emits_bind:
  assumes "emits h r st L ws" and "\<And>st'. out_ok h L st' \<Longrightarrow> emits h (k st') st' L' ws'"
  shows "emits h (rbind r k) st L' (ws @ ws')"
  using assms unfolding emits_def by (fastforce simp: rbind_def)

lemma emits_Inr: "out_ok h L st \<Longrightarrow> emits h (Inr st) st L []"
  by (simp add: emits_def)

lemma fasl_int32_emits: "out_ok h L st \<Longrightarrow> emits h (fasl_int32_out w st) st L [w]"
  by (auto simp: emits_def fasl_int32_out_def put_image_def zuo_ensure_image_room_def out_ok_def)

lemma fasl_int32s_emits: "out_ok h L st \<Longrightarrow> emits h (fasl_int32s_out ws st) st L ws"
proof (induction ws arbitrary: st)
  case (Cons w ws)
  have "emits h (rbind (fasl_int32_out w st) (fasl_int32s_out ws)) st L ([w] @ ws)"
    by (rule emits_bind [OF fasl_int32_emits [OF Cons.prems] Cons.IH])
  then show ?case by simp
qed (simp add: emits_Inr)

lemma fasl_ref_emits:
  assumes ok: "out_ok h L st" and a: "ref_ok h a"
  shows "emits h (fasl_ref_out h a st) st (note_obj L a) [of_nat (idx (note_obj L a) a)]"
proof (cases "a \<in> set L")
  case True
  then show ?thesis
    using ok a by (auto simp: emits_def fasl_ref_out_def put_image_def zuo_ensure_image_room_def
        out_ok_def ref_ok_def note_obj_def Suc_le_eq)
next
  case False
  have L: "idx (L @ [a]) a = length L" by (rule idx_new [OF False])
  have sh: "shadow st (offset_of a) = None" using ok a False by (simp add: out_ok_def ref_ok_def)
  let ?st1 = "zuo_ensure_map_room (zuo_ensure_image_room st)"
  let ?st2 = "?st1\<lparr>shadow := (shadow ?st1)(offset_of a \<mapsto> length L),
    out_image := out_image ?st1 @ [of_nat (length L)], out_objs := out_objs ?st1 @ [a]\<rparr>"
  have run: "fasl_ref_out h a st = Inr ?st2"
    using ok a sh by (auto simp: fasl_ref_out_def Let_def put_image_def put_obj_def
        zuo_ensure_image_room_def zuo_ensure_map_room_def out_ok_def ref_ok_def)
  have "shadow ?st2 (offset_of b) = (if b \<in> set (L @ [a]) then Some (idx (L @ [a]) b) else None)"
    if "block_of b = to_space h" for b
  proof (cases "b = a")
    case False
    then have "offset_of b \<noteq> offset_of a" using that a by (metis addr.expand ref_ok_def)
    then show ?thesis
      using ok that False by (auto simp: zuo_ensure_map_room_def zuo_ensure_image_room_def out_ok_def)
  qed (simp add: L)
  then have "out_ok h (L @ [a]) ?st2"
    using ok a False
    by (auto simp: out_ok_def zuo_ensure_map_room_def zuo_ensure_image_room_def)
  moreover have "out_image ?st2 = out_image st @ [of_nat (length L)]" "out_map ?st2 = out_map st"
    by (simp_all add: zuo_ensure_map_room_def zuo_ensure_image_room_def)
  ultimately show ?thesis unfolding emits_def run using False L by (auto simp: note_obj_def)
qed

lemma fasl_refs_emits:
  "out_ok h L st \<Longrightarrow> (\<And>a. a \<in> set as \<Longrightarrow> ref_ok h a) \<Longrightarrow>
   emits h (fasl_refs_out h as st) st (note_objs L as) (map (\<lambda>a. of_nat (idx (note_objs L as) a)) as)"
proof (induction as arbitrary: L st)
  case (Cons a as)
  let ?L = "note_obj L a"
  have "emits h (rbind (fasl_ref_out h a st) (fasl_refs_out h as)) st (note_objs ?L as)
      ([of_nat (idx ?L a)] @ map (\<lambda>a. of_nat (idx (note_objs ?L as) a)) as)"
    by (rule emits_bind [OF fasl_ref_emits]) (use Cons in auto)
  moreover have "idx (note_objs ?L as) a = idx ?L a" by (rule idx_note_objs) simp
  ultimately show ?case by simp
qed (simp add: emits_Inr)

text \<open>Objects an image can hold: no handles, and only registered primitives.\<close>

definition dumpable :: "prim_table \<Rightarrow> 'a hobj \<Rightarrow> bool" where
  "dumpable prims ob \<longleftrightarrow> plain_obj ob \<and> (case ob of
     HHandle _ _ _ \<Rightarrow> False
   | HPrimitive p m _ \<Rightarrow> map_of prims p = Some m
   | _ \<Rightarrow> True)"

lemma fasl_ref_emits1:
  assumes "out_ok h L st" "ref_ok h a"
  shows "emits h (fasl_ref_out h a st) st (note_objs L [a]) [of_nat (idx (note_objs L [a]) a)]"
  using fasl_ref_emits [OF assms] by simp

lemma fasl_prim_emits:
  assumes "map_of prims p = Some m" "out_ok h L st" "ref_ok h a"
  shows "emits h (rbind (zuo_primitive_to_id prims p) (\<lambda>i. rbind (fasl_int32_out i st) (fasl_ref_out h a))) st
    (note_objs L [a]) [of_nat (length (takeWhile (\<lambda>x. fst x \<noteq> p) prims)), of_nat (idx (note_objs L [a]) a)]"
  using emits_bind [OF fasl_int32_emits fasl_ref_emits1, OF assms(2) _ assms(3)]
    prim_index_takeWhile [OF assms(1), of 0]
  by (simp add: zuo_primitive_to_id_def)

lemma fasl_trie_emits:
  fixes h st key val nx
  defines "u \<equiv> roots h ! 0"
  defines "rs \<equiv> masked_refs (trie_mask u nx) nx"
  assumes ok: "out_ok h L st" and r: "\<And>a. a \<in> set (key # val # rs) \<Longrightarrow> ref_ok h a"
  shows "emits h (rbind (fasl_int32_out (trie_mask u nx) st) (\<lambda>st.
       rbind (fasl_refs_out h [key, val] st) (fasl_refs_out h rs))) st
    (note_objs L (key # val # rs))
    (trie_mask u nx # map (\<lambda>a. of_nat (idx (note_objs L (key # val # rs)) a)) (key # val # rs))"
proof -
  let ?L = "note_objs L [key, val]"
  have "idx (note_objs ?L rs) a = idx ?L a" if "a \<in> {key, val}" for a
    using that by (intro idx_note_objs) auto
  then have eq: "map (\<lambda>a. of_nat (idx ?L a)) [key, val] = map (\<lambda>a. of_nat (idx (note_objs ?L rs) a)) [key, val]"
    by simp
  have "emits h (rbind (fasl_refs_out h [key, val] st) (fasl_refs_out h rs)) st (note_objs ?L rs)
     (map (\<lambda>a. of_nat (idx ?L a)) [key, val] @ map (\<lambda>a. of_nat (idx (note_objs ?L rs) a)) rs)"
    if "out_ok h L st" for st
    by (rule emits_bind [OF fasl_refs_emits fasl_refs_emits]) (use that r in auto)
  from emits_bind [OF fasl_int32_emits [OF ok] this] show ?thesis unfolding eq by simp
qed

lemma fasl_obj_emits:
  fixes h L ob
  defines "u \<equiv> roots h ! 0"
  defines "L' \<equiv> note_objs L (refs u ob)"
  assumes ok: "out_ok h L st" and r: "\<And>a. a \<in> set (refs u ob) \<Longrightarrow> ref_ok h a" and d: "dumpable prims ob"
  shows "emits h (fasl_obj_out prims h ob st) st L' (enc prims u (\<lambda>a. of_nat (idx L' a)) ob)"
proof -
  let ?body = "\<lambda>st. case ob of
       HSingleton \<Rightarrow> Inr st
     | HInteger i \<Rightarrow> fasl_int_out i st
     | HString s terminated \<Rightarrow>
         rbind (fasl_int_out (of_nat (length s)) st) (fasl_int32s_out (map (\<lambda>c. of_nat (byte c)) s))
     | HPair a d \<Rightarrow> fasl_refs_out h [a, d] st
     | HSymbol n str \<Rightarrow> rbind (fasl_int32_out n st) (fasl_ref_out h str)
     | HTrieNode count key val next_objs \<Rightarrow>
         let msk = trie_mask (roots h ! 0) next_objs in
         rbind (fasl_int32_out msk st) (\<lambda>st.
         rbind (fasl_refs_out h [key, val] st) (fasl_refs_out h (masked_refs msk next_objs)))
     | HVariable name val \<Rightarrow> fasl_refs_out h [name, val] st
     | HPrimitive proc msk name \<Rightarrow>
         rbind (zuo_primitive_to_id prims proc) (\<lambda>i.
         rbind (fasl_int32_out i st) (fasl_ref_out h name))
     | HClosure lambda env \<Rightarrow> fasl_refs_out h [lambda, env] st
     | HOpaque tag val \<Rightarrow> fasl_refs_out h [tag, val] st
     | HCont tag data env in_proc next_k \<Rightarrow> fasl_refs_out h [data, env, in_proc, next_k] st
     | HHandle _ _ _ \<Rightarrow> Inl (Panic ''cannot dump heap with handles'')
     | HForwarded _ \<Rightarrow> Inl Fault"
  have "emits h (?body st) st L' (tl (enc prims u (\<lambda>a. of_nat (idx L' a)) ob))" if st: "out_ok h L st" for st
  proof -
    note R = r [unfolded u_def refs_def] and I = fasl_int32s_emits [OF st]
    have F: "emits h (fasl_refs_out h (obj_fields ob) st) st (note_objs L (obj_fields ob))
        (map (\<lambda>a. of_nat (idx (note_objs L (obj_fields ob)) a)) (obj_fields ob))" if "refs u ob = obj_fields ob"
      by (rule fasl_refs_emits [OF st]) (use r that in simp)
    show ?thesis
    proof (cases ob)
      case (HTrieNode c k v nx)
      then have "ref_ok h a" if "a \<in> set (k # v # masked_refs (trie_mask (roots h ! 0) nx) nx)" for a
        using R that by simp
      from fasl_trie_emits [where key = k and val = v and nx = nx, OF st this] show ?thesis
        by (simp add: HTrieNode L'_def enc_def refs_def u_def Let_def del: note_objs_simps(2) fasl_refs_out.simps)
    next
      case (HString s t)
      then show ?thesis
        using emits_bind [OF I fasl_int32s_emits] by (simp add: L'_def enc_def refs_def fasl_int_out_def)
    next
      case (HSymbol n str)
      then show ?thesis
        using emits_bind [OF fasl_int32_emits [OF st] fasl_ref_emits1] R
        by (simp add: L'_def enc_def refs_def del: note_objs_simps(2))
    next
      case (HPrimitive p m nm)
      then show ?thesis
        using fasl_prim_emits [OF _ st] R d
        by (simp add: L'_def enc_def refs_def dumpable_def del: note_objs_simps(2))
    next
      case (HHandle a b c)
      then show ?thesis using d by (simp add: dumpable_def)
    next
      case (HForwarded b)
      then show ?thesis using d by (simp add: dumpable_def plain_obj_def)
    next
      case HSingleton
      then show ?thesis using emits_Inr [OF st] by (simp add: L'_def enc_def refs_def)
    next
      case (HInteger i)
      then show ?thesis using I by (simp add: L'_def enc_def refs_def fasl_int_out_def)
    qed (use F in
        \<open>simp_all add: L'_def enc_def refs_def del: note_objs_simps(2) fasl_refs_out.simps\<close>)
  qed
  from emits_bind [OF fasl_int32_emits [OF ok] this] show ?thesis
    unfolding fasl_obj_out_def by (simp add: enc_def)
qed

section \<open>The dump\<close>

inductive image_reachable :: "heap \<Rightarrow> addr \<Rightarrow> bool" for h where
  image_root: "a \<in> set (take IMAGE_ROOTS (roots h)) \<Longrightarrow> image_reachable h a"
| image_field: "image_reachable h a \<Longrightarrow> objs h a = Some ob \<Longrightarrow> b \<in> set (obj_fields ob) \<Longrightarrow> image_reachable h b"

lemma image_reachable_reachable: "image_reachable h a \<Longrightarrow> reachable h a"
  by (induction rule: image_reachable.induct) (auto intro: reachable.intros dest: in_set_takeD)

lemma enc_cong: "(\<And>a. a \<in> set (refs u ob) \<Longrightarrow> f a = g a) \<Longrightarrow> enc prims u f ob = enc prims u g ob"
  by (cases ob) (auto simp: enc_def refs_def)

lemma length_enc: "length (enc prims u f ob) = length (enc prims u g ob)"
  by (cases ob) (auto simp: enc_def refs_def)

lemma set_refs_subset: "plain_obj ob \<Longrightarrow> set (refs u ob) \<subseteq> set (obj_fields ob)"
  by (cases ob) (auto simp: refs_def masked_refs_def plain_obj_def)

lemma set_fields_subset: "plain_obj ob \<Longrightarrow> set (obj_fields ob) \<subseteq> insert u (set (refs u ob))"
proof (cases ob)
  case (HTrieNode c k v nx)
  assume "plain_obj ob"
  then have len: "length nx = 16" using HTrieNode by (simp add: plain_obj_def)
  have "x \<in> insert u (set (masked_refs (trie_mask u nx) nx))" if "x \<in> set nx" for x
  proof -
    obtain i where "i < 16" "x = nx ! i" using \<open>x \<in> set nx\<close> len by (auto simp: in_set_conv_nth)
    then show ?thesis using bit_trie_mask [of i u nx] by (auto simp: masked_refs_def)
  qed
  then show ?thesis using HTrieNode by (auto simp: refs_def)
qed (auto simp: refs_def)

definition idxw :: "addr list \<Rightarrow> addr \<Rightarrow> zuo_int32" where
  "idxw L a = of_nat (idx L a)"

definition enc_at :: "prim_table \<Rightarrow> heap \<Rightarrow> addr list \<Rightarrow> addr \<Rightarrow> zuo_int32 list" where
  "enc_at prims h L a = enc prims (roots h ! 0) (idxw L) (the (objs h a))"

definition body :: "prim_table \<Rightarrow> heap \<Rightarrow> addr list \<Rightarrow> nat \<Rightarrow> zuo_int32 list" where
  "body prims h L k = concat (map (enc_at prims h L) (take k L))"

definition root_words :: "heap \<Rightarrow> addr list \<Rightarrow> zuo_int32 list" where
  "root_words h L = map (idxw L) (take IMAGE_ROOTS (roots h))"

definition pos :: "prim_table \<Rightarrow> heap \<Rightarrow> addr list \<Rightarrow> nat \<Rightarrow> nat" where
  "pos prims h L k = length (root_words h L) + length (body prims h L k)"

text \<open>Everything the image roots reach can be dumped.\<close>

definition dumpable_heap :: "prim_table \<Rightarrow> heap \<Rightarrow> bool" where
  "dumpable_heap prims h \<longleftrightarrow>
     (\<forall>a ob. image_reachable h a \<longrightarrow> objs h a = Some ob \<longrightarrow> dumpable prims ob)"

text \<open>Memory after the collection at the start of a dump.\<close>

definition dump_heap :: "prim_table \<Rightarrow> heap \<Rightarrow> bool" where
  "dump_heap prims h \<longleftrightarrow> heap_ok h \<and> old_spaces h = [] \<and> IMAGE_ROOTS \<le> length (roots h) \<and>
     dumpable_heap prims h"

definition dump_inv :: "prim_table \<Rightarrow> heap \<Rightarrow> nat \<Rightarrow> addr list \<Rightarrow> fasl_out \<Rightarrow> bool" where
  "dump_inv prims h k L st \<longleftrightarrow>
     out_ok h L st \<and> k \<le> length L \<and>
     out_image st = root_words h L @ body prims h L k \<and> out_map st = map (pos prims h L) [0..<k] \<and>
     set (take IMAGE_ROOTS (roots h)) \<subseteq> set L \<and> (\<forall>a. a \<in> set L \<longrightarrow> image_reachable h a) \<and>
     (\<forall>a ob. a \<in> set (take k L) \<longrightarrow> objs h a = Some ob \<longrightarrow> set (refs (roots h ! 0) ob) \<subseteq> set L)"

lemma dump_heap_ref_ok:
  assumes "dump_heap prims h" "a \<in> dom (objs h)"
  shows "ref_ok h a"
proof -
  obtain ob where ob: "objs h a = Some ob" using assms(2) by blast
  have "objs_ok h" "live_spaces h = [(to_space h, heap_size h)]"
    using assms(1) by (auto simp: dump_heap_def heap_ok_def live_spaces_def)
  with objs_okD(1,3) [OF _ ob] show ?thesis
    using obj_size_min [of ob] by (auto simp: ref_ok_def filled_def)
qed

lemma dump_heap_reachable:
  assumes "dump_heap prims h" "image_reachable h a"
  shows "\<exists>ob. objs h a = Some ob \<and> dumpable prims ob"
  using assms reachable_dom image_reachable_reachable unfolding dump_heap_def dumpable_heap_def heap_ok_def by blast

lemma root_words_append:
  "set (take IMAGE_ROOTS (roots h)) \<subseteq> set L \<Longrightarrow> root_words h (L @ M) = root_words h L"
  by (auto simp: root_words_def idxw_def)

lemma body_append:
  assumes "k \<le> length L"
    and "\<And>a. a \<in> set (take k L) \<Longrightarrow> set (refs (roots h ! 0) (the (objs h a))) \<subseteq> set L"
  shows "body prims h (L @ M) k = body prims h L k"
proof -
  have "enc_at prims h (L @ M) a = enc_at prims h L a" if "a \<in> set (take k L)" for a
    unfolding enc_at_def by (rule enc_cong) (use assms(2) [OF that] in \<open>auto simp: idxw_def\<close>)
  then have "map (enc_at prims h (L @ M)) (take k L) = map (enc_at prims h L) (take k L)" by simp
  from arg_cong [OF this, of concat] show ?thesis using assms(1) by (simp add: body_def)
qed

lemma pos_append: "k \<le> length L \<Longrightarrow> pos prims h (L @ M) k = pos prims h L k"
proof -
  assume k: "k \<le> length L"
  have "map length (map (enc_at prims h (L @ M)) (take k L)) = map length (map (enc_at prims h L) (take k L))"
    using length_enc by (simp add: enc_at_def)
  from arg_cong [OF this, of sum_list] have "length (concat (map (enc_at prims h (L @ M)) (take k L))) =
      length (concat (map (enc_at prims h L) (take k L)))" by (simp add: length_concat)
  then show ?thesis using k by (simp add: pos_def body_def root_words_def)
qed

lemma dump_step:
  assumes dh: "dump_heap prims h" and inv: "dump_inv prims h k L st" and k: "k < length L"
  shows "\<exists>ob st' L'. objs h (L ! k) = Some ob \<and>
    fasl_obj_out prims h ob (st\<lparr>out_map := out_map st @ [length (out_image st)]\<rparr>) = Inr st' \<and>
    dump_inv prims h (Suc k) L' st'"
proof -
  let ?a = "L ! k" and ?u = "roots h ! 0"
  let ?st = "st\<lparr>out_map := out_map st @ [length (out_image st)]\<rparr>"
  note I = inv [unfolded dump_inv_def]
  have ra: "image_reachable h ?a" using I k by simp
  then obtain ob where ob: "objs h ?a = Some ob" "dumpable prims ob" using dump_heap_reachable [OF dh] by blast
  have pl: "plain_obj ob" using ob(2) by (simp add: dumpable_def)
  have rr: "image_reachable h b" if "b \<in> set (refs ?u ob)" for b
    using that set_refs_subset [OF pl] ra ob(1) by (auto intro: image_field)
  have rok: "ref_ok h b" if "b \<in> set (refs ?u ob)" for b
    using dump_heap_ref_ok [OF dh] dump_heap_reachable [OF dh rr [OF that]] by blast
  obtain M where L': "note_objs L (refs ?u ob) = L @ M" using note_objs_append by blast
  have "out_ok h L st" using I by blast
  then have "out_ok h L ?st" by (simp add: out_ok_def)
  from fasl_obj_emits [OF this rok ob(2)] obtain st' where st':
    "fasl_obj_out prims h ob ?st = Inr st'" "out_ok h (L @ M) st'" "out_map st' = out_map ?st"
    "out_image st' = out_image st @ enc prims ?u (idxw (L @ M)) ob"
    unfolding L' emits_def by (auto simp: idxw_def [abs_def])
  have sub: "set (refs ?u (the (objs h a))) \<subseteq> set L" if "a \<in> set (take k L)" for a
  proof -
    have "image_reachable h a" using I in_set_takeD [OF that] by blast
    then obtain ob' where "objs h a = Some ob'" using dump_heap_reachable [OF dh] by blast
    then show ?thesis using I that by simp
  qed
  have setL': "set (L @ M) = set L \<union> set (refs ?u ob)" by (simp flip: L')
  have tk: "take (Suc k) (L @ M) = take k L @ [?a]" using k by (simp add: take_Suc_conv_app_nth)
  have "body prims h (L @ M) (Suc k) = body prims h (L @ M) k @ enc prims ?u (idxw (L @ M)) ob"
    using k ob(1) by (simp add: body_def enc_at_def take_Suc_conv_app_nth nth_append)
  then have img: "out_image st' = root_words h (L @ M) @ body prims h (L @ M) (Suc k)"
    using st'(4) I body_append [OF _ sub] root_words_append by (simp add: k less_imp_le)
  have "out_map st' = map (pos prims h L) [0..<k] @ [pos prims h L k]"
    using st'(3) I by (simp add: pos_def)
  also have "\<dots> = map (pos prims h (L @ M)) [0..<Suc k]"
    using k by (simp add: pos_append)
  finally have mp: "out_map st' = map (pos prims h (L @ M)) [0..<Suc k]" .
  have done': "set (refs ?u ob') \<subseteq> set (L @ M)" if "a \<in> set (take k L @ [?a])" "objs h a = Some ob'" for a ob'
    using that sub [of a] ob(1) unfolding setL' by auto
  have reach': "image_reachable h a" if "a \<in> set (L @ M)" for a
    using that I rr unfolding setL' by blast
  have "set (take IMAGE_ROOTS (roots h)) \<subseteq> set (L @ M)" using I by auto
  with st'(2) img mp k done' reach' have "dump_inv prims h (Suc k) (L @ M) st'"
    unfolding dump_inv_def tk by (intro conjI allI impI) auto
  then show ?thesis using ob(1) st'(1) by blast
qed

lemma dump_loop_ends:
  assumes dh: "dump_heap prims h"
  shows "dump_inv prims h k L st \<Longrightarrow>
    \<exists>st' L'. dump_loop prims h k st = Some (Inr st') \<and> dump_inv prims h (length L') L' st'"
proof (induction "card (dom (objs h)) - k" arbitrary: k L st rule: less_induct)
  case less
  note I = less.prems [unfolded dump_inv_def]
  have L: "out_objs st = L" "k \<le> length L" using I by (simp_all add: out_ok_def)
  show ?case
  proof (cases "k = length L")
    case True
    then show ?thesis using less.prems L by (subst dump_loop.simps) auto
  next
    case False
    then have k: "k < length L" using L(2) by simp
    obtain ob st1 L1 where s: "objs h (L ! k) = Some ob"
      "fasl_obj_out prims h ob (st\<lparr>out_map := out_map st @ [length (out_image st)]\<rparr>) = Inr st1"
      "dump_inv prims h (Suc k) L1 st1"
      using dump_step [OF dh less.prems k] by blast
    have "set L \<subseteq> dom (objs h)" using I dump_heap_reachable [OF dh] by blast
    moreover have "finite (dom (objs h))" using dh by (simp add: dump_heap_def heap_ok_def objs_ok_def)
    ultimately have "length L \<le> card (dom (objs h))"
      using I by (metis card_mono distinct_card out_ok_def)
    then have "card (dom (objs h)) - Suc k < card (dom (objs h)) - k" using k by linarith
    from less.hyps [OF this s(3)] s(1,2) k L(1) show ?thesis by (subst dump_loop.simps) simp
  qed
qed

section \<open>Reading objects\<close>

text \<open>What a restoration makes of an object: the fields that the image does not carry are lost.\<close>

definition restored :: "junk \<Rightarrow> 'a hobj \<Rightarrow> 'a hobj" where
  "restored junk ob = (case ob of
     HString s _ \<Rightarrow> HString s False
   | HTrieNode n key val nx \<Rightarrow> HTrieNode (junk_count junk) key val nx
   | HCont t data env in_proc next_k \<Rightarrow> HCont (junk_kind junk) data env in_proc next_k
   | _ \<Rightarrow> ob)"

definition adv :: "nat \<Rightarrow> fasl_in \<Rightarrow> fasl_in" where
  "adv n st = st\<lparr>in_offset := in_offset st + n\<rparr>"

definition ahead :: "fasl_in \<Rightarrow> zuo_int32 list" where
  "ahead st = drop (in_offset st) (in_image st)"

text \<open>The stream maps the number of each object of \<open>L\<close> to its address under \<open>g\<close>.\<close>

definition numbers :: "addr list \<Rightarrow> (addr \<Rightarrow> addr) \<Rightarrow> fasl_in \<Rightarrow> bool" where
  "numbers L g st \<longleftrightarrow> length (in_map st) = length L \<and> length L < 2 ^ 32 \<and>
     (\<forall>a. a \<in> set L \<longrightarrow> Addr (in_heap st) (in_map st ! idx L a) = g a)"

definition reads :: "(fasl_error + 'x \<times> fasl_in) \<Rightarrow> fasl_in \<Rightarrow> 'x \<Rightarrow> zuo_int32 list \<Rightarrow> bool" where
  "reads r st x ws \<longleftrightarrow> (\<exists>n. r = Inr (x, adv n st) \<and> ahead (adv n st) = ws)"

lemma adv_simps [simp]:
  "adv m (adv n st) = adv (n + m) st" "adv 0 st = st" "numbers L g (adv n st) = numbers L g st"
  by (simp_all add: adv_def numbers_def)

lemma reads_bind:
  assumes "reads r st x ws" "numbers L g st"
    and "\<And>st'. ahead st' = ws \<Longrightarrow> numbers L g st' \<Longrightarrow> reads (k (x, st')) st' y ws'"
  shows "reads (rbind r k) st y ws'"
proof -
  obtain n where n: "r = Inr (x, adv n st)" "ahead (adv n st) = ws" using assms(1) by (auto simp: reads_def)
  with assms(2,3) have "reads (k (x, adv n st)) (adv n st) y ws'" by simp
  then show ?thesis using n(1) by (auto simp: reads_def)
qed

lemma reads_Inr: "ahead st = ws \<Longrightarrow> reads (Inr (x, st)) st x ws"
  by (auto simp: reads_def intro: exI [of _ 0])

lemma fasl_int32_reads: "ahead st = w # ws \<Longrightarrow> reads (fasl_int32_in st) st w ws"
proof -
  assume a: "ahead st = w # ws"
  then have "in_offset st < length (in_image st)" unfolding ahead_def by (metis drop_all leI list.distinct(1))
  moreover from this have "in_image st ! in_offset st = w" "drop (Suc (in_offset st)) (in_image st) = ws"
    using a Cons_nth_drop_Suc [of "in_offset st" "in_image st"] by (simp_all add: ahead_def)
  ultimately show ?thesis
    by (auto simp: reads_def fasl_int32_in_def adv_def ahead_def intro: exI [of _ 1])
qed

lemma fasl_ref_reads:
  assumes "ahead st = idxw L a # ws" "numbers L g st" "a \<in> set L"
  shows "reads (fasl_ref_in st) st (g a) ws"
  unfolding fasl_ref_in_def
proof (rule reads_bind [OF fasl_int32_reads [OF assms(1)] assms(2)])
  fix st' assume st': "ahead st' = ws" "numbers L g st'"
  have "idx L a < 2 ^ 32" using idx_less [OF assms(3)] st'(2) by (simp add: numbers_def)
  then have "unat (idxw L a) = idx L a" by (simp add: idxw_def unat_of_nat)
  then show "reads (case (idxw L a, st') of (i, st) \<Rightarrow>
      if unat i < length (in_map st) then Inr (Addr (in_heap st) (in_map st ! unat i), st) else Inl Fault) st' (g a) ws"
    using idx_less [OF assms(3)] st' assms(3) by (simp add: numbers_def reads_Inr)
qed

lemma fasl_refs_reads:
  "ahead st = map (idxw L) as @ ws \<Longrightarrow> numbers L g st \<Longrightarrow> set as \<subseteq> set L \<Longrightarrow> n = length as \<Longrightarrow>
   reads (fasl_refs_in n st) st (map g as) ws"
proof (induction as arbitrary: st n)
  case (Cons a as)
  show ?case unfolding Cons.prems(4) list.size fasl_refs_in.simps add.right_neutral add_Suc_right
    by (rule reads_bind [OF fasl_ref_reads Cons.prems(2)])
      (use Cons in \<open>auto intro!: reads_bind [OF Cons.IH] reads_Inr\<close>)
qed (simp add: reads_Inr)

lemma fasl_int_reads:
  assumes "ahead st = int_words i @ ws" "numbers L g st"
  shows "reads (fasl_int_in st) st i ws"
  unfolding fasl_int_in_def using assms build_int_words [of i]
  by (auto simp: int_words_def intro!: reads_bind [OF fasl_int32_reads, of _ _ _ L g] reads_Inr)

lemma fasl_chars_reads:
  "ahead st = map (\<lambda>c. of_nat (byte c)) s @ ws \<Longrightarrow> numbers L g st \<Longrightarrow> n = length s \<Longrightarrow>
   reads (fasl_chars_in n st) st s ws"
proof (induction s arbitrary: st n)
  case (Cons c s)
  have "byte c < 2 ^ 32" by (rule less_trans [OF nat_of_char_less_256]) simp
  then have c: "char_of (unat (of_nat (byte c) :: zuo_int32) mod 256) = c"
    by (simp add: unat_of_nat)
  show ?case unfolding Cons.prems(3) list.size fasl_chars_in.simps add.right_neutral add_Suc_right
    by (rule reads_bind [OF fasl_int32_reads Cons.prems(2)])
      (use Cons c in \<open>auto intro!: reads_bind [OF Cons.IH, of _ _ L g] reads_Inr\<close>)
qed (simp add: reads_Inr)

lemma trie_branches_reads:
  "ahead st = map (idxw L) (map (\<lambda>i. nx ! i) (filter (\<lambda>i. bit msk i) is)) @ ws \<Longrightarrow> numbers L g st \<Longrightarrow>
   (\<And>i. i \<in> set is \<Longrightarrow> bit msk i \<Longrightarrow> nx ! i \<in> set L) \<Longrightarrow>
   reads (trie_branches_in u msk is st) st (map (\<lambda>i. if bit msk i then g (nx ! i) else u) is) ws"
proof (induction "is" arbitrary: st)
  case (Cons i "is")
  have "reads (if bit msk i then fasl_ref_in st else Inr (u, st)) st (if bit msk i then g (nx ! i) else u)
     (map (idxw L) (map (\<lambda>i. nx ! i) (filter (\<lambda>i. bit msk i) is)) @ ws)"
    using Cons.prems fasl_ref_reads [of st L "nx ! i"] by (auto intro: reads_Inr)
  then show ?case
    unfolding trie_branches_in.simps
    by (rule reads_bind [OF _ Cons.prems(2)])
      (use Cons.prems(3) in \<open>auto intro!: reads_bind [OF Cons.IH] reads_Inr\<close>)
qed (simp add: reads_Inr)

lemma fasl_prim_reads:
  assumes "map_of prims p = Some m" "length prims < 2 ^ 32"
  shows "zuo_id_to_primitive prims (of_nat (length (takeWhile (\<lambda>x. fst x \<noteq> p) prims))) = Inr (p, m)"
  using prim_index_takeWhile [OF assms(1), of 0] assms(2)
  by (simp add: zuo_id_to_primitive_def unat_of_nat)

lemma fasl_string_reads:
  assumes "ahead st = int_words (of_nat (length s)) @ map (\<lambda>c. of_nat (byte c)) s @ ws" "numbers L g st"
    and len: "length s < 2 ^ 31"
  shows "reads (rbind (fasl_int_in st) (\<lambda>(len, st).
    rbind (fasl_chars_in (nat (sint len)) st) (\<lambda>(s, st). Inr (HString s False, st)))) st (HString s False) ws"
proof (rule reads_bind [OF fasl_int_reads [OF assms(1,2)] assms(2)])
  fix st' assume st': "ahead st' = map (\<lambda>c. of_nat (byte c)) s @ ws" "numbers L g st'"
  have "sint (of_nat (length s) :: zuo_int) = int (length s)"
    using sint_of_int_zuo_int [of "int (length s)"] len by simp
  then show "reads (case (of_nat (length s) :: zuo_int, st') of (len, st) \<Rightarrow>
      rbind (fasl_chars_in (nat (sint len)) st) (\<lambda>(s, st). Inr (HString s False, st))) st' (HString s False) ws"
    using st' by (auto intro!: reads_bind [OF fasl_chars_reads [OF st'] st'(2)] reads_Inr)
qed

lemma fasl_trie_reads:
  assumes a: "ahead st = trie_mask u nx # map (idxw L) (k # v # masked_refs (trie_mask u nx) nx) @ ws"
    and n: "numbers L g st" and s: "set (k # v # masked_refs (trie_mask u nx) nx) \<subseteq> set L"
    and len: "length nx = 16"
  shows "reads (rbind (fasl_int32_in st) (\<lambda>(msk, st).
      rbind (fasl_refs_in 2 st) (\<lambda>(as, st).
      rbind (trie_branches_in (g u) msk [0..<ZUO_TRIE_BFACTOR] st) (\<lambda>(next_objs, st).
      Inr (HTrieNode (junk_count junk) (as ! 0) (as ! 1) next_objs, st))))) st
    (HTrieNode (junk_count junk) (g k) (g v) (map g nx)) ws"
proof (rule reads_bind [OF fasl_int32_reads [OF a] n], unfold split)
  let ?m = "trie_mask u nx"
  have "map (\<lambda>i. if bit ?m i then g (nx ! i) else g u) [0..<16] = map (\<lambda>i. g (nx ! i)) [0..<16]"
    by (auto simp: bit_trie_mask)
  then have eq: "map (\<lambda>i. if bit ?m i then g (nx ! i) else g u) [0..<16] = map g nx"
    using len map_nth [of nx] by (metis (no_types, lifting) map_map comp_apply map_cong)
  have br: "nx ! i \<in> set L" if "i \<in> set [0..<16]" "bit ?m i" for i
    using s that by (auto simp: masked_refs_def)
  fix st1 assume st1: "ahead st1 = map (idxw L) (k # v # masked_refs ?m nx) @ ws" "numbers L g st1"
  show "reads (rbind (fasl_refs_in 2 st1) (\<lambda>(as, st).
      rbind (trie_branches_in (g u) ?m [0..<ZUO_TRIE_BFACTOR] st) (\<lambda>(next_objs, st).
      Inr (HTrieNode (junk_count junk) (as ! 0) (as ! 1) next_objs, st)))) st1
    (HTrieNode (junk_count junk) (g k) (g v) (map g nx)) ws"
  proof (rule reads_bind [OF fasl_refs_reads [of _ _ "[k, v]"] st1(2)], unfold split)
    fix st2 assume st2: "ahead st2 = map (idxw L) (masked_refs ?m nx) @ ws" "numbers L g st2"
    from trie_branches_reads [OF st2(1) [unfolded masked_refs_def] st2(2) br, of "g u"]
    show "reads (rbind (trie_branches_in (g u) ?m [0..<ZUO_TRIE_BFACTOR] st2) (\<lambda>(next_objs, st).
        Inr (HTrieNode (junk_count junk) (map g [k, v] ! 0) (map g [k, v] ! 1) next_objs, st))) st2
      (HTrieNode (junk_count junk) (g k) (g v) (map g nx)) ws"
      unfolding eq by (rule reads_bind [OF _ st2(2)]) (auto intro: reads_Inr)
  qed (use s st1 in auto)
qed

definition short_string :: "'a hobj \<Rightarrow> bool" where
  "short_string ob \<longleftrightarrow> string_len ob < 2 ^ 31"

lemma fasl_obj_reads:
  assumes a: "ahead st = enc prims u (idxw L) ob @ ws" and n: "numbers L g st"
    and d: "dumpable prims ob" "short_string ob" "length prims < 2 ^ 32" and s: "set (refs u ob) \<subseteq> set L"
  shows "reads (fasl_obj_in prims junk (g u) st) st (map_hobj g (restored junk ob)) ws"
proof -
  obtain rest where e: "enc prims u (idxw L) ob = tag_word (obj_tag ob) # rest" by (simp add: enc_def)
  have a': "ahead st = tag_word (obj_tag ob) # rest @ ws" using a e by simp
  show ?thesis
    unfolding fasl_obj_in_def
  proof (rule reads_bind [OF fasl_int32_reads [OF a'] n], unfold split word_tag_word option.case)
    fix st1 assume st1: "ahead st1 = rest @ ws" "numbers L g st1"
    note F = fasl_refs_reads [OF _ st1(2), of "obj_fields ob" ws]
    show "reads (case obj_tag ob of
            Singleton_Tag \<Rightarrow> Inr (HSingleton, st1)
          | Pair_Tag \<Rightarrow> rbind (fasl_refs_in 2 st1) (\<lambda>(as, st). Inr (HPair (as ! 0) (as ! 1), st))
          | Integer_Tag \<Rightarrow> rbind (fasl_int_in st1) (\<lambda>(i, st). Inr (HInteger i, st))
          | String_Tag \<Rightarrow>
              rbind (fasl_int_in st1) (\<lambda>(len, st).
              rbind (fasl_chars_in (nat (sint len)) st) (\<lambda>(s, st). Inr (HString s False, st)))
          | Symbol_Tag \<Rightarrow>
              rbind (fasl_int32_in st1) (\<lambda>(n, st). rbind (fasl_ref_in st) (\<lambda>(str, st). Inr (HSymbol n str, st)))
          | Trie_Node_Tag \<Rightarrow>
              rbind (fasl_int32_in st1) (\<lambda>(msk, st).
              rbind (fasl_refs_in 2 st) (\<lambda>(as, st).
              rbind (trie_branches_in (g u) msk [0..<ZUO_TRIE_BFACTOR] st) (\<lambda>(next_objs, st).
              Inr (HTrieNode (junk_count junk) (as ! 0) (as ! 1) next_objs, st))))
          | Variable_Tag \<Rightarrow> rbind (fasl_refs_in 2 st1) (\<lambda>(as, st). Inr (HVariable (as ! 0) (as ! 1), st))
          | Primitive_Tag \<Rightarrow>
              rbind (fasl_int32_in st1) (\<lambda>(i, st).
              rbind (zuo_id_to_primitive prims i) (\<lambda>(proc, msk).
              rbind (fasl_ref_in st) (\<lambda>(name, st). Inr (HPrimitive proc msk name, st))))
          | Closure_Tag \<Rightarrow> rbind (fasl_refs_in 2 st1) (\<lambda>(as, st). Inr (HClosure (as ! 0) (as ! 1), st))
          | Handle_Tag \<Rightarrow> Inl (Panic ''cannot dump heap with handles'')
          | Opaque_Tag \<Rightarrow> rbind (fasl_refs_in 2 st1) (\<lambda>(as, st). Inr (HOpaque (as ! 0) (as ! 1), st))
          | Cont_Tag \<Rightarrow>
              rbind (fasl_refs_in 4 st1) (\<lambda>(as, st).
              Inr (HCont (junk_kind junk) (as ! 0) (as ! 1) (as ! 2) (as ! 3), st))
          | Forwarded_Tag \<Rightarrow> Inl Fault) st1 (map_hobj g (restored junk ob)) ws"
    proof (cases ob)
      case (HTrieNode c k v nx)
      then show ?thesis
        using e st1 s d fasl_trie_reads [of st1 u nx L k v ws g]
        by (simp add: enc_def refs_def restored_def dumpable_def plain_obj_def del: upt.simps upt_rec_numeral)
    next
      case (HString t z)
      then show ?thesis
        using e st1 d fasl_string_reads [of st1 t ws L g]
        by (simp add: enc_def restored_def short_string_def)
    next
      case (HSymbol m str)
      then show ?thesis
        using e st1 s
        by (auto simp: enc_def refs_def restored_def intro!: reads_bind [OF fasl_int32_reads st1(2)]
            reads_bind [OF fasl_ref_reads, of _ L str _ g] reads_Inr)
    next
      case (HPrimitive p m nm)
      then show ?thesis
        using e st1 s d fasl_prim_reads [of prims p m]
        by (auto simp: enc_def refs_def restored_def dumpable_def intro!: reads_bind [OF fasl_int32_reads st1(2)]
            reads_bind [OF fasl_ref_reads, of _ L nm _ g] reads_Inr)
    next
      case HSingleton
      then show ?thesis using e st1 by (simp add: enc_def restored_def reads_Inr)
    next
      case (HInteger i)
      then show ?thesis
        using e st1 by (auto simp: enc_def restored_def intro!: reads_bind [OF fasl_int_reads, of _ _ _ L g L g] reads_Inr)
    qed (use e st1 s d in \<open>auto simp: enc_def refs_def restored_def dumpable_def plain_obj_def
        intro!: reads_bind [OF F st1(2)] reads_Inr\<close>)
  qed
qed

section \<open>Laying out the restored memory\<close>

lemma image_obj_size_enc:
  assumes a: "drop delta img = enc prims u f ob @ ws" and d: "dumpable prims ob" "short_string ob"
  shows "image_obj_size img delta = Inr (object_size (obj_tag ob) (string_len ob))"
proof -
  have lt: "delta < length img" using arg_cong [OF a, of length] by (simp add: enc_def)
  have "img ! delta = tag_word (obj_tag ob)"
    using a Cons_nth_drop_Suc [OF lt] by (simp add: enc_def)
  then have t: "word_tag (img ! delta) = Some (obj_tag ob)" by (simp only: word_tag_word)
  show ?thesis
  proof (cases "\<exists>s z. ob = HString s z")
    case True
    then obtain s z where ob: "ob = HString s z" by blast
    let ?w = "of_nat (length s) :: zuo_int"
    have e: "drop delta img = tag_word String_Tag # int_words ?w @ map (\<lambda>c. of_nat (byte c)) s @ ws"
      using a ob by (simp add: enc_def)
    from arg_cong [OF this, of length] have len: "delta + 2 < length img"
      by (simp add: int_words_def)
    have "img ! (delta + 1) = int_words ?w ! 0" "img ! (delta + 2) = int_words ?w ! 1"
      using e nth_drop [of delta img 1] nth_drop [of delta img 2] lt by (simp_all add: int_words_def numeral_2_eq_2)
    then have "BUILD_INT (img ! (delta + 1)) (img ! (delta + 2)) = ?w"
      using build_int_words [of ?w] by (simp add: int_words_def)
    moreover have "sint ?w = int (length s)"
      using sint_of_int_zuo_int [of "int (length s)"] d(2) ob by (simp add: short_string_def)
    ultimately show ?thesis using lt len t ob by (simp add: image_obj_size_def)
  next
    case False
    then show ?thesis using lt t d(1)
      by (cases ob) (auto simp: image_obj_size_def dumpable_def plain_obj_def)
  qed
qed

lemma length_enc_le: "length (enc prims u f ob) \<le> obj_size ob"
proof -
  have "length (masked_refs m nx) \<le> 156" for m nx
    unfolding masked_refs_def using length_filter_le [of "bit m" "[0..<16]"] by simp
  then have "length (enc prims u f ob) \<le> object_size (obj_tag ob) (string_len ob)"
    by (cases ob) (auto simp: enc_def refs_def int_words_def intro: order_trans)
  then show ?thesis unfolding obj_size_def using ALLOC_ALIGN_bounds(1) order_trans by blast
qed

lemma body_split:
  assumes "k < length L"
  shows "drop (length (body prims h L k)) (body prims h L (length L)) =
    enc_at prims h L (L ! k) @ concat (map (enc_at prims h L) (drop (Suc k) L))"
proof -
  have "L = take k L @ L ! k # drop (Suc k) L" using id_take_nth_drop [OF assms] .
  then have "body prims h L (length L) =
      body prims h L k @ enc_at prims h L (L ! k) @ concat (map (enc_at prims h L) (drop (Suc k) L))"
    unfolding body_def by (metis concat.simps(2) concat_append list.map(2) map_append take_all_iff order_refl)
  then show ?thesis by simp
qed

lemma length_body_le:
  assumes "set L \<subseteq> dom (objs h)"
  shows "length (body prims h L k) \<le> osum (objs h) L"
proof -
  have "length (enc_at prims h L a) \<le> osize (objs h) a" if "a \<in> set L" for a
    using that assms length_enc_le by (auto simp: enc_at_def osize_def)
  then have "sum_list (map (length \<circ> enc_at prims h L) L) \<le> osum (objs h) L"
    unfolding osum_def by (intro sum_list_mono) simp
  moreover have "length (body prims h L k) \<le> sum_list (map (length \<circ> enc_at prims h L) L)"
    by (metis append_take_drop_id body_def le_add1 length_concat map_append map_map sum_list_append)
  ultimately show ?thesis by simp
qed

definition offsets_from :: "(addr \<Rightarrow> obj option) \<Rightarrow> addr list \<Rightarrow> nat \<Rightarrow> nat list" where
  "offsets_from s L k = map (\<lambda>j. osum s (take j L)) [k..<length L]"

lemma offsets_from_Cons:
  "k < length L \<Longrightarrow> offsets_from s L k = osum s (take k L) # offsets_from s L (Suc k)"
  by (simp add: offsets_from_def upt_conv_Cons)

lemma image_offsets_layout:
  assumes dm: "\<And>a. a \<in> set L \<Longrightarrow> \<exists>ob. objs h a = Some ob \<and> dumpable prims ob \<and> short_string ob"
    and img: "img = root_words h L @ body prims h L (length L)"
  shows "k \<le> length L \<Longrightarrow> image_offsets img (map (pos prims h L) [k..<length L]) (osum (objs h) (take k L)) =
    Inr (offsets_from (objs h) L k, osum (objs h) L)"
proof (induction "length L - k" arbitrary: k)
  case 0
  then show ?case by (simp add: offsets_from_def)
next
  case (Suc n)
  then have k: "k < length L" by simp
  let ?a = "L ! k"
  obtain ob where ob: "objs h ?a = Some ob" "dumpable prims ob" "short_string ob" using dm k by (metis nth_mem)
  have "drop (pos prims h L k) img = enc_at prims h L ?a @ concat (map (enc_at prims h L) (drop (Suc k) L))"
    using body_split [OF k] by (simp add: img pos_def)
  then have "image_obj_size img (pos prims h L k) = Inr (object_size (obj_tag ob) (string_len ob))"
    using image_obj_size_enc [OF _ ob(2,3)] by (simp add: enc_at_def ob(1))
  moreover have "osum (objs h) (take (Suc k) L) = osum (objs h) (take k L) + obj_size ob"
    using k ob(1) by (simp add: take_Suc_conv_app_nth osize_def)
  ultimately show ?case
    using Suc.hyps(1) [of "Suc k"] Suc.hyps(2) k offsets_from_Cons [OF k]
    by (simp add: upt_conv_Cons obj_size_def)
qed

lemma fwd_idx: "fwd s B L a = Addr B (osum s (take (idx L a) L))"
  by (simp add: fwd_def idx_def flip: takeWhile_eq_take)

lemma numbers_layout:
  assumes "length L < 2 ^ 32" "in_map st = offsets_from s L 0" "in_heap st = B"
  shows "numbers L (fwd s B L) st"
  using assms idx_less [of _ L] by (auto simp: numbers_def offsets_from_def fwd_idx)

definition place :: "(addr \<Rightarrow> addr) \<Rightarrow> (addr \<Rightarrow> obj) \<Rightarrow> addr list \<Rightarrow> (addr \<Rightarrow> obj option) \<Rightarrow> addr \<Rightarrow> obj option" where
  "place g c L m = foldl (\<lambda>m a. m(g a \<mapsto> c a)) m L"

lemma place_Cons: "place g c (a # L) m = place g c L (m(g a \<mapsto> c a))"
  by (simp add: place_def)

lemma place_other: "b \<notin> g ` set L \<Longrightarrow> place g c L m b = m b"
  by (induction L arbitrary: m) (auto simp: place_def)

lemma place_at: "a \<in> set L \<Longrightarrow> inj_on g (set L) \<Longrightarrow> place g c L m (g a) = Some (c a)"
proof (induction L arbitrary: m)
  case (Cons x L)
  show ?case
  proof (cases "a \<in> set L")
    case True
    then show ?thesis using Cons by (simp add: place_Cons)
  next
    case False
    then have "g a \<notin> g ` set L" "a = x" using Cons.prems by (auto simp: inj_on_def)
    then show ?thesis by (simp add: place_Cons place_other)
  qed
qed simp

lemma restore_objs_place:
  fixes L h B
  defines "g \<equiv> fwd (objs h) B L"
  assumes dm: "\<And>a. a \<in> set L \<Longrightarrow> \<exists>ob. objs h a = Some ob \<and> dumpable prims ob \<and> short_string ob \<and>
      set (refs (roots h ! 0) ob) \<subseteq> set L"
    and L: "distinct L" "length prims < 2 ^ 32"
  shows "k \<le> length L \<Longrightarrow> ahead st = concat (map (enc_at prims h L) (drop k L)) \<Longrightarrow> numbers L g st \<Longrightarrow>
    in_heap st = B \<Longrightarrow>
    restore_objs prims junk (g (roots h ! 0)) (offsets_from (objs h) L k) st m =
      Inr (place g (\<lambda>a. map_hobj g (restored junk (the (objs h a)))) (drop k L) m)"
proof (induction "length L - k" arbitrary: k st m)
  case 0
  then show ?case by (simp add: offsets_from_def place_def)
next
  case (Suc n)
  then have k: "k < length L" by simp
  let ?a = "L ! k"
  have dr: "drop k L = ?a # drop (Suc k) L" using k by (simp add: Cons_nth_drop_Suc)
  obtain ob where ob: "objs h ?a = Some ob" "dumpable prims ob" "short_string ob"
    "set (refs (roots h ! 0) ob) \<subseteq> set L" using dm k by (metis nth_mem)
  have "ahead st = enc prims (roots h ! 0) (idxw L) ob @ concat (map (enc_at prims h L) (drop (Suc k) L))"
    using Suc.prems(2) dr ob(1) by (simp add: enc_at_def)
  from fasl_obj_reads [OF this Suc.prems(3) ob(2,3) L(2) ob(4), of junk] obtain n' where r:
    "fasl_obj_in prims junk (g (roots h ! 0)) st = Inr (map_hobj g (restored junk ob), adv n' st)"
    "ahead (adv n' st) = concat (map (enc_at prims h L) (drop (Suc k) L))"
    by (auto simp: reads_def)
  have "in_heap (adv n' st) = B" using Suc.prems(4) by (simp add: adv_def)
  moreover have "g ?a = Addr B (osum (objs h) (take k L))" unfolding g_def by (rule fwd_nth [OF L(1) k])
  ultimately show ?case
    using Suc.hyps(1) [of "Suc k" "adv n' st"] Suc.hyps(2) Suc.prems(3) r k dr ob(1) offsets_from_Cons [OF k]
    by (simp add: place_Cons)
qed

section \<open>Dump and restoration\<close>

lemma image_reachable_iso:
  assumes iso: "heap_iso f h h'" and len: "IMAGE_ROOTS \<le> length (roots h)" and ok: "heap_ok h"
  shows "image_reachable h' b \<longleftrightarrow> (\<exists>a. image_reachable h a \<and> b = f a)"
proof -
  have rts: "take IMAGE_ROOTS (roots h') = map f (take IMAGE_ROOTS (roots h))"
    using iso by (simp add: heap_iso_def take_map)
  have obj: "objs h' (f a) = map_option (map_hobj f) (objs h a)" if "image_reachable h a" for a
    using iso image_reachable_reachable [OF that] by (simp add: heap_iso_def)
  have "image_reachable h' (f a)" if "image_reachable h a" for a
    using that
  proof induction
    case (image_root a)
    then show ?case using rts by (auto intro: image_reachable.image_root)
  next
    case (image_field a ob b)
    then have "objs h' (f a) = Some (map_hobj f ob)" using obj by simp
    then show ?case using image_field by (auto intro: image_reachable.image_field)
  qed
  moreover have "\<exists>a. image_reachable h a \<and> b = f a" if "image_reachable h' b" for b
    using that
  proof induction
    case (image_root b)
    then show ?case using rts by (auto intro: image_reachable.image_root)
  next
    case (image_field b ob c)
    then obtain a where a: "image_reachable h a" "b = f a" by blast
    then obtain ob' where "objs h a = Some ob'" "ob = map_hobj f ob'" using obj image_field.hyps(2) by auto
    then show ?case using a image_field.hyps(3) by (auto intro: image_reachable.image_field)
  qed
  ultimately show ?thesis by blast
qed

lemma dumpable_map [simp]: "dumpable prims (map_hobj f ob) = dumpable prims ob"
  by (cases ob) (simp_all add: dumpable_def plain_obj_def)

lemma out_ok_start: "out_ok h [] fasl_out_start"
  by (simp add: out_ok_def fasl_out_start_def)

lemma dump_ok:
  assumes ok: "heap_ok h" and len: "IMAGE_ROOTS \<le> length (roots h)"
    and d: "dumpable_heap prims h"
  shows "\<exists>hd g L st. zuo_fasl_dump prims n h = Some (Inr (dump_words n st, hd)) \<and> heap_iso g h hd \<and>
    dump_heap prims hd \<and> dump_inv prims hd (length L) L st \<and> set L = {a. image_reachable hd a} \<and>
    total_allocation hd \<le> total_allocation h"
proof -
  obtain hd g where c: "zuo_collect h = Some (Inr hd)" "heap_ok hd" "heap_iso g h hd" "old_spaces hd = []"
    "total_allocation hd = sum (osize (objs h)) {a. reachable h a}"
    using zuo_collect_ok [OF ok] by blast
  have lenr: "length (roots hd) = length (roots h)" using c(3) by (simp add: heap_iso_def)
  have "dumpable prims ob" if r: "image_reachable hd b" "objs hd b = Some ob" for b ob
  proof -
    obtain a where a: "image_reachable h a" "b = g a" using r(1) image_reachable_iso [OF c(3) len ok] by blast
    then obtain ob' where "objs h a = Some ob'" "ob = map_hobj g ob'"
      using r(2) c(3) image_reachable_reachable [OF a(1)] by (auto simp: heap_iso_def)
    then show ?thesis using d a(1) by (simp add: dumpable_heap_def)
  qed
  then have dh: "dump_heap prims hd" using c len lenr by (simp add: dump_heap_def dumpable_heap_def)
  let ?r = "take IMAGE_ROOTS (roots hd)" and ?u = "roots hd ! 0"
  let ?L0 = "note_objs [] ?r"
  have reach: "image_reachable hd a" if "a \<in> set ?r" for a using that by (rule image_root)
  then have "ref_ok hd a" if "a \<in> set ?r" for a
    using that dump_heap_ref_ok [OF dh] dump_heap_reachable [OF dh] by blast
  from fasl_refs_emits [OF out_ok_start this] obtain st0 where st0:
    "fasl_refs_out hd ?r fasl_out_start = Inr st0" "out_ok hd ?L0 st0"
    "out_image st0 = map (\<lambda>a. of_nat (idx ?L0 a)) ?r" "out_map st0 = []"
    by (auto simp: emits_def fasl_out_start_def)
  then have "dump_inv prims hd 0 ?L0 st0"
    using reach by (simp add: dump_inv_def root_words_def body_def idxw_def [abs_def])
  from dump_loop_ends [OF dh this] obtain st L where st: "dump_loop prims hd 0 st0 = Some (Inr st)"
    "dump_inv prims hd (length L) L st" by blast
  note I = st(2) [unfolded dump_inv_def]
  have "?u \<in> set L" using I len lenr by (cases "roots hd") auto
  have "a \<in> set L" if "image_reachable hd a" for a
    using that
  proof induction
    case (image_field a ob b)
    have pl: "plain_obj ob" using dump_heap_reachable [OF dh image_field.hyps(1)] image_field.hyps(2)
      by (auto simp: dumpable_def)
    have "set (refs ?u ob) \<subseteq> set L" using I image_field by simp
    then show ?case using set_fields_subset [OF pl, of ?u] image_field.hyps(3) \<open>?u \<in> set L\<close> by blast
  qed (use I in blast)
  then have "set L = {a. image_reachable hd a}" using I by blast
  moreover have "zuo_fasl_dump prims n h = Some (Inr (dump_words n st, hd))"
    using c(1) st0(1) st(1) by (simp add: zuo_fasl_dump_def)
  moreover have "total_allocation hd \<le> total_allocation h"
  proof -
    have "{a. reachable h a} \<subseteq> dom (objs h)" "finite (dom (objs h))"
      "sum (osize (objs h)) (dom (objs h)) \<le> total_allocation h"
      using ok reachable_dom by (auto simp: heap_ok_def objs_ok_def)
    then show ?thesis using c(5) sum_mono2 [of "dom (objs h)" "{a. reachable h a}" "osize (objs h)"] by simp
  qed
  ultimately show ?thesis using c(3) dh st(2) by blast
qed

lemma restore_swapped:
  assumes "length ws \<ge> 4" "ws ! 0 = zuo_magic"
  shows "zuo_fasl_restore prims junk (map SWAP_ENDIAN ws) h = zuo_fasl_restore prims junk ws h"
proof -
  have "map SWAP_ENDIAN (map SWAP_ENDIAN ws) = ws" by (simp add: comp_def)
  moreover have "map SWAP_ENDIAN ws ! 0 = SWAP_ENDIAN zuo_magic" using assms by (cases ws) auto
  ultimately show ?thesis
    using assms swap_magic unfolding zuo_fasl_restore_def by simp
qed

lemma obj_size_restored [simp]: "obj_size (restored junk ob) = obj_size ob"
  by (cases ob) (simp_all add: restored_def obj_size_def)

lemma obj_fields_restored [simp]: "obj_fields (restored junk ob) = obj_fields ob"
  by (cases ob) (simp_all add: restored_def)

lemma plain_obj_restored [simp]: "plain_obj (restored junk ob) = plain_obj ob"
  by (cases ob) (simp_all add: restored_def plain_obj_def)

lemma osize_restored: "osize (\<lambda>a. map_option (restored junk) (s a)) = osize s"
  by (auto simp: osize_def fun_eq_iff split: option.split)

lemma fwd_restored: "fwd (\<lambda>a. map_option (restored junk) (s a)) B L = fwd s B L"
  by (rule ext) (simp only: fwd_def osum_def osize_restored)

text \<open>The arrays of a finished dump are short enough for 32-bit indices when memory is small enough.\<close>

lemma dump_bounds:
  assumes dh: "dump_heap prims h" and inv: "dump_inv prims h (length L) L st"
    and small: "total_allocation h < 2 ^ 30"
  shows "length L < 2 ^ 30" "osum (objs h) L < 2 ^ 30"
    "map (unat \<circ> (of_nat :: nat \<Rightarrow> zuo_int32)) (out_map st) = out_map st" "length (out_map st) = length L"
    "\<And>a ob. a \<in> set L \<Longrightarrow> objs h a = Some ob \<Longrightarrow> short_string ob"
proof -
  note I = inv [unfolded dump_inv_def]
  have dom: "set L \<subseteq> dom (objs h)" using I dump_heap_reachable [OF dh] by blast
  have L: "distinct L" using I by (simp add: out_ok_def)
  have "finite (dom (objs h))" "sum (osize (objs h)) (dom (objs h)) \<le> total_allocation h"
    using dh by (simp_all add: dump_heap_def heap_ok_def objs_ok_def)
  with osum_le_sum [OF L dom] small show os: "osum (objs h) L < 2 ^ 30" by linarith
  have one: "16 \<le> osize (objs h) a" if "a \<in> set L" for a
    using subsetD [OF dom that] obj_size_min by (auto simp: osize_def)
  then have "sum_list (map (\<lambda>a. 1) L) \<le> osum (objs h) L"
    unfolding osum_def by (intro sum_list_mono) force
  then show "length L < 2 ^ 30" using os by (simp add: sum_list_triv)
  have "pos prims h L k < 2 ^ 32" for k
    using length_body_le [OF dom, of prims k] os by (simp add: pos_def root_words_def)
  then show "map (unat \<circ> (of_nat :: nat \<Rightarrow> zuo_int32)) (out_map st) = out_map st"
    using I by (simp add: unat_of_nat)
  show "length (out_map st) = length L" using I by simp
  fix a ob assume a: "a \<in> set L" "objs h a = Some ob"
  have "osize (objs h) a \<le> osum (objs h) L"
    using fwd_end [OF a(1), of "objs h" 0] by simp
  moreover have "string_len ob \<le> osize (objs h) a"
    using a(2) ALLOC_ALIGN_bounds(1) [of "object_size (obj_tag ob) (string_len ob)"]
    by (cases ob) (auto simp: osize_def obj_size_def)
  ultimately show "short_string ob" using os by (simp add: short_string_def)
qed

lemma restore_run:
  fixes h L h1
  defines "B \<equiv> next_block h1"
  defines "g \<equiv> fwd (objs h) B L"
  assumes dh: "dump_heap prims h" and inv: "dump_inv prims h (length L) L st"
    and small: "total_allocation h < 2 ^ 30" "length prims < 2 ^ 32"
  shows "zuo_fasl_restore prims junk (dump_words n st) h1 = Inr (n,
    zuo_replace_heap B (osum (objs h) L * 2) (osum (objs h) L)
      ((snd (malloc (osum (objs h) L * 2) h1))\<lparr>
         roots := map g (take IMAGE_ROOTS (roots h)) @ drop IMAGE_ROOTS (roots h1),
         objs := place g (\<lambda>a. map_hobj g (restored junk (the (objs h a)))) L (objs h1)\<rparr>))"
proof -
  note I = inv [unfolded dump_inv_def] and Bd = dump_bounds [OF dh inv small(1)]
  let ?ws = "dump_words n st" and ?img = "out_image st" and ?s = "objs h" and ?r = "take IMAGE_ROOTS (roots h)"
  have L: "out_objs st = L" "distinct L" using I by (simp_all add: out_ok_def)
  have dm: "\<exists>ob. ?s a = Some ob \<and> dumpable prims ob \<and> short_string ob \<and> set (refs (roots h ! 0) ob) \<subseteq> set L"
    if "a \<in> set L" for a
    using dump_heap_reachable [OF dh, of a] I that Bd(5) [OF that] by auto
  have d4: "drop 4 ?ws = map of_nat (out_map st) @ ?img" by (simp add: dump_words_def)
  have "drop (4 + length L) ?ws = drop (length L) (drop 4 ?ws)" by (simp add: add.commute)
  then have rest: "drop (4 + length L) ?ws = ?img" "take (length L) (drop 4 ?ws) = map of_nat (out_map st)"
    using Bd(4) by (simp_all add: d4)
  have hdr: "length ?ws \<ge> 4" "?ws ! 0 = zuo_magic" "unat (?ws ! 1) = length L" "?ws ! 3 = n"
    using Bd(1) L(1) by (simp_all add: dump_words_def unat_of_nat)
  have lw: "4 + length L \<le> length ?ws" using arg_cong [OF d4, of length] Bd(4) hdr(1) by simp
  have mp: "map unat (take (length L) (drop 4 ?ws)) = map (pos prims h L) [0..<length L]"
    using Bd(3) I by (simp add: rest)
  have img: "?img = root_words h L @ body prims h L (length L)" using I by simp
  have off: "image_offsets ?img (map (pos prims h L) [0..<length L]) 0 = Inr (offsets_from ?s L 0, osum ?s L)"
    using image_offsets_layout [OF _ img, of 0] dm by fastforce
  let ?st = "\<lparr>in_heap = B, in_map = offsets_from ?s L 0, in_image = ?img, in_offset = 0\<rparr>"
  have nb: "numbers L g ?st" unfolding g_def by (rule numbers_layout) (use Bd(1) in simp_all)
  have "set ?r \<subseteq> set L" using I by blast
  moreover have "length ?r = 24" using dh by (simp add: dump_heap_def)
  moreover have "ahead ?st = map (idxw L) ?r @ concat (map (enc_at prims h L) L)"
    by (simp add: ahead_def img root_words_def body_def)
  ultimately have "reads (fasl_refs_in IMAGE_ROOTS ?st) ?st (map g ?r) (concat (map (enc_at prims h L) L))"
    by (intro fasl_refs_reads [OF _ nb]) simp_all
  then obtain k where rt: "fasl_refs_in IMAGE_ROOTS ?st = Inr (map g ?r, adv k ?st)"
    "ahead (adv k ?st) = concat (map (enc_at prims h L) L)" by (auto simp: reads_def)
  have u: "map g ?r ! 0 = g (roots h ! 0)" using \<open>length ?r = 24\<close> by simp
  have ob: "restore_objs prims junk (map g ?r ! 0) (offsets_from ?s L 0) (adv k ?st) m =
      Inr (place g (\<lambda>a. map_hobj g (restored junk (the (?s a)))) (drop 0 L) m)" for m
    unfolding u unfolding g_def
  proof (rule restore_objs_place [OF dm L(2) small(2) le0])
    show "ahead (adv k ?st) = concat (map (enc_at prims h L) (drop 0 L))" using rt(2) by simp
    show "numbers L (fwd ?s B L) (adv k ?st)" using nb by (simp add: g_def)
    show "in_heap (adv k ?st) = B" by (simp add: adv_def)
  qed
  show ?thesis
    unfolding zuo_fasl_restore_def
    using hdr lw mp rest(1) off rt(1) ob by (simp add: Let_def malloc_def B_def)
qed

lemma restored_memory:
  fixes h L h1
  defines "B \<equiv> next_block h1" and "n \<equiv> osum (objs h) L"
  defines "g \<equiv> fwd (objs h) B L"
  assumes dh: "dump_heap prims h" and L: "distinct L" "set L = {a. image_reachable h a}"
    and h1: "spaces_ok h1" "objs_ok h1"
    and h2: "h2 = zuo_replace_heap B (n * 2) n ((snd (malloc (n * 2) h1))\<lparr>roots := rs,
      objs := place g (\<lambda>a. map_hobj g (restored junk (the (objs h a)))) L (objs h1)\<rparr>)"
  shows "spaces_ok h2" "objs_ok h2" "dom (objs h2) = g ` set L" "roots h2 = rs"
    "\<And>a. a \<in> set L \<Longrightarrow> objs h2 (g a) = map_option (map_hobj g \<circ> restored junk) (objs h a)"
    "inj_on g (set L)"
proof -
  let ?hm = "snd (malloc (n * 2) h1)"
  let ?s = "place g (\<lambda>a. map_hobj g (restored junk (the (objs h a)))) L (objs h1)"
  let ?hp = "?hm\<lparr>roots := rs, objs := ?s\<rparr>"
  have dom: "set L \<subseteq> dom (objs h)" using L(2) dump_heap_reachable [OF dh] by blast
  show inj: "inj_on g (set L)" unfolding g_def by (rule fwd_inj [OF dom])
  have live: "live_spaces ?hp = live_spaces h1" by (simp add: live_spaces_def malloc_def)
  have "blocks_ok (live_spaces h1) h1" using h1(1) by (simp add: spaces_ok_def)
  note M = malloc_blocks_ok [OF this, of "n * 2" B ?hm]
  have bl: "blocks_ok ((B, n * 2) # live_spaces ?hp) ?hp"
    using M(1) live by (simp add: malloc_def B_def blocks_ok_def)
  have newB: "B \<notin> fst ` set (live_spaces h1)" using M(3) by (simp add: malloc_def B_def)
  have sp: "spaces_ok ?hp" using h1(1) bl unfolding spaces_ok_def live by (simp add: blocks_ok_def malloc_def)
  note R = replace_heap_spaces [OF sp bl, of n]
  then show "spaces_ok h2" using h2 osum_aligned by (simp add: n_def)
  have objs2: "objs h2 b = (if block_of b = B then ?s b else None)" for b
  proof -
    have o: "objs h2 b = (if block_of b \<in> fst ` set (live_spaces h1) then None else ?s b)"
      unfolding h2 zuo_replace_heap_def Let_def by (simp add: live_spaces_def malloc_def)
    have "?s b = None" if "block_of b \<noteq> B" "block_of b \<notin> fst ` set (live_spaces h1)"
    proof -
      have "b \<notin> g ` set L" using that(1) by (auto simp: g_def)
      moreover have "objs h1 b = None" using that(2) objs_okD(1) [OF h1(2)] by (cases "objs h1 b") auto
      ultimately show ?thesis by (simp add: place_other)
    qed
    then show ?thesis using o newB by auto
  qed
  have gB: "block_of (g a) = B" for a by (simp add: g_def)
  show at: "objs h2 (g a) = map_option (map_hobj g \<circ> restored junk) (objs h a)" if aL: "a \<in> set L" for a
  proof -
    obtain ob where "objs h a = Some ob" using dom aL by blast
    then show ?thesis using place_at [OF aL inj] by (simp add: objs2 gB)
  qed
  have none: "objs h1 b = None" if "block_of b = B" for b
    using that newB objs_okD(1) [OF h1(2)] by (cases "objs h1 b") auto
  show dom2: "dom (objs h2) = g ` set L"
  proof -
    have "b \<in> g ` set L" if "objs h2 b \<noteq> None" for b
      using that none [of b] place_other [of b g L] by (metis objs2)
    moreover have "objs h2 (g a) \<noteq> None" if "a \<in> set L" for a
      using at [OF that] subsetD [OF dom that] by auto
    ultimately show ?thesis by auto
  qed
  show "roots h2 = rs" unfolding h2 zuo_replace_heap_def Let_def by simp
  let ?o = "\<lambda>a. map_option (restored junk) (objs h a)"
  have fw: "fwd ?o B L = g" by (simp add: g_def fwd_restored)
  have "plain_obj ob \<and> set (obj_fields ob) \<subseteq> set L" if a: "a \<in> set L" "?o a = Some ob" for a ob
  proof -
    obtain ob' where ob': "objs h a = Some ob'" "ob = restored junk ob'" using a(2) by auto
    then have "plain_obj ob'" using dump_heap_reachable [OF dh, of a] a(1) L(2) by (auto simp: dumpable_def)
    then show ?thesis using ob' a(1) L(2) by (auto intro: image_field)
  qed
  moreover have "objs h2 (g a) = map_option (map_hobj g) (?o a)" if "a \<in> set L" for a
    using at [OF that] by (simp add: option.map_comp)
  moreover have "osum ?o L = n" by (simp only: n_def osum_def osize_restored)
  moreover have "to_space h2 = B" "allocation_offset h2 = n" "total_allocation h2 = n"
    unfolding h2 zuo_replace_heap_def Let_def by simp_all
  moreover have "set L \<subseteq> dom ?o" using dom by auto
  ultimately show "objs_ok h2" using copied_objs_ok [of L ?o h2 B] L(1) dom2 unfolding fw by simp
qed

lemma restored_map: "restored junk (map_hobj f ob) = map_hobj f (restored junk ob)"
  by (cases ob) (simp_all add: restored_def)

text \<open>
  The specification of an image: \<open>f\<close> moves what the image roots reach, with everything an image
  carries, and there is nothing else in the restored memory.
\<close>

definition image_of :: "junk \<Rightarrow> (addr \<Rightarrow> addr) \<Rightarrow> heap \<Rightarrow> heap \<Rightarrow> bool" where
  "image_of junk f h h2 \<longleftrightarrow>
     inj_on f {a. image_reachable h a} \<and>
     take IMAGE_ROOTS (roots h2) = map f (take IMAGE_ROOTS (roots h)) \<and>
     (\<forall>a. image_reachable h a \<longrightarrow> objs h2 (f a) = map_option (map_hobj f \<circ> restored junk) (objs h a)) \<and>
     dom (objs h2) = f ` {a. image_reachable h a}"

lemma image_of_trans:
  assumes iso: "heap_iso g h hc" and im: "image_of junk f hc h2"
    and ok: "heap_ok h" and len: "IMAGE_ROOTS \<le> length (roots h)"
  shows "image_of junk (f \<circ> g) h h2"
proof -
  note R = image_reachable_iso [OF iso len ok]
  have set_eq: "{b. image_reachable hc b} = g ` {a. image_reachable h a}" using R by auto
  have "inj_on g {a. image_reachable h a}"
    using iso image_reachable_reachable by (auto simp: heap_iso_def inj_on_def)
  then have "inj_on (f \<circ> g) {a. image_reachable h a}"
    using im by (simp add: image_of_def set_eq comp_inj_on)
  moreover have "take IMAGE_ROOTS (roots h2) = map (f \<circ> g) (take IMAGE_ROOTS (roots h))"
    using iso im by (simp add: heap_iso_def image_of_def take_map)
  moreover have "objs h2 ((f \<circ> g) a) = map_option (map_hobj (f \<circ> g) \<circ> restored junk) (objs h a)"
    if a: "image_reachable h a" for a
  proof -
    have "objs hc (g a) = map_option (map_hobj g) (objs h a)"
      using iso image_reachable_reachable [OF a] by (simp add: heap_iso_def)
    moreover have "objs h2 (f (g a)) = map_option (map_hobj f \<circ> restored junk) (objs hc (g a))"
      using im R a by (auto simp: image_of_def)
    ultimately show ?thesis
      by (cases "objs h a") (simp_all add: restored_map hobj.map_comp)
  qed
  moreover have "dom (objs h2) = (f \<circ> g) ` {a. image_reachable h a}"
    using im by (simp add: image_of_def set_eq image_comp)
  ultimately show ?thesis by (simp add: image_of_def)
qed

lemma dump_restore:
  assumes ok: "heap_ok h" and len: "IMAGE_ROOTS \<le> length (roots h)"
    and d: "dumpable_heap prims h"
    and small: "total_allocation h < 2 ^ 30" "length prims < 2 ^ 32"
    and h1: "spaces_ok h1" "objs_ok h1"
  shows "\<exists>words hd h2 f. zuo_fasl_dump prims n h = Some (Inr (words, hd)) \<and>
    zuo_fasl_restore prims junk words h1 = Inr (n, h2) \<and>
    zuo_fasl_restore prims junk (map SWAP_ENDIAN words) h1 = Inr (n, h2) \<and>
    image_of junk f h h2 \<and> spaces_ok h2 \<and> objs_ok h2"
proof -
  obtain hd g L st where D: "zuo_fasl_dump prims n h = Some (Inr (dump_words n st, hd))" "heap_iso g h hd"
    "dump_heap prims hd" "dump_inv prims hd (length L) L st" "set L = {a. image_reachable hd a}"
    "total_allocation hd \<le> total_allocation h"
    using dump_ok [OF ok len d] by blast
  define gg where "gg = fwd (objs hd) (next_block h1) L"
  have sm: "total_allocation hd < 2 ^ 30" using D(6) small(1) by simp
  have L: "distinct L" using D(4) by (simp add: dump_inv_def out_ok_def)
  obtain h2 rs where h2: "zuo_fasl_restore prims junk (dump_words n st) h1 = Inr (n, h2)"
    "rs = map gg (take IMAGE_ROOTS (roots hd)) @ drop IMAGE_ROOTS (roots h1)"
    "h2 = zuo_replace_heap (next_block h1) (osum (objs hd) L * 2) (osum (objs hd) L)
      ((snd (malloc (osum (objs hd) L * 2) h1))\<lparr>roots := rs,
        objs := place gg (\<lambda>a. map_hobj gg (restored junk (the (objs hd a)))) L (objs h1)\<rparr>)"
    using restore_run [OF D(3,4) sm small(2), of junk n h1] unfolding gg_def by blast
  note M = restored_memory [OF D(3) L D(5) h1 h2(3) [unfolded gg_def]]
  have "IMAGE_ROOTS \<le> length (roots hd)" using D(3) by (simp add: dump_heap_def)
  then have "take IMAGE_ROOTS (roots h2) = map gg (take IMAGE_ROOTS (roots hd))" using M(4) h2(2) by simp
  then have "image_of junk gg hd h2"
    using M(3,5,6) unfolding image_of_def gg_def D(5) by blast
  then have "image_of junk (gg \<circ> g) h h2" by (rule image_of_trans [OF D(2) _ ok len])
  moreover have "zuo_fasl_restore prims junk (map SWAP_ENDIAN (dump_words n st)) h1 = Inr (n, h2)"
    using restore_swapped [of "dump_words n st"] h2(1) by (simp add: dump_words_def)
  ultimately show ?thesis using D(1) h2(1) M(1,2) by blast
qed

section \<open>Properties\<close>

text \<open>
  A memory with the shape of the one at start-up: 37 roots, the first 24 of them image roots; root 0
  is the undefined object, root 7 the continuation that marks the end of an evaluation.
\<close>

definition start_image_heap :: heap where
  "start_image_heap = \<lparr>heap_size = 1024, to_space = 1, allocation_offset = 56, total_allocation = 56,
     gc_threshold = 1024, old_spaces = [], free_spaces = [],
     roots = (replicate 37 (Addr 1 0))[7 := Addr 1 16],
     objs = [Addr 1 0 \<mapsto> HSingleton,
             Addr 1 16 \<mapsto> HCont Done_K (Addr 1 0) (Addr 1 0) (Addr 1 0) (Addr 1 0)],
     malloced = [1 \<mapsto> 1024], next_block = 2\<rparr>"

lemma set_update_replicate: "i < n \<Longrightarrow> set ((replicate n x)[i := y]) \<subseteq> {x, y}"
  using set_update_subset_insert [of "replicate n x" i y] by auto

lemma start_image_roots: "set (roots start_image_heap) \<subseteq> {Addr 1 0, Addr 1 16}"
  unfolding start_image_heap_def using set_update_replicate [of 7 37 "Addr 1 0" "Addr 1 16"] by simp

lemma start_image_heap_ok: "heap_ok start_image_heap"
proof -
  have al: "ALLOC_ALIGN 16 = 16" "ALLOC_ALIGN 40 = 40" by (simp_all add: ALLOC_ALIGN_eq)
  have "dom (objs start_image_heap) = {Addr 1 0, Addr 1 16}" by (auto simp: start_image_heap_def)
  then have "roots_ok start_image_heap" using start_image_roots unfolding roots_ok_def by simp
  moreover have "spaces_ok start_image_heap"
    by (auto simp: start_image_heap_def spaces_ok_def blocks_ok_def live_spaces_def)
  moreover have "disjoint_objs (objs start_image_heap)"
    by (auto simp: disjoint_objs_def start_image_heap_def osize_def obj_size_def al split: if_splits)
  then have "objs_ok start_image_heap"
    by (auto simp: objs_ok_def) (auto simp: start_image_heap_def live_spaces_def filled_def osize_def
        obj_size_def al plain_obj_def split: if_splits)
  ultimately show ?thesis by (simp add: heap_ok_def)
qed

lemma start_image_dumpable: "dumpable_heap prims start_image_heap"
  by (auto simp: dumpable_heap_def start_image_heap_def dumpable_def plain_obj_def split: if_splits)

text \<open>
  C6: dumping a well-formed memory and restoring the image gives the same memory. The dump ends
  without a fault when the image roots reach no handle and only registered primitives and memory is
  below one gigabyte. Restoring its words, in either byte order, into any running memory and
  whatever the new memory block held, gives a memory that consists of exactly the objects the image
  roots reach, with the same sharing and the same contents, up to the fields the image does not
  carry: counts of trie nodes, kinds of continuations and terminators of strings.
\<close>

theorem image_round_trip:
  assumes "heap_ok h" "IMAGE_ROOTS \<le> length (roots h)"
    and "dumpable_heap prims h"
    and "total_allocation h < 2 ^ 30" "length prims < 2 ^ 32"
    and "spaces_ok h1" "objs_ok h1"
  shows "\<exists>words hd h2 f. zuo_fasl_dump prims n h = Some (Inr (words, hd)) \<and>
    zuo_fasl_restore prims junk words h1 = Inr (n, h2) \<and>
    zuo_fasl_restore prims junk (map SWAP_ENDIAN words) h1 = Inr (n, h2) \<and>
    image_of junk f h h2 \<and> spaces_ok h2 \<and> objs_ok h2"
  by (rule dump_restore [OF assms])

theorem image_round_trip_witness:
  "\<exists>words hd h2 f. zuo_fasl_dump [] 5 start_image_heap = Some (Inr (words, hd)) \<and>
    zuo_fasl_restore [] \<lparr>junk_count = 7, junk_kind = If_K\<rparr> words sample_heap = Inr (5, h2) \<and>
    image_of \<lparr>junk_count = 7, junk_kind = If_K\<rparr> f start_image_heap h2"
proof -
  have h1: "spaces_ok sample_heap" "objs_ok sample_heap" using sample_heap_ok by (simp_all add: heap_ok_def)
  have len: "IMAGE_ROOTS \<le> length (roots start_image_heap)" "total_allocation start_image_heap < 2 ^ 30"
    "length ([] :: prim_table) < 2 ^ 32" by (simp_all add: start_image_heap_def)
  show ?thesis
    using image_round_trip [OF start_image_heap_ok len(1) start_image_dumpable len(2,3) h1] by blast
qed

text \<open>
  An image does not keep the kind of a continuation. After a dump and a restoration of a
  start-up memory, the continuation that marks the end of an evaluation has whatever kind
  the newly allocated block happened to hold.
\<close>

theorem image_loses_cont_kind:
  "\<exists>words hc h2 u u'. zuo_fasl_dump [] 0 start_image_heap = Some (Inr (words, hc)) \<and>
    zuo_fasl_restore [] \<lparr>junk_count = 0, junk_kind = k\<rparr> words sample_heap = Inr (0, h2) \<and>
    objs start_image_heap (roots start_image_heap ! 7) = Some (HCont Done_K u u u u) \<and>
    objs h2 (roots h2 ! 7) = Some (HCont k u' u' u' u')"
proof -
  have h1: "spaces_ok sample_heap" "objs_ok sample_heap" using sample_heap_ok by (simp_all add: heap_ok_def)
  have len: "IMAGE_ROOTS \<le> length (roots start_image_heap)" "total_allocation start_image_heap < 2 ^ 30"
    "length ([] :: prim_table) < 2 ^ 32" by (simp_all add: start_image_heap_def)
  let ?j = "\<lparr>junk_count = 0, junk_kind = k\<rparr>"
  obtain words hc h2 f where r: "zuo_fasl_dump [] 0 start_image_heap = Some (Inr (words, hc))"
    "zuo_fasl_restore [] ?j words sample_heap = Inr (0, h2)" "image_of ?j f start_image_heap h2"
    using dump_restore [OF start_image_heap_ok len(1) start_image_dumpable len(2,3) h1, of 0 ?j] by blast
  let ?h = start_image_heap
  have r7: "roots ?h ! 7 = Addr 1 16" by (simp add: start_image_heap_def)
  have tk: "take IMAGE_ROOTS (roots h2) ! 7 = f (roots ?h ! 7)"
    using r(3) len(1) by (simp add: image_of_def)
  have "7 < length (take IMAGE_ROOTS (roots h2))" using r(3) len(1) by (simp add: image_of_def)
  then have n7: "roots h2 ! 7 = f (Addr 1 16)" using tk r7 by simp
  have "roots ?h ! 7 \<in> set (take IMAGE_ROOTS (roots ?h))" using len(1) by (auto simp: in_set_conv_nth intro: exI [of _ 7])
  then have "image_reachable ?h (Addr 1 16)" using r7 by (auto intro: image_root)
  moreover have ob: "objs ?h (Addr 1 16) = Some (HCont Done_K (Addr 1 0) (Addr 1 0) (Addr 1 0) (Addr 1 0))"
    by (simp add: start_image_heap_def)
  ultimately have "objs h2 (roots h2 ! 7) = Some (HCont k (f (Addr 1 0)) (f (Addr 1 0)) (f (Addr 1 0)) (f (Addr 1 0)))"
    using r(3) n7 by (simp add: image_of_def restored_def)
  then show ?thesis using r(1,2) ob r7 by auto
qed

end
