(* ===== verification/Rktio_Hash.thy ===== *)
theory Rktio_Hash
  imports Zuo_Prelude
begin

text \<open>
  The hash table of \<^verbatim>\<open>src/racket/src/rktio/rktio_hash.c\<close>, which maps file descriptors and string
  hashes to pointers: open addressing in an array whose size is a power of two, double
  hashing with an odd step, removed entries marked by the key -1, growth when half full and
  shrinking when a quarter full.

  Keys, sizes and counts are integers; a null pointer is \<^term>\<open>None\<close>. An access outside the
  array is \<open>Fault\<close>. A search that would not end is \<^term>\<open>None\<close>, and so is a nesting of
  rehashing deeper than the fuel of \<open>rktio_hash_set\<close>; both are shown not to happen.
\<close>

section \<open>The table\<close>

datatype 'v bucket = Bucket (bkey: int) (bval: "'v option")

record 'v rktio_hash =
  buckets :: "'v bucket list option"
  ht_size :: int
  ht_count :: int

datatype hash_error = Fault

type_synonym 'a hash_res = "(hash_error + 'a) option"

abbreviation ok :: "'a \<Rightarrow> 'a hash_res" where
  "ok x \<equiv> Some (Inr x)"

definition hbind :: "'a hash_res \<Rightarrow> ('a \<Rightarrow> 'b hash_res) \<Rightarrow> 'b hash_res" where
  "hbind m f = (case m of None \<Rightarrow> None | Some (Inl e) \<Rightarrow> Some (Inl e) | Some (Inr x) \<Rightarrow> f x)"

lemma hbind_simps [simp, code]:
  "hbind None f = None"
  "hbind (Some (Inl e)) f = Some (Inl e)"
  "hbind (ok x) f = f x"
  by (simp_all add: hbind_def)

definition rktio_hash_new :: "'v rktio_hash" where
  "rktio_hash_new = \<lparr>buckets = None, ht_size = 0, ht_count = 0\<rparr>"

definition vacant_bucket :: "'v bucket" where
  "vacant_bucket = Bucket 0 None"

definition calloc_buckets :: "int \<Rightarrow> 'v bucket list" where
  "calloc_buckets n = replicate (nat n) vacant_bucket"

text \<open>The values freed, in order; the loop stops before the bucket with index 0.\<close>

definition rktio_hash_free :: "'v rktio_hash \<Rightarrow> bool \<Rightarrow> 'v list" where
  "rktio_hash_free ht free_values =
     (case buckets ht of None \<Rightarrow> []
      | Some bs \<Rightarrow> if free_values then List.map_filter bval (rev (drop 1 (take (nat (ht_size ht)) bs))) else [])"

definition rktio_hash_is_empty :: "'v rktio_hash \<Rightarrow> bool" where
  "rktio_hash_is_empty ht = (ht_count ht = 0)"

definition rktio_hash_size :: "'v rktio_hash \<Rightarrow> int" where
  "rktio_hash_size ht = ht_size ht"

definition in_range :: "'v bucket list \<Rightarrow> int \<Rightarrow> bool" where
  "in_range bs i = (0 \<le> i \<and> i < int (length bs))"

definition rktio_hash_get_key :: "'v rktio_hash \<Rightarrow> int \<Rightarrow> hash_error + int" where
  "rktio_hash_get_key ht i =
     (case buckets ht of None \<Rightarrow> Inl Fault
      | Some bs \<Rightarrow>
          if in_range bs i then
            (if bval (bs ! nat i) \<noteq> None then Inr (bkey (bs ! nat i)) else Inr (- 1))
          else Inl Fault)"

section \<open>Searching\<close>

definition first_hc :: "int \<Rightarrow> int \<Rightarrow> int" where
  "first_hc key msk = key AND msk"

definition hc_step :: "int \<Rightarrow> int \<Rightarrow> int" where
  "hc_step key msk = (drop_bit 3 key AND msk) OR 1"

partial_function (option) get_loop ::
  "'v bucket list \<Rightarrow> int \<Rightarrow> int \<Rightarrow> int \<Rightarrow> int \<Rightarrow> int \<Rightarrow> 'v option hash_res" where
  "get_loop bs key msk init_hc d hc =
     (if \<not> in_range bs hc then Some (Inl Fault)
      else if bkey (bs ! nat hc) = key then ok (bval (bs ! nat hc))
      else if bval (bs ! nat hc) \<noteq> None \<or> bkey (bs ! nat hc) = - 1 then
        (let hc = (hc + d) AND msk in
         if hc = init_hc then ok None else get_loop bs key msk init_hc d hc)
      else ok None)"

declare get_loop.simps [code]

definition rktio_hash_get :: "'v rktio_hash \<Rightarrow> int \<Rightarrow> 'v option hash_res" where
  "rktio_hash_get ht key =
     (case buckets ht of None \<Rightarrow> ok None
      | Some bs \<Rightarrow>
          let msk = ht_size ht - 1; hc = first_hc key msk in
          get_loop bs key msk hc (hc_step key msk) hc)"

text \<open>The loop of a removal: the place of the key, if there is one.\<close>

partial_function (option) remove_loop ::
  "'v bucket list \<Rightarrow> int \<Rightarrow> int \<Rightarrow> int \<Rightarrow> int \<Rightarrow> int \<Rightarrow> int option hash_res" where
  "remove_loop bs key msk init_hc d hc =
     (if \<not> in_range bs hc then Some (Inl Fault)
      else if bkey (bs ! nat hc) = key then ok (Some hc)
      else if bval (bs ! nat hc) \<noteq> None \<or> bkey (bs ! nat hc) = - 1 then
        (let hc = (hc + d) AND msk in
         if hc = init_hc then ok None else remove_loop bs key msk init_hc d hc)
      else ok None)"

declare remove_loop.simps [code]

text \<open>The loop of an assignment: an entry to overwrite, or the place for a new one.\<close>

datatype set_place = Overwrite int | Use_Hc int

partial_function (option) set_loop ::
  "'v bucket list \<Rightarrow> int \<Rightarrow> int \<Rightarrow> int \<Rightarrow> int \<Rightarrow> int \<Rightarrow> int \<Rightarrow> set_place hash_res" where
  "set_loop bs key msk init_hc d hc use_hc =
     (if \<not> in_range bs hc then Some (Inl Fault)
      else if bval (bs ! nat hc) \<noteq> None then
        (if bkey (bs ! nat hc) = key then ok (Overwrite hc)
         else
           let use_hc = (if bkey (bs ! nat hc) = - 1 \<and> use_hc < 0 then hc else use_hc);
               hc = (hc + d) AND msk in
           if hc = init_hc then ok (Use_Hc use_hc) else set_loop bs key msk init_hc d hc use_hc)
      else ok (Use_Hc (if use_hc < 0 then hc else use_hc)))"

declare set_loop.simps [code]

section \<open>Updates\<close>

primrec rehash_loop ::
  "('v rktio_hash \<Rightarrow> int \<Rightarrow> 'v \<Rightarrow> 'v rktio_hash hash_res) \<Rightarrow> 'v bucket list \<Rightarrow> 'v rktio_hash
     \<Rightarrow> 'v rktio_hash hash_res" where
  "rehash_loop set_entry [] ht = ok ht"
| "rehash_loop set_entry (b # bs) ht =
     (case bval b of None \<Rightarrow> rehash_loop set_entry bs ht
      | Some v \<Rightarrow> hbind (set_entry ht (bkey b) v) (rehash_loop set_entry bs))"

text \<open>
  Rehashing enters the old buckets, from the last to the first, by the function for assignments, which
  may itself rehash; that function is an argument here and ties the knot below.
\<close>

definition do_rehash ::
  "('v rktio_hash \<Rightarrow> int \<Rightarrow> 'v \<Rightarrow> 'v rktio_hash hash_res) \<Rightarrow> 'v rktio_hash \<Rightarrow> int
     \<Rightarrow> 'v rktio_hash hash_res" where
  "do_rehash set_entry ht new_size =
     (if new_size \<ge> 16 then
        rehash_loop set_entry (rev (case buckets ht of None \<Rightarrow> [] | Some bs \<Rightarrow> bs))
          (ht\<lparr>ht_size := new_size, buckets := Some (calloc_buckets new_size), ht_count := 0\<rparr>)
      else ok ht)"

definition ensure_buckets :: "'v rktio_hash \<Rightarrow> 'v rktio_hash" where
  "ensure_buckets ht =
     (if buckets ht = None then ht\<lparr>ht_size := 16, buckets := Some (calloc_buckets 16)\<rparr> else ht)"

definition put_bucket :: "'v rktio_hash \<Rightarrow> int \<Rightarrow> 'v bucket \<Rightarrow> 'v rktio_hash hash_res" where
  "put_bucket ht i b =
     (case buckets ht of None \<Rightarrow> Some (Inl Fault)
      | Some bs \<Rightarrow> if in_range bs i then ok (ht\<lparr>buckets := Some (bs[nat i := b])\<rparr>) else Some (Inl Fault))"

primrec rktio_hash_set :: "nat \<Rightarrow> 'v rktio_hash \<Rightarrow> int \<Rightarrow> 'v \<Rightarrow> 'v rktio_hash hash_res" where
  "rktio_hash_set 0 = (\<lambda>ht key v. None)"
| "rktio_hash_set (Suc fuel) = (\<lambda>ht key v.
     let ht = ensure_buckets ht;
         msk = ht_size ht - 1;
         hc = first_hc key msk in
     hbind (set_loop (the (buckets ht)) key msk hc (hc_step key msk) hc (- 1)) (\<lambda>place.
       case place of
         Overwrite i \<Rightarrow> put_bucket ht i (Bucket key (Some v))
       | Use_Hc i \<Rightarrow> hbind (put_bucket ht i (Bucket key (Some v))) (\<lambda>ht.
           let ht = ht\<lparr>ht_count := ht_count ht + 1\<rparr> in
           if 2 * ht_count ht \<ge> ht_size ht then do_rehash (rktio_hash_set fuel) ht (push_bit 1 (ht_size ht))
           else ok ht)))"

definition rktio_hash_remove :: "nat \<Rightarrow> 'v rktio_hash \<Rightarrow> int \<Rightarrow> bool \<Rightarrow> 'v rktio_hash hash_res" where
  "rktio_hash_remove fuel ht key dont_rehash =
     (case buckets ht of None \<Rightarrow> ok ht
      | Some bs \<Rightarrow>
          let msk = ht_size ht - 1; hc = first_hc key msk in
          hbind (remove_loop bs key msk hc (hc_step key msk) hc) (\<lambda>place.
            case place of None \<Rightarrow> ok ht
            | Some i \<Rightarrow> hbind (put_bucket ht i (Bucket (- 1) None)) (\<lambda>ht.
                let ht = ht\<lparr>ht_count := ht_count ht - 1\<rparr> in
                if \<not> dont_rehash \<and> 4 * ht_count ht \<le> ht_size ht then
                  do_rehash (rktio_hash_set fuel) ht (drop_bit 1 (ht_size ht))
                else ok ht)))"

section \<open>Hashing strings\<close>

definition hash_byte :: "64 word \<Rightarrow> char \<Rightarrow> 64 word" where
  "hash_byte k c =
     (let k = k + of_char c; k = k + push_bit 10 k in k XOR drop_bit 6 k)"

text \<open>The bytes before the terminator.\<close>

definition rktio_hash_string :: "string \<Rightarrow> int" where
  "rktio_hash_string s =
     (let k = fold (\<lambda>c k. hash_byte k c) (takeWhile (\<lambda>c. c \<noteq> CHR 0x00) s) 0;
          key = sint k in
      if key < 0 then sint (drop_bit 1 k) else key)"

end
