(* ===== verification/Rktio_Hash_Map.thy ===== *)
theory Rktio_Hash_Map
  imports Rktio_Hash
begin

text \<open>
  The hash table refines a finite map: probing visits every bucket once, so that searches end;
  assignments, removals and rehashing keep the table well-formed; and the table agrees
  with the map of the same history, as long as callers keep to a contract that the
  table's users satisfy. Two histories outside of the contract show what it is for.
\<close>

section \<open>Probing\<close>

definition probe :: "nat \<Rightarrow> int \<Rightarrow> nat \<Rightarrow> int" where
  "probe n key i = (key + int i * hc_step key (int n - 1)) mod int n"

definition probes :: "nat \<Rightarrow> int \<Rightarrow> int list" where
  "probes n key = map (probe n key) [0..<n]"

definition pow2 :: "nat \<Rightarrow> bool" where
  "pow2 n = (\<exists>k. n = 2 ^ k)"

lemma pow2_pos: "pow2 n \<Longrightarrow> 0 < n"
  by (auto simp: pow2_def)

lemma and_size_mask: "pow2 n \<Longrightarrow> x AND (int n - 1) = x mod int n"
  using take_bit_eq_mask [of _ x] by (auto simp: pow2_def take_bit_eq_mod mask_eq_exp_minus_1)

lemma odd_hc_step: "odd (hc_step key msk)"
  by (simp add: hc_step_def even_or_iff)

lemma probe_0: "pow2 n \<Longrightarrow> probe n key 0 = first_hc key (int n - 1)"
  by (simp add: probe_def first_hc_def and_size_mask)

lemma probe_Suc:
  "pow2 n \<Longrightarrow> probe n key (Suc i) = (probe n key i + hc_step key (int n - 1)) AND (int n - 1)"
  by (simp add: probe_def and_size_mask mod_simps algebra_simps)

lemma probe_range: "pow2 n \<Longrightarrow> 0 \<le> probe n key i \<and> probe n key i < int n"
  using pow2_pos by (simp add: probe_def)

lemma probe_inj:
  assumes "pow2 n" "i < n" "j < n" "probe n key i = probe n key j"
  shows "i = j"
proof -
  let ?d = "hc_step key (int n - 1)"
  have "int n dvd (key + int i * ?d) - (key + int j * ?d)"
    using assms(4) unfolding probe_def mod_eq_dvd_iff .
  then have "int n dvd (int i - int j) * ?d" by (simp add: algebra_simps)
  moreover have "coprime (int n) ?d" using odd_hc_step assms(1) by (auto simp: pow2_def)
  ultimately have dvd: "int n dvd int i - int j" by (simp only: coprime_dvd_mult_left_iff)
  show ?thesis
  proof (rule ccontr)
    assume "i \<noteq> j"
    then have "int n \<le> \<bar>int i - int j\<bar>" using dvd_imp_le_int [OF _ dvd] by simp
    then show False using assms(2,3) by linarith
  qed
qed

lemma probe_full_circle: "probe n key n = probe n key 0"
  by (simp add: probe_def)

lemma probe_returns_iff:
  assumes "pow2 n" "i < n"
  shows "probe n key (Suc i) = probe n key 0 \<longleftrightarrow> Suc i = n"
proof (cases "Suc i < n")
  case True
  then show ?thesis using probe_inj [OF assms(1), of "Suc i" 0 key] by auto
next
  case False
  then have "Suc i = n" using assms(2) by simp
  then show ?thesis using probe_full_circle by metis
qed

lemma length_probes [simp]: "length (probes n key) = n"
  by (simp add: probes_def)

lemma probes_all: "pow2 n \<Longrightarrow> set (probes n key) = {0..<int n}"
proof -
  assume n: "pow2 n"
  have "inj_on (probe n key) {0..<n}" by (rule inj_onI) (auto intro: probe_inj [OF n])
  then have "card (probe n key ` {0..<n}) = card {0..<int n}" by (simp add: card_image)
  moreover have "probe n key ` {0..<n} \<subseteq> {0..<int n}" using probe_range [OF n] by auto
  ultimately have "probe n key ` {0..<n} = {0..<int n}" by (intro card_subset_eq) auto
  then show ?thesis by (simp add: probes_def)
qed

text \<open>
  All three searches have the same form: a loop that stops at a bucket, or comes back to its start. It
  returns, with what it computes at the first probe that stops it.
\<close>

lemma probe_loop:
  assumes n: "pow2 n"
    and step: "\<And>q. 0 \<le> q \<Longrightarrow> q < int n \<Longrightarrow>
      loop q = (if stops q then ok (result q)
                else let hc = (q + hc_step key (int n - 1)) AND (int n - 1) in
                     if hc = probe n key 0 then ok missing else loop hc)"
    and "i < n"
  shows "loop (probe n key i) =
    ok (case find stops (map (probe n key) [i..<n]) of Some q \<Rightarrow> result q | None \<Rightarrow> missing)"
  using assms(3)
proof (induction "n - i" arbitrary: i)
  case (Suc m)
  let ?q = "probe n key i"
  have q: "0 \<le> ?q" "?q < int n" using probe_range [OF n] by auto
  have up: "[i..<n] = i # [Suc i..<n]" using Suc.prems by (simp add: upt_conv_Cons)
  have ret: "probe n key (Suc i) = probe n key 0 \<longleftrightarrow> Suc i = n"
    by (rule probe_returns_iff [OF n Suc.prems])
  have loop: "loop ?q = (if stops ?q then ok (result ?q)
      else if Suc i = n then ok missing else loop (probe n key (Suc i)))"
    unfolding step [OF q] Let_def probe_Suc [OF n, symmetric] ret ..
  show ?case
  proof (cases "Suc i = n")
    case True
    then show ?thesis using loop by (simp add: up)
  next
    case False
    then have "loop (probe n key (Suc i)) =
      ok (case find stops (map (probe n key) [Suc i..<n]) of Some q \<Rightarrow> result q | None \<Rightarrow> missing)"
      using Suc by (intro Suc.hyps(1)) auto
    then show ?thesis using loop False by (simp add: up)
  qed
qed simp

lemma probe_loop_start:
  assumes "pow2 n"
    and "\<And>q. 0 \<le> q \<Longrightarrow> q < int n \<Longrightarrow>
      loop q = (if stops q then ok (result q)
                else let hc = (q + hc_step key (int n - 1)) AND (int n - 1) in
                     if hc = first_hc key (int n - 1) then ok missing else loop hc)"
  shows "loop (first_hc key (int n - 1)) =
    ok (case find stops (probes n key) of Some q \<Rightarrow> result q | None \<Rightarrow> missing)"
  using probe_loop [where i = 0, OF assms(1), of loop stops result key missing] assms pow2_pos
  by (simp add: probe_0 probes_def)

section \<open>What the searches return\<close>

definition vacant :: "'v bucket \<Rightarrow> bool" where
  "vacant b = (bval b = None \<and> bkey b \<noteq> - 1)"

text \<open>A search for a key ends at a bucket with this key or at one that was never used.\<close>

definition search :: "'v bucket list \<Rightarrow> int \<Rightarrow> int option" where
  "search bs key = find (\<lambda>q. bkey (bs ! nat q) = key \<or> vacant (bs ! nat q)) (probes (length bs) key)"

lemma get_loop_search:
  assumes "pow2 (length bs)"
  shows "get_loop bs key (int (length bs) - 1) (first_hc key (int (length bs) - 1))
      (hc_step key (int (length bs) - 1)) (first_hc key (int (length bs) - 1)) =
    ok (case search bs key of
          Some q \<Rightarrow> if bkey (bs ! nat q) = key then bval (bs ! nat q) else None
        | None \<Rightarrow> None)"
proof -
  let ?m = "int (length bs) - 1"
  show ?thesis
    unfolding search_def
    by (rule probe_loop_start [OF assms, where loop = "get_loop bs key ?m (first_hc key ?m) (hc_step key ?m)"
          and result = "\<lambda>q. if bkey (bs ! nat q) = key then bval (bs ! nat q) else None"])
      (subst get_loop.simps, auto simp: in_range_def vacant_def Let_def)
qed

lemma remove_loop_search:
  assumes "pow2 (length bs)"
  shows "remove_loop bs key (int (length bs) - 1) (first_hc key (int (length bs) - 1))
      (hc_step key (int (length bs) - 1)) (first_hc key (int (length bs) - 1)) =
    ok (case search bs key of
          Some q \<Rightarrow> if bkey (bs ! nat q) = key then Some q else None
        | None \<Rightarrow> None)"
proof -
  let ?m = "int (length bs) - 1"
  show ?thesis
    unfolding search_def
    by (rule probe_loop_start [OF assms, where loop = "remove_loop bs key ?m (first_hc key ?m) (hc_step key ?m)"
          and result = "\<lambda>q. if bkey (bs ! nat q) = key then Some q else None"])
      (subst remove_loop.simps, auto simp: in_range_def vacant_def Let_def)
qed

definition free_search :: "'v bucket list \<Rightarrow> int \<Rightarrow> int option" where
  "free_search bs key = find (\<lambda>q. bval (bs ! nat q) = None \<or> bkey (bs ! nat q) = key) (probes (length bs) key)"

lemma set_loop_search:
  assumes "pow2 (length bs)" and "\<forall>b \<in> set bs. bval b \<noteq> None \<longrightarrow> bkey b \<noteq> - 1"
  shows "set_loop bs key (int (length bs) - 1) (first_hc key (int (length bs) - 1))
      (hc_step key (int (length bs) - 1)) (first_hc key (int (length bs) - 1)) (- 1) =
    ok (case free_search bs key of
          Some q \<Rightarrow> if bval (bs ! nat q) = None then Use_Hc q else Overwrite q
        | None \<Rightarrow> Use_Hc (- 1))"
proof -
  let ?m = "int (length bs) - 1"
  have "bkey (bs ! nat q) \<noteq> - 1" if "0 \<le> q" "q < int (length bs)" "bval (bs ! nat q) = Some v" for q v
    using assms(2) that by (force simp: nat_less_iff)
  then show ?thesis
    unfolding free_search_def
    by (intro probe_loop_start [OF assms(1), where
          loop = "\<lambda>q. set_loop bs key ?m (first_hc key ?m) (hc_step key ?m) q (- 1)"
          and result = "\<lambda>q. if bval (bs ! nat q) = None then Use_Hc q else Overwrite q"])
      (subst set_loop.simps, auto simp: in_range_def Let_def)
qed

section \<open>Well-formed arrays of buckets\<close>

definition entries :: "'v bucket list \<Rightarrow> (int \<times> 'v) list" where
  "entries bs = List.map_filter (\<lambda>b. map_option (Pair (bkey b)) (bval b)) bs"

definition table_ok :: "'v bucket list \<Rightarrow> bool" where
  "table_ok bs =
     (distinct (map fst (entries bs)) \<and>
      (\<forall>b \<in> set bs. if bval b = None then bkey b = 0 \<or> bkey b = - 1 else 0 \<le> bkey b) \<and>
      (\<forall>(k, v) \<in> set (entries bs). \<exists>q. search bs k = Some q \<and> bs ! nat q = Bucket k (Some v)))"

lemma entries_simps [simp]:
  "entries [] = []"
  "entries (Bucket k None # bs) = entries bs"
  "entries (Bucket k (Some v) # bs) = (k, v) # entries bs"
  by (simp_all add: entries_def List.map_filter_simps)

lemma entries_append [simp]: "entries (bs @ bs') = entries bs @ entries bs'"
  by (simp add: entries_def List.map_filter_def)

lemma entries_rev: "entries (rev bs) = rev (entries bs)"
  by (simp add: entries_def List.map_filter_def rev_map rev_filter)

lemma set_entries: "(k, v) \<in> set (entries bs) \<longleftrightarrow> Bucket k (Some v) \<in> set bs"
proof (induction bs)
  case (Cons b bs)
  then show ?case by (cases b; cases "bval b") auto
qed simp

lemma table_key_nonneg: "table_ok bs \<Longrightarrow> (k, v) \<in> set (entries bs) \<Longrightarrow> 0 \<le> k"
  unfolding set_entries table_ok_def by force

lemma table_free_key: "table_ok bs \<Longrightarrow> b \<in> set bs \<Longrightarrow> bval b = None \<Longrightarrow> bkey b = 0 \<or> bkey b = - 1"
  unfolding table_ok_def by (elim conjE) (drule (1) bspec, simp)

lemma table_used_key: "table_ok bs \<Longrightarrow> b \<in> set bs \<Longrightarrow> bval b \<noteq> None \<Longrightarrow> 0 \<le> bkey b"
  unfolding table_ok_def by (elim conjE) (drule (1) bspec, simp)

lemma entries_update:
  assumes "p < length bs"
  obtains es es' where "\<And>b. entries (bs[p := b]) = es @ entries [b] @ es'"
    and "entries bs = es @ entries [bs ! p] @ es'"
proof
  have Cons: "entries (b # bs') = entries [b] @ entries bs'" for b :: "'a bucket" and bs'
    using entries_append [of "[b]" bs'] by (simp del: entries_append)
  show "entries (bs[p := b]) = entries (take p bs) @ entries [b] @ entries (drop (Suc p) bs)" for b
    by (subst upd_conv_take_nth_drop [OF assms], subst entries_append, subst Cons) simp
  show "entries bs = entries (take p bs) @ entries [bs ! p] @ entries (drop (Suc p) bs)"
    by (subst id_take_nth_drop [OF assms], subst entries_append, subst Cons) simp
qed

lemma entries_unique:
  assumes "distinct (map fst (entries bs))" "i < length bs" "j < length bs"
    and "bs ! i = Bucket k (Some v)" "bs ! j = Bucket k (Some w)"
  shows "i = j"
proof -
  have False if ij: "i < j" "j < length bs" and e: "bs ! i = Bucket k (Some v)" "bs ! j = Bucket k (Some w)" for i j v w
  proof -
    have "Bucket k (Some v) \<in> set (take j bs)" using ij e by (auto simp: in_set_conv_nth)
    then have "k \<in> fst ` set (entries (take j bs))" by (force simp: set_entries [symmetric])
    moreover have "entries bs = entries (take j bs) @ (k, w) # entries (drop (Suc j) bs)"
      by (subst id_take_nth_drop [OF ij(2)], subst entries_append) (simp add: e)
    ultimately show False using assms(1) by simp
  qed
  then show ?thesis using assms(2-5) by (metis linorder_neqE_nat)
qed

lemma find_Some_mono:
  "find P xs = Some x \<Longrightarrow> P' x \<Longrightarrow> (\<And>y. y \<in> set xs \<Longrightarrow> \<not> P y \<Longrightarrow> \<not> P' y) \<Longrightarrow> find P' xs = Some x"
  by (induction xs) (auto split: if_splits)

lemma find_Some_in: "find P xs = Some x \<Longrightarrow> x \<in> set xs \<and> P x"
  by (induction xs) (auto split: if_splits)

lemma search_in_range: "pow2 (length bs) \<Longrightarrow> search bs key = Some q \<Longrightarrow> in_range bs q"
  unfolding search_def in_range_def by (drule find_Some_in) (simp add: probes_all)

lemma free_search_in_range: "pow2 (length bs) \<Longrightarrow> free_search bs key = Some q \<Longrightarrow> in_range bs q"
  unfolding free_search_def in_range_def by (drule find_Some_in) (simp add: probes_all)

text \<open>
  Changing one bucket keeps a search that ends elsewhere, if the new bucket does not stop it.
\<close>

lemma search_update:
  assumes "pow2 (length bs)" "search bs k = Some q" "in_range bs p"
    and "q \<noteq> p" "bkey b \<noteq> k" "\<not> vacant b"
  shows "search (bs[nat p := b]) k = Some q"
proof -
  have q: "in_range bs q" by (rule search_in_range [OF assms(1,2)])
  have ne: "nat q \<noteq> nat p" using assms(3,4) q by (auto simp: in_range_def)
  have pl: "nat p < length bs" using assms(3) by (auto simp: in_range_def)
  have stop: "bkey (bs ! nat q) = k \<or> vacant (bs ! nat q)"
    using assms(2) unfolding search_def by (auto dest: find_Some_in)
  show ?thesis
    using assms(2,5,6) ne stop unfolding search_def length_list_update
    by (elim find_Some_mono) (auto simp: nth_list_update [OF pl] split: if_splits)
qed

lemma get_search:
  assumes "table_ok bs" "pow2 (length bs)"
  shows "(case search bs key of
            Some q \<Rightarrow> if bkey (bs ! nat q) = key then bval (bs ! nat q) else None
          | None \<Rightarrow> None) = map_of (entries bs) key"
proof (cases "map_of (entries bs) key")
  case (Some v)
  then have "(key, v) \<in> set (entries bs)" by (rule map_of_SomeD)
  then show ?thesis using assms(1) Some by (auto simp: table_ok_def)
next
  case None
  have "bval (bs ! nat q) = None" if s: "search bs key = Some q" and k: "bkey (bs ! nat q) = key" for q
  proof (rule ccontr)
    assume "bval (bs ! nat q) \<noteq> None"
    then obtain v where "bs ! nat q = Bucket key (Some v)" using k by (cases "bs ! nat q") auto
    moreover have "nat q < length bs" using search_in_range [OF assms(2) s] by (auto simp: in_range_def)
    ultimately have "(key, v) \<in> set (entries bs)" by (metis nth_mem set_entries)
    then show False using None by (force simp: map_of_eq_None_iff)
  qed
  then show ?thesis using None by (auto split: option.split)
qed

lemma table_ok_update:
  assumes ok: "table_ok bs" and n: "pow2 (length bs)" and p: "in_range bs p"
    and d: "distinct (map fst (entries (bs[nat p := b])))"
    and b: "if bval b = None then bkey b = - 1 else 0 \<le> bkey b"
    and s: "bval b \<noteq> None \<Longrightarrow> search (bs[nat p := b]) (bkey b) = Some p"
  shows "table_ok (bs[nat p := b])"
proof -
  have pl: "nat p < length bs" using p by (auto simp: in_range_def)
  have "\<exists>q. search (bs[nat p := b]) k' = Some q \<and> bs[nat p := b] ! nat q = Bucket k' (Some v)"
    if kv: "(k', v) \<in> set (entries (bs[nat p := b]))" for k' v
  proof (cases "bval b \<noteq> None \<and> bkey b = k'")
    case True
    have "(k', the (bval b)) \<in> set (entries (bs[nat p := b]))"
      unfolding set_entries using True pl by (cases b) (auto simp: set_update_memI)
    then have "v = the (bval b)" using that d by (metis eq_key_imp_eq_value)
    then show ?thesis using s True pl by (cases b) auto
  next
    case False
    obtain i where i: "i < length bs" "bs[nat p := b] ! i = Bucket k' (Some v)"
      using kv [unfolded set_entries] unfolding in_set_conv_nth by auto
    have ne: "i \<noteq> nat p" using i False pl by auto
    then have e: "(k', v) \<in> set (entries bs)" unfolding set_entries using i by (metis nth_list_update_neq nth_mem)
    then obtain q where q: "search bs k' = Some q" "bs ! nat q = Bucket k' (Some v)"
      using ok by (auto simp: table_ok_def)
    have bi: "bs ! i = Bucket k' (Some v)" using i(2) ne by simp
    have "q \<noteq> p"
      using entries_unique [OF _ i(1) pl bi, of v] ok q(2) ne by (auto simp: table_ok_def)
    moreover have "nat q \<noteq> nat p" using \<open>q \<noteq> p\<close> p search_in_range [OF n q(1)] by (auto simp: in_range_def)
    moreover have "0 \<le> k'" by (rule table_key_nonneg [OF ok e])
    ultimately show ?thesis
      using search_update [OF n q(1) p, of b] False b q(2) by (cases "bval b") (auto simp: vacant_def)
  qed
  moreover have "if bval b' = None then bkey b' = 0 \<or> bkey b' = - 1 else 0 \<le> bkey b'"
    if "b' \<in> set (bs[nat p := b])" for b'
  proof -
    have "b' = b \<or> b' \<in> set bs" using that set_update_subset_insert [of bs "nat p" b] by auto
    then show ?thesis using b ok by (auto simp: table_ok_def)
  qed
  ultimately show ?thesis using d by (auto simp: table_ok_def)
qed

lemma entries_length_le: "length (entries bs) \<le> length bs"
  by (simp add: entries_def List.map_filter_def)

text \<open>The three ways in which one bucket changes.\<close>

lemma insert_bucket:
  assumes ok: "table_ok bs" and n: "pow2 (length bs)" and key: "0 \<le> key" "map_of (entries bs) key = None"
    and q: "free_search bs key = Some q"
  shows "bval (bs ! nat q) = None" "table_ok (bs[nat q := Bucket key (Some v)])"
    "map_of (entries (bs[nat q := Bucket key (Some v)])) = (map_of (entries bs))(key \<mapsto> v)"
    "length (entries (bs[nat q := Bucket key (Some v)])) = Suc (length (entries bs))"
proof -
  let ?b = "Bucket key (Some v)"
  have r: "in_range bs q" by (rule free_search_in_range [OF n q])
  then have ql: "nat q < length bs" by (auto simp: in_range_def)
  have stop: "bval (bs ! nat q) = None \<or> bkey (bs ! nat q) = key"
    using q unfolding free_search_def by (auto dest: find_Some_in)
  have notin: "key \<notin> fst ` set (entries bs)" using key(2) by (simp add: map_of_eq_None_iff)
  show none: "bval (bs ! nat q) = None"
  proof (rule ccontr)
    assume "bval (bs ! nat q) \<noteq> None"
    then obtain w where "bs ! nat q = Bucket key (Some w)" using stop by (cases "bs ! nat q") auto
    then have "(key, w) \<in> set (entries bs)" unfolding set_entries by (metis ql nth_mem)
    then show False using notin by force
  qed
  obtain es es' where e: "\<And>b. entries (bs[nat q := b]) = es @ entries [b] @ es'"
    "entries bs = es @ entries [bs ! nat q] @ es'" by (rule entries_update [OF ql]) blast
  have bs: "entries bs = es @ es'" using e(2) none by (cases "bs ! nat q") simp
  have new: "entries (bs[nat q := ?b]) = es @ (key, v) # es'" using e(1) by simp
  show "map_of (entries (bs[nat q := ?b])) = (map_of (entries bs))(key \<mapsto> v)"
    using key(2) unfolding new bs by (auto simp: map_add_def fun_eq_iff split: option.splits)
  show "length (entries (bs[nat q := ?b])) = Suc (length (entries bs))" unfolding new bs by simp
  have "distinct (map fst (entries (bs[nat q := ?b])))"
    using ok notin unfolding new table_ok_def bs by auto
  moreover have "search (bs[nat q := ?b]) key = Some q"
    using q ql none unfolding search_def free_search_def length_list_update
    by (elim find_Some_mono) (auto simp: nth_list_update vacant_def)
  ultimately show "table_ok (bs[nat q := ?b])"
    using key(1) by (intro table_ok_update [OF ok n r]) auto
qed

lemma overwrite_bucket:
  assumes ok: "table_ok bs" and n: "pow2 (length bs)"
    and q: "search bs key = Some q" "bs ! nat q = Bucket key (Some w)"
  shows "table_ok (bs[nat q := Bucket key (Some v)])"
    "map_of (entries (bs[nat q := Bucket key (Some v)])) = (map_of (entries bs))(key \<mapsto> v)"
    "length (entries (bs[nat q := Bucket key (Some v)])) = length (entries bs)"
proof -
  let ?b = "Bucket key (Some v)"
  have r: "in_range bs q" by (rule search_in_range [OF n q(1)])
  then have ql: "nat q < length bs" by (auto simp: in_range_def)
  obtain es es' where e: "\<And>b. entries (bs[nat q := b]) = es @ entries [b] @ es'"
    "entries bs = es @ entries [bs ! nat q] @ es'" by (rule entries_update [OF ql]) blast
  have bs: "entries bs = es @ (key, w) # es'" using e(2) q(2) by simp
  have new: "entries (bs[nat q := ?b]) = es @ (key, v) # es'" using e(1) by simp
  have d: "distinct (map fst (es @ (key, w) # es'))" using ok unfolding table_ok_def bs by blast
  then have notin: "key \<notin> fst ` set es" by auto
  show "map_of (entries (bs[nat q := ?b])) = (map_of (entries bs))(key \<mapsto> v)"
    using notin unfolding new bs by (auto simp: map_add_def fun_eq_iff split: option.splits)
      (metis domI dom_map_of_conv_image_fst)
  show "length (entries (bs[nat q := ?b])) = length (entries bs)" unfolding new bs by simp
  have "distinct (map fst (entries (bs[nat q := ?b])))" using d unfolding new by simp
  moreover have "search (bs[nat q := ?b]) key = Some q"
    using q ql unfolding search_def length_list_update
    by (elim find_Some_mono) (auto simp: nth_list_update vacant_def)
  moreover have "0 \<le> key" using q(2) ok nth_mem [OF ql] by (auto simp: table_ok_def)
  ultimately show "table_ok (bs[nat q := ?b])"
    by (intro table_ok_update [OF ok n r]) auto
qed

lemma vacate_bucket:
  assumes ok: "table_ok bs" and n: "pow2 (length bs)"
    and q: "search bs key = Some q" "bs ! nat q = Bucket key (Some w)"
  shows "table_ok (bs[nat q := Bucket (- 1) None])"
    "map_of (entries (bs[nat q := Bucket (- 1) None])) = (map_of (entries bs))(key := None)"
    "Suc (length (entries (bs[nat q := Bucket (- 1) None]))) = length (entries bs)"
proof -
  let ?b = "Bucket (- 1) None"
  have r: "in_range bs q" by (rule search_in_range [OF n q(1)])
  then have ql: "nat q < length bs" by (auto simp: in_range_def)
  obtain es es' where e: "\<And>b. entries (bs[nat q := b]) = es @ entries [b] @ es'"
    "entries bs = es @ entries [bs ! nat q] @ es'" by (rule entries_update [OF ql]) blast
  have bs: "entries bs = es @ (key, w) # es'" using e(2) q(2) by simp
  have new: "entries (bs[nat q := ?b]) = es @ es'" using e(1) by simp
  have d: "distinct (map fst (es @ (key, w) # es'))" using ok unfolding table_ok_def bs by blast
  then have notin: "map_of es key = None" "map_of es' key = None" by (auto simp: map_of_eq_None_iff)
  show "map_of (entries (bs[nat q := ?b])) = (map_of (entries bs))(key := None)"
    using notin unfolding new bs by (auto simp: map_add_def fun_eq_iff split: option.splits)
  show "Suc (length (entries (bs[nat q := ?b]))) = length (entries bs)" unfolding new bs by simp
  have "distinct (map fst (entries (bs[nat q := ?b])))" using d unfolding new by simp
  then show "table_ok (bs[nat q := ?b])" by (intro table_ok_update [OF ok n r]) auto
qed

lemma free_search_finds:
  assumes n: "pow2 (length bs)" and few: "length (entries bs) < length bs"
  obtains q where "free_search bs key = Some q"
proof -
  have "\<exists>b \<in> set bs. bval b = None"
  proof (rule ccontr)
    assume "\<not> ?thesis"
    then have "filter (\<lambda>b. map_option (Pair (bkey b)) (bval b) \<noteq> None) bs = bs" by (auto simp: filter_id_conv)
    then have "length (entries bs) = length bs" by (simp add: entries_def List.map_filter_def comp_def)
    then show False using few by simp
  qed
  then obtain i where i: "i < length bs" "bval (bs ! i) = None" by (auto simp: in_set_conv_nth)
  then have "int i \<in> set (probes (length bs) key)" using probes_all [OF n] by simp
  then have "free_search bs key \<noteq> None"
    using i unfolding free_search_def by (auto simp: find_None_iff intro!: bexI [of _ "int i"])
  then show ?thesis using that by blast
qed

text \<open>Where no bucket was vacated, a key that is present is found by an assignment too.\<close>

lemma free_search_search:
  "pow2 (length bs) \<Longrightarrow> \<forall>b \<in> set bs. bkey b \<noteq> - 1 \<Longrightarrow> free_search bs key = search bs key"
  unfolding free_search_def search_def
  by (rule find_cong) (auto simp: probes_all vacant_def nat_less_iff)

section \<open>Well-formed tables\<close>

definition hash_ok :: "'v rktio_hash \<Rightarrow> bool" where
  "hash_ok ht =
     (case buckets ht of
        None \<Rightarrow> ht_size ht = 0 \<and> ht_count ht = 0
      | Some bs \<Rightarrow> table_ok bs \<and> pow2 (length bs) \<and> 16 \<le> length bs \<and> ht_size ht = int (length bs) \<and>
          ht_count ht = int (length (entries bs)) \<and> 2 * length (entries bs) < length bs)"

definition hash_map :: "'v rktio_hash \<Rightarrow> int \<rightharpoonup> 'v" where
  "hash_map ht = (case buckets ht of None \<Rightarrow> Map.empty | Some bs \<Rightarrow> map_of (entries bs))"

text \<open>No bucket is marked as removed.\<close>

definition clean :: "'v rktio_hash \<Rightarrow> bool" where
  "clean ht = (case buckets ht of None \<Rightarrow> True | Some bs \<Rightarrow> \<forall>b \<in> set bs. bkey b \<noteq> - 1)"

lemmas hash_simps = hash_ok_def hash_map_def clean_def

lemma entries_calloc [simp]: "entries (calloc_buckets n) = []"
  by (simp add: calloc_buckets_def entries_def List.map_filter_def vacant_bucket_def)

lemma table_ok_calloc: "table_ok (calloc_buckets n)"
  by (simp add: table_ok_def) (simp add: calloc_buckets_def vacant_bucket_def)

lemma length_calloc [simp]: "length (calloc_buckets n) = nat n"
  by (simp add: calloc_buckets_def)

lemma clean_calloc: "b \<in> set (calloc_buckets n) \<Longrightarrow> bkey b \<noteq> - 1"
  by (simp add: calloc_buckets_def vacant_bucket_def split: if_splits)

lemma pow2_16: "pow2 16"
  unfolding pow2_def by (rule exI [of _ 4]) simp

lemma hash_new_ok: "hash_ok rktio_hash_new" "hash_map rktio_hash_new = Map.empty" "clean rktio_hash_new"
  by (simp_all add: hash_simps rktio_hash_new_def)

lemma calloc_ok:
  assumes "pow2 (nat n)" "16 \<le> n"
  shows "hash_ok (ht\<lparr>ht_size := n, buckets := Some (calloc_buckets n), ht_count := 0\<rparr>)"
    "hash_map (ht\<lparr>ht_size := n, buckets := Some (calloc_buckets n), ht_count := 0\<rparr>) = Map.empty"
    "clean (ht\<lparr>ht_size := n, buckets := Some (calloc_buckets n), ht_count := 0\<rparr>)"
  using assms by (auto simp: hash_simps table_ok_calloc dest: clean_calloc)

lemma ensure_buckets_ok:
  assumes "hash_ok ht"
  shows "hash_ok (ensure_buckets ht)" "hash_map (ensure_buckets ht) = hash_map ht"
    "clean ht \<Longrightarrow> clean (ensure_buckets ht)" "buckets (ensure_buckets ht) \<noteq> None"
  using assms pow2_16 table_ok_calloc [of 16]
  by (auto simp: hash_simps ensure_buckets_def dest: clean_calloc split: option.splits)

lemma hash_set_ensure:
  "rktio_hash_set (Suc fuel) ht key v = rktio_hash_set (Suc fuel) (ensure_buckets ht) key v"
proof -
  have "ensure_buckets (ensure_buckets ht) = ensure_buckets ht" by (simp add: ensure_buckets_def)
  then show ?thesis by (simp only: rktio_hash_set.simps)
qed

lemma hash_get_ok:
  assumes "hash_ok ht"
  shows "rktio_hash_get ht key = ok (hash_map ht key)"
proof (cases "buckets ht")
  case (Some bs)
  then show ?thesis
    using assms get_loop_search [of bs key] get_search [of bs key]
    by (simp add: hash_ok_def hash_map_def rktio_hash_get_def Let_def)
qed (simp add: rktio_hash_get_def hash_map_def)

section \<open>Assignments\<close>

lemma set_loop_table:
  assumes "table_ok bs" "pow2 (length bs)" "length (entries bs) < length bs"
  obtains q where "free_search bs key = Some q" "in_range bs q"
    "set_loop bs key (int (length bs) - 1) (first_hc key (int (length bs) - 1))
      (hc_step key (int (length bs) - 1)) (first_hc key (int (length bs) - 1)) (- 1) =
    ok (if bval (bs ! nat q) = None then Use_Hc q else Overwrite q)"
proof -
  obtain q where q: "free_search bs key = Some q" using free_search_finds assms(2,3) .
  have "\<forall>b \<in> set bs. bval b \<noteq> None \<longrightarrow> bkey b \<noteq> - 1"
    using assms(1) by (auto simp: table_ok_def split: if_splits)
  from set_loop_search [OF assms(2) this, of key] show ?thesis
    using that [OF q free_search_in_range [OF assms(2) q]] q by simp
qed

text \<open>Entering a new key, up to the rehashing.\<close>

lemma set_new_key:
  assumes "hash_ok ht" "buckets ht = Some bs" "0 \<le> key" "hash_map ht key = None"
  shows "\<exists>bs'. table_ok bs' \<and> length bs' = length bs \<and> map_of (entries bs') = (hash_map ht)(key \<mapsto> v) \<and>
    length (entries bs') = Suc (length (entries bs)) \<and> (clean ht \<longrightarrow> (\<forall>b \<in> set bs'. bkey b \<noteq> - 1)) \<and>
    (\<forall>fuel. rktio_hash_set (Suc fuel) ht key v =
       (if ht_size ht \<le> 2 * (ht_count ht + 1)
        then do_rehash (rktio_hash_set fuel) (ht\<lparr>buckets := Some bs', ht_count := ht_count ht + 1\<rparr>) (2 * ht_size ht)
        else ok (ht\<lparr>buckets := Some bs', ht_count := ht_count ht + 1\<rparr>)))"
proof -
  have h: "table_ok bs" "pow2 (length bs)" "length (entries bs) < length bs" "ht_size ht = int (length bs)"
    "map_of (entries bs) key = None" "hash_map ht = map_of (entries bs)"
    using assms by (auto simp: hash_ok_def hash_map_def)
  obtain q where q: "free_search bs key = Some q" "in_range bs q"
    "set_loop bs key (int (length bs) - 1) (first_hc key (int (length bs) - 1))
      (hc_step key (int (length bs) - 1)) (first_hc key (int (length bs) - 1)) (- 1) =
     ok (if bval (bs ! nat q) = None then Use_Hc q else Overwrite q)"
    using set_loop_table [OF h(1-3)] by blast
  note ins = insert_bucket [OF h(1,2) assms(3) h(5) q(1)]
  let ?bs' = "bs[nat q := Bucket key (Some v)]"
  have "\<forall>b \<in> set ?bs'. bkey b \<noteq> - 1" if "clean ht"
    using that assms(2,3) set_update_subset_insert [of bs "nat q" "Bucket key (Some v)"] by (auto simp: clean_def)
  moreover have "rktio_hash_set (Suc fuel) ht key v =
       (if ht_size ht \<le> 2 * (ht_count ht + 1)
        then do_rehash (rktio_hash_set fuel) (ht\<lparr>buckets := Some ?bs', ht_count := ht_count ht + 1\<rparr>) (2 * ht_size ht)
        else ok (ht\<lparr>buckets := Some ?bs', ht_count := ht_count ht + 1\<rparr>))" for fuel
    using assms(2) q ins(1) h(4) by (simp add: ensure_buckets_def put_bucket_def Let_def mult.commute)
  ultimately show ?thesis using ins h(6) by (intro exI [of _ ?bs']) simp
qed

lemma set_old_key:
  assumes "hash_ok ht" "buckets ht = Some bs" "hash_map ht key = Some w" "clean ht"
  shows "\<exists>ht'. rktio_hash_set (Suc fuel) ht key v = ok ht' \<and> hash_ok ht' \<and>
    hash_map ht' = (hash_map ht)(key \<mapsto> v) \<and> clean ht'"
proof -
  have h: "table_ok bs" "pow2 (length bs)" "length (entries bs) < length bs" "ht_size ht = int (length bs)"
    "(key, w) \<in> set (entries bs)" "\<forall>b \<in> set bs. bkey b \<noteq> - 1"
    using assms by (auto simp: hash_ok_def hash_map_def clean_def dest: map_of_SomeD)
  obtain q where q: "free_search bs key = Some q" "in_range bs q"
    "set_loop bs key (int (length bs) - 1) (first_hc key (int (length bs) - 1))
      (hc_step key (int (length bs) - 1)) (first_hc key (int (length bs) - 1)) (- 1) =
     ok (if bval (bs ! nat q) = None then Use_Hc q else Overwrite q)"
    using set_loop_table [OF h(1-3)] by blast
  have s: "search bs key = Some q" using q(1) free_search_search [OF h(2,6)] by simp
  then have b: "bs ! nat q = Bucket key (Some w)" using h(1,5) by (auto simp: table_ok_def)
  have k: "0 \<le> key" by (rule table_key_nonneg [OF h(1,5)])
  let ?bs' = "bs[nat q := Bucket key (Some v)]"
  have "rktio_hash_set (Suc fuel) ht key v = ok (ht\<lparr>buckets := Some ?bs'\<rparr>)"
    using assms(2) q b h(4) by (simp add: ensure_buckets_def put_bucket_def Let_def)
  moreover have "\<forall>b \<in> set ?bs'. bkey b \<noteq> - 1"
    using h(6) k set_update_subset_insert [of bs "nat q" "Bucket key (Some v)"] by auto
  ultimately show ?thesis
    using overwrite_bucket [OF h(1,2) s b] assms(1,2) by (simp add: hash_simps)
qed

section \<open>Rehashing\<close>

declare rktio_hash_set.simps [simp del]

text \<open>
  Entering the buckets of a list, by an operation that works as long as there is room for the
  remaining ones.
\<close>

lemma rehash_loop_ok:
  assumes set_entry: "\<And>m ht k v. hash_ok ht \<Longrightarrow> P (Suc m) ht \<Longrightarrow> 0 \<le> k \<Longrightarrow> hash_map ht k = None \<Longrightarrow>
      \<exists>ht'. set_entry ht k v = ok ht' \<and> hash_ok ht' \<and> P m ht' \<and>
        hash_map ht' = (hash_map ht)(k \<mapsto> v) \<and> (clean ht \<longrightarrow> clean ht')"
    and "hash_ok ht" "P (length (entries bs)) ht" "distinct (map fst (entries bs))"
    and "\<forall>(k, v) \<in> set (entries bs). 0 \<le> k \<and> hash_map ht k = None"
  shows "\<exists>ht'. rehash_loop set_entry bs ht = ok ht' \<and> hash_ok ht' \<and>
    hash_map ht' = hash_map ht ++ map_of (entries bs) \<and> (clean ht \<longrightarrow> clean ht')"
  using assms(2-)
proof (induction bs arbitrary: ht)
  case (Cons b bs)
  obtain k vo where b: "b = Bucket k vo" by (cases b)
  show ?case
  proof (cases vo)
    case None
    then show ?thesis using Cons b by simp
  next
    case (Some v)
    obtain ht1 where ht1: "set_entry ht k v = ok ht1" "hash_ok ht1" "P (length (entries bs)) ht1"
      "hash_map ht1 = (hash_map ht)(k \<mapsto> v)" "clean ht \<longrightarrow> clean ht1"
      using set_entry [of ht "length (entries bs)" k v] Cons.prems b Some by auto
    have k: "k \<notin> dom (map_of (entries bs))"
      using Cons.prems(3) b Some by (auto simp: dom_map_of_conv_image_fst)
    have "\<forall>(k', v) \<in> set (entries bs). 0 \<le> k' \<and> hash_map ht1 k' = None"
      using Cons.prems(3,4) ht1(4) b Some by force
    then obtain ht2 where ht2: "rehash_loop set_entry bs ht1 = ok ht2" "hash_ok ht2"
      "hash_map ht2 = hash_map ht1 ++ map_of (entries bs)" "clean ht1 \<longrightarrow> clean ht2"
      using Cons.IH [of ht1] ht1(2,3) Cons.prems(3) b Some by auto
    have "hash_map ht1 ++ map_of (entries bs) = hash_map ht ++ map_of (entries (b # bs))"
      using ht1(4) k b Some by (auto simp: fun_eq_iff map_add_def split: option.splits)
    then have "hash_map ht2 = hash_map ht ++ map_of (entries (b # bs))" using ht2(3) by (rule trans [rotated])
    moreover have "rehash_loop set_entry (b # bs) ht = ok ht2" using ht1(1) ht2(1) b Some by simp
    ultimately show ?thesis using ht1(5) ht2(2,4) by blast
  qed
qed simp

lemma do_rehash_ok:
  assumes set_entry: "\<And>m ht k v. hash_ok ht \<Longrightarrow> P (Suc m) ht \<Longrightarrow> 0 \<le> k \<Longrightarrow> hash_map ht k = None \<Longrightarrow>
      \<exists>ht'. set_entry ht k v = ok ht' \<and> hash_ok ht' \<and> P m ht' \<and>
        hash_map ht' = (hash_map ht)(k \<mapsto> v) \<and> (clean ht \<longrightarrow> clean ht')"
    and bs: "buckets ht = Some bs" "table_ok bs"
    and n: "pow2 (nat n)" "16 \<le> n"
    and P: "P (length (entries bs)) (ht\<lparr>ht_size := n, buckets := Some (calloc_buckets n), ht_count := 0\<rparr>)"
  shows "\<exists>ht'. do_rehash set_entry ht n = ok ht' \<and> hash_ok ht' \<and> hash_map ht' = map_of (entries bs) \<and> clean ht'"
proof -
  let ?h = "ht\<lparr>ht_size := n, buckets := Some (calloc_buckets n), ht_count := 0\<rparr>"
  note h = calloc_ok [OF n, of ht]
  have d: "distinct (map fst (entries bs))" using bs(2) by (simp add: table_ok_def)
  have "map_of (entries (rev bs)) = map_of (entries bs)"
    unfolding entries_rev using d by (subst map_of_inject_set) (auto simp flip: rev_map)
  moreover have "\<exists>ht'. rehash_loop set_entry (rev bs) ?h = ok ht' \<and> hash_ok ht' \<and>
      hash_map ht' = hash_map ?h ++ map_of (entries (rev bs)) \<and> (clean ?h \<longrightarrow> clean ht')"
  proof (rule rehash_loop_ok [where P = P])
    show "P (length (entries (rev bs))) ?h" using P by (simp add: entries_rev)
    show "distinct (map fst (entries (rev bs)))" using d by (simp add: entries_rev flip: rev_map)
    show "\<forall>(k, v) \<in> set (entries (rev bs)). 0 \<le> k \<and> hash_map ?h k = None"
      using table_key_nonneg [OF bs(2)] h(2) by (auto simp: entries_rev)
  qed (use set_entry h(1) in blast)+
  ultimately show ?thesis using bs(1) n(2) h(2,3) by (auto simp: do_rehash_def)
qed

lemma set_with_room:
  assumes "hash_ok ht" "buckets ht \<noteq> None" "2 * (ht_count ht + 1) < ht_size ht" "0 \<le> key" "hash_map ht key = None"
  shows "\<exists>ht'. rktio_hash_set (Suc fuel) ht key v = ok ht' \<and> hash_ok ht' \<and> buckets ht' \<noteq> None \<and>
    ht_size ht' = ht_size ht \<and> ht_count ht' = ht_count ht + 1 \<and>
    hash_map ht' = (hash_map ht)(key \<mapsto> v) \<and> (clean ht \<longrightarrow> clean ht')"
proof -
  obtain bs where bs: "buckets ht = Some bs" using assms(2) by blast
  obtain bs' where bs': "table_ok bs'" "length bs' = length bs" "map_of (entries bs') = (hash_map ht)(key \<mapsto> v)"
    "length (entries bs') = Suc (length (entries bs))" "clean ht \<longrightarrow> (\<forall>b \<in> set bs'. bkey b \<noteq> - 1)"
    "\<forall>fuel. rktio_hash_set (Suc fuel) ht key v =
       (if ht_size ht \<le> 2 * (ht_count ht + 1)
        then do_rehash (rktio_hash_set fuel) (ht\<lparr>buckets := Some bs', ht_count := ht_count ht + 1\<rparr>) (2 * ht_size ht)
        else ok (ht\<lparr>buckets := Some bs', ht_count := ht_count ht + 1\<rparr>))"
    using set_new_key [OF assms(1) bs assms(4,5), of v] by blast
  let ?ht' = "ht\<lparr>buckets := Some bs', ht_count := ht_count ht + 1\<rparr>"
  have "rktio_hash_set (Suc fuel) ht key v = ok ?ht'" using bs'(6) assms(3) by simp
  moreover have "hash_ok ?ht'" using assms(1,3) bs bs'(1,2,4) by (simp add: hash_ok_def)
  moreover have "hash_map ?ht' = (hash_map ht)(key \<mapsto> v)" using bs'(3) by (simp add: hash_map_def)
  moreover have "clean ht \<longrightarrow> clean ?ht'" using bs'(5) by (simp add: clean_def)
  ultimately show ?thesis by simp
qed

lemma pow2_double: "pow2 n \<Longrightarrow> pow2 (2 * n)"
  unfolding pow2_def by (metis power_Suc)

lemma pow2_half: "pow2 n \<Longrightarrow> 2 \<le> n \<Longrightarrow> pow2 (n div 2)"
  unfolding pow2_def by (metis One_nat_def Suc_1 nonzero_mult_div_cancel_left not_less_eq_eq old.nat.exhaust order_refl power_0 power_Suc zero_neq_numeral)

lemma set_new_ok:
  assumes "hash_ok ht" "0 \<le> key" "hash_map ht key = None"
  shows "\<exists>ht'. rktio_hash_set (Suc (Suc fuel)) ht key v = ok ht' \<and> hash_ok ht' \<and>
    hash_map ht' = (hash_map ht)(key \<mapsto> v) \<and> (clean ht \<longrightarrow> clean ht')"
proof -
  let ?h = "ensure_buckets ht"
  note e = ensure_buckets_ok [OF assms(1)]
  obtain bs where bs: "buckets ?h = Some bs" using e(4) by blast
  have none: "hash_map ?h key = None" using e(2) assms(3) by simp
  show ?thesis
  proof (cases "2 * (ht_count ?h + 1) < ht_size ?h")
    case True
    then show ?thesis
      using set_with_room [OF e(1,4) True assms(2) none, of "Suc fuel" v] e(2,3) hash_set_ensure [of "Suc fuel" ht key v]
      by auto
  next
    case False
    obtain bs' where bs': "table_ok bs'" "length bs' = length bs" "map_of (entries bs') = (hash_map ?h)(key \<mapsto> v)"
      "length (entries bs') = Suc (length (entries bs))" "clean ?h \<longrightarrow> (\<forall>b \<in> set bs'. bkey b \<noteq> - 1)"
      "\<forall>fuel. rktio_hash_set (Suc fuel) ?h key v =
         (if ht_size ?h \<le> 2 * (ht_count ?h + 1)
          then do_rehash (rktio_hash_set fuel) (?h\<lparr>buckets := Some bs', ht_count := ht_count ?h + 1\<rparr>) (2 * ht_size ?h)
          else ok (?h\<lparr>buckets := Some bs', ht_count := ht_count ?h + 1\<rparr>))"
      using set_new_key [OF e(1) bs assms(2) none, of v] by blast
    let ?h' = "?h\<lparr>buckets := Some bs', ht_count := ht_count ?h + 1\<rparr>"
    let ?P = "\<lambda>m (h :: 'a rktio_hash). buckets h \<noteq> None \<and> 2 * (ht_count h + int m) < ht_size h"
    have sz: "ht_size ?h = int (length bs)" "pow2 (length bs)" "16 \<le> length bs" "2 * length (entries bs) < length bs"
      using e(1) bs by (auto simp: hash_ok_def)
    have "\<exists>ht'. do_rehash (rktio_hash_set (Suc fuel)) ?h' (2 * ht_size ?h) = ok ht' \<and> hash_ok ht' \<and>
        hash_map ht' = map_of (entries bs') \<and> clean ht'"
    proof (rule do_rehash_ok [where P = ?P])
      show "pow2 (nat (2 * ht_size ?h))" using pow2_double [OF sz(2)] sz(1) by (simp add: nat_mult_distrib)
    next
      fix m and h :: "'a rktio_hash" and k w
      assume a: "hash_ok h" "?P (Suc m) h" "0 \<le> k" "hash_map h k = None"
      then have "2 * (ht_count h + 1) < ht_size h" by simp
      from set_with_room [OF a(1) _ this a(3,4), of fuel w] a(2) show
        "\<exists>ht'. rktio_hash_set (Suc fuel) h k w = ok ht' \<and> hash_ok ht' \<and> ?P m ht' \<and>
          hash_map ht' = (hash_map h)(k \<mapsto> w) \<and> (clean h \<longrightarrow> clean ht')" by fastforce
    qed (use sz bs' in simp_all)
    then show ?thesis
      using False bs'(3,6) e(2) hash_set_ensure [of "Suc fuel" ht key v] by fastforce
  qed
qed

lemma hash_set_ok:
  assumes "hash_ok ht" "0 \<le> key" "hash_map ht key = None \<or> clean ht"
  shows "\<exists>ht'. rktio_hash_set (Suc (Suc fuel)) ht key v = ok ht' \<and> hash_ok ht' \<and>
    hash_map ht' = (hash_map ht)(key \<mapsto> v) \<and> (clean ht \<longrightarrow> clean ht')"
proof (cases "hash_map ht key")
  case None
  then show ?thesis by (rule set_new_ok [OF assms(1,2)])
next
  case (Some w)
  then obtain bs where "buckets ht = Some bs" by (auto simp: hash_map_def split: option.splits)
  then show ?thesis using set_old_key [OF assms(1) _ Some, of bs "Suc fuel" v] assms(3) Some by auto
qed

section \<open>Removals\<close>

lemma search_absent:
  assumes "table_ok bs" "pow2 (length bs)" "map_of (entries bs) key = None" "0 < key" "search bs key = Some q"
  shows "bkey (bs ! nat q) \<noteq> key"
proof
  assume k: "bkey (bs ! nat q) = key"
  have "nat q < length bs" using search_in_range [OF assms(2,5)] by (auto simp: in_range_def)
  then have m: "bs ! nat q \<in> set bs" by (rule nth_mem)
  then have "bval (bs ! nat q) \<noteq> None" using table_free_key [OF assms(1) m] assms(4) k by auto
  then obtain v where "Bucket key (Some v) \<in> set bs" using m k by (cases "bs ! nat q") auto
  then have "(key, v) \<in> set (entries bs)" by (simp add: set_entries)
  then show False using assms(3) by (force simp: map_of_eq_None_iff)
qed

lemma remove_absent:
  assumes "hash_ok ht" "0 < key" "hash_map ht key = None"
  shows "rktio_hash_remove fuel ht key dont_rehash = ok ht"
proof (cases "buckets ht")
  case (Some bs)
  then have h: "table_ok bs" "pow2 (length bs)" "ht_size ht = int (length bs)" "map_of (entries bs) key = None"
    using assms by (auto simp: hash_ok_def hash_map_def)
  then show ?thesis
    using remove_loop_search [OF h(2), of key] search_absent [OF h(1,2,4) assms(2)] Some
    by (simp add: rktio_hash_remove_def Let_def split: option.splits)
qed (simp add: rktio_hash_remove_def)

text \<open>Removing a key that is present, up to the rehashing.\<close>

lemma remove_present:
  assumes "hash_ok ht" "hash_map ht key = Some v"
  shows "\<exists>bs q. buckets ht = Some bs \<and> in_range bs q \<and> bs ! nat q = Bucket key (Some v) \<and>
    hash_ok (ht\<lparr>buckets := Some (bs[nat q := Bucket (- 1) None]), ht_count := ht_count ht - 1\<rparr>) \<and>
    hash_map (ht\<lparr>buckets := Some (bs[nat q := Bucket (- 1) None]), ht_count := ht_count ht - 1\<rparr>)
      = (hash_map ht)(key := None) \<and>
    (\<forall>fuel dont_rehash. rktio_hash_remove fuel ht key dont_rehash =
       (let ht' = ht\<lparr>buckets := Some (bs[nat q := Bucket (- 1) None]), ht_count := ht_count ht - 1\<rparr> in
        if \<not> dont_rehash \<and> 4 * ht_count ht' \<le> ht_size ht then do_rehash (rktio_hash_set fuel) ht' (ht_size ht div 2)
        else ok ht'))"
proof -
  obtain bs where bs: "buckets ht = Some bs" "map_of (entries bs) key = Some v"
    using assms(2) by (auto simp: hash_map_def split: option.splits)
  then have h: "table_ok bs" "pow2 (length bs)" "ht_size ht = int (length bs)" "hash_map ht = map_of (entries bs)"
    "ht_count ht = int (length (entries bs))" "16 \<le> length bs" "2 * length (entries bs) < length bs"
    using assms by (auto simp: hash_ok_def hash_map_def)
  obtain q where q: "search bs key = Some q" "bs ! nat q = Bucket key (Some v)"
    using h(1) map_of_SomeD [OF bs(2)] by (auto simp: table_ok_def)
  have r: "in_range bs q" by (rule search_in_range [OF h(2) q(1)])
  note vac = vacate_bucket [OF h(1,2) q]
  let ?ht' = "ht\<lparr>buckets := Some (bs[nat q := Bucket (- 1) None]), ht_count := ht_count ht - 1\<rparr>"
  have cnt: "int (length (entries bs)) - 1 = int (length (entries (bs[nat q := Bucket (- 1) None])))"
    using vac(3) by linarith
  have "hash_ok ?ht'" using vac(1,3) h cnt by (simp add: hash_ok_def)
  moreover have "hash_map ?ht' = (hash_map ht)(key := None)" using vac(2) h(4) by (simp add: hash_map_def)
  moreover have "rktio_hash_remove fuel ht key dont_rehash =
       (if \<not> dont_rehash \<and> 4 * ht_count ?ht' \<le> ht_size ht then do_rehash (rktio_hash_set fuel) ?ht' (ht_size ht div 2)
        else ok ?ht')" for fuel dont_rehash
    using remove_loop_search [OF h(2), of key] bs(1) q r h(3)
    by (simp add: rktio_hash_remove_def Let_def put_bucket_def drop_bit_Suc)
  ultimately show ?thesis using bs(1) r q(2) by (auto simp: Let_def)
qed

lemma hash_remove_ok:
  assumes "hash_ok ht" "0 \<le> key" "hash_map ht key \<noteq> None \<or> key \<noteq> 0"
  shows "\<exists>ht'. rktio_hash_remove (Suc (Suc fuel)) ht key dont_rehash = ok ht' \<and> hash_ok ht' \<and>
    hash_map ht' = (hash_map ht)(key := None)"
proof (cases "hash_map ht key")
  case None
  then show ?thesis using remove_absent [OF assms(1) _ None] assms by (auto simp: fun_upd_idem)
next
  case (Some v)
  obtain bs q where r: "buckets ht = Some bs" "in_range bs q" 
    "hash_ok (ht\<lparr>buckets := Some (bs[nat q := Bucket (- 1) None]), ht_count := ht_count ht - 1\<rparr>)"
    "hash_map (ht\<lparr>buckets := Some (bs[nat q := Bucket (- 1) None]), ht_count := ht_count ht - 1\<rparr>)
      = (hash_map ht)(key := None)"
    "\<forall>fuel dont_rehash. rktio_hash_remove fuel ht key dont_rehash =
       (let ht' = ht\<lparr>buckets := Some (bs[nat q := Bucket (- 1) None]), ht_count := ht_count ht - 1\<rparr> in
        if \<not> dont_rehash \<and> 4 * ht_count ht' \<le> ht_size ht then do_rehash (rktio_hash_set fuel) ht' (ht_size ht div 2)
        else ok ht')"
    using remove_present [OF assms(1) Some] by blast
  let ?bs' = "bs[nat q := Bucket (- 1) None]"
  let ?ht' = "ht\<lparr>buckets := Some ?bs', ht_count := ht_count ht - 1\<rparr>"
  have h: "pow2 (length bs)" "ht_size ht = int (length bs)" "16 \<le> length bs"
    using assms(1) r(1) by (auto simp: hash_ok_def)
  have "\<exists>ht'. do_rehash (rktio_hash_set (Suc (Suc fuel))) ?ht' (ht_size ht div 2) = ok ht' \<and> hash_ok ht' \<and>
      hash_map ht' = (hash_map ht)(key := None)"
  proof (cases "16 \<le> ht_size ht div 2")
    case False
    then show ?thesis using r(3,4) by (simp add: do_rehash_def)
  next
    case True
    have "\<exists>ht'. do_rehash (rktio_hash_set (Suc (Suc fuel))) ?ht' (ht_size ht div 2) = ok ht' \<and> hash_ok ht' \<and>
        hash_map ht' = map_of (entries ?bs') \<and> clean ht'"
    proof (rule do_rehash_ok [where P = "\<lambda>_ _. True"])
      show "pow2 (nat (ht_size ht div 2))" using pow2_half [OF h(1)] h(2,3) by (simp add: nat_div_distrib)
      show "table_ok ?bs'" using r(3) by (simp add: hash_ok_def)
    qed (use True set_new_ok in auto)
    then show ?thesis using r(4) by (auto simp: hash_map_def)
  qed
  then show ?thesis using r(3-5) by (auto simp: Let_def)
qed

section \<open>The interface\<close>

datatype 'v hash_op = Set int 'v | Remove int bool

fun table_run ::
  "('t \<Rightarrow> int \<Rightarrow> 'v \<Rightarrow> 't hash_res) \<Rightarrow> ('t \<Rightarrow> int \<Rightarrow> bool \<Rightarrow> 't hash_res) \<Rightarrow> 'v hash_op list \<Rightarrow> 't \<Rightarrow> 't hash_res" where
  "table_run put del [] t = ok t"
| "table_run put del (Set key v # ops) t = hbind (put t key v) (table_run put del ops)"
| "table_run put del (Remove key dont_rehash # ops) t = hbind (del t key dont_rehash) (table_run put del ops)"

fun map_op :: "'v hash_op \<Rightarrow> (int \<rightharpoonup> 'v) \<Rightarrow> int \<rightharpoonup> 'v" where
  "map_op (Set key v) m = m(key \<mapsto> v)"
| "map_op (Remove key dont_rehash) m = m(key := None)"

text \<open>
  The contract of callers: keys are not negative, a key that is present is assigned again only if
  nothing was ever removed, and key 0 is removed only if it is present.
\<close>

fun within_contract :: "(int \<rightharpoonup> 'v) \<Rightarrow> bool \<Rightarrow> 'v hash_op list \<Rightarrow> bool" where
  "within_contract m removed [] = True"
| "within_contract m removed (Set key v # ops) =
     (0 \<le> key \<and> (m key = None \<or> \<not> removed) \<and> within_contract (m(key \<mapsto> v)) removed ops)"
| "within_contract m removed (Remove key dont_rehash # ops) =
     (0 \<le> key \<and> (m key \<noteq> None \<or> key \<noteq> 0) \<and> within_contract (m(key := None)) True ops)"

text \<open>What a client of the table relies on.\<close>

locale keyed_table =
  fixes get :: "'t \<Rightarrow> int \<Rightarrow> 'v option hash_res"
    and put :: "'t \<Rightarrow> int \<Rightarrow> 'v \<Rightarrow> 't hash_res"
    and del :: "'t \<Rightarrow> int \<Rightarrow> bool \<Rightarrow> 't hash_res"
    and well :: "'t \<Rightarrow> bool"
    and abs :: "'t \<Rightarrow> int \<rightharpoonup> 'v"
    and unremoved :: "'t \<Rightarrow> bool"
  assumes get_abs: "well t \<Longrightarrow> get t key = ok (abs t key)"
    and key_nonneg: "well t \<Longrightarrow> abs t key = Some v \<Longrightarrow> 0 \<le> key"
    and put_abs: "well t \<Longrightarrow> 0 \<le> key \<Longrightarrow> abs t key = None \<or> unremoved t \<Longrightarrow>
      \<exists>t'. put t key v = ok t' \<and> well t' \<and> abs t' = (abs t)(key \<mapsto> v) \<and> (unremoved t \<longrightarrow> unremoved t')"
    and del_abs: "well t \<Longrightarrow> 0 \<le> key \<Longrightarrow> abs t key \<noteq> None \<or> key \<noteq> 0 \<Longrightarrow>
      \<exists>t'. del t key dont_rehash = ok t' \<and> well t' \<and> abs t' = (abs t)(key := None)"
begin

lemma put_absent:
  "well t \<Longrightarrow> 0 \<le> key \<Longrightarrow> abs t key = None \<Longrightarrow> \<exists>t'. put t key v = ok t' \<and> well t' \<and> abs t' = (abs t)(key \<mapsto> v)"
  using put_abs by blast

lemma del_present:
  "well t \<Longrightarrow> abs t key = Some v \<Longrightarrow> \<exists>t'. del t key dont_rehash = ok t' \<and> well t' \<and> abs t' = (abs t)(key := None)"
  using del_abs key_nonneg by blast

lemma run_abs:
  assumes "within_contract (abs t) removed ops" "well t" "\<not> removed \<longrightarrow> unremoved t"
  shows "\<exists>t'. table_run put del ops t = ok t' \<and> well t' \<and> abs t' = fold map_op ops (abs t)"
  using assms
proof (induction ops arbitrary: t removed)
  case (Cons op ops)
  show ?case
  proof (cases op)
    case (Set key v)
    obtain t1 where h: "put t key v = ok t1" "well t1" "abs t1 = (abs t)(key \<mapsto> v)" "unremoved t \<longrightarrow> unremoved t1"
      using put_abs [of t key v] Cons.prems Set by auto
    have "within_contract (abs t1) removed ops" using Cons.prems(1) Set unfolding h(3) by simp
    from Cons.IH [OF this h(2)] show ?thesis using Cons.prems(3) h(1,4)
      unfolding Set fold_simps map_op.simps h(3) [symmetric] by simp
  next
    case (Remove key dont_rehash)
    obtain t1 where h: "del t key dont_rehash = ok t1" "well t1" "abs t1 = (abs t)(key := None)"
      using del_abs [of t key dont_rehash] Cons.prems Remove by auto
    have "within_contract (abs t1) True ops" using Cons.prems(1) Remove unfolding h(3) by simp
    from Cons.IH [OF this h(2)] show ?thesis using h(1)
      unfolding Remove fold_simps map_op.simps h(3) [symmetric] by simp
  qed
qed simp

end

interpretation ht: keyed_table rktio_hash_get "rktio_hash_set (Suc (Suc fuel))"
  "rktio_hash_remove (Suc (Suc fuel))" hash_ok hash_map clean for fuel
proof unfold_locales
  fix t :: "'a rktio_hash" and key v
  assume "hash_ok t" "hash_map t key = Some v"
  then show "0 \<le> key"
    by (auto simp: hash_ok_def hash_map_def split: option.splits dest!: map_of_SomeD intro: table_key_nonneg)
qed (rule hash_get_ok hash_set_ok hash_remove_ok; assumption)+

abbreviation hash_run :: "nat \<Rightarrow> 'v hash_op list \<Rightarrow> 'v rktio_hash \<Rightarrow> 'v rktio_hash hash_res" where
  "hash_run fuel \<equiv> table_run (rktio_hash_set fuel) (rktio_hash_remove fuel)"

text \<open>Removal without rehashing leaves the other buckets in their places.\<close>

lemma hash_remove_in_place:
  assumes "hash_ok ht" "hash_map ht key = Some v"
  shows "\<exists>ht'. rktio_hash_remove fuel ht key True = ok ht' \<and> hash_ok ht' \<and> hash_map ht' = (hash_map ht)(key := None) \<and>
    (\<forall>i. rktio_hash_get_key ht' i =
       (if rktio_hash_get_key ht i = Inr key then Inr (- 1) else rktio_hash_get_key ht i))"
proof -
  obtain bs q where r: "buckets ht = Some bs" "in_range bs q" "bs ! nat q = Bucket key (Some v)"
    "hash_ok (ht\<lparr>buckets := Some (bs[nat q := Bucket (- 1) None]), ht_count := ht_count ht - 1\<rparr>)"
    "hash_map (ht\<lparr>buckets := Some (bs[nat q := Bucket (- 1) None]), ht_count := ht_count ht - 1\<rparr>)
      = (hash_map ht)(key := None)"
    "\<forall>fuel dont_rehash. rktio_hash_remove fuel ht key dont_rehash =
       (let ht' = ht\<lparr>buckets := Some (bs[nat q := Bucket (- 1) None]), ht_count := ht_count ht - 1\<rparr> in
        if \<not> dont_rehash \<and> 4 * ht_count ht' \<le> ht_size ht then do_rehash (rktio_hash_set fuel) ht' (ht_size ht div 2)
        else ok ht')"
    using remove_present [OF assms] by blast
  let ?ht' = "ht\<lparr>buckets := Some (bs[nat q := Bucket (- 1) None]), ht_count := ht_count ht - 1\<rparr>"
  have t: "table_ok bs" using assms(1) r(1) by (simp add: hash_ok_def)
  have ql: "nat q < length bs" using r(2) by (auto simp: in_range_def)
  have key: "0 \<le> key" using ht.key_nonneg [OF assms] .
  have uniq: "i = q" if i: "in_range bs i" "bval (bs ! nat i) \<noteq> None" "bkey (bs ! nat i) = key" for i
  proof -
    obtain w where "bs ! nat i = Bucket key (Some w)" using i by (cases "bs ! nat i") auto
    moreover have "nat i < length bs" using i(1) by (auto simp: in_range_def)
    ultimately have "nat i = nat q" using entries_unique [of bs "nat i" "nat q"] t ql r(3) by (auto simp: table_ok_def)
    then show ?thesis using i(1) r(2) by (auto simp: in_range_def)
  qed
  have "rktio_hash_get_key ?ht' i = (if rktio_hash_get_key ht i = Inr key then Inr (- 1) else rktio_hash_get_key ht i)" for i
  proof (cases "in_range bs i")
    case True
    then have "nat i = nat q \<longleftrightarrow> i = q" using r(2) by (auto simp: in_range_def)
    then show ?thesis using True uniq [OF True] r(1,3) ql key by (auto simp: rktio_hash_get_key_def nth_list_update in_range_def)
  next
    case False
    then have "\<not> in_range (bs[nat q := Bucket (- 1) None]) i" by (simp add: in_range_def)
    then show ?thesis using False r(1) by (simp add: rktio_hash_get_key_def)
  qed
  then show ?thesis using r(4-6) by (auto simp: Let_def)
qed

lemma hash_get_key_in_range: "hash_ok ht \<Longrightarrow> 0 \<le> i \<Longrightarrow> i < rktio_hash_size ht \<Longrightarrow> \<exists>key. rktio_hash_get_key ht i = Inr key"
  by (auto simp: hash_ok_def rktio_hash_size_def rktio_hash_get_key_def in_range_def split: option.splits)

lemma hash_get_key_present:
  assumes "hash_ok ht" "rktio_hash_get_key ht i = Inr key" "key \<noteq> - 1"
  shows "hash_map ht key \<noteq> None"
proof -
  obtain bs where bs: "buckets ht = Some bs" "in_range bs i" "bval (bs ! nat i) \<noteq> None" "bkey (bs ! nat i) = key"
    using assms(2,3) by (auto simp: rktio_hash_get_key_def split: option.splits if_splits)
  obtain v where "bs ! nat i = Bucket key (Some v)" using bs(3,4) by (cases "bs ! nat i") auto
  then have "(key, v) \<in> set (entries bs)"
    unfolding set_entries using bs(2) nth_mem [of "nat i" bs] by (auto simp: in_range_def)
  from weak_map_of_SomeI [OF this] show ?thesis using bs(1) by (auto simp: hash_map_def)
qed

lemma hash_key_indexed:
  assumes "hash_ok ht" "hash_map ht key = Some v"
  shows "\<exists>i. 0 \<le> i \<and> i < rktio_hash_size ht \<and> rktio_hash_get_key ht i = Inr key"
proof -
  obtain bs where bs: "buckets ht = Some bs" "map_of (entries bs) key = Some v"
    using assms(2) by (auto simp: hash_map_def split: option.splits)
  then have "Bucket key (Some v) \<in> set bs" using map_of_SomeD set_entries by metis
  then obtain i where "i < length bs" "bs ! i = Bucket key (Some v)" by (auto simp: in_set_conv_nth)
  then show ?thesis using assms(1) bs(1)
    by (intro exI [of _ "int i"]) (simp add: rktio_hash_get_key_def rktio_hash_size_def in_range_def hash_ok_def)
qed

text \<open>The keys that a walk over all indices sees.\<close>

definition walk_keys :: "'v rktio_hash \<Rightarrow> int list" where
  "walk_keys ht = filter (\<lambda>key. key \<noteq> - 1)
     (List.map_filter (\<lambda>i. case rktio_hash_get_key ht (int i) of Inr key \<Rightarrow> Some key | Inl _ \<Rightarrow> None)
       [0..<nat (rktio_hash_size ht)])"

lemma walk_keys_entries:
  assumes "hash_ok ht" "buckets ht = Some bs"
  shows "walk_keys ht = map fst (entries bs)"
proof -
  have bk: "\<forall>b \<in> set bs. bval b \<noteq> None \<longrightarrow> bkey b \<noteq> - 1"
    using assms table_used_key [of bs] by (force simp: hash_ok_def)
  have "List.map_filter (\<lambda>i. case rktio_hash_get_key ht (int i) of Inr key \<Rightarrow> Some key | Inl _ \<Rightarrow> None)
      [0..<nat (rktio_hash_size ht)] =
    map (\<lambda>i. if bval (bs ! i) \<noteq> None then bkey (bs ! i) else - 1) [0..<length bs]"
    using assms unfolding List.map_filter_def
    by (auto simp: rktio_hash_get_key_def rktio_hash_size_def hash_ok_def in_range_def filter_id_conv)
  also have "\<dots> = map (\<lambda>b. if bval b \<noteq> None then bkey b else - 1) bs"
    by (rule nth_equalityI) auto
  finally have w: "walk_keys ht = filter (\<lambda>key. key \<noteq> - 1) (map (\<lambda>b. if bval b \<noteq> None then bkey b else - 1) bs)"
    by (simp add: walk_keys_def)
  have "filter (\<lambda>key. key \<noteq> - 1) (map (\<lambda>b. if bval b \<noteq> None then bkey b else - 1) bs') = map fst (entries bs')"
    if "\<forall>b \<in> set bs'. bval b \<noteq> None \<longrightarrow> bkey b \<noteq> - 1" for bs' :: "'a bucket list"
    using that
  proof (induction bs')
    case (Cons b bs')
    then show ?case by (cases b; cases "bval b") auto
  qed simp
  from this [OF bk] show ?thesis using w by simp
qed

lemma walk_keys_ok:
  assumes "hash_ok ht"
  shows "distinct (walk_keys ht)" "set (walk_keys ht) = dom (hash_map ht)"
    "rktio_hash_is_empty ht \<longleftrightarrow> hash_map ht = Map.empty"
proof -
  have "distinct (walk_keys ht) \<and> set (walk_keys ht) = dom (hash_map ht) \<and>
    (rktio_hash_is_empty ht \<longleftrightarrow> hash_map ht = Map.empty)"
  proof (cases "buckets ht")
    case None
    then show ?thesis using assms by (simp add: hash_ok_def hash_map_def rktio_hash_is_empty_def walk_keys_def
      rktio_hash_size_def List.map_filter_def)
  next
    case (Some bs)
    then show ?thesis using assms walk_keys_entries [OF assms Some]
      by (auto simp: hash_ok_def hash_map_def rktio_hash_is_empty_def table_ok_def dom_map_of_conv_image_fst)
  qed
  then show "distinct (walk_keys ht)" "set (walk_keys ht) = dom (hash_map ht)"
    "rktio_hash_is_empty ht \<longleftrightarrow> hash_map ht = Map.empty" by auto
qed

text \<open>
  C7: the hash table refines a finite map. Any sequence of assignments and removals that keeps to
  the contract runs without an access outside of the array and with every search ending; rehashing nests at most
  twice. The table then agrees with the map of the same history in look-up, emptiness, and in
  the keys that a walk over its indices finds, each once.
\<close>

theorem rktio_hash_refines_map:
  assumes "within_contract Map.empty False ops" and "2 \<le> fuel"
  shows "\<exists>ht. hash_run fuel ops rktio_hash_new = ok ht \<and>
    (\<forall>key. rktio_hash_get ht key = ok (fold map_op ops Map.empty key)) \<and>
    (rktio_hash_is_empty ht \<longleftrightarrow> fold map_op ops Map.empty = Map.empty) \<and>
    distinct (walk_keys ht) \<and> set (walk_keys ht) = dom (fold map_op ops Map.empty)"
proof -
  obtain n where n: "fuel = Suc (Suc n)" using assms(2) by (metis add_2_eq_Suc le_Suc_ex)
  obtain ht where "hash_run fuel ops rktio_hash_new = ok ht" "hash_ok ht"
    "hash_map ht = fold map_op ops Map.empty"
    using ht.run_abs [of rktio_hash_new False ops n, unfolded hash_new_ok(2), OF assms(1)] hash_new_ok n by blast
  then show ?thesis using hash_get_ok walk_keys_ok by metis
qed

theorem rktio_hash_refines_map_witness:
  "\<exists>ht. hash_run 2 [Set 5 ''a'', Set 21 ''b'', Set 5 ''c'', Remove 5 False, Remove 7 True, Set 37 ''d''] rktio_hash_new = ok ht \<and>
    rktio_hash_get ht 21 = ok (Some ''b'') \<and> rktio_hash_get ht 5 = ok None"
proof -
  have "within_contract Map.empty False [Set 5 ''a'', Set 21 ''b'', Set 5 ''c'', Remove 5 False, Remove 7 True, Set 37 ''d'']"
    by simp
  from rktio_hash_refines_map [OF this, of 2] show ?thesis by (auto simp: fun_upd_def)
qed


section \<open>Keys and values\<close>

text \<open>Hashing a string gives a key that the table accepts.\<close>

lemma hash_string_nonneg: "0 \<le> rktio_hash_string s"
proof -
  have "0 \<le> sint (drop_bit 1 k)" for k :: "64 word"
  proof -
    have "\<not> bit (drop_bit 1 k) 63" by (auto simp: bit_drop_bit_eq dest: bit_imp_le_length)
    then show ?thesis using bit_last_iff [of "drop_bit 1 k"] by (simp add: not_less del: bit_drop_bit_eq)
  qed
  then show ?thesis by (simp add: rktio_hash_string_def Let_def)
qed

text \<open>Freeing a table with its values misses the value in the bucket with index 0.\<close>

lemma hash_free_misses_first:
  assumes "hash_ok ht" "buckets ht = Some bs"
  shows "rev (map snd (entries bs)) = rktio_hash_free ht True @ (case bval (hd bs) of None \<Rightarrow> [] | Some v \<Rightarrow> [v])"
proof -
  have "bs \<noteq> []" using assms by (auto simp: hash_ok_def)
  then obtain b bs' where bs: "bs = b # bs'" by (cases bs) auto
  have snd: "map snd (entries xs) = List.map_filter bval xs" for xs :: "'a bucket list"
    by (auto simp: entries_def List.map_filter_def)
  have "rktio_hash_free ht True = List.map_filter bval (rev bs')"
    using assms bs by (simp add: rktio_hash_free_def hash_ok_def nat_add_distrib)
  also have "\<dots> = rev (map snd (entries bs'))" by (simp add: snd List.map_filter_def rev_map rev_filter)
  finally show ?thesis using bs by (cases b; cases "bval b") simp_all
qed

end
