(* ===== verification/Rktio_Ltps.thy ===== *)
theory Rktio_Ltps
  imports Rktio_Hash_Map
begin

text \<open>
  Long-term poll sets, \<^verbatim>\<open>src/racket/src/rktio/rktio_ltps.c\<close>, in the configuration with
  \<^verbatim>\<open>epoll\<close>. A poll set keeps a hash table from file descriptors to pairs of handles, one for
  reading and one for writing, and a chain of the handles that were signaled.

  Pairs and handles live in a store from addresses to contents; \<^verbatim>\<open>malloc\<close> takes the next
  unused address and \<^verbatim>\<open>free\<close> removes one. Touching an address that is not in the store is a
  \<open>Fault\<close>. What the operating system answers is an argument, the calls of \<^verbatim>\<open>epoll_ctl\<close> are
  recorded in order.
\<close>

section \<open>Data\<close>

datatype handle_auto = Handle_None | Handle_Zero | Handle_Free

record ltps_handle =
  auto_mode :: handle_auto
  handle_data :: "nat option"
  next_handle :: "nat option"

record ltps_pair =
  read_handle :: "nat option"
  write_handle :: "nat option"

datatype epoll_call = Ctl_Add int bool bool | Ctl_Mod int bool bool | Ctl_Del int

record ltps =
  lt_fd :: int
  signaled :: "nat option"
  fd_handles :: "nat rktio_hash"
  pairs :: "nat \<rightharpoonup> ltps_pair"
  handles :: "nat \<rightharpoonup> ltps_handle"
  next_addr :: nat
  epoll_calls :: "epoll_call list"

datatype ltps_mode =
    Create_Read | Create_Write | Check_Read | Check_Write | Remove_Fd
  | Create_Vnode | Check_Vnode | Remove_Vnode

datatype ltps_error = Posix_Error | Unsupported | Ltps_Not_Found | Ltps_Removed

section \<open>The store\<close>

definition get_pair :: "ltps \<Rightarrow> nat \<Rightarrow> ltps_pair hash_res" where
  "get_pair lt v = (case pairs lt v of None \<Rightarrow> Some (Inl Fault) | Some p \<Rightarrow> ok p)"

definition set_pair :: "ltps \<Rightarrow> nat \<Rightarrow> ltps_pair \<Rightarrow> ltps hash_res" where
  "set_pair lt v p =
     (if pairs lt v = None then Some (Inl Fault) else ok (lt\<lparr>pairs := (pairs lt)(v \<mapsto> p)\<rparr>))"

definition free_pair :: "ltps \<Rightarrow> nat \<Rightarrow> ltps hash_res" where
  "free_pair lt v =
     (if pairs lt v = None then Some (Inl Fault) else ok (lt\<lparr>pairs := (pairs lt)(v := None)\<rparr>))"

definition get_handle :: "ltps \<Rightarrow> nat \<Rightarrow> ltps_handle hash_res" where
  "get_handle lt s = (case handles lt s of None \<Rightarrow> Some (Inl Fault) | Some h \<Rightarrow> ok h)"

definition set_handle :: "ltps \<Rightarrow> nat \<Rightarrow> ltps_handle \<Rightarrow> ltps hash_res" where
  "set_handle lt s h =
     (if handles lt s = None then Some (Inl Fault) else ok (lt\<lparr>handles := (handles lt)(s \<mapsto> h)\<rparr>))"

definition free_handle :: "ltps \<Rightarrow> nat \<Rightarrow> ltps hash_res" where
  "free_handle lt s =
     (if handles lt s = None then Some (Inl Fault) else ok (lt\<lparr>handles := (handles lt)(s := None)\<rparr>))"

definition emit :: "epoll_call \<Rightarrow> ltps \<Rightarrow> ltps" where
  "emit c lt = lt\<lparr>epoll_calls := epoll_calls lt @ [c]\<rparr>"

section \<open>Handles\<close>

definition make_ltps_handle_pair :: "ltps \<Rightarrow> nat \<times> ltps" where
  "make_ltps_handle_pair lt =
     (next_addr lt, lt\<lparr>next_addr := next_addr lt + 1,
        pairs := (pairs lt)(next_addr lt \<mapsto> \<lparr>read_handle = None, write_handle = None\<rparr>)\<rparr>)"

definition make_ltps_handle :: "ltps \<Rightarrow> nat \<times> ltps" where
  "make_ltps_handle lt =
     (next_addr lt, lt\<lparr>next_addr := next_addr lt + 1,
        handles := (handles lt)(next_addr lt \<mapsto> \<lparr>auto_mode = Handle_None, handle_data = None, next_handle = None\<rparr>)\<rparr>)"

definition ltps_signal_handle :: "ltps \<Rightarrow> nat \<Rightarrow> ltps hash_res" where
  "ltps_signal_handle lt s =
     hbind (get_handle lt s) (\<lambda>h.
       case auto_mode h of
         Handle_None \<Rightarrow>
           hbind (set_handle lt s (h\<lparr>next_handle := signaled lt\<rparr>)) (\<lambda>lt. ok (lt\<lparr>signaled := Some s\<rparr>))
       | Handle_Zero \<Rightarrow> set_handle lt s (h\<lparr>handle_data := None\<rparr>)
       | Handle_Free \<Rightarrow> free_handle lt s)"

definition signal_opt :: "ltps \<Rightarrow> nat option \<Rightarrow> ltps hash_res" where
  "signal_opt lt so = (case so of None \<Rightarrow> ok lt | Some s \<Rightarrow> ltps_signal_handle lt s)"

definition rktio_ltps_handle_set_data :: "ltps \<Rightarrow> nat \<Rightarrow> nat option \<Rightarrow> ltps hash_res" where
  "rktio_ltps_handle_set_data lt s data = hbind (get_handle lt s) (\<lambda>h. set_handle lt s (h\<lparr>handle_data := data\<rparr>))"

definition rktio_ltps_handle_get_data :: "ltps \<Rightarrow> nat \<Rightarrow> nat option hash_res" where
  "rktio_ltps_handle_get_data lt s = hbind (get_handle lt s) (\<lambda>h. ok (handle_data h))"

definition rktio_ltps_handle_set_auto :: "ltps \<Rightarrow> nat \<Rightarrow> handle_auto \<Rightarrow> ltps hash_res" where
  "rktio_ltps_handle_set_auto lt s am = hbind (get_handle lt s) (\<lambda>h. set_handle lt s (h\<lparr>auto_mode := am\<rparr>))"

section \<open>The table of descriptors\<close>

text \<open>Rehashing nests at most twice.\<close>

abbreviation rehash_depth :: nat where
  "rehash_depth \<equiv> Suc (Suc 0)"

definition ltps_hash_get :: "ltps \<Rightarrow> int \<Rightarrow> nat option hash_res" where
  "ltps_hash_get lt fd = rktio_hash_get (fd_handles lt) fd"

definition ltps_hash_set :: "ltps \<Rightarrow> int \<Rightarrow> nat \<Rightarrow> ltps hash_res" where
  "ltps_hash_set lt fd v =
     hbind (rktio_hash_set rehash_depth (fd_handles lt) fd v) (\<lambda>ht. ok (lt\<lparr>fd_handles := ht\<rparr>))"

definition ltps_hash_remove :: "ltps \<Rightarrow> int \<Rightarrow> bool \<Rightarrow> ltps hash_res" where
  "ltps_hash_remove lt fd dont_rehash =
     hbind (rktio_hash_remove rehash_depth (fd_handles lt) fd dont_rehash) (\<lambda>ht. ok (lt\<lparr>fd_handles := ht\<rparr>))"

definition rktio_ltps_open :: ltps where
  "rktio_ltps_open = \<lparr>lt_fd = - 1, signaled = None, fd_handles = rktio_hash_new,
     pairs = Map.empty, handles = Map.empty, next_addr = 0, epoll_calls = []\<rparr>"

definition rktio_ltps_get_fd :: "ltps \<Rightarrow> int" where
  "rktio_ltps_get_fd lt = lt_fd lt"

definition rktio_ltps_get_signaled_handle :: "ltps \<Rightarrow> (ltps \<times> nat option \<times> ltps_error option) hash_res" where
  "rktio_ltps_get_signaled_handle lt =
     (case signaled lt of
        None \<Rightarrow> ok (lt, None, Some Ltps_Not_Found)
      | Some s \<Rightarrow> hbind (get_handle lt s) (\<lambda>h. ok (lt\<lparr>signaled := next_handle h\<rparr>, Some s, None)))"

section \<open>Adding and removing\<close>

text \<open>
  The answers of the system: whether the descriptor is still being opened, the result of
  \<^verbatim>\<open>epoll_create\<close>, and whether \<^verbatim>\<open>epoll_ctl\<close> fails with \<^verbatim>\<open>EPERM\<close>.
\<close>

record add_answers =
  pending_open :: bool
  created_fd :: int
  ctl_eperm :: bool

type_synonym add_result = "ltps \<times> nat option \<times> ltps_error option"

definition add_remove :: "ltps \<Rightarrow> int \<Rightarrow> nat \<Rightarrow> add_result hash_res" where
  "add_remove lt fd v =
     hbind (get_pair lt v) (\<lambda>p.
     hbind (signal_opt lt (read_handle p)) (\<lambda>lt.
     hbind (get_pair lt v) (\<lambda>p.
     hbind (signal_opt lt (write_handle p)) (\<lambda>lt.
     hbind (ltps_hash_remove lt fd False) (\<lambda>lt.
     hbind (free_pair (emit (Ctl_Del fd) lt) v) (\<lambda>lt.
     ok (lt, None, Some Ltps_Removed)))))))"

definition add_read :: "ltps \<Rightarrow> int \<Rightarrow> nat \<Rightarrow> ltps_mode \<Rightarrow> add_answers \<Rightarrow> add_result hash_res" where
  "add_read lt fd v mode os =
     hbind (get_pair lt v) (\<lambda>p.
       case read_handle p of
         Some s \<Rightarrow> ok (lt, Some s, None)
       | None \<Rightarrow>
           if mode = Create_Read \<or> mode = Create_Vnode then
             let (s, lt) = make_ltps_handle lt in
             hbind (set_pair lt v (p\<lparr>read_handle := Some s\<rparr>)) (\<lambda>lt.
               let already = write_handle p \<noteq> None;
                   lt = emit (if already then Ctl_Mod fd True True else Ctl_Add fd True False) lt in
               if ctl_eperm os then
                 hbind (set_pair lt v (p\<lparr>read_handle := None\<rparr>)) (\<lambda>lt.
                 hbind (if write_handle p = None then hbind (ltps_hash_remove lt fd False) (\<lambda>lt. free_pair lt v)
                        else ok lt) (\<lambda>lt.
                 hbind (free_handle lt s) (\<lambda>lt. ok (lt, None, None))))
               else ok (lt, Some s, None))
           else ok (lt, None, None))"

definition add_write :: "ltps \<Rightarrow> int \<Rightarrow> nat \<Rightarrow> ltps_mode \<Rightarrow> add_answers \<Rightarrow> add_result hash_res" where
  "add_write lt fd v mode os =
     hbind (get_pair lt v) (\<lambda>p.
       case write_handle p of
         Some s \<Rightarrow> ok (lt, Some s, None)
       | None \<Rightarrow>
           if mode = Create_Write then
             let (s, lt) = make_ltps_handle lt in
             hbind (set_pair lt v (p\<lparr>write_handle := Some s\<rparr>)) (\<lambda>lt.
               let already = read_handle p \<noteq> None;
                   lt = emit (if already then Ctl_Mod fd True True else Ctl_Add fd False True) lt in
               if ctl_eperm os then
                 hbind (set_pair lt v (p\<lparr>write_handle := None\<rparr>)) (\<lambda>lt.
                 hbind (if read_handle p = None then hbind (ltps_hash_remove lt fd False) (\<lambda>lt. free_pair lt v)
                        else ok lt) (\<lambda>lt.
                 hbind (free_handle lt s) (\<lambda>lt. ok (lt, None, None))))
               else ok (lt, Some s, None))
           else ok (lt, None, None))"

definition add_mode :: "ltps \<Rightarrow> int \<Rightarrow> nat \<Rightarrow> ltps_mode \<Rightarrow> add_answers \<Rightarrow> add_result hash_res" where
  "add_mode lt fd v mode os =
     (if mode = Remove_Fd \<or> mode = Remove_Vnode then add_remove lt fd v
      else if mode = Check_Read \<or> mode = Create_Read \<or> mode = Check_Vnode \<or> mode = Create_Vnode then
        add_read lt fd v mode os
      else if mode = Check_Write \<or> mode = Create_Write then add_write lt fd v mode os
      else ok (lt, None, None))"

definition add_to_set :: "ltps \<Rightarrow> int \<Rightarrow> ltps_mode \<Rightarrow> add_answers \<Rightarrow> add_result hash_res" where
  "add_to_set lt fd mode os =
     hbind (ltps_hash_get lt fd) (\<lambda>vo.
       case vo of
         None \<Rightarrow>
           if mode = Check_Read \<or> mode = Check_Write \<or> mode = Check_Vnode \<or> mode = Remove_Fd \<or> mode = Remove_Vnode then
             ok (lt, None, Some Ltps_Not_Found)
           else
             let (v, lt) = make_ltps_handle_pair lt in
             hbind (ltps_hash_set lt fd v) (\<lambda>lt. add_mode lt fd v mode os)
       | Some v \<Rightarrow> add_mode lt fd v mode os)"

definition rktio_ltps_add :: "ltps \<Rightarrow> int \<Rightarrow> ltps_mode \<Rightarrow> add_answers \<Rightarrow> add_result hash_res" where
  "rktio_ltps_add lt fd mode os =
     (if pending_open os then ok (lt, None, Some Unsupported)
      else if lt_fd lt < 0 then
        (let lt = lt\<lparr>lt_fd := created_fd os\<rparr> in
         if lt_fd lt < 0 then ok (lt, None, Some Posix_Error) else add_to_set lt fd mode os)
      else add_to_set lt fd mode os)"

section \<open>Polling\<close>

record epoll_event =
  ev_fd :: int
  ev_in :: bool
  ev_out :: bool
  ev_hup :: bool
  ev_err :: bool

definition poll_read :: "ltps \<Rightarrow> nat \<Rightarrow> bool \<Rightarrow> (ltps \<times> bool) hash_res" where
  "poll_read lt v hit =
     hbind (get_pair lt v) (\<lambda>p.
       case read_handle p of
         None \<Rightarrow> ok (lt, hit)
       | Some s \<Rightarrow>
           hbind (ltps_signal_handle lt s) (\<lambda>lt.
           hbind (get_pair lt v) (\<lambda>p.
           hbind (set_pair lt v (p\<lparr>read_handle := None\<rparr>)) (\<lambda>lt. ok (lt, True)))))"

definition poll_write :: "ltps \<Rightarrow> nat \<Rightarrow> bool \<Rightarrow> (ltps \<times> bool) hash_res" where
  "poll_write lt v hit =
     hbind (get_pair lt v) (\<lambda>p.
       case write_handle p of
         None \<Rightarrow> ok (lt, hit)
       | Some s \<Rightarrow>
           hbind (ltps_signal_handle lt s) (\<lambda>lt.
           hbind (get_pair lt v) (\<lambda>p.
           hbind (set_pair lt v (p\<lparr>write_handle := None\<rparr>)) (\<lambda>lt. ok (lt, True)))))"

definition poll_event :: "epoll_event \<Rightarrow> ltps \<Rightarrow> bool \<Rightarrow> (ltps \<times> bool) hash_res" where
  "poll_event ev lt hit =
     hbind (ltps_hash_get lt (ev_fd ev)) (\<lambda>vo.
       case vo of
         None \<Rightarrow> ok (lt, hit)
       | Some v \<Rightarrow>
           hbind (if ev_in ev \<or> ev_hup ev \<or> ev_err ev then poll_read lt v hit else ok (lt, hit)) (\<lambda>(lt, hit).
           hbind (if ev_out ev \<or> ev_hup ev \<or> ev_err ev then poll_write lt v hit else ok (lt, hit)) (\<lambda>(lt, hit).
           hbind (get_pair lt v) (\<lambda>p.
             if read_handle p = None \<and> write_handle p = None then
               hbind (ltps_hash_remove lt (ev_fd ev) False) (\<lambda>lt.
               hbind (free_pair lt v) (\<lambda>lt. ok (emit (Ctl_Del (ev_fd ev)) lt, hit)))
             else
               ok (emit (Ctl_Mod (ev_fd ev) (read_handle p \<noteq> None) (write_handle p \<noteq> None)) lt, hit)))))"

text \<open>The loop takes the events that \<^verbatim>\<open>epoll_wait\<close> delivers until there is none.\<close>

fun poll_loop :: "epoll_event list \<Rightarrow> ltps \<Rightarrow> bool \<Rightarrow> (ltps \<times> bool) hash_res" where
  "poll_loop [] lt hit = ok (lt, hit)"
| "poll_loop (ev # evs) lt hit = hbind (poll_event ev lt hit) (\<lambda>(lt, hit). poll_loop evs lt hit)"

definition rktio_ltps_poll :: "ltps \<Rightarrow> epoll_event list \<Rightarrow> (ltps \<times> bool) hash_res" where
  "rktio_ltps_poll lt evs = (if lt_fd lt < 0 then ok (lt, False) else poll_loop evs lt False)"

section \<open>Closing\<close>

definition remove_at :: "int \<Rightarrow> ltps \<Rightarrow> ltps hash_res" where
  "remove_at i lt =
     (case rktio_hash_get_key (fd_handles lt) i of
        Inl e \<Rightarrow> Some (Inl e)
      | Inr fd \<Rightarrow>
          if fd \<noteq> - 1 then
            hbind (ltps_hash_get lt fd) (\<lambda>vo.
              case vo of
                None \<Rightarrow> ok lt
              | Some v \<Rightarrow>
                  hbind (get_pair lt v) (\<lambda>p.
                  hbind (signal_opt lt (read_handle p)) (\<lambda>lt.
                  hbind (get_pair lt v) (\<lambda>p.
                  hbind (signal_opt lt (write_handle p)) (\<lambda>lt.
                  hbind (ltps_hash_remove lt fd True) (\<lambda>lt. free_pair lt v))))))
          else ok lt)"

fun remove_loop_all :: "int list \<Rightarrow> ltps \<Rightarrow> ltps hash_res" where
  "remove_loop_all [] lt = ok lt"
| "remove_loop_all (i # is) lt = hbind (remove_at i lt) (remove_loop_all is)"

definition rktio_ltps_remove_all :: "ltps \<Rightarrow> ltps hash_res" where
  "rktio_ltps_remove_all lt = remove_loop_all (map int [0..<nat (rktio_hash_size (fd_handles lt))]) lt"

partial_function (option) free_signaled :: "ltps \<Rightarrow> ltps hash_res" where
  "free_signaled lt =
     (case rktio_ltps_get_signaled_handle lt of
        None \<Rightarrow> None
      | Some (Inl e) \<Rightarrow> Some (Inl e)
      | Some (Inr (lt, so, err)) \<Rightarrow>
          (case so of None \<Rightarrow> ok lt
           | Some s \<Rightarrow> (case free_handle lt s of
               None \<Rightarrow> None | Some (Inl e) \<Rightarrow> Some (Inl e) | Some (Inr lt) \<Rightarrow> free_signaled lt)))"

declare free_signaled.simps [code]

fun free_pairs :: "nat list \<Rightarrow> ltps \<Rightarrow> ltps hash_res" where
  "free_pairs [] lt = ok lt"
| "free_pairs (v # vs) lt = hbind (free_pair lt v) (free_pairs vs)"

text \<open>Closing returns the store that it leaves behind.\<close>

definition rktio_ltps_close :: "ltps \<Rightarrow> ltps hash_res" where
  "rktio_ltps_close lt =
     hbind (rktio_ltps_remove_all lt) (\<lambda>lt.
     hbind (free_signaled lt) (\<lambda>lt.
     free_pairs (rktio_hash_free (fd_handles lt) True) lt))"

end
