(* ===== verification/Rktio_Ltps_Spec.thy ===== *)
theory Rktio_Ltps_Spec
  imports Rktio_Ltps
begin

text \<open>
  What a long-term poll set promises, and that the code keeps the promise: the abstract state
  says which handle waits for which descriptor and direction, which handles are queued as
  signaled and which are alive; each operation of the code simulates an abstract one. In
  particular no operation touches freed memory, and closing frees everything.
\<close>

section \<open>The specification\<close>

text \<open>A place where a handle waits: a descriptor, and whether it is for reading.\<close>

type_synonym place = "int \<times> bool"

record ltps_spec =
  epoll_fd :: int
  waiting :: "place \<rightharpoonup> nat"
  queue :: "nat list"
  alive :: "nat \<rightharpoonup> handle_auto \<times> nat option"

definition spec_open :: ltps_spec where
  "spec_open = \<lparr>epoll_fd = - 1, waiting = Map.empty, queue = [], alive = Map.empty\<rparr>"

definition spec_signal :: "nat \<Rightarrow> ltps_spec \<Rightarrow> ltps_spec" where
  "spec_signal s A =
     (case alive A s of
        None \<Rightarrow> A
      | Some (Handle_None, d) \<Rightarrow> A\<lparr>queue := s # queue A\<rparr>
      | Some (Handle_Zero, d) \<Rightarrow> A\<lparr>alive := (alive A)(s \<mapsto> (Handle_Zero, None))\<rparr>
      | Some (Handle_Free, d) \<Rightarrow> A\<lparr>alive := (alive A)(s := None)\<rparr>)"

definition spec_fire :: "place \<Rightarrow> ltps_spec \<Rightarrow> ltps_spec" where
  "spec_fire x A =
     (case waiting A x of None \<Rightarrow> A | Some s \<Rightarrow> spec_signal s (A\<lparr>waiting := (waiting A)(x := None)\<rparr>))"

definition spec_remove :: "int \<Rightarrow> ltps_spec \<Rightarrow> ltps_spec" where
  "spec_remove fd A = spec_fire (fd, False) (spec_fire (fd, True) A)"

definition spec_event :: "epoll_event \<Rightarrow> ltps_spec \<times> bool \<Rightarrow> ltps_spec \<times> bool" where
  "spec_event ev = (\<lambda>(A, hit).
     let r = ev_in ev \<or> ev_hup ev \<or> ev_err ev;
         w = ev_out ev \<or> ev_hup ev \<or> ev_err ev;
         fd = ev_fd ev;
         A1 = (if r then spec_fire (fd, True) A else A);
         A2 = (if w then spec_fire (fd, False) A1 else A1) in
     (A2, hit \<or> r \<and> waiting A (fd, True) \<noteq> None \<or> w \<and> waiting A (fd, False) \<noteq> None))"

fun mode_reads :: "ltps_mode \<Rightarrow> bool" where
  "mode_reads Create_Read = True"
| "mode_reads Create_Vnode = True"
| "mode_reads Check_Read = True"
| "mode_reads Check_Vnode = True"
| "mode_reads _ = False"

fun mode_creates :: "ltps_mode \<Rightarrow> bool" where
  "mode_creates Create_Read = True"
| "mode_creates Create_Vnode = True"
| "mode_creates Create_Write = True"
| "mode_creates _ = False"

fun mode_removes :: "ltps_mode \<Rightarrow> bool" where
  "mode_removes Remove_Fd = True"
| "mode_removes Remove_Vnode = True"
| "mode_removes _ = False"

definition spec_known :: "ltps_spec \<Rightarrow> int \<Rightarrow> bool" where
  "spec_known A fd = (waiting A (fd, True) \<noteq> None \<or> waiting A (fd, False) \<noteq> None)"

text \<open>Adding, with the address \<open>s\<close> for a new handle.\<close>

definition spec_add_open ::
  "int \<Rightarrow> ltps_mode \<Rightarrow> add_answers \<Rightarrow> nat \<Rightarrow> ltps_spec \<Rightarrow> ltps_spec \<times> nat option \<times> ltps_error option" where
  "spec_add_open fd mode os s A =
     (let x = (fd, mode_reads mode) in
      if mode_removes mode then
        (if spec_known A fd then (spec_remove fd A, None, Some Ltps_Removed) else (A, None, Some Ltps_Not_Found))
      else case waiting A x of
        Some s' \<Rightarrow> (A, Some s', None)
      | None \<Rightarrow>
          if mode_creates mode then
            if ctl_eperm os then (A, None, None)
            else (A\<lparr>waiting := (waiting A)(x \<mapsto> s), alive := (alive A)(s \<mapsto> (Handle_None, None))\<rparr>, Some s, None)
          else (A, None, if spec_known A fd then None else Some Ltps_Not_Found))"

definition spec_add ::
  "int \<Rightarrow> ltps_mode \<Rightarrow> add_answers \<Rightarrow> nat \<Rightarrow> ltps_spec \<Rightarrow> ltps_spec \<times> nat option \<times> ltps_error option" where
  "spec_add fd mode os s A =
     (if pending_open os then (A, None, Some Unsupported)
      else if epoll_fd A < 0 then
        (let A = A\<lparr>epoll_fd := created_fd os\<rparr> in
         if created_fd os < 0 then (A, None, Some Posix_Error) else spec_add_open fd mode os s A)
      else spec_add_open fd mode os s A)"

section \<open>The relation between code and specification\<close>

fun chain :: "(nat \<rightharpoonup> ltps_handle) \<Rightarrow> nat option \<Rightarrow> nat list \<Rightarrow> bool" where
  "chain hs p [] = (p = None)"
| "chain hs p (s # ss) = (p = Some s \<and> (case hs s of None \<Rightarrow> False | Some h \<Rightarrow> chain hs (next_handle h) ss))"

definition slot :: "(nat \<rightharpoonup> ltps_pair) \<Rightarrow> nat \<times> bool \<Rightarrow> nat option" where
  "slot ps = (\<lambda>(v, b). case ps v of None \<Rightarrow> None | Some p \<Rightarrow> if b then read_handle p else write_handle p)"

definition table :: "ltps \<Rightarrow> int \<rightharpoonup> nat" where
  "table lt = hash_map (fd_handles lt)"

definition wait_map :: "ltps \<Rightarrow> place \<rightharpoonup> nat" where
  "wait_map lt = (\<lambda>(fd, b). case table lt fd of None \<Rightarrow> None | Some v \<Rightarrow> slot (pairs lt) (v, b))"

definition handle_view :: "ltps_handle \<Rightarrow> handle_auto \<times> nat option" where
  "handle_view h = (auto_mode h, handle_data h)"

text \<open>
  The handles, given which ones wait in slots: the chain of signaled ones is a list without
  repetition, and no handle is in two places.
\<close>

definition handles_ok :: "ltps \<Rightarrow> (nat \<times> bool \<rightharpoonup> nat) \<Rightarrow> ltps_spec \<Rightarrow> bool" where
  "handles_ok lt S A =
     (chain (handles lt) (signaled lt) (queue A) \<and> distinct (queue A) \<and>
      (\<forall>x s. S x = Some s \<longrightarrow> handles lt s \<noteq> None \<and> s \<notin> set (queue A)) \<and>
      (\<forall>x y s. S x = Some s \<and> S y = Some s \<longrightarrow> x = y) \<and>
      alive A = (\<lambda>s. map_option handle_view (handles lt s)) \<and>
      (\<forall>s. handles lt s \<noteq> None \<longrightarrow> s < next_addr lt))"

text \<open>The pairs are exactly those the table refers to, each by one descriptor.\<close>

definition pairs_ok :: "ltps \<Rightarrow> bool" where
  "pairs_ok lt =
     (hash_ok (fd_handles lt) \<and>
      (\<forall>fd fd' v. table lt fd = Some v \<and> table lt fd' = Some v \<longrightarrow> fd = fd') \<and>
      (\<forall>v. pairs lt v \<noteq> None \<longleftrightarrow> (\<exists>fd. table lt fd = Some v)) \<and>
      (\<forall>v. pairs lt v \<noteq> None \<longrightarrow> v < next_addr lt))"

definition full_pairs :: "ltps \<Rightarrow> bool" where
  "full_pairs lt = (\<forall>v p. pairs lt v = Some p \<longrightarrow> read_handle p \<noteq> None \<or> write_handle p \<noteq> None)"

text \<open>Between the steps of an operation a pair may be empty.\<close>

definition weakly_related :: "ltps \<Rightarrow> ltps_spec \<Rightarrow> bool" where
  "weakly_related lt A =
     (pairs_ok lt \<and> handles_ok lt (slot (pairs lt)) A \<and> waiting A = wait_map lt \<and> epoll_fd A = lt_fd lt)"

definition related :: "ltps \<Rightarrow> ltps_spec \<Rightarrow> bool" where
  "related lt A = (weakly_related lt A \<and> full_pairs lt)"

section \<open>Signaling\<close>

lemma chain_update: "s \<notin> set ss \<Longrightarrow> chain (hs(s := r)) p ss = chain hs p ss"
  by (induction ss arbitrary: p) (auto split: option.splits)

lemma chain_alive: "chain hs p ss \<Longrightarrow> s \<in> set ss \<Longrightarrow> hs s \<noteq> None"
  by (induction ss arbitrary: p) (auto split: option.splits)

lemma signal_ok:
  assumes "handles_ok lt S A" "S x = Some s"
  shows "\<exists>hs sg. ltps_signal_handle lt s = ok (lt\<lparr>handles := hs, signaled := sg\<rparr>) \<and>
    handles_ok (lt\<lparr>handles := hs, signaled := sg\<rparr>) (S(x := None)) (spec_signal s A)"
proof -
  have fresh: "s \<notin> set (queue A)" "\<And>y. y \<noteq> x \<Longrightarrow> S y \<noteq> Some s"
    using assms unfolding handles_ok_def by blast+
  obtain h where h: "handles lt s = Some h" using assms unfolding handles_ok_def by blast
  have al: "alive A s = Some (auto_mode h, handle_data h)"
    using assms(1) h by (simp add: handles_ok_def handle_view_def)
  show ?thesis
  proof (cases "auto_mode h")
    case Handle_None
    let ?hs = "(handles lt)(s \<mapsto> h\<lparr>next_handle := signaled lt\<rparr>)"
    have "handles_ok (lt\<lparr>handles := ?hs, signaled := Some s\<rparr>) (S(x := None)) (spec_signal s A)"
      using assms(1) fresh h al Handle_None
      by (auto simp: handles_ok_def spec_signal_def chain_update handle_view_def fun_eq_iff)
    then show ?thesis using h Handle_None by (auto simp: ltps_signal_handle_def get_handle_def set_handle_def)
  next
    case Handle_Zero
    let ?hs = "(handles lt)(s \<mapsto> h\<lparr>handle_data := None\<rparr>)"
    have "handles_ok (lt\<lparr>handles := ?hs, signaled := signaled lt\<rparr>) (S(x := None)) (spec_signal s A)"
      using assms(1) fresh h al Handle_Zero
      by (auto simp: handles_ok_def spec_signal_def chain_update handle_view_def fun_eq_iff)
    then show ?thesis using h Handle_Zero
      by (intro exI [of _ ?hs] exI [of _ "signaled lt"]) (simp add: ltps_signal_handle_def get_handle_def set_handle_def)
  next
    case Handle_Free
    let ?hs = "(handles lt)(s := None)"
    have "handles_ok (lt\<lparr>handles := ?hs, signaled := signaled lt\<rparr>) (S(x := None)) (spec_signal s A)"
      using assms(1) fresh h al Handle_Free
      by (auto simp: handles_ok_def spec_signal_def chain_update handle_view_def fun_eq_iff)
    then show ?thesis using h Handle_Free
      by (intro exI [of _ ?hs] exI [of _ "signaled lt"]) (simp add: ltps_signal_handle_def get_handle_def free_handle_def)
  qed
qed

lemma spec_signal_waiting [simp]:
  "spec_signal s (A\<lparr>waiting := w\<rparr>) = (spec_signal s A)\<lparr>waiting := w\<rparr>"
  "waiting (spec_signal s A) = waiting A" "epoll_fd (spec_signal s A) = epoll_fd A"
  by (auto simp: spec_signal_def split: option.splits handle_auto.splits)

lemma spec_fire_fields [simp]:
  "waiting (spec_fire x A) = (waiting A)(x := None)" "epoll_fd (spec_fire x A) = epoll_fd A"
  by (auto simp: spec_fire_def split: option.splits)

lemma spec_fire_idle: "waiting A x = None \<Longrightarrow> spec_fire x A = A"
  by (simp add: spec_fire_def)

lemma handles_ok_frame [simp]:
  "handles_ok lt S (A\<lparr>waiting := w\<rparr>) = handles_ok lt S A"
  "handles_ok lt S (A\<lparr>epoll_fd := e\<rparr>) = handles_ok lt S A"
  "handles_ok (lt\<lparr>pairs := ps\<rparr>) S A = handles_ok lt S A"
  "handles_ok (lt\<lparr>fd_handles := ht\<rparr>) S A = handles_ok lt S A"
  "handles_ok (lt\<lparr>lt_fd := e\<rparr>) S A = handles_ok lt S A"
  "handles_ok (emit c lt) S A = handles_ok lt S A"
  by (simp_all add: handles_ok_def emit_def)

lemma fire_slot:
  assumes "handles_ok lt S A" "waiting A x = S y"
  shows "\<exists>hs sg. signal_opt lt (S y) = ok (lt\<lparr>handles := hs, signaled := sg\<rparr>) \<and>
    handles_ok (lt\<lparr>handles := hs, signaled := sg\<rparr>) (S(y := None)) (spec_fire x A)"
proof (cases "S y")
  case None
  have "lt\<lparr>handles := handles lt, signaled := signaled lt\<rparr> = lt" by simp
  then show ?thesis using None assms
    by (intro exI [of _ "handles lt"] exI [of _ "signaled lt"])
      (simp add: signal_opt_def spec_fire_def fun_upd_idem)
next
  case (Some s)
  then show ?thesis using signal_ok [OF assms(1) Some] assms(2) by (simp add: signal_opt_def spec_fire_def)
qed

section \<open>Pairs and slots\<close>

lemma slot_simps [simp]:
  "ps v = Some p \<Longrightarrow> slot ps (v, True) = read_handle p"
  "ps v = Some p \<Longrightarrow> slot ps (v, False) = write_handle p"
  "ps v = None \<Longrightarrow> slot ps (v, b) = None"
  by (simp_all add: slot_def)

lemma slot_other [simp]: "v \<noteq> v' \<Longrightarrow> slot (ps(v := r)) (v', b) = slot ps (v', b)"
  by (simp add: slot_def)

lemma slot_free: "slot (ps(v := None)) = (slot ps)((v, True) := None, (v, False) := None)"
  by (auto simp: slot_def fun_eq_iff)

lemma slot_clear:
  "ps v = Some p \<Longrightarrow> slot (ps(v \<mapsto> p\<lparr>read_handle := r\<rparr>)) = (slot ps)((v, True) := r)"
  "ps v = Some p \<Longrightarrow> slot (ps(v \<mapsto> p\<lparr>write_handle := r\<rparr>)) = (slot ps)((v, False) := r)"
  by (auto simp: slot_def fun_eq_iff)

lemma wait_map_known: "table lt fd = Some v \<Longrightarrow> wait_map lt (fd, b) = slot (pairs lt) (v, b)"
  by (simp add: wait_map_def)

lemma ext_pair: "(\<And>a b. f (a, b) = g (a, b)) \<Longrightarrow> f = g"
  by auto

lemma lt_frame [simp]:
  "table (lt\<lparr>handles := hs\<rparr>) = table lt" "table (lt\<lparr>signaled := sg\<rparr>) = table lt" "table (lt\<lparr>pairs := ps\<rparr>) = table lt"
  "table (lt\<lparr>next_addr := n\<rparr>) = table lt" "table (emit c lt) = table lt" "table (lt\<lparr>lt_fd := e\<rparr>) = table lt"
  "table (lt\<lparr>fd_handles := ht\<rparr>) = hash_map ht"
  "pairs (emit c lt) = pairs lt" "handles (emit c lt) = handles lt" "fd_handles (emit c lt) = fd_handles lt"
  "next_addr (emit c lt) = next_addr lt" "lt_fd (emit c lt) = lt_fd lt"
  by (simp_all add: table_def emit_def)

lemma pairs_frame [simp]:
  "pairs_ok (lt\<lparr>handles := hs\<rparr>) = pairs_ok lt" "pairs_ok (lt\<lparr>signaled := sg\<rparr>) = pairs_ok lt"
  "pairs_ok (emit c lt) = pairs_ok lt" "pairs_ok (lt\<lparr>lt_fd := e\<rparr>) = pairs_ok lt"
  "wait_map (lt\<lparr>handles := hs\<rparr>) = wait_map lt" "wait_map (lt\<lparr>signaled := sg\<rparr>) = wait_map lt"
  "wait_map (emit c lt) = wait_map lt" "wait_map (lt\<lparr>lt_fd := e\<rparr>) = wait_map lt"
  "wait_map (lt\<lparr>next_addr := n\<rparr>) = wait_map lt"
  "full_pairs (lt\<lparr>handles := hs\<rparr>) = full_pairs lt" "full_pairs (lt\<lparr>signaled := sg\<rparr>) = full_pairs lt"
  "full_pairs (emit c lt) = full_pairs lt" "full_pairs (lt\<lparr>lt_fd := e\<rparr>) = full_pairs lt"
  "full_pairs (lt\<lparr>fd_handles := ht\<rparr>) = full_pairs lt"
  by (simp_all add: pairs_ok_def wait_map_def full_pairs_def cong: option.case_cong)

lemma wait_map_slot:
  assumes "pairs_ok lt" "table lt fd = Some v" "slot ps' = (slot (pairs lt))((v, b) := r)"
  shows "wait_map (lt\<lparr>pairs := ps'\<rparr>) = (wait_map lt)((fd, b) := r)"
proof
  fix x :: place
  obtain fd' b' where x: "x = (fd', b')" by (cases x)
  have "table lt fd' = Some v \<Longrightarrow> fd' = fd" using assms(1,2) unfolding pairs_ok_def by blast
  then show "wait_map (lt\<lparr>pairs := ps'\<rparr>) x = ((wait_map lt)((fd, b) := r)) x"
    using assms(2) x by (cases "table lt fd'") (auto simp: wait_map_def assms(3))
qed

lemma pairs_ok_remove:
  assumes "pairs_ok lt" "table lt fd = Some v" "hash_ok ht" "hash_map ht = (table lt)(fd := None)"
  shows "pairs_ok (lt\<lparr>fd_handles := ht, pairs := (pairs lt)(v := None)\<rparr>)"
    "wait_map (lt\<lparr>fd_handles := ht, pairs := (pairs lt)(v := None)\<rparr>)
      = (wait_map lt)((fd, True) := None, (fd, False) := None)"
proof -
  have inj: "table lt fd' = Some v \<Longrightarrow> fd' = fd" for fd' using assms(1,2) unfolding pairs_ok_def by blast
  let ?lt' = "lt\<lparr>fd_handles := ht, pairs := (pairs lt)(v := None)\<rparr>"
  have t: "hash_map ht fd' = (if fd' = fd then None else table lt fd')" for fd'
    by (simp add: assms(4))
  have pv: "pairs lt v' \<noteq> None \<longleftrightarrow> (\<exists>fd. table lt fd = Some v')" for v' using assms(1) by (simp add: pairs_ok_def)
  have "pairs ?lt' v' \<noteq> None \<longleftrightarrow> (\<exists>fd. table ?lt' fd = Some v')" for v'
  proof (cases "v' = v")
    case True
    have "hash_map ht fd' \<noteq> Some v" for fd' using inj by (cases "fd' = fd") (auto simp: t)
    then show ?thesis using True by simp
  next
    case False
    then have "(\<exists>fd. table lt fd = Some v') \<longleftrightarrow> (\<exists>fd. hash_map ht fd = Some v')"
      unfolding t by (metis assms(2) option.inject option.distinct(1))
    then show ?thesis using False pv [of v'] by simp
  qed
  moreover have "fd1 = fd2" if "table ?lt' fd1 = Some v'" "table ?lt' fd2 = Some v'" for fd1 fd2 v'
    using that assms(1) by (auto simp: t pairs_ok_def split: if_splits)
  moreover have "v' < next_addr ?lt'" if "pairs ?lt' v' \<noteq> None" for v'
    using that assms(1) by (auto simp: pairs_ok_def split: if_splits)
  moreover have "hash_ok (fd_handles ?lt')" using assms(3) by simp
  ultimately show "pairs_ok ?lt'" unfolding pairs_ok_def by blast
  have "wait_map ?lt' (fd', b) = ((wait_map lt)((fd, True) := None, (fd, False) := None)) (fd', b)" for fd' b
    using inj by (cases "table lt fd'") (auto simp: wait_map_def t slot_free)
  then show "wait_map ?lt' = (wait_map lt)((fd, True) := None, (fd, False) := None)" by (rule ext_pair)
qed

lemma table_pair:
  assumes "pairs_ok lt" "table lt fd = Some v"
  obtains p where "pairs lt v = Some p"
  using assms unfolding pairs_ok_def by blast

lemma full_remove: "full_pairs lt \<Longrightarrow> full_pairs (lt\<lparr>pairs := (pairs lt)(v := None)\<rparr>)"
  by (simp add: full_pairs_def)

text \<open>Signaling both handles of a pair, and taking it out of the table.\<close>

lemma remove_steps:
  assumes R: "related lt A" and fd: "table lt fd = Some v" and p: "pairs lt v = Some p"
    and del: "rktio_hash_remove rehash_depth (fd_handles lt) fd dr = ok ht" "hash_ok ht"
      "hash_map ht = (table lt)(fd := None)"
  obtains lt1 lt2 where "signal_opt lt (read_handle p) = ok lt1" "get_pair lt1 v = ok p"
    "signal_opt lt1 (write_handle p) = ok lt2" "ltps_hash_remove lt2 fd dr = ok (lt2\<lparr>fd_handles := ht\<rparr>)"
    "pairs lt2 = pairs lt" "related (lt2\<lparr>fd_handles := ht, pairs := (pairs lt)(v := None)\<rparr>) (spec_remove fd A)"
proof -
  have po: "pairs_ok lt" and ho: "handles_ok lt (slot (pairs lt)) A" and w: "waiting A = wait_map lt"
    and fp: "full_pairs lt" and e: "epoll_fd A = lt_fd lt"
    using R by (auto simp: related_def weakly_related_def)
  let ?S = "slot (pairs lt)"
  have "waiting A (fd, True) = ?S (v, True)" using w wait_map_known [OF fd] by simp
  then obtain hs1 sg1 where s1: "signal_opt lt (?S (v, True)) = ok (lt\<lparr>handles := hs1, signaled := sg1\<rparr>)"
    "handles_ok (lt\<lparr>handles := hs1, signaled := sg1\<rparr>) (?S((v, True) := None)) (spec_fire (fd, True) A)"
    using fire_slot [OF ho] by blast
  let ?lt1 = "lt\<lparr>handles := hs1, signaled := sg1\<rparr>"
  have "waiting (spec_fire (fd, True) A) (fd, False) = (?S((v, True) := None)) (v, False)"
    using w wait_map_known [OF fd] by simp
  then obtain hs2 sg2 where s2: "signal_opt ?lt1 (?S (v, False)) = ok (?lt1\<lparr>handles := hs2, signaled := sg2\<rparr>)"
    "handles_ok (?lt1\<lparr>handles := hs2, signaled := sg2\<rparr>) (?S((v, True) := None, (v, False) := None)) (spec_remove fd A)"
    using fire_slot [OF s1(2)] unfolding spec_remove_def by (metis fun_upd_other prod.inject)
  let ?lt2 = "?lt1\<lparr>handles := hs2, signaled := sg2\<rparr>"
  have d: "pairs_ok (?lt2\<lparr>fd_handles := ht, pairs := (pairs ?lt2)(v := None)\<rparr>)"
    "wait_map (?lt2\<lparr>fd_handles := ht, pairs := (pairs ?lt2)(v := None)\<rparr>)
      = (wait_map ?lt2)((fd, True) := None, (fd, False) := None)"
    by (intro pairs_ok_remove; use po fd del(2,3) in simp)+
  have "related (?lt2\<lparr>fd_handles := ht, pairs := (pairs lt)(v := None)\<rparr>) (spec_remove fd A)"
    using d s2(2) w e fp by (simp add: related_def weakly_related_def slot_free spec_remove_def full_pairs_def)
  then show ?thesis
    using that [of ?lt1 ?lt2] s1(1) s2(1) p del(1) by (simp add: get_pair_def ltps_hash_remove_def)
qed

section \<open>Adding and removing\<close>

lemma related_emit [simp]: "related (emit c lt) A = related lt A"
  by (simp add: related_def weakly_related_def)

lemma hash_del:
  assumes "pairs_ok lt" "table lt fd = Some v"
  obtains ht where "rktio_hash_remove rehash_depth (fd_handles lt) fd dr = ok ht" "hash_ok ht"
    "hash_map ht = (table lt)(fd := None)"
  using assms ht.del_present [of "fd_handles lt" fd v 0 dr] by (auto simp: pairs_ok_def table_def)

lemma add_remove_ok:
  assumes R: "related lt A" and fd: "table lt fd = Some v"
  shows "\<exists>lt'. add_remove lt fd v = ok (lt', None, Some Ltps_Removed) \<and> related lt' (spec_remove fd A)"
proof -
  have po: "pairs_ok lt" using R by (simp add: related_def weakly_related_def)
  obtain p where p: "pairs lt v = Some p" using table_pair [OF po fd] .
  obtain ht where del: "rktio_hash_remove rehash_depth (fd_handles lt) fd False = ok ht" "hash_ok ht"
    "hash_map ht = (table lt)(fd := None)" using hash_del [OF po fd] .
  obtain lt1 lt2 where st: "signal_opt lt (read_handle p) = ok lt1" "get_pair lt1 v = ok p"
    "signal_opt lt1 (write_handle p) = ok lt2" "ltps_hash_remove lt2 fd False = ok (lt2\<lparr>fd_handles := ht\<rparr>)"
    "pairs lt2 = pairs lt" "related (lt2\<lparr>fd_handles := ht, pairs := (pairs lt)(v := None)\<rparr>) (spec_remove fd A)"
    using remove_steps [OF R fd p del] .
  let ?lt3 = "emit (Ctl_Del fd) (lt2\<lparr>fd_handles := ht, pairs := (pairs lt)(v := None)\<rparr>)"
  have "add_remove lt fd v = ok (?lt3, None, Some Ltps_Removed)"
    using st p by (simp add: add_remove_def get_pair_def [of lt] free_pair_def emit_def)
  then show ?thesis using st(6) by auto
qed

text \<open>Both directions at once: \<open>b\<close> stands for reading.\<close>

definition get_slot :: "bool \<Rightarrow> ltps_pair \<Rightarrow> nat option" where
  "get_slot b p = (if b then read_handle p else write_handle p)"

definition set_slot :: "bool \<Rightarrow> nat option \<Rightarrow> ltps_pair \<Rightarrow> ltps_pair" where
  "set_slot b r p = (if b then p\<lparr>read_handle := r\<rparr> else p\<lparr>write_handle := r\<rparr>)"

lemma slot_get: "ps v = Some p \<Longrightarrow> slot ps (v, b) = get_slot b p"
  by (simp add: get_slot_def slot_def)

lemma slot_set: "ps v = Some p \<Longrightarrow> slot (ps(v \<mapsto> set_slot b r p)) = (slot ps)((v, b) := r)"
  by (cases b) (simp_all add: set_slot_def slot_clear)

lemma get_set_slot [simp]:
  "get_slot b (set_slot b r p) = r" "get_slot (\<not> b) (set_slot b r p) = get_slot (\<not> b) p"
  "set_slot b r (set_slot b r' p) = set_slot b r p"
  by (simp_all add: get_slot_def set_slot_def)

lemma set_slot_same: "get_slot b p = None \<Longrightarrow> set_slot b None p = p"
  by (cases p; cases b) (simp_all add: get_slot_def set_slot_def)

definition add_half :: "bool \<Rightarrow> bool \<Rightarrow> ltps \<Rightarrow> int \<Rightarrow> nat \<Rightarrow> add_answers \<Rightarrow> add_result hash_res" where
  "add_half b create lt fd v os =
     hbind (get_pair lt v) (\<lambda>p.
       case get_slot b p of
         Some s \<Rightarrow> ok (lt, Some s, None)
       | None \<Rightarrow>
           if create then
             let (s, lt) = make_ltps_handle lt in
             hbind (set_pair lt v (set_slot b (Some s) p)) (\<lambda>lt.
               let lt = emit (if get_slot (\<not> b) p \<noteq> None then Ctl_Mod fd True True else Ctl_Add fd b (\<not> b)) lt in
               if ctl_eperm os then
                 hbind (set_pair lt v (set_slot b None p)) (\<lambda>lt.
                 hbind (if get_slot (\<not> b) p = None then hbind (ltps_hash_remove lt fd False) (\<lambda>lt. free_pair lt v)
                        else ok lt) (\<lambda>lt.
                 hbind (free_handle lt s) (\<lambda>lt. ok (lt, None, None))))
               else ok (lt, Some s, None))
           else ok (lt, None, None))"

lemma add_read_half: "add_read lt fd v mode os = add_half True (mode = Create_Read \<or> mode = Create_Vnode) lt fd v os"
  by (simp add: add_read_def add_half_def get_slot_def set_slot_def Let_def cong: option.case_cong if_cong)

lemma add_write_half: "add_write lt fd v mode os = add_half False (mode = Create_Write) lt fd v os"
  by (simp add: add_write_def add_half_def get_slot_def set_slot_def Let_def cong: option.case_cong if_cong)

definition nearly_full :: "nat \<Rightarrow> ltps \<Rightarrow> bool" where
  "nearly_full v lt = (\<forall>v' p. v' \<noteq> v \<longrightarrow> pairs lt v' = Some p \<longrightarrow> read_handle p \<noteq> None \<or> write_handle p \<noteq> None)"

lemma nearly_full_full:
  "nearly_full v lt \<Longrightarrow> pairs lt v = Some p \<Longrightarrow> get_slot b p \<noteq> None \<Longrightarrow> full_pairs lt"
  unfolding nearly_full_def full_pairs_def get_slot_def by (metis option.inject)

lemma handles_ok_new:
  assumes "handles_ok lt S A" "S x = None"
  shows "handles_ok (snd (make_ltps_handle lt)) (S(x \<mapsto> next_addr lt))
    (A\<lparr>alive := (alive A)(next_addr lt \<mapsto> (Handle_None, None))\<rparr>)"
proof -
  have n: "handles lt (next_addr lt) = None" using assms(1) unfolding handles_ok_def by (metis less_irrefl)
  have q: "next_addr lt \<notin> set (queue A)" using assms(1) n chain_alive unfolding handles_ok_def by blast
  have "S y \<noteq> Some (next_addr lt)" for y using assms(1) n unfolding handles_ok_def by metis
  then show ?thesis using assms n q
    by (auto simp: handles_ok_def make_ltps_handle_def chain_update handle_view_def fun_eq_iff less_Suc_eq)
qed

lemma weakly_related_next_addr:
  "weakly_related lt A \<Longrightarrow> weakly_related (lt\<lparr>next_addr := Suc (next_addr lt)\<rparr>) A"
  by (auto simp: weakly_related_def pairs_ok_def handles_ok_def less_Suc_eq)

lemma both_slots: "get_slot b p = None \<Longrightarrow> get_slot (\<not> b) p = None \<Longrightarrow> get_slot b' p = None"
  by (cases b; cases b') (auto simp: get_slot_def)

lemma drop_empty_pair:
  assumes R: "weakly_related lt A" "nearly_full v lt" "table lt fd = Some v" "pairs lt v = Some p"
    and p: "\<And>b. get_slot b p = None" and del: "hash_ok ht" "hash_map ht = (table lt)(fd := None)"
  shows "related (lt\<lparr>fd_handles := ht, pairs := (pairs lt)(v := None)\<rparr>) A"
proof -
  have po: "pairs_ok lt" using R(1) by (simp add: weakly_related_def)
  have S: "slot ((pairs lt)(v := None)) = slot (pairs lt)"
    using p slot_get [of "pairs lt" v p] R(4) by (simp add: slot_free fun_upd_idem)
  have "wait_map lt (fd, b) = None" for b
    using p slot_get [of "pairs lt" v p] R(4) wait_map_known [OF R(3)] by simp
  then have "wait_map (lt\<lparr>fd_handles := ht, pairs := (pairs lt)(v := None)\<rparr>) = wait_map lt"
    unfolding pairs_ok_remove(2) [OF po R(3) del] by (simp add: fun_upd_idem)
  then show ?thesis using R(1,2) S pairs_ok_remove(1) [OF po R(3) del]
    by (auto simp: related_def weakly_related_def full_pairs_def nearly_full_def)
qed

lemma add_half_new:
  assumes R: "weakly_related lt A" "nearly_full v lt" "table lt fd = Some v" "pairs lt v = Some p"
    and none: "get_slot b p = None"
  shows "related (emit c (snd (make_ltps_handle lt)\<lparr>pairs := (pairs lt)(v \<mapsto> set_slot b (Some (next_addr lt)) p)\<rparr>))
    (A\<lparr>waiting := (waiting A)((fd, b) \<mapsto> next_addr lt), alive := (alive A)(next_addr lt \<mapsto> (Handle_None, None))\<rparr>)"
proof -
  let ?ps = "(pairs lt)(v \<mapsto> set_slot b (Some (next_addr lt)) p)"
  have po: "pairs_ok lt" and ho: "handles_ok lt (slot (pairs lt)) A" and w: "waiting A = wait_map lt"
    and e: "epoll_fd A = lt_fd lt"
    using R(1) by (auto simp: weakly_related_def)
  have S: "slot ?ps = (slot (pairs lt))((v, b) \<mapsto> next_addr lt)" using slot_set [of "pairs lt" v p, OF R(4)] .
  have sn: "slot (pairs lt) (v, b) = None" using slot_get [of "pairs lt" v p b] R(4) none by simp
  have fr: "snd (make_ltps_handle lt) = lt\<lparr>next_addr := Suc (next_addr lt), handles := handles (snd (make_ltps_handle lt))\<rparr>"
    by (simp add: make_ltps_handle_def)
  have h: "handles_ok (snd (make_ltps_handle lt)) (slot ?ps) (A\<lparr>alive := (alive A)(next_addr lt \<mapsto> (Handle_None, None))\<rparr>)"
    unfolding S by (rule handles_ok_new [OF ho sn])
  have "wait_map (lt\<lparr>pairs := ?ps\<rparr>) = (wait_map lt)((fd, b) \<mapsto> next_addr lt)" by (rule wait_map_slot [OF po R(3) S])
  then have wm: "wait_map (snd (make_ltps_handle lt)\<lparr>pairs := ?ps\<rparr>) = (wait_map lt)((fd, b) \<mapsto> next_addr lt)"
    by (subst fr) (simp add: wait_map_def cong: option.case_cong)
  have pok: "pairs_ok (snd (make_ltps_handle lt)\<lparr>pairs := ?ps\<rparr>)"
    using po R(4) by (subst fr) (auto simp: pairs_ok_def less_Suc_eq)
  have full: "full_pairs (snd (make_ltps_handle lt)\<lparr>pairs := ?ps\<rparr>)"
    using R(2) by (auto simp: full_pairs_def nearly_full_def set_slot_def)
  have "lt_fd (snd (make_ltps_handle lt)) = lt_fd lt" by (simp add: make_ltps_handle_def)
  moreover have "handles_ok (snd (make_ltps_handle lt)) (slot ?ps) (A\<lparr>waiting := wa, alive := (alive A)(next_addr lt \<mapsto> (Handle_None, None))\<rparr>)"
    for wa using handles_ok_frame(1) [THEN iffD2, OF h, of wa] by (rule back_subst) simp
  ultimately show ?thesis unfolding related_emit related_def weakly_related_def using wm pok full w e by simp
qed

lemma add_half_ok:
  assumes R: "weakly_related lt A" "nearly_full v lt" "table lt fd = Some v" and c: "create \<or> full_pairs lt"
  shows "\<exists>lt' A' r. add_half b create lt fd v os = ok (lt', r, None) \<and> related lt' A' \<and>
    (A', r) = (case waiting A (fd, b) of
        Some s \<Rightarrow> (A, Some s)
      | None \<Rightarrow>
          if create \<and> \<not> ctl_eperm os then
            (A\<lparr>waiting := (waiting A)((fd, b) \<mapsto> next_addr lt),
               alive := (alive A)(next_addr lt \<mapsto> (Handle_None, None))\<rparr>, Some (next_addr lt))
          else (A, None))"
proof -
  have po: "pairs_ok lt" and w: "waiting A = wait_map lt" using R(1) by (auto simp: weakly_related_def)
  obtain p where p: "pairs lt v = Some p" using table_pair [OF po R(3)] .
  have wb: "waiting A (fd, b) = get_slot b p" using w wait_map_known [OF R(3)] slot_get [of "pairs lt" v p b] p by simp
  have gp: "get_pair lt v = ok p" using p by (simp add: get_pair_def)
  consider s where "get_slot b p = Some s" | "get_slot b p = None" "\<not> create"
    | "get_slot b p = None" "create" "\<not> ctl_eperm os" | "get_slot b p = None" "create" "ctl_eperm os" by blast
  then show ?thesis
  proof cases
    case 1
    then show ?thesis using R(1) nearly_full_full [OF R(2) p, of b] wb gp
      by (simp add: add_half_def related_def)
  next
    case 2
    then show ?thesis using R(1) c wb gp by (simp add: add_half_def related_def)
  next
    case 3
    then show ?thesis using add_half_new [OF R p 3(1)] wb gp p
      by (simp add: add_half_def make_ltps_handle_def set_pair_def)
  next
    case 4
    let ?c = "if get_slot (\<not> b) p \<noteq> None then Ctl_Mod fd True True else Ctl_Add fd b (\<not> b)"
    let ?l = "emit ?c (lt\<lparr>next_addr := Suc (next_addr lt)\<rparr>)"
    have hn: "handles lt (next_addr lt) = None" using R(1) unfolding weakly_related_def handles_ok_def by (metis less_irrefl)
    have wr: "weakly_related ?l A" using weakly_related_next_addr [OF R(1)] by (simp add: weakly_related_def)
    have idem: "(pairs lt)(v \<mapsto> p) = pairs lt" "(handles lt)(next_addr lt := None) = handles lt"
      using p hn by (simp_all add: fun_upd_idem)
    obtain ht where del: "rktio_hash_remove rehash_depth (fd_handles lt) fd False = ok ht" "hash_ok ht"
      "hash_map ht = (table lt)(fd := None)" using hash_del [OF po R(3)] .
    let ?l' = "if get_slot (\<not> b) p = None then ?l\<lparr>fd_handles := ht, pairs := (pairs ?l)(v := None)\<rparr> else ?l"
    have "add_half b create lt fd v os = ok (?l', None, None)"
      using gp 4 p del(1) idem
      by (simp add: add_half_def make_ltps_handle_def set_pair_def free_pair_def free_handle_def ltps_hash_remove_def
          set_slot_same emit_def Let_def)
    moreover have "related ?l' A"
    proof (cases "get_slot (\<not> b) p")
      case None
      have "related (?l\<lparr>fd_handles := ht, pairs := (pairs ?l)(v := None)\<rparr>) A"
        by (rule drop_empty_pair [OF wr, of v fd p]) (use R(2,3) p both_slots [OF 4(1) None] del(2,3) in \<open>auto simp: nearly_full_def\<close>)
      then show ?thesis using None by simp
    next
      case (Some s)
      then show ?thesis using wr nearly_full_full [OF R(2) p, of "\<not> b"] by (simp add: related_def full_pairs_def)
    qed
    ultimately show ?thesis using 4 wb by auto
  qed
qed

lemma full_known:
  assumes "related lt A"
  shows "spec_known A fd \<longleftrightarrow> table lt fd \<noteq> None"
proof (cases "table lt fd")
  case (Some v)
  have po: "pairs_ok lt" "waiting A = wait_map lt" "full_pairs lt" using assms by (auto simp: related_def weakly_related_def)
  obtain p where "pairs lt v = Some p" using table_pair [OF po(1) Some] .
  then show ?thesis using po(2,3) Some by (auto simp: spec_known_def wait_map_known full_pairs_def)
qed (use assms in \<open>simp add: spec_known_def wait_map_def related_def weakly_related_def\<close>)

lemma new_pair_ok:
  assumes R: "related lt A" and fd: "table lt fd = None" "0 \<le> fd"
  shows "\<exists>lt1. ltps_hash_set (snd (make_ltps_handle_pair lt)) fd (next_addr lt) = ok lt1 \<and>
    weakly_related lt1 A \<and> nearly_full (next_addr lt) lt1 \<and> table lt1 fd = Some (next_addr lt)"
proof -
  let ?v = "next_addr lt" and ?e = "\<lparr>read_handle = None, write_handle = None\<rparr>"
  have po: "pairs_ok lt" "waiting A = wait_map lt" "full_pairs lt" "handles_ok lt (slot (pairs lt)) A" "epoll_fd A = lt_fd lt"
    using R by (auto simp: related_def weakly_related_def)
  obtain ht where ht: "rktio_hash_set rehash_depth (fd_handles lt) fd ?v = ok ht" "hash_ok ht"
    "hash_map ht = (table lt)(fd \<mapsto> ?v)"
    using ht.put_absent [of "fd_handles lt" fd 0 ?v] po(1) fd by (auto simp: pairs_ok_def table_def)
  have vn: "pairs lt ?v = None" using po(1) unfolding pairs_ok_def by (metis less_irrefl)
  then have tn: "table lt fd' \<noteq> Some ?v" for fd' using po(1) unfolding pairs_ok_def by metis
  let ?l = "lt\<lparr>next_addr := Suc ?v, pairs := (pairs lt)(?v \<mapsto> ?e), fd_handles := ht\<rparr>"
  have "ltps_hash_set (snd (make_ltps_handle_pair lt)) fd ?v = ok ?l"
    using ht(1) by (simp add: ltps_hash_set_def make_ltps_handle_pair_def)
  moreover have S: "slot ((pairs lt)(?v \<mapsto> ?e)) = slot (pairs lt)"
    using vn by (auto simp: slot_def fun_eq_iff)
  moreover have "wait_map ?l = wait_map lt"
  proof (rule ext_pair)
    fix fd' b
    show "wait_map ?l (fd', b) = wait_map lt (fd', b)"
      using fd(1) vn by (cases "fd' = fd") (simp_all add: wait_map_def ht(3) S cong: option.case_cong)
  qed
  moreover have "pairs_ok ?l"
    unfolding pairs_ok_def
  proof (intro conjI allI impI iffI)
    show "fd1 = fd2" if "table ?l fd1 = Some v' \<and> table ?l fd2 = Some v'" for fd1 fd2 v'
      using that po(1) tn unfolding pairs_ok_def by (auto simp: ht(3) split: if_splits)
    show "\<exists>fd. table ?l fd = Some v'" if pv: "pairs ?l v' \<noteq> None" for v'
    proof (cases "v' = ?v")
      case False
      then obtain fd' where "table lt fd' = Some v'" using pv po(1) unfolding pairs_ok_def by auto
      then show ?thesis using fd(1) by (intro exI [of _ fd']) (auto simp: ht(3))
    qed (auto simp: ht(3))
    show "pairs ?l v' \<noteq> None" if "\<exists>fd. table ?l fd = Some v'" for v'
      using that po(1) unfolding pairs_ok_def by (auto simp: ht(3) split: if_splits)
    show "v' < next_addr ?l" if "pairs ?l v' \<noteq> None" for v'
      using that po(1) unfolding pairs_ok_def by (auto simp: less_Suc_eq split: if_splits)
  qed (simp add: ht(2))
  moreover have "handles_ok ?l (slot (pairs lt)) A"
    using po(4) by (auto simp: handles_ok_def less_Suc_eq)
  ultimately show ?thesis using po(2,3,5) ht(3)
    by (intro exI [of _ ?l]) (simp add: weakly_related_def nearly_full_def full_pairs_def)
qed

lemma alive_bound: "weakly_related lt A \<Longrightarrow> next_addr lt \<le> s \<Longrightarrow> alive A s = None"
  unfolding weakly_related_def handles_ok_def by (metis not_less option.map_disc_iff)

lemma next_addr_hash_set: "ltps_hash_set lt fd v = ok lt1 \<Longrightarrow> next_addr lt1 = next_addr lt"
  by (auto simp: ltps_hash_set_def hbind_def split: option.splits sum.splits)

lemma add_to_set_ok:
  assumes R: "related lt A" and fd: "0 \<le> fd"
  shows "\<exists>s lt' A' r. alive A s = None \<and> add_to_set lt fd mode os = ok (lt', r) \<and>
    spec_add_open fd mode os s A = (A', r) \<and> related lt' A'"
proof -
  have W: "weakly_related lt A" "full_pairs lt" using R by (auto simp: related_def)
  have po: "pairs_ok lt" "waiting A = wait_map lt" using W(1) by (auto simp: weakly_related_def)
  have get: "ltps_hash_get lt fd = ok (table lt fd)"
    using ht.get_abs [of "fd_handles lt" fd] po(1) by (simp add: ltps_hash_get_def pairs_ok_def table_def)
  have al: "alive A (next_addr lt) = None" using alive_bound [OF W(1)] by simp
  have mode: "add_mode l fd v mode os =
      (if mode_removes mode then add_remove l fd v else add_half (mode_reads mode) (mode_creates mode) l fd v os)" for l v
    by (cases mode) (simp_all add: add_mode_def add_read_half add_write_half)
  show ?thesis
  proof (cases "table lt fd")
    case (Some v)
    show ?thesis
    proof (cases "mode_removes mode")
      case True
      then show ?thesis using add_remove_ok [OF R Some] get Some mode al full_known [OF R, of fd]
        by (auto simp: add_to_set_def spec_add_open_def)
    next
      case False
      have "nearly_full v lt" using W(2) by (auto simp: nearly_full_def full_pairs_def)
      from add_half_ok [OF W(1) this Some, of "mode_creates mode" "mode_reads mode" os]
      obtain lt' A' r where r: "add_half (mode_reads mode) (mode_creates mode) lt fd v os = ok (lt', r, None)"
        "related lt' A'" "(A', r) = (case waiting A (fd, mode_reads mode) of Some s \<Rightarrow> (A, Some s)
          | None \<Rightarrow> if mode_creates mode \<and> \<not> ctl_eperm os then
              (A\<lparr>waiting := (waiting A)((fd, mode_reads mode) \<mapsto> next_addr lt),
                 alive := (alive A)(next_addr lt \<mapsto> (Handle_None, None))\<rparr>, Some (next_addr lt)) else (A, None))"
        using W(2) by blast
      then show ?thesis using False get Some mode al full_known [OF R, of fd]
        by (intro exI [of _ "next_addr lt"])
          (auto simp: add_to_set_def spec_add_open_def Let_def split: option.splits if_splits)
    qed
  next
    case None
    have wn: "waiting A (fd, b) = None" for b using po(2) None by (simp add: wait_map_def)
    have kn: "\<not> spec_known A fd" using full_known [OF R, of fd] None by simp
    show ?thesis
    proof (cases "mode_creates mode")
      case False
      then have "mode = Check_Read \<or> mode = Check_Write \<or> mode = Check_Vnode \<or> mode = Remove_Fd \<or> mode = Remove_Vnode"
        by (cases mode) auto
      then show ?thesis using get None R al False wn kn
        by (auto simp: add_to_set_def spec_add_open_def)
    next
      case True
      have m: "\<not> (mode = Check_Read \<or> mode = Check_Write \<or> mode = Check_Vnode \<or> mode = Remove_Fd \<or> mode = Remove_Vnode)"
        "\<not> mode_removes mode" using True by (cases mode; simp)+
      obtain lt1 where lt1: "ltps_hash_set (snd (make_ltps_handle_pair lt)) fd (next_addr lt) = ok lt1"
        "weakly_related lt1 A" "nearly_full (next_addr lt) lt1" "table lt1 fd = Some (next_addr lt)"
        using new_pair_ok [OF R None fd] by blast
      from add_half_ok [OF lt1(2-4), of True "mode_reads mode" os]
      obtain lt' A' r where r: "add_half (mode_reads mode) True lt1 fd (next_addr lt) os = ok (lt', r, None)"
        "related lt' A'" "(A', r) = (if \<not> ctl_eperm os then
              (A\<lparr>waiting := (waiting A)((fd, mode_reads mode) \<mapsto> next_addr lt1),
                 alive := (alive A)(next_addr lt1 \<mapsto> (Handle_None, None))\<rparr>, Some (next_addr lt1)) else (A, None))"
        using wn by auto
      have "add_to_set lt fd mode os = ok (lt', r, None)"
        using get None m lt1(1) r(1) mode True
        by (simp add: add_to_set_def make_ltps_handle_pair_def)
      moreover have "spec_add_open fd mode os (next_addr lt1) A = (A', r, None)"
        using r(3) m(2) wn True by (auto simp: spec_add_open_def Let_def split: if_splits)
      ultimately show ?thesis using r(2) alive_bound [OF lt1(2)] by blast
    qed
  qed
qed

lemma ltps_add_ok:
  assumes R: "related lt A" and fd: "0 \<le> fd"
  shows "\<exists>s lt' A' r. alive A s = None \<and> rktio_ltps_add lt fd mode os = ok (lt', r) \<and>
    spec_add fd mode os s A = (A', r) \<and> related lt' A'"
proof -
  have e: "epoll_fd A = lt_fd lt" and al: "alive A (next_addr lt) = None"
    using R alive_bound [of lt A "next_addr lt"] by (auto simp: related_def weakly_related_def)
  have R': "related (lt\<lparr>lt_fd := n\<rparr>) (A\<lparr>epoll_fd := n\<rparr>)" for n
    using R by (simp add: related_def weakly_related_def)
  show ?thesis
    using add_to_set_ok [OF R fd, of mode os] add_to_set_ok [OF R' fd, of "created_fd os" mode os] R R' e al
    by (simp add: rktio_ltps_add_def spec_add_def Let_def) blast
qed

section \<open>Polling\<close>

definition poll_half :: "bool \<Rightarrow> ltps \<Rightarrow> nat \<Rightarrow> bool \<Rightarrow> (ltps \<times> bool) hash_res" where
  "poll_half b lt v hit =
     hbind (get_pair lt v) (\<lambda>p.
       case get_slot b p of
         None \<Rightarrow> ok (lt, hit)
       | Some s \<Rightarrow>
           hbind (ltps_signal_handle lt s) (\<lambda>lt.
           hbind (get_pair lt v) (\<lambda>p.
           hbind (set_pair lt v (set_slot b None p)) (\<lambda>lt. ok (lt, True)))))"

lemma poll_halves: "poll_read = poll_half True" "poll_write = poll_half False"
  by (simp_all add: fun_eq_iff poll_read_def poll_write_def poll_half_def get_slot_def set_slot_def cong: option.case_cong)

lemma poll_half_ok:
  assumes R: "weakly_related lt A" and fd: "table lt fd = Some v"
  shows "\<exists>lt'. poll_half b lt v hit = ok (lt', hit \<or> waiting A (fd, b) \<noteq> None) \<and>
    weakly_related lt' (spec_fire (fd, b) A) \<and> table lt' = table lt \<and> (\<forall>v'. v' \<noteq> v \<longrightarrow> pairs lt' v' = pairs lt v')"
proof -
  have po: "pairs_ok lt" and w: "waiting A = wait_map lt" and ho: "handles_ok lt (slot (pairs lt)) A"
    and e: "epoll_fd A = lt_fd lt" using R by (auto simp: weakly_related_def)
  obtain p where p: "pairs lt v = Some p" using table_pair [OF po fd] .
  have sb: "slot (pairs lt) (v, b) = get_slot b p" using slot_get [of "pairs lt" v p] p by simp
  have wb: "waiting A (fd, b) = get_slot b p" using w wait_map_known [OF fd] sb by simp
  show ?thesis
  proof (cases "get_slot b p")
    case None
    then show ?thesis using R p wb by (simp add: poll_half_def get_pair_def spec_fire_idle)
  next
    case (Some s)
    obtain hs sg where sig: "ltps_signal_handle lt s = ok (lt\<lparr>handles := hs, signaled := sg\<rparr>)"
      "handles_ok (lt\<lparr>handles := hs, signaled := sg\<rparr>) ((slot (pairs lt))((v, b) := None)) (spec_signal s A)"
      using signal_ok [OF ho] sb Some by metis
    let ?ps = "(pairs lt)(v \<mapsto> set_slot b None p)"
    let ?l = "lt\<lparr>handles := hs, signaled := sg, pairs := ?ps\<rparr>"
    have S: "slot ?ps = (slot (pairs lt))((v, b) := None)" using slot_set [of "pairs lt" v p] p by simp
    have "poll_half b lt v hit = ok (?l, True)"
      using p Some sig(1) by (simp add: poll_half_def get_pair_def set_pair_def)
    moreover have "pairs_ok ?l"
      using po p by (auto simp: pairs_ok_def)
    moreover have "wait_map ?l = (wait_map lt)((fd, b) := None)"
      using wait_map_slot [of "lt\<lparr>handles := hs, signaled := sg\<rparr>" fd v ?ps b None] po fd S by simp
    ultimately show ?thesis
      using wb Some w e sig(2) S by (intro exI [of _ ?l]) (simp add: weakly_related_def spec_fire_def)
  qed
qed

lemma poll_event_ok:
  assumes R: "related lt A"
  shows "\<exists>lt' A' hit'. poll_event ev lt hit = ok (lt', hit') \<and> spec_event ev (A, hit) = (A', hit') \<and> related lt' A'"
proof -
  let ?fd = "ev_fd ev"
  have W: "weakly_related lt A" "full_pairs lt" "pairs_ok lt" "waiting A = wait_map lt"
    using R by (auto simp: related_def weakly_related_def)
  have get: "ltps_hash_get lt ?fd = ok (table lt ?fd)"
    using ht.get_abs [of "fd_handles lt" ?fd] W(3) by (simp add: ltps_hash_get_def pairs_ok_def table_def)
  show ?thesis
  proof (cases "table lt ?fd")
    case None
    then have "waiting A (?fd, b) = None" for b using W(4) by (simp add: wait_map_def)
    then show ?thesis using None get R by (simp add: poll_event_def spec_event_def Let_def spec_fire_idle)
  next
    case (Some v)
    let ?r = "ev_in ev \<or> ev_hup ev \<or> ev_err ev" and ?w = "ev_out ev \<or> ev_hup ev \<or> ev_err ev"
    obtain lt1 hit1 A1 where 1: "(if ?r then poll_half True lt v hit else ok (lt, hit)) = ok (lt1, hit1)"
      "A1 = (if ?r then spec_fire (?fd, True) A else A)" "hit1 = (hit \<or> ?r \<and> waiting A (?fd, True) \<noteq> None)"
      "weakly_related lt1 A1" "table lt1 = table lt" "\<forall>v'. v' \<noteq> v \<longrightarrow> pairs lt1 v' = pairs lt v'"
      using poll_half_ok [OF W(1) Some, of True hit] W(1) by (cases ?r) auto
    have fd1: "table lt1 ?fd = Some v" using 1(5) Some by simp
    have w1: "waiting A1 (?fd, False) = waiting A (?fd, False)" using 1(2) by simp
    obtain lt2 hit2 A2 where 2: "(if ?w then poll_half False lt1 v hit1 else ok (lt1, hit1)) = ok (lt2, hit2)"
      "A2 = (if ?w then spec_fire (?fd, False) A1 else A1)" "hit2 = (hit1 \<or> ?w \<and> waiting A1 (?fd, False) \<noteq> None)"
      "weakly_related lt2 A2" "table lt2 = table lt1" "\<forall>v'. v' \<noteq> v \<longrightarrow> pairs lt2 v' = pairs lt1 v'"
      using poll_half_ok [OF 1(4) fd1, of False hit1] 1(4) by (cases ?w) auto
    have po2: "pairs_ok lt2" using 2(4) by (simp add: weakly_related_def)
    have fd2: "table lt2 ?fd = Some v" using 2(5) fd1 by simp
    obtain p where p: "pairs lt2 v = Some p" using table_pair [OF po2 fd2] .
    have nf: "nearly_full v lt2" using W(2) 1(6) 2(6) by (simp add: nearly_full_def full_pairs_def)
    have spec: "spec_event ev (A, hit) = (A2, hit2)"
      using 1(2,3) 2(2,3) w1 by (auto simp: spec_event_def Let_def)
    have body: "poll_event ev lt hit =
        (if read_handle p = None \<and> write_handle p = None then
           hbind (ltps_hash_remove lt2 ?fd False) (\<lambda>lt. hbind (free_pair lt v) (\<lambda>lt. ok (emit (Ctl_Del ?fd) lt, hit2)))
         else ok (emit (Ctl_Mod ?fd (read_handle p \<noteq> None) (write_handle p \<noteq> None)) lt2, hit2))"
      using get Some 1(1) 2(1) p unfolding poll_event_def poll_halves by (simp add: get_pair_def)
    show ?thesis
    proof (cases "read_handle p = None \<and> write_handle p = None")
      case True
      obtain ht where del: "rktio_hash_remove rehash_depth (fd_handles lt2) ?fd False = ok ht" "hash_ok ht"
        "hash_map ht = (table lt2)(?fd := None)" using hash_del [OF po2 fd2] .
      have "get_slot b p = None" for b using True by (simp add: get_slot_def)
      from drop_empty_pair [OF 2(4) nf fd2 p this del(2,3)] show ?thesis
        using body True del(1) p spec by (simp add: ltps_hash_remove_def free_pair_def)
    next
      case False
      then have "full_pairs lt2"
        using nearly_full_full [OF nf p, of True] nearly_full_full [OF nf p, of False] by (auto simp: get_slot_def)
      then show ?thesis using body False spec 2(4) by (simp add: related_def weakly_related_def)
    qed
  qed
qed

lemma poll_loop_ok:
  "related lt A \<Longrightarrow> \<exists>lt' A' hit'. poll_loop evs lt hit = ok (lt', hit') \<and>
    fold spec_event evs (A, hit) = (A', hit') \<and> related lt' A'"
proof (induction evs arbitrary: lt A hit)
  case (Cons ev evs)
  then show ?case using poll_event_ok [OF Cons.prems, of ev hit] by fastforce
qed simp

section \<open>Signaled handles and handle fields\<close>

lemma get_signaled_ok:
  assumes R: "related lt A"
  shows "case queue A of
      [] \<Rightarrow> rktio_ltps_get_signaled_handle lt = ok (lt, None, Some Ltps_Not_Found)
    | s # q \<Rightarrow> \<exists>lt'. rktio_ltps_get_signaled_handle lt = ok (lt', Some s, None) \<and> related lt' (A\<lparr>queue := q\<rparr>)"
proof (cases "queue A")
  case Nil
  then show ?thesis using R
    by (simp add: rktio_ltps_get_signaled_handle_def related_def weakly_related_def handles_ok_def)
next
  case (Cons s q)
  then obtain h where h: "signaled lt = Some s" "handles lt s = Some h" "chain (handles lt) (next_handle h) q"
    using R by (auto simp: related_def weakly_related_def handles_ok_def split: option.splits)
  let ?l = "lt\<lparr>signaled := next_handle h\<rparr>"
  have "handles_ok ?l (slot (pairs lt)) (A\<lparr>queue := q\<rparr>)"
    using R Cons h by (auto simp: related_def weakly_related_def handles_ok_def)
  then have "related ?l (A\<lparr>queue := q\<rparr>)" using R by (simp add: related_def weakly_related_def)
  then show ?thesis using Cons h by (simp add: rktio_ltps_get_signaled_handle_def get_handle_def)
qed

lemma chain_same_next:
  "hs s = Some h \<Longrightarrow> next_handle h' = next_handle h \<Longrightarrow> chain (hs(s \<mapsto> h')) p ss = chain hs p ss"
  by (induction ss arbitrary: p) (auto split: option.splits)

lemma set_handle_ok:
  assumes R: "related lt A" and h: "handles lt s = Some h" "next_handle h' = next_handle h"
  shows "related (lt\<lparr>handles := (handles lt)(s \<mapsto> h')\<rparr>) (A\<lparr>alive := (alive A)(s \<mapsto> handle_view h')\<rparr>)"
proof -
  have "handles_ok (lt\<lparr>handles := (handles lt)(s \<mapsto> h')\<rparr>) (slot (pairs lt)) (A\<lparr>alive := (alive A)(s \<mapsto> handle_view h')\<rparr>)"
    using R h chain_same_next [of "handles lt", OF h]
    by (auto simp: related_def weakly_related_def handles_ok_def fun_eq_iff)
  then show ?thesis using R by (simp add: related_def weakly_related_def)
qed

lemma alive_handle:
  assumes "related lt A" "alive A s = Some (m, d)"
  obtains h where "handles lt s = Some h" "auto_mode h = m" "handle_data h = d"
  using assms by (auto simp: related_def weakly_related_def handles_ok_def handle_view_def)

lemma free_client_handle:
  assumes R: "related lt A" and s: "alive A s \<noteq> None" "s \<notin> ran (waiting A)" "s \<notin> set (queue A)"
  shows "\<exists>lt'. free_handle lt s = ok lt' \<and> related lt' (A\<lparr>alive := (alive A)(s := None)\<rparr>)"
proof -
  let ?l = "lt\<lparr>handles := (handles lt)(s := None)\<rparr>"
  have po: "pairs_ok lt" and w: "waiting A = wait_map lt" and ho: "handles_ok lt (slot (pairs lt)) A"
    using R by (auto simp: related_def weakly_related_def)
  have ns: "slot (pairs lt) x \<noteq> Some s" for x
  proof
    assume x: "slot (pairs lt) x = Some s"
    obtain v b where vb: "x = (v, b)" by (cases x)
    then have "pairs lt v \<noteq> None" using x by (auto simp: slot_def split: option.splits)
    then obtain fd where "table lt fd = Some v" using po unfolding pairs_ok_def by blast
    then have "waiting A (fd, b) = Some s" using w x vb by (simp add: wait_map_known)
    then show False using s(2) by (auto simp: ran_def)
  qed
  then have "handles_ok ?l (slot (pairs lt)) (A\<lparr>alive := (alive A)(s := None)\<rparr>)"
    using ho s(3) by (auto simp: handles_ok_def chain_update fun_eq_iff)
  then have "related ?l (A\<lparr>alive := (alive A)(s := None)\<rparr>)" using R by (simp add: related_def weakly_related_def)
  moreover have "free_handle lt s = ok ?l" using s(1) ho by (auto simp: free_handle_def handles_ok_def)
  ultimately show ?thesis by blast
qed

section \<open>Removing everything\<close>

lemma remove_at_ok:
  assumes R: "related lt A" and k: "rktio_hash_get_key (fd_handles lt) i = Inr fd" "fd \<noteq> - 1"
  shows "\<exists>lt'. remove_at i lt = ok lt' \<and> related lt' (spec_remove fd A) \<and>
    (\<forall>j. rktio_hash_get_key (fd_handles lt') j = (if rktio_hash_get_key (fd_handles lt) j = Inr fd then Inr (- 1)
      else rktio_hash_get_key (fd_handles lt) j))"
proof -
  have po: "pairs_ok lt" and ho: "hash_ok (fd_handles lt)" using R by (auto simp: related_def weakly_related_def pairs_ok_def)
  obtain v where fd: "table lt fd = Some v" using hash_get_key_present [OF ho k] by (auto simp: table_def)
  have get: "ltps_hash_get lt fd = ok (Some v)"
    using ht.get_abs [OF ho] fd by (simp add: ltps_hash_get_def table_def)
  obtain p where p: "pairs lt v = Some p" using table_pair [OF po fd] .
  obtain ht where del: "rktio_hash_remove rehash_depth (fd_handles lt) fd True = ok ht" "hash_ok ht"
    "hash_map ht = (table lt)(fd := None)"
    "\<forall>j. rktio_hash_get_key ht j = (if rktio_hash_get_key (fd_handles lt) j = Inr fd then Inr (- 1)
      else rktio_hash_get_key (fd_handles lt) j)"
    using hash_remove_in_place [OF ho, of fd v rehash_depth] fd by (auto simp: table_def)
  obtain lt1 lt2 where st: "signal_opt lt (read_handle p) = ok lt1" "get_pair lt1 v = ok p"
    "signal_opt lt1 (write_handle p) = ok lt2" "ltps_hash_remove lt2 fd True = ok (lt2\<lparr>fd_handles := ht\<rparr>)"
    "pairs lt2 = pairs lt" "related (lt2\<lparr>fd_handles := ht, pairs := (pairs lt)(v := None)\<rparr>) (spec_remove fd A)"
    using remove_steps [OF R fd p del(1-3)] .
  have "remove_at i lt = ok (lt2\<lparr>fd_handles := ht, pairs := (pairs lt)(v := None)\<rparr>)"
    using st p k get by (simp add: remove_at_def get_pair_def [of lt] free_pair_def)
  then show ?thesis using st(6) del(4) by auto
qed

lemma remove_loop_all_ok:
  assumes "related lt A" "\<forall>i \<in> set is. \<exists>fd. rktio_hash_get_key (fd_handles lt) i = Inr fd"
  shows "\<exists>lt' fds. remove_loop_all is lt = ok lt' \<and> related lt' (fold spec_remove fds A) \<and> distinct fds \<and>
    set fds = {fd. fd \<noteq> - 1 \<and> (\<exists>i \<in> set is. rktio_hash_get_key (fd_handles lt) i = Inr fd)}"
  using assms
proof (induction "is" arbitrary: lt A)
  case Nil
  then show ?case by (intro exI [of _ lt] exI [of _ "[]"]) simp
next
  case (Cons i "is")
  obtain k where k: "rktio_hash_get_key (fd_handles lt) i = Inr k" using Cons.prems(2) by auto
  show ?case
  proof (cases "k = - 1")
    case True
    then have "remove_at i lt = ok lt" using k by (simp add: remove_at_def)
    moreover obtain lt' fds where "remove_loop_all is lt = ok lt'" "related lt' (fold spec_remove fds A)" "distinct fds"
      "set fds = {fd. fd \<noteq> - 1 \<and> (\<exists>i \<in> set is. rktio_hash_get_key (fd_handles lt) i = Inr fd)}"
      using Cons.IH [OF Cons.prems(1)] Cons.prems(2) by auto
    ultimately show ?thesis using k True by (intro exI [of _ lt'] exI [of _ fds]) auto
  next
    case False
    obtain lt1 where lt1: "remove_at i lt = ok lt1" "related lt1 (spec_remove k A)"
      "\<And>j. rktio_hash_get_key (fd_handles lt1) j = (if rktio_hash_get_key (fd_handles lt) j = Inr k then Inr (- 1)
        else rktio_hash_get_key (fd_handles lt) j)"
      using remove_at_ok [OF Cons.prems(1) k False] by blast
    have "\<forall>i \<in> set is. \<exists>fd. rktio_hash_get_key (fd_handles lt1) i = Inr fd"
      using Cons.prems(2) by (auto simp: lt1(3))
    then obtain lt' fds where st: "remove_loop_all is lt1 = ok lt'" "related lt' (fold spec_remove fds (spec_remove k A))"
      "distinct fds" "set fds = {fd. fd \<noteq> - 1 \<and> (\<exists>i \<in> set is. rktio_hash_get_key (fd_handles lt1) i = Inr fd)}"
      using Cons.IH [OF lt1(2)] by blast
    have "set fds = {fd. fd \<noteq> - 1 \<and> (\<exists>i \<in> set is. rktio_hash_get_key (fd_handles lt) i = Inr fd)} - {k}"
      unfolding st(4) lt1(3) by (auto split: if_splits) force
    then have "set (k # fds) = {fd. fd \<noteq> - 1 \<and> (\<exists>i \<in> set (i # is). rktio_hash_get_key (fd_handles lt) i = Inr fd)}"
      "distinct (k # fds)" using st(3) k False by auto
    then show ?thesis using lt1(1) st(1,2) by (intro exI [of _ lt'] exI [of _ "k # fds"]) simp
  qed
qed

lemma remove_all_ok:
  assumes R: "related lt A"
  shows "\<exists>lt' fds. rktio_ltps_remove_all lt = ok lt' \<and> related lt' (fold spec_remove fds A) \<and>
    distinct fds \<and> set fds = {fd. spec_known A fd}"
proof -
  have ho: "hash_ok (fd_handles lt)" using R by (auto simp: related_def weakly_related_def pairs_ok_def)
  let ?is = "map int [0..<nat (rktio_hash_size (fd_handles lt))]"
  have ixs: "i \<in> set ?is \<longleftrightarrow> 0 \<le> i \<and> i < rktio_hash_size (fd_handles lt)" for i
    using image_int_atLeastLessThan [of 0 "nat (rktio_hash_size (fd_handles lt))"] by (auto split: if_splits)
  have "\<forall>i \<in> set ?is. \<exists>fd. rktio_hash_get_key (fd_handles lt) i = Inr fd"
    using hash_get_key_in_range [OF ho] ixs by blast
  from remove_loop_all_ok [OF R this] obtain lt' fds where st: "remove_loop_all ?is lt = ok lt'"
    "related lt' (fold spec_remove fds A)" "distinct fds"
    "set fds = {fd. fd \<noteq> - 1 \<and> (\<exists>i \<in> set ?is. rktio_hash_get_key (fd_handles lt) i = Inr fd)}" by blast
  have "fd \<in> set fds \<longleftrightarrow> spec_known A fd" for fd
  proof
    assume "fd \<in> set fds"
    then show "spec_known A fd" unfolding st(4) full_known [OF R] table_def using hash_get_key_present [OF ho] by blast
  next
    assume "spec_known A fd"
    then obtain v where v: "hash_map (fd_handles lt) fd = Some v" using full_known [OF R] by (auto simp: table_def)
    have "0 \<le> fd" using ht.key_nonneg [OF ho v] .
    then have "fd \<noteq> - 1" by simp
    moreover obtain i where "i \<in> set ?is" "rktio_hash_get_key (fd_handles lt) i = Inr fd"
      using hash_key_indexed [OF ho v] ixs by blast
    ultimately show "fd \<in> set fds" unfolding st(4) by blast
  qed
  then show ?thesis using st by (auto simp: rktio_ltps_remove_all_def)
qed

section \<open>Simulation\<close>

datatype ltps_op =
    Add int ltps_mode add_answers | Poll "epoll_event list" | Get_Signaled
  | Set_Data nat "nat option" | Set_Auto nat handle_auto | Free_Handle nat | Remove_All

type_synonym ltps_result = "nat option \<times> ltps_error option \<times> bool"

text \<open>The operations of a client; it frees handles that it was given.\<close>

fun ltps_step :: "ltps_op \<Rightarrow> ltps \<Rightarrow> (ltps \<times> ltps_result) hash_res" where
  "ltps_step (Add fd mode os) lt = hbind (rktio_ltps_add lt fd mode os) (\<lambda>(lt, h, e). ok (lt, h, e, False))"
| "ltps_step (Poll evs) lt = hbind (rktio_ltps_poll lt evs) (\<lambda>(lt, hit). ok (lt, None, None, hit))"
| "ltps_step Get_Signaled lt = hbind (rktio_ltps_get_signaled_handle lt) (\<lambda>(lt, h, e). ok (lt, h, e, False))"
| "ltps_step (Set_Data s d) lt = hbind (rktio_ltps_handle_set_data lt s d) (\<lambda>lt. ok (lt, None, None, False))"
| "ltps_step (Set_Auto s m) lt = hbind (rktio_ltps_handle_set_auto lt s m) (\<lambda>lt. ok (lt, None, None, False))"
| "ltps_step (Free_Handle s) lt = hbind (free_handle lt s) (\<lambda>lt. ok (lt, None, None, False))"
| "ltps_step Remove_All lt = hbind (rktio_ltps_remove_all lt) (\<lambda>lt. ok (lt, None, None, False))"

inductive spec_step :: "ltps_op \<Rightarrow> ltps_spec \<Rightarrow> ltps_result \<Rightarrow> ltps_spec \<Rightarrow> bool" where
  add: "alive A s = None \<Longrightarrow> spec_add fd mode os s A = (A', h, e) \<Longrightarrow> spec_step (Add fd mode os) A (h, e, False) A'"
| poll: "0 \<le> epoll_fd A \<Longrightarrow> fold spec_event evs (A, False) = (A', hit) \<Longrightarrow> spec_step (Poll evs) A (None, None, hit) A'"
| poll_unopened: "epoll_fd A < 0 \<Longrightarrow> spec_step (Poll evs) A (None, None, False) A"
| signaled: "queue A = s # q \<Longrightarrow> spec_step Get_Signaled A (Some s, None, False) (A\<lparr>queue := q\<rparr>)"
| unsignaled: "queue A = [] \<Longrightarrow> spec_step Get_Signaled A (None, Some Ltps_Not_Found, False) A"
| set_data: "alive A s = Some (m, d) \<Longrightarrow>
    spec_step (Set_Data s d') A (None, None, False) (A\<lparr>alive := (alive A)(s \<mapsto> (m, d'))\<rparr>)"
| set_auto: "alive A s = Some (m, d) \<Longrightarrow>
    spec_step (Set_Auto s m') A (None, None, False) (A\<lparr>alive := (alive A)(s \<mapsto> (m', d))\<rparr>)"
| free: "spec_step (Free_Handle s) A (None, None, False) (A\<lparr>alive := (alive A)(s := None)\<rparr>)"
| remove_all: "distinct fds \<Longrightarrow> set fds = {fd. spec_known A fd} \<Longrightarrow>
    spec_step Remove_All A (None, None, False) (fold spec_remove fds A)"

text \<open>
  What a client must keep to: descriptors are not negative, handles that it passes are alive, and
  it frees a handle only when it is neither waiting nor queued.
\<close>

fun client_ok :: "ltps_op \<Rightarrow> ltps_spec \<Rightarrow> bool" where
  "client_ok (Add fd mode os) A = (0 \<le> fd)"
| "client_ok (Set_Data s d) A = (alive A s \<noteq> None)"
| "client_ok (Set_Auto s m) A = (alive A s \<noteq> None)"
| "client_ok (Free_Handle s) A = (alive A s \<noteq> None \<and> s \<notin> ran (waiting A) \<and> s \<notin> set (queue A))"
| "client_ok _ A = True"

lemma spec_open_related: "related rktio_ltps_open spec_open"
  by (auto simp: related_def weakly_related_def pairs_ok_def handles_ok_def full_pairs_def rktio_ltps_open_def spec_open_def
      table_def wait_map_def slot_def hash_new_ok)

lemma step_simulates:
  assumes R: "related lt A" and c: "client_ok op A"
  shows "\<exists>lt' r A'. ltps_step op lt = ok (lt', r) \<and> spec_step op A r A' \<and> related lt' A'"
proof (cases op)
  case (Add fd mode os)
  then obtain s lt' A' h e where a: "alive A s = None" "rktio_ltps_add lt fd mode os = ok (lt', h, e)"
    "spec_add fd mode os s A = (A', h, e)" "related lt' A'"
    using ltps_add_ok [OF R, of fd mode os] c by auto
  show ?thesis using a(2,4) spec_step.add [OF a(1,3)] Add by auto
next
  case (Poll evs)
  have e: "epoll_fd A = lt_fd lt" using R by (simp add: related_def weakly_related_def)
  obtain lt' A' hit where p: "poll_loop evs lt False = ok (lt', hit)" "fold spec_event evs (A, False) = (A', hit)" "related lt' A'"
    using poll_loop_ok [OF R, of evs False] by blast
  show ?thesis
  proof (cases "lt_fd lt < 0")
    case True
    then show ?thesis using Poll R e spec_step.poll_unopened [of A evs] by (auto simp: rktio_ltps_poll_def)
  next
    case False
    then show ?thesis using Poll p e spec_step.poll [OF _ p(2)] by (auto simp: rktio_ltps_poll_def)
  qed
next
  case Get_Signaled
  show ?thesis
  proof (cases "queue A")
    case Nil
    then show ?thesis using Get_Signaled get_signaled_ok [OF R] R spec_step.unsignaled [OF Nil] by auto
  next
    case (Cons s q)
    then show ?thesis using Get_Signaled get_signaled_ok [OF R] spec_step.signaled [OF Cons] by fastforce
  qed
next
  case (Set_Data s d)
  then obtain m d0 where al: "alive A s = Some (m, d0)" using c by auto
  obtain h where h: "handles lt s = Some h" "auto_mode h = m" "handle_data h = d0" using alive_handle [OF R al] .
  then show ?thesis using Set_Data spec_step.set_data [OF al, of d] set_handle_ok [OF R h(1), of "h\<lparr>handle_data := d\<rparr>"]
    by (auto simp: rktio_ltps_handle_set_data_def get_handle_def set_handle_def handle_view_def)
next
  case (Set_Auto s m)
  then obtain m0 d where al: "alive A s = Some (m0, d)" using c by auto
  obtain h where h: "handles lt s = Some h" "auto_mode h = m0" "handle_data h = d" using alive_handle [OF R al] .
  then show ?thesis using Set_Auto spec_step.set_auto [OF al, of m] set_handle_ok [OF R h(1), of "h\<lparr>auto_mode := m\<rparr>"]
    by (auto simp: rktio_ltps_handle_set_auto_def get_handle_def set_handle_def handle_view_def)
next
  case (Free_Handle s)
  then show ?thesis using free_client_handle [OF R, of s] c spec_step.free [of s A] by fastforce
next
  case Remove_All
  obtain lt' fds where r: "rktio_ltps_remove_all lt = ok lt'" "related lt' (fold spec_remove fds A)" "distinct fds"
    "set fds = {fd. spec_known A fd}" using remove_all_ok [OF R] by blast
  show ?thesis using r(1,2) spec_step.remove_all [OF r(3,4)] Remove_All by auto
qed

fun ltps_run :: "ltps_op list \<Rightarrow> ltps \<Rightarrow> (ltps \<times> ltps_result list) hash_res" where
  "ltps_run [] lt = ok (lt, [])"
| "ltps_run (op # ops) lt =
     hbind (ltps_step op lt) (\<lambda>(lt, r). hbind (ltps_run ops lt) (\<lambda>(lt, rs). ok (lt, r # rs)))"

inductive spec_run :: "ltps_op list \<Rightarrow> ltps_spec \<Rightarrow> ltps_result list \<Rightarrow> ltps_spec \<Rightarrow> bool" where
  nothing: "spec_run [] A [] A"
| step: "spec_step op A r A1 \<Longrightarrow> spec_run ops A1 rs A' \<Longrightarrow> spec_run (op # ops) A (r # rs) A'"

lemma run_simulates:
  assumes "related lt A"
  shows "(\<exists>lt' rs A'. ltps_run ops lt = ok (lt', rs) \<and> spec_run ops A rs A' \<and> related lt' A') \<or>
    (\<exists>pre op rest rs A'. ops = pre @ op # rest \<and> spec_run pre A rs A' \<and> \<not> client_ok op A')"
  using assms
proof (induction ops arbitrary: lt A)
  case Nil
  then show ?case by (auto intro: spec_run.nothing)
next
  case (Cons op ops)
  show ?case
  proof (cases "client_ok op A")
    case False
    then show ?thesis by (force intro: spec_run.nothing)
  next
    case True
    obtain lt1 r A1 where s: "ltps_step op lt = ok (lt1, r)" "spec_step op A r A1" "related lt1 A1"
      using step_simulates [OF Cons.prems True] by blast
    from Cons.IH [OF s(3)] show ?thesis
    proof (elim disjE exE conjE)
      fix lt' rs A'
      assume "ltps_run ops lt1 = ok (lt', rs)" "spec_run ops A1 rs A'" "related lt' A'"
      then show ?thesis using s(1) spec_run.step [OF s(2)] by force
    next
      fix pre' op' rest rs A'
      assume "ops = pre' @ op' # rest" "spec_run pre' A1 rs A'" "\<not> client_ok op' A'"
      then show ?thesis using spec_run.step [OF s(2), of pre' rs A']
        by (intro disjI2 exI [of _ "op # pre'"] exI [of _ op'] exI [of _ rest] exI [of _ "r # rs"] exI [of _ A']) simp
    qed
  qed
qed


section \<open>Closing\<close>

text \<open>The handles that are left to the client when everything is removed and the queue is freed.\<close>

definition client_handles :: "ltps_spec \<Rightarrow> nat set" where
  "client_handles A =
     {s. \<exists>m d. alive A s = Some (m, d) \<and> s \<notin> set (queue A) \<and> (s \<in> ran (waiting A) \<longrightarrow> m = Handle_Zero)}"

definition spec_ok :: "ltps_spec \<Rightarrow> bool" where
  "spec_ok A =
     ((\<forall>x s. waiting A x = Some s \<longrightarrow> alive A s \<noteq> None \<and> s \<notin> set (queue A)) \<and>
      (\<forall>x y s. waiting A x = Some s \<and> waiting A y = Some s \<longrightarrow> x = y))"

lemma related_spec_ok:
  assumes "related lt A"
  shows "spec_ok A"
proof -
  have po: "pairs_ok lt" and w: "waiting A = wait_map lt" and ho: "handles_ok lt (slot (pairs lt)) A"
    using assms by (auto simp: related_def weakly_related_def)
  have sl: "\<exists>v. table lt (fst x) = Some v \<and> slot (pairs lt) (v, snd x) = Some s" if "waiting A x = Some s" for x s
    using that w by (cases x) (auto simp: wait_map_def split: option.splits)
  have "alive A s \<noteq> None \<and> s \<notin> set (queue A)" if "waiting A x = Some s" for x s
    using sl [OF that] ho by (auto simp: handles_ok_def)
  moreover have "x = y" if xy: "waiting A x = Some s" "waiting A y = Some s" for x y s
  proof -
    obtain v v' where v: "table lt (fst x) = Some v" "slot (pairs lt) (v, snd x) = Some s"
      "table lt (fst y) = Some v'" "slot (pairs lt) (v', snd y) = Some s" using sl xy by metis
    then have "(v, snd x) = (v', snd y)" using ho unfolding handles_ok_def by blast
    then have "fst x = fst y" "snd x = snd y" using po v(1,3) unfolding pairs_ok_def by auto
    then show ?thesis by (rule prod_eqI)
  qed
  ultimately show ?thesis unfolding spec_ok_def by blast
qed

lemma waiting_once: "spec_ok A \<Longrightarrow> waiting A x = Some s \<Longrightarrow> waiting A y = Some s \<Longrightarrow> y = x"
  unfolding spec_ok_def by metis

lemma waiting_alive: "spec_ok A \<Longrightarrow> waiting A x = Some s \<Longrightarrow> alive A s \<noteq> None \<and> s \<notin> set (queue A)"
  unfolding spec_ok_def by metis

lemma ran_remove:
  assumes "waiting A x = Some s" "spec_ok A"
  shows "ran ((waiting A)(x := None)) = ran (waiting A) - {s}"
proof (rule set_eqI)
  fix t
  have "(\<exists>a. a \<noteq> x \<and> waiting A a = Some t) \<longleftrightarrow> (\<exists>a. waiting A a = Some t) \<and> t \<noteq> s"
    using assms(1) waiting_once [OF assms(2,1)] by (metis option.inject)
  then show "t \<in> ran ((waiting A)(x := None)) \<longleftrightarrow> t \<in> ran (waiting A) - {s}" by (auto simp: ran_def)
qed

lemma spec_fire_ok:
  assumes "spec_ok A"
  shows "spec_ok (spec_fire x A)" "client_handles (spec_fire x A) = client_handles A"
proof -
  have "spec_ok (spec_fire x A) \<and> client_handles (spec_fire x A) = client_handles A"
  proof (cases "waiting A x")
    case (Some s)
    have s: "s \<notin> set (queue A)" using waiting_alive [OF assms Some] by blast
    have sx: "y \<noteq> x \<Longrightarrow> waiting A y \<noteq> Some s" for y using waiting_once [OF assms Some] by blast
    have sr: "s \<in> ran (waiting A)" using Some by (rule ranI)
    obtain m d where md: "alive A s = Some (m, d)" using waiting_alive [OF assms Some] by auto
    have q: "alive (spec_fire x A) = (case m of Handle_None \<Rightarrow> alive A
        | Handle_Zero \<Rightarrow> (alive A)(s \<mapsto> (Handle_Zero, None)) | Handle_Free \<Rightarrow> (alive A)(s := None))"
      "queue (spec_fire x A) = (if m = Handle_None then s # queue A else queue A)"
      using Some md by (simp_all add: spec_fire_def spec_signal_def split: handle_auto.splits)
    have "spec_ok (spec_fire x A)"
      using assms s sx unfolding spec_ok_def q spec_fire_fields by (auto split: handle_auto.splits)
    moreover have "t \<in> client_handles (spec_fire x A) \<longleftrightarrow> t \<in> client_handles A" for t
      using s sr md unfolding client_handles_def q spec_fire_fields ran_remove [OF Some assms]
      by (cases "t = s"; cases m) auto
    ultimately show ?thesis by blast
  qed (simp add: spec_fire_idle assms)
  then show "spec_ok (spec_fire x A)" "client_handles (spec_fire x A) = client_handles A" by auto
qed

lemma spec_removes_ok:
  assumes "spec_ok A"
  shows "client_handles (fold spec_remove fds A) = client_handles A"
    "waiting (fold spec_remove fds A) (fd, b) = (if fd \<in> set fds then None else waiting A (fd, b))"
  using assms by (induction fds arbitrary: A) (auto simp: spec_remove_def spec_fire_ok)

lemma free_signaled_ok:
  assumes "related lt A"
  shows "\<exists>lt'. free_signaled lt = ok lt' \<and> related lt' (A\<lparr>queue := [], alive := (alive A) |` (- set (queue A))\<rparr>)"
  using assms
proof (induction "queue A" arbitrary: lt A)
  case Nil
  have "(alive A) |` (- set (queue A)) = alive A" by (simp add: restrict_map_def flip: Nil.hyps)
  moreover have "A\<lparr>queue := [], alive := alive A\<rparr> = A" using Nil.hyps by (cases A) simp
  ultimately have "A\<lparr>queue := [], alive := (alive A) |` (- set (queue A))\<rparr> = A" by simp
  then show ?case using get_signaled_ok [OF Nil.prems] Nil.prems
    by (subst free_signaled.simps) (simp flip: Nil.hyps)
next
  case (Cons s q)
  obtain lt1 where lt1: "rktio_ltps_get_signaled_handle lt = ok (lt1, Some s, None)" "related lt1 (A\<lparr>queue := q\<rparr>)"
    using get_signaled_ok [OF Cons.prems] by (auto simp flip: Cons.hyps(2))
  have ho: "chain (handles lt) (signaled lt) (s # q)" "distinct (s # q)" "alive A = (\<lambda>s. map_option handle_view (handles lt s))"
    using Cons.prems Cons.hyps(2) by (auto simp: related_def weakly_related_def handles_ok_def)
  have al: "alive A s \<noteq> None" using chain_alive [OF ho(1), of s] ho(3) by simp
  have "s \<notin> ran (waiting A)"
  proof
    assume "s \<in> ran (waiting A)"
    then obtain x where "waiting A x = Some s" by (auto simp: ran_def)
    from waiting_alive [OF related_spec_ok [OF Cons.prems] this] show False by (simp flip: Cons.hyps(2))
  qed
  then obtain lt2 where lt2: "free_handle lt1 s = ok lt2" "related lt2 (A\<lparr>queue := q, alive := (alive A)(s := None)\<rparr>)"
    using free_client_handle [OF lt1(2), of s] al ho(2) by auto
  have upd: "((alive A)(s := None)) |` (- set q) = (alive A) |` (- set (s # q))"
    by (auto simp: restrict_map_def fun_eq_iff)
  obtain lt3 where "free_signaled lt2 = ok lt3" "related lt3 (A\<lparr>queue := [], alive := ((alive A)(s := None)) |` (- set q)\<rparr>)"
    using Cons.hyps(1) [OF _ lt2(2)] by auto
  then show ?case using lt1(1) lt2(1) unfolding upd Cons.hyps(2) by (subst free_signaled.simps) simp
qed

lemma hash_free_empty:
  assumes "hash_ok ht" "hash_map ht = Map.empty"
  shows "rktio_hash_free ht True = []"
proof (cases "buckets ht")
  case (Some bs)
  have "entries bs = []" using assms(2) Some by (simp add: hash_map_def)
  then show ?thesis using hash_free_misses_first [OF assms(1) Some] by simp
qed (simp add: rktio_hash_free_def)

lemma close_frees:
  assumes R: "related lt A"
  shows "\<exists>lt'. rktio_ltps_close lt = ok lt' \<and> pairs lt' = Map.empty \<and> dom (handles lt') = client_handles A"
proof -
  obtain lt1 fds where r: "rktio_ltps_remove_all lt = ok lt1" "related lt1 (fold spec_remove fds A)" "distinct fds"
    "set fds = {fd. spec_known A fd}" using remove_all_ok [OF R] by blast
  let ?A1 = "fold spec_remove fds A"
  note sp = spec_removes_ok [OF related_spec_ok [OF R], of fds]
  have w1: "waiting ?A1 x = None" for x
    using sp(2) [of "fst x" "snd x"] r(4) by (cases x; cases "snd x") (auto simp: spec_known_def split: if_splits)
  let ?A2 = "?A1\<lparr>queue := [], alive := (alive ?A1) |` (- set (queue ?A1))\<rparr>"
  obtain lt2 where f: "free_signaled lt1 = ok lt2" "related lt2 ?A2" using free_signaled_ok [OF r(2)] by blast
  have t2: "table lt2 fd = None" for fd using full_known [OF f(2), of fd] w1 by (simp add: spec_known_def)
  have po: "pairs_ok lt2" using f(2) by (simp add: related_def weakly_related_def)
  then have p2: "pairs lt2 = Map.empty" using t2 by (auto simp: pairs_ok_def fun_eq_iff)
  have "hash_map (fd_handles lt2) = Map.empty" using t2 by (simp add: table_def fun_eq_iff)
  then have "rktio_hash_free (fd_handles lt2) True = []" using po hash_free_empty by (auto simp: pairs_ok_def)
  then have close: "rktio_ltps_close lt = ok lt2" using r(1) f(1) by (simp add: rktio_ltps_close_def)
  have "alive ?A2 = (\<lambda>s. map_option handle_view (handles lt2 s))"
    using f(2) unfolding related_def weakly_related_def handles_ok_def by blast
  then have "dom (handles lt2) = dom (alive ?A2)" by (auto simp: dom_def)
  also have "\<dots> = client_handles ?A1"
    using w1 by (auto simp: client_handles_def restrict_map_def ran_def split: if_splits)
  finally show ?thesis using close p2 sp(1) by auto
qed

text \<open>
  C37: closing a poll set frees all it owns: every pair and every handle that waits or is
  queued, except for the waiting ones that the client asked only to be zeroed. What is left in
  memory are these and the handles the client already has; nothing is freed twice.
\<close>

theorem ltps_close_frees:
  assumes "related lt A"
  shows "\<exists>lt'. rktio_ltps_close lt = ok lt' \<and> pairs lt' = Map.empty \<and> dom (handles lt') = client_handles A"
  by (rule close_frees [OF assms])

theorem ltps_close_frees_witness:
  "\<exists>lt A lt' s. related lt A \<and> waiting A (3, True) = Some s \<and> rktio_ltps_close lt = ok lt' \<and>
    pairs lt' = Map.empty \<and> handles lt' = Map.empty"
proof -
  let ?os = "\<lparr>pending_open = False, created_fd = 7, ctl_eperm = False\<rparr>"
  obtain s lt A r where a: "alive spec_open s = None" "rktio_ltps_add rktio_ltps_open 3 Create_Read ?os = ok (lt, r)"
    "spec_add 3 Create_Read ?os s spec_open = (A, r)" "related lt A"
    using ltps_add_ok [OF spec_open_related, of 3 Create_Read ?os] by auto
  have A: "waiting A = [(3, True) \<mapsto> s]" "alive A = [s \<mapsto> (Handle_None, None)]" "queue A = []"
    using a(3) by (auto simp: spec_add_def spec_add_open_def spec_open_def)
  then have "client_handles A = {}" by (auto simp: client_handles_def ran_def split: if_splits)
  with ltps_close_frees [OF a(4)] obtain lt' where "rktio_ltps_close lt = ok lt'" "pairs lt' = Map.empty"
    "handles lt' = Map.empty" by auto
  then show ?thesis using a(4) A(1) by fastforce
qed

end
