(* ===== verification/Rktio_Wide.thy ===== *)
theory Rktio_Wide
  imports Zuo_Prelude
begin

text \<open>
  Conversion between byte strings and 16-bit strings, \<^verbatim>\<open>src/racket/src/rktio/rktio_wide.c\<close> in the
  Windows configuration. The byte side is UTF-8 extended with encodings of unpaired surrogates, so that
  every sequence of 16-bit units has an encoding. Both directions run twice, first without a
  buffer to find the length and then into a buffer of this length; a buffer that is absent is
  \<^term>\<open>None\<close>, and a write outside of a buffer is an error.

  Intermediate values are integers; the code has 32 bits for them, and they stay below
  \<^term>\<open>2 ^ 22 :: int\<close>.
\<close>

section \<open>Buffers\<close>

datatype wide_error = Invalid | Overrun

definition put_unit :: "'a list option \<Rightarrow> int \<Rightarrow> 'a \<Rightarrow> wide_error + 'a list option" where
  "put_unit buf j x =
     (case buf of
        None \<Rightarrow> Inr None
      | Some xs \<Rightarrow> if 0 \<le> j \<and> j < int (length xs) then Inr (Some (xs[nat j := x])) else Inl Overrun)"

section \<open>From bytes to 16-bit units\<close>

record dec =
  seq_state :: nat
  nextbits :: int
  code :: int
  pending_surrogate :: int
  us_pos :: int
  us_buf :: "16 word list option"

definition flush_pending :: "dec \<Rightarrow> wide_error + dec" where
  "flush_pending d =
     (if pending_surrogate d \<noteq> 0 then
        rbind (put_unit (us_buf d) (us_pos d) (word_of_int (pending_surrogate d))) (\<lambda>buf.
          Inr (d\<lparr>us_buf := buf, us_pos := us_pos d + 1, pending_surrogate := 0\<rparr>))
      else Inr d)"

definition out_unit :: "int \<Rightarrow> dec \<Rightarrow> wide_error + dec" where
  "out_unit v d =
     rbind (if pending_surrogate d \<noteq> 0 then Inr (d\<lparr>us_pos := us_pos d - 1\<rparr>)
            else rbind (put_unit (us_buf d) (us_pos d) (word_of_int v)) (\<lambda>buf. Inr (d\<lparr>us_buf := buf\<rparr>)))
       (\<lambda>d. Inr (d\<lparr>us_pos := us_pos d + 1\<rparr>))"

definition out_code :: "int \<Rightarrow> dec \<Rightarrow> wide_error + dec" where
  "out_code v d =
     (if v > 0xFFFF then
        rbind (flush_pending d) (\<lambda>d.
        let w = v - 0x10000 in
        rbind (put_unit (us_buf d) (us_pos d) (word_of_int (0xD800 OR (drop_bit 10 w AND 0x3FF)))) (\<lambda>buf.
        rbind (put_unit buf (us_pos d + 1) (word_of_int (0xDC00 OR (w AND 0x3FF)))) (\<lambda>buf.
        Inr (d\<lparr>us_buf := buf, us_pos := us_pos d + 2\<rparr>))))
      else if v \<ge> 0xD800 \<and> v \<le> 0xDFFF then
        (if pending_surrogate d \<noteq> 0 \<and> v AND 0xDC00 = 0xDC00 then Inl Invalid
         else rbind (flush_pending d) (\<lambda>d.
           out_unit v (d\<lparr>pending_surrogate := (if v AND 0xDC00 = 0xD800 then v else 0)\<rparr>)))
      else rbind (flush_pending d) (out_unit v))"

definition dec_byte :: "8 word \<Rightarrow> dec \<Rightarrow> wide_error + dec" where
  "dec_byte b d =
     (let sc = uint b in
      if sc < 0x80 then
        (if seq_state d \<noteq> 0 then Inl Invalid else out_code sc (d\<lparr>code := sc\<rparr>))
      else if sc AND 0xC0 = 0x80 then
        (if seq_state d \<noteq> 0 then
           (if nextbits d = 0 \<or> sc AND nextbits d \<noteq> 0 then
              let v = push_bit 6 (code d) + (sc AND 0x3F);
                  d = d\<lparr>code := v, nextbits := 0, seq_state := seq_state d - 1\<rparr> in
              if seq_state d \<noteq> 0 then Inr d
              else if v > 0x10FFFF then Inl Invalid
              else out_code v d
            else Inl Invalid)
         else Inl Invalid)
      else if seq_state d \<noteq> 0 then Inl Invalid
      else if sc AND 0xE0 = 0xC0 then
        (if sc AND 0x1E \<noteq> 0 then Inr (d\<lparr>seq_state := 1, code := sc AND 0x1F\<rparr>) else Inl Invalid)
      else if sc AND 0xF0 = 0xE0 then
        (let v = sc AND 0xF in
         Inr (d\<lparr>seq_state := 2, code := v, nextbits := (if v = 0 then 0x20 else nextbits d)\<rparr>))
      else if sc AND 0xF8 = 0xF0 then
        (let v = sc AND 0x7 in
         if v \<le> 4 then Inr (d\<lparr>seq_state := 3, code := v, nextbits := (if v = 0 then 0x30 else nextbits d)\<rparr>)
         else Inl Invalid)
      else Inl Invalid)"

fun dec_loop :: "8 word list \<Rightarrow> dec \<Rightarrow> wide_error + dec" where
  "dec_loop [] d = Inr d"
| "dec_loop (b # bs) d = rbind (dec_byte b d) (dec_loop bs)"

definition utf8ish_to_utf16ish ::
  "8 word list \<Rightarrow> 16 word list option \<Rightarrow> wide_error + (int \<times> 16 word list option)" where
  "utf8ish_to_utf16ish s us =
     rbind (dec_loop s \<lparr>seq_state = 0, nextbits = 0, code = 0, pending_surrogate = 0, us_pos = 0, us_buf = us\<rparr>) (\<lambda>d.
     rbind (flush_pending d) (\<lambda>d.
     if seq_state d \<noteq> 0 then Inl Invalid else Inr (us_pos d, us_buf d)))"

section \<open>From 16-bit units to bytes\<close>

text \<open>The code of the first unit, or of the surrogate pair there, and the remaining units.\<close>

fun take_code :: "16 word \<Rightarrow> 16 word list \<Rightarrow> int \<times> 16 word list" where
  "take_code u us =
     (let wc = uint u in
      if wc AND 0xF800 = 0xD800 then
        (if wc AND 0xFC00 \<noteq> 0xD800 then (wc, us)
         else case us of
           [] \<Rightarrow> (wc, us)
         | u2 # us2 \<Rightarrow>
             if uint u2 AND 0xFC00 \<noteq> 0xDC00 then (wc, us)
             else (push_bit 10 (wc AND 0x3FF) + (uint u2 AND 0x3FF) + 0x10000, us2))
      else (wc, us))"

definition code_length :: "int \<Rightarrow> int" where
  "code_length wc =
     (if wc < 0x80 then 1 else if wc < 0x800 then 2 else if wc < 0x10000 then 3
      else if wc < 0x200000 then 4 else if wc < 0x4000000 then 5 else 6)"

definition code_bytes :: "int \<Rightarrow> int list" where
  "code_bytes wc =
     (if wc < 0x80 then [wc]
      else if wc < 0x800 then
        [0xC0 OR drop_bit 6 (wc AND 0x7C0), 0x80 OR (wc AND 0x3F)]
      else if wc < 0x10000 then
        [0xE0 OR drop_bit 12 (wc AND 0xF000), 0x80 OR drop_bit 6 (wc AND 0x0FC0), 0x80 OR (wc AND 0x3F)]
      else if wc < 0x200000 then
        [0xF0 OR drop_bit 18 (wc AND 0x1C0000), 0x80 OR drop_bit 12 (wc AND 0x03F000),
         0x80 OR drop_bit 6 (wc AND 0x000FC0), 0x80 OR (wc AND 0x3F)]
      else if wc < 0x4000000 then
        [0xF8 OR drop_bit 24 (wc AND 0x3000000), 0x80 OR drop_bit 18 (wc AND 0x0FC0000),
         0x80 OR drop_bit 12 (wc AND 0x003F000), 0x80 OR drop_bit 6 (wc AND 0x0000FC0), 0x80 OR (wc AND 0x3F)]
      else
        [0xFC OR drop_bit 30 (wc AND 0x40000000), 0x80 OR drop_bit 24 (wc AND 0x3F000000),
         0x80 OR drop_bit 18 (wc AND 0x00FC0000), 0x80 OR drop_bit 12 (wc AND 0x0003F000),
         0x80 OR drop_bit 6 (wc AND 0x00000FC0), 0x80 OR (wc AND 0x3F)])"

fun put_bytes :: "8 word list option \<Rightarrow> int \<Rightarrow> int list \<Rightarrow> wide_error + (8 word list option \<times> int)" where
  "put_bytes s j [] = Inr (s, j)"
| "put_bytes s j (c # cs) = rbind (put_unit s j (word_of_int c)) (\<lambda>s. put_bytes s (j + 1) cs)"

lemma take_code_length: "length (snd (take_code u us)) \<le> length us"
  by (auto simp: Let_def split: list.splits)

function enc_loop :: "16 word list \<Rightarrow> 8 word list option \<Rightarrow> int \<Rightarrow> wide_error + (int \<times> 8 word list option)" where
  "enc_loop [] s j = Inr (j, s)"
| "enc_loop (u # us) s j =
     (let wc = fst (take_code u us); us' = snd (take_code u us) in
      if s = None then enc_loop us' s (j + code_length wc)
      else rbind (put_bytes s j (code_bytes wc)) (\<lambda>(s, j). enc_loop us' s j))"
  by pat_completeness auto

termination enc_loop
  by (relation "measure (\<lambda>(us, s, j). length us)") (auto simp: less_Suc_eq_le take_code_length simp del: take_code.simps)

definition utf16ish_to_utf8ish ::
  "16 word list \<Rightarrow> 8 word list option \<Rightarrow> wide_error + (int \<times> 8 word list option)" where
  "utf16ish_to_utf8ish us s = enc_loop us s 0"

section \<open>Strings\<close>

text \<open>A terminated string in memory, with its terminator.\<close>

definition c_string :: "'a::zero list \<Rightarrow> 'a list" where
  "c_string s = takeWhile (\<lambda>c. c \<noteq> 0) s @ [0]"

record wide_state =
  wide_buffer :: "16 word list"
  wide_buffer_size :: int

definition RKTIO_MAX_IDEAL_BUFFER_SIZE :: int where
  "RKTIO_MAX_IDEAL_BUFFER_SIZE = 4096"

text \<open>
  The buffer for a result of length \<open>len\<close>: a new one, or the shared one, which grows when it is too
  small and shrinks when it is much too large. Fresh memory holds \<open>junk\<close>.
\<close>

definition wide_room :: "16 word \<Rightarrow> bool \<Rightarrow> int \<Rightarrow> wide_state \<Rightarrow> 16 word list \<times> wide_state" where
  "wide_room junk do_copy len st =
     (if do_copy then (replicate (nat len) junk, st)
      else if len > wide_buffer_size st then
        (replicate (nat len) junk, st\<lparr>wide_buffer_size := len, wide_buffer := replicate (nat len) junk\<rparr>)
      else if len < RKTIO_MAX_IDEAL_BUFFER_SIZE \<and> wide_buffer_size st > RKTIO_MAX_IDEAL_BUFFER_SIZE then
        (replicate (nat RKTIO_MAX_IDEAL_BUFFER_SIZE) junk,
         st\<lparr>wide_buffer_size := RKTIO_MAX_IDEAL_BUFFER_SIZE,
            wide_buffer := replicate (nat RKTIO_MAX_IDEAL_BUFFER_SIZE) junk\<rparr>)
      else (wide_buffer st, st))"

definition rktio_convert_to_wchar ::
  "16 word \<Rightarrow> 8 word list \<Rightarrow> bool \<Rightarrow> wide_state \<Rightarrow> wide_error + (16 word list \<times> wide_state)" where
  "rktio_convert_to_wchar junk s do_copy st =
     rbind (utf8ish_to_utf16ish (c_string s) None) (\<lambda>(len, us).
     let (ws, st) = wide_room junk do_copy len st in
     rbind (utf8ish_to_utf16ish (c_string s) (Some ws)) (\<lambda>(len, us).
     Inr (the us, if do_copy then st else st\<lparr>wide_buffer := the us\<rparr>)))"

definition rktio_convert_from_wchar :: "8 word \<Rightarrow> 16 word list \<Rightarrow> wide_error + 8 word list" where
  "rktio_convert_from_wchar junk ws =
     rbind (utf16ish_to_utf8ish (c_string ws) None) (\<lambda>(len, s).
     rbind (utf16ish_to_utf8ish (c_string ws) (Some (replicate (nat len) junk))) (\<lambda>(len, s). Inr (the s)))"

end
