(* ===== verification/Rktio_Wide_Round_Trip.thy ===== *)
theory Rktio_Wide_Round_Trip
  imports Rktio_Wide
begin

text \<open>
  The two conversions are inverse to each other: every sequence of 16-bit units is encoded in bytes
  from which it is recovered, and every byte sequence that the decoder accepts is the encoding of
  what it returns. Between them lie the code points: numbers below 0x110000, with a low surrogate
  never directly after a high one.
\<close>

section \<open>Bits and bytes\<close>

lemma or_low:
  fixes y :: int
  assumes "0 \<le> y" "y < 2 ^ n"
  shows "push_bit n a OR y = 2 ^ n * a + y"
proof -
  have "take_bit n y = y" using assms by (simp add: take_bit_int_eq_self)
  then have "\<not> bit y i" if "n \<le> i" for i using that bit_take_bit_iff [of n y i] by auto
  then have "push_bit n a AND y = 0" by (auto simp: bit_eq_iff bit_simps)
  then have "push_bit n a OR y = push_bit n a + y" by (simp add: disjunctive_add_eq_or)
  then show ?thesis by (simp add: push_bit_eq_mult)
qed

lemma and_mod: "x AND (2 ^ n - 1) = x mod 2 ^ n" for x :: int
  using take_bit_eq_mask [of n x] by (simp add: mask_eq_exp_minus_1 take_bit_eq_mod)

lemma and_masks:
  fixes x :: int
  shows "x AND 0x7 = x mod 8" "x AND 0xF = x mod 16" "x AND 0x1F = x mod 32" "x AND 0x3F = x mod 64" "x AND 0x3FF = x mod 1024"
  using and_mod [of x 3] and_mod [of x 4] and_mod [of x 5] and_mod [of x 6] and_mod [of x 10] by simp_all

lemma drop_bits:
  fixes x :: int
  shows "drop_bit 6 x = x div 64" "drop_bit 10 x = x div 1024" "drop_bit 12 x = x div 4096" "drop_bit 18 x = x div 262144"
  by (simp_all add: drop_bit_eq_div)

lemma or_tops:
  fixes y :: int
  shows "0 \<le> y \<Longrightarrow> y < 64 \<Longrightarrow> 0xC0 OR y = 0xC0 + y" "0 \<le> y \<Longrightarrow> y < 32 \<Longrightarrow> 0xE0 OR y = 0xE0 + y"
    "0 \<le> y \<Longrightarrow> y < 16 \<Longrightarrow> 0xF0 OR y = 0xF0 + y" "0 \<le> y \<Longrightarrow> y < 128 \<Longrightarrow> 0x80 OR y = 0x80 + y"
    "0 \<le> y \<Longrightarrow> y < 1024 \<Longrightarrow> 0xD800 OR y = 0xD800 + y" "0 \<le> y \<Longrightarrow> y < 1024 \<Longrightarrow> 0xDC00 OR y = 0xDC00 + y"
  using or_low [of y 6 3] or_low [of y 5 7] or_low [of y 4 15] or_low [of y 7 1] or_low [of y 10 54] or_low [of y 10 55]
  by (simp_all add: push_bit_eq_mult)

lemma byte_table:
  "\<forall>x \<in> set [0..255]. ((x AND 0xC0 = 0x80) \<longleftrightarrow> 128 \<le> x \<and> x < 192) \<and>
     ((x AND 0xE0 = 0xC0) \<longleftrightarrow> 192 \<le> x \<and> x < 224) \<and> ((x AND 0xF0 = 0xE0) \<longleftrightarrow> 224 \<le> x \<and> x < 240) \<and>
     ((x AND 0xF8 = 0xF0) \<longleftrightarrow> 240 \<le> x \<and> x < 248) \<and> (192 \<le> x \<and> x < 224 \<longrightarrow> x AND 0x1F = x - 192 \<and> (x AND 0x1E \<noteq> 0 \<longleftrightarrow> 194 \<le> x)) \<and>
     (224 \<le> x \<and> x < 240 \<longrightarrow> x AND 0xF = x - 224) \<and> (240 \<le> x \<and> x < 248 \<longrightarrow> x AND 0x7 = x - 240) \<and>
     (128 \<le> x \<and> x < 192 \<longrightarrow> x AND 0x3F = x - 128 \<and> (x AND 0x20 \<noteq> 0 \<longleftrightarrow> 160 \<le> x) \<and> (x AND 0x30 \<noteq> 0 \<longleftrightarrow> 144 \<le> x))"
  by code_simp

lemma byte_range: "0 \<le> uint (b :: 8 word)" "uint (b :: 8 word) < 256"
  using unsigned_greater_eq [of b] unsigned_less [of b] by simp_all

lemma byte_facts:
  fixes b :: "8 word"
  shows "uint b AND 0xC0 = 0x80 \<longleftrightarrow> 128 \<le> uint b \<and> uint b < 192" "uint b AND 0xE0 = 0xC0 \<longleftrightarrow> 192 \<le> uint b \<and> uint b < 224"
    "uint b AND 0xF0 = 0xE0 \<longleftrightarrow> 224 \<le> uint b \<and> uint b < 240" "uint b AND 0xF8 = 0xF0 \<longleftrightarrow> 240 \<le> uint b \<and> uint b < 248"
    "192 \<le> uint b \<Longrightarrow> uint b < 224 \<Longrightarrow> uint b AND 0x1F = uint b - 192"
    "192 \<le> uint b \<Longrightarrow> uint b < 224 \<Longrightarrow> uint b AND 0x1E \<noteq> 0 \<longleftrightarrow> 194 \<le> uint b"
    "224 \<le> uint b \<Longrightarrow> uint b < 240 \<Longrightarrow> uint b AND 0xF = uint b - 224"
    "240 \<le> uint b \<Longrightarrow> uint b < 248 \<Longrightarrow> uint b AND 0x7 = uint b - 240"
    "128 \<le> uint b \<Longrightarrow> uint b < 192 \<Longrightarrow> uint b AND 0x20 \<noteq> 0 \<longleftrightarrow> 160 \<le> uint b"
    "128 \<le> uint b \<Longrightarrow> uint b < 192 \<Longrightarrow> uint b AND 0x30 \<noteq> 0 \<longleftrightarrow> 144 \<le> uint b"
    "128 \<le> uint b \<Longrightarrow> uint b < 192 \<Longrightarrow> uint b AND 0x3F = uint b - 128"
proof -
  have "uint b \<in> set [0..255]" using byte_range [of b] by simp
  from bspec [OF byte_table this] show
    "uint b AND 0xC0 = 0x80 \<longleftrightarrow> 128 \<le> uint b \<and> uint b < 192" "uint b AND 0xE0 = 0xC0 \<longleftrightarrow> 192 \<le> uint b \<and> uint b < 224"
    "uint b AND 0xF0 = 0xE0 \<longleftrightarrow> 224 \<le> uint b \<and> uint b < 240" "uint b AND 0xF8 = 0xF0 \<longleftrightarrow> 240 \<le> uint b \<and> uint b < 248"
    "192 \<le> uint b \<Longrightarrow> uint b < 224 \<Longrightarrow> uint b AND 0x1F = uint b - 192"
    "192 \<le> uint b \<Longrightarrow> uint b < 224 \<Longrightarrow> uint b AND 0x1E \<noteq> 0 \<longleftrightarrow> 194 \<le> uint b"
    "224 \<le> uint b \<Longrightarrow> uint b < 240 \<Longrightarrow> uint b AND 0xF = uint b - 224"
    "240 \<le> uint b \<Longrightarrow> uint b < 248 \<Longrightarrow> uint b AND 0x7 = uint b - 240"
    "128 \<le> uint b \<Longrightarrow> uint b < 192 \<Longrightarrow> uint b AND 0x20 \<noteq> 0 \<longleftrightarrow> 160 \<le> uint b"
    "128 \<le> uint b \<Longrightarrow> uint b < 192 \<Longrightarrow> uint b AND 0x30 \<noteq> 0 \<longleftrightarrow> 144 \<le> uint b"
    "128 \<le> uint b \<Longrightarrow> uint b < 192 \<Longrightarrow> uint b AND 0x3F = uint b - 128"
    by blast+
qed

section \<open>Code points\<close>

definition valid_code :: "int \<Rightarrow> bool" where
  "valid_code c = (0 \<le> c \<and> c < 0x110000)"

definition utf8 :: "int \<Rightarrow> int list" where
  "utf8 c =
     (if c < 0x80 then [c]
      else if c < 0x800 then [192 + c div 64, 128 + c mod 64]
      else if c < 0x10000 then [224 + c div 4096, 128 + c div 64 mod 64, 128 + c mod 64]
      else [240 + c div 262144, 128 + c div 4096 mod 64, 128 + c div 64 mod 64, 128 + c mod 64])"

definition units :: "int \<Rightarrow> int list" where
  "units c = (if c < 0x10000 then [c] else [0xD800 + (c - 0x10000) div 1024, 0xDC00 + c mod 1024])"

lemma code_bytes_utf8:
  assumes "valid_code c"
  shows "code_bytes c = utf8 c" "code_length c = int (length (utf8 c))"
proof -
  have c: "0 \<le> c" "c < 0x110000" using assms by (auto simp: valid_code_def)
  have m: "c < 0x800 \<Longrightarrow> c div 64 mod 32 = c div 64" "c < 0x10000 \<Longrightarrow> c div 4096 mod 16 = c div 4096"
    "c div 262144 mod 8 = c div 262144" using c by auto
  have r: "c < 0x800 \<Longrightarrow> c div 64 < 32" "c < 0x10000 \<Longrightarrow> c div 4096 < 16" "c div 262144 < 8" using c by auto
  show "code_bytes c = utf8 c" using c m r
    by (auto simp: code_bytes_def utf8_def and_masks or_tops drop_bits)
  show "code_length c = int (length (utf8 c))" using c by (auto simp: code_length_def utf8_def)
qed

lemma utf8_range: "valid_code c \<Longrightarrow> x \<in> set (utf8 c) \<Longrightarrow> 0 \<le> x \<and> x < 256"
  by (auto simp: utf8_def valid_code_def split: if_splits)

lemma units_range: "valid_code c \<Longrightarrow> x \<in> set (units c) \<Longrightarrow> 0 \<le> x \<and> x < 0x10000"
  by (auto simp: units_def valid_code_def split: if_splits)

section \<open>Decoding a code point\<close>

lemma uint_byte: "0 \<le> x \<Longrightarrow> x < 256 \<Longrightarrow> uint (word_of_int x :: 8 word) = x"
  by (simp add: uint_word_of_int_eq take_bit_int_eq_self)

lemma uint_unit: "0 \<le> x \<Longrightarrow> x < 0x10000 \<Longrightarrow> uint (word_of_int x :: 16 word) = x"
  by (simp add: uint_word_of_int_eq take_bit_int_eq_self)

lemma byte_of:
  assumes "0 \<le> x" "x < 256"
  obtains b :: "8 word" where "word_of_int x = b" "uint b = x"
  using uint_byte [OF assms] by blast

lemma dec_ascii: "seq_state d = 0 \<Longrightarrow> uint b < 128 \<Longrightarrow> dec_byte b d = out_code (uint b) (d\<lparr>code := uint b\<rparr>)"
  by (simp add: dec_byte_def Let_def)

lemma dec_lead:
  assumes "seq_state d = 0"
  shows "128 \<le> uint b \<Longrightarrow> uint b < 194 \<Longrightarrow> dec_byte b d = Inl Invalid"
    "194 \<le> uint b \<Longrightarrow> uint b < 224 \<Longrightarrow> dec_byte b d = Inr (d\<lparr>seq_state := 1, code := uint b - 192\<rparr>)"
    "224 \<le> uint b \<Longrightarrow> uint b < 240 \<Longrightarrow>
       dec_byte b d = Inr (d\<lparr>seq_state := 2, code := uint b - 224, nextbits := (if uint b = 224 then 0x20 else nextbits d)\<rparr>)"
    "240 \<le> uint b \<Longrightarrow> uint b < 245 \<Longrightarrow>
       dec_byte b d = Inr (d\<lparr>seq_state := 3, code := uint b - 240, nextbits := (if uint b = 240 then 0x30 else nextbits d)\<rparr>)"
    "245 \<le> uint b \<Longrightarrow> dec_byte b d = Inl Invalid"
  using assms byte_range [of b]
  by (simp_all add: dec_byte_def Let_def byte_facts del: drop_bit_and)

lemma dec_cont:
  assumes "seq_state d = Suc n"
  shows "dec_byte b d =
    (if 128 \<le> uint b \<and> uint b < 192 \<and> (nextbits d = 0 \<or> uint b AND nextbits d \<noteq> 0) then
       let v = code d * 64 + (uint b - 128); d' = d\<lparr>code := v, nextbits := 0, seq_state := n\<rparr> in
       if n \<noteq> 0 then Inr d' else if v > 0x10FFFF then Inl Invalid else out_code v d'
     else Inl Invalid)"
  using assms byte_range [of b]
  by (simp add: dec_byte_def Let_def byte_facts push_bit_eq_mult)

lemma div_64: "c div 4096 = c div 64 div 64" "c div 262144 = c div 64 div 64 div 64" for c :: int
  by (simp_all flip: zdiv_zmult2_eq)

text \<open>Sequences of two, three and four bytes, by the payload of each byte.\<close>

lemma dec_2:
  assumes "seq_state d = 0" "nextbits d = 0" "uint b1 = 192 + x1" "uint b2 = 128 + x2"
    and "2 \<le> x1" "x1 < 32" "0 \<le> x2" "x2 < 64"
  shows "dec_loop (b1 # b2 # bs) d = rbind (out_code (x1 * 64 + x2) (d\<lparr>code := x1 * 64 + x2\<rparr>)) (dec_loop bs)"
proof -
  have d0: "d\<lparr>code := v, nextbits := 0, seq_state := 0\<rparr> = d\<lparr>code := v\<rparr>" for v using assms(1,2) by (cases d) simp
  show ?thesis using assms by (simp add: dec_lead dec_cont Let_def d0)
qed

lemma dec_3:
  assumes "seq_state d = 0" "nextbits d = 0" "uint b1 = 224 + x1" "uint b2 = 128 + x2" "uint b3 = 128 + x3"
    and "0 \<le> x1" "x1 < 16" "0 \<le> x2" "x2 < 64" "0 \<le> x3" "x3 < 64" "x1 = 0 \<longrightarrow> 32 \<le> x2"
  shows "dec_loop (b1 # b2 # b3 # bs) d =
    rbind (out_code ((x1 * 64 + x2) * 64 + x3) (d\<lparr>code := (x1 * 64 + x2) * 64 + x3\<rparr>)) (dec_loop bs)"
proof -
  have d0: "d\<lparr>code := v, nextbits := 0, seq_state := 0\<rparr> = d\<lparr>code := v\<rparr>" for v using assms(1,2) by (cases d) simp
  have "x1 = 0 \<longrightarrow> uint b2 AND 0x20 \<noteq> 0" using byte_facts(9) [of b2] assms(4,8,9,12) by simp
  then show ?thesis using assms(1-11) by (simp add: dec_lead dec_cont Let_def d0)
qed

lemma dec_4:
  assumes "seq_state d = 0" "nextbits d = 0" "uint b1 = 240 + x1" "uint b2 = 128 + x2" "uint b3 = 128 + x3" "uint b4 = 128 + x4"
    and "0 \<le> x1" "x1 < 5" "0 \<le> x2" "x2 < 64" "0 \<le> x3" "x3 < 64" "0 \<le> x4" "x4 < 64" "x1 = 0 \<longrightarrow> 16 \<le> x2"
    and "v = ((x1 * 64 + x2) * 64 + x3) * 64 + x4"
  shows "dec_loop (b1 # b2 # b3 # b4 # bs) d =
    (if v < 0x110000 then rbind (out_code v (d\<lparr>code := v\<rparr>)) (dec_loop bs) else Inl Invalid)"
proof -
  have d0: "d\<lparr>code := v, nextbits := 0, seq_state := 0\<rparr> = d\<lparr>code := v\<rparr>" for v using assms(1,2) by (cases d) simp
  have "x1 = 0 \<longrightarrow> uint b2 AND 0x30 \<noteq> 0" using byte_facts(10) [of b2] assms(4,9,10,15) by simp
  then show ?thesis using assms(1-14,16) by (simp add: dec_lead dec_cont Let_def d0)
qed

lemma dec_utf8:
  assumes d: "seq_state d = 0" "nextbits d = 0" and c: "valid_code c"
  shows "dec_loop (map word_of_int (utf8 c) @ bs) d = rbind (out_code c (d\<lparr>code := c\<rparr>)) (dec_loop bs)"
proof -
  have r: "0 \<le> c" "c < 0x110000" using c by (auto simp: valid_code_def)
  consider "c < 0x80" | "0x80 \<le> c" "c < 0x800" | "0x800 \<le> c" "c < 0x10000" | "0x10000 \<le> c" by linarith
  then show ?thesis
  proof cases
    case 1
    then show ?thesis using r d by (simp add: utf8_def dec_ascii uint_byte)
  next
    case 2
    obtain b1 :: "8 word" where b1: "word_of_int (192 + c div 64) = b1" "uint b1 = 192 + c div 64"
      by (rule byte_of [of "192 + c div 64"]) (use 2 in auto)
    obtain b2 :: "8 word" where b2: "word_of_int (128 + c mod 64) = b2" "uint b2 = 128 + c mod 64"
      by (rule byte_of [of "128 + c mod 64"]) auto
    have bs: "map word_of_int (utf8 c) = [b1, b2]" unfolding utf8_def using 2 b1(1) b2(1) by (simp del: of_int_add)
    have "2 \<le> c div 64" "c div 64 < 32" using 2 by auto
    from dec_2 [OF d b1(2) b2(2) this] show ?thesis unfolding bs by simp
  next
    case 3
    obtain b1 :: "8 word" where b1: "word_of_int (224 + c div 4096) = b1" "uint b1 = 224 + c div 4096"
      by (rule byte_of [of "224 + c div 4096"]) (use 3 in auto)
    obtain b2 :: "8 word" where b2: "word_of_int (128 + c div 64 mod 64) = b2" "uint b2 = 128 + c div 64 mod 64"
      by (rule byte_of [of "128 + c div 64 mod 64"]) auto
    obtain b3 :: "8 word" where b3: "word_of_int (128 + c mod 64) = b3" "uint b3 = 128 + c mod 64"
      by (rule byte_of [of "128 + c mod 64"]) auto
    have bs: "map word_of_int (utf8 c) = [b1, b2, b3]" unfolding utf8_def using 3 b1(1) b2(1) b3(1) by (simp del: of_int_add)
    have q: "0 \<le> c div 4096" "c div 4096 < 16" "c div 4096 = 0 \<Longrightarrow> 32 \<le> c div 64 mod 64" using 3 by auto
    have v: "(c div 4096 * 64 + c div 64 mod 64) * 64 + c mod 64 = c" by (simp only: div_64 div_mult_mod_eq)
    have "0 \<le> c mod 64" "c mod 64 < 64" "0 \<le> c div 64 mod 64" "c div 64 mod 64 < 64" by simp_all
    from dec_3 [OF d b1(2) b2(2) b3(2) q(1,2) this(3,4,1,2)] q(3) show ?thesis unfolding bs v by simp
  next
    case 4
    obtain b1 :: "8 word" where b1: "word_of_int (240 + c div 262144) = b1" "uint b1 = 240 + c div 262144"
      by (rule byte_of [of "240 + c div 262144"]) (use 4 r in auto)
    obtain b2 :: "8 word" where b2: "word_of_int (128 + c div 4096 mod 64) = b2" "uint b2 = 128 + c div 4096 mod 64"
      by (rule byte_of [of "128 + c div 4096 mod 64"]) auto
    obtain b3 :: "8 word" where b3: "word_of_int (128 + c div 64 mod 64) = b3" "uint b3 = 128 + c div 64 mod 64"
      by (rule byte_of [of "128 + c div 64 mod 64"]) auto
    obtain b4 :: "8 word" where b4: "word_of_int (128 + c mod 64) = b4" "uint b4 = 128 + c mod 64"
      by (rule byte_of [of "128 + c mod 64"]) auto
    have bs: "map word_of_int (utf8 c) = [b1, b2, b3, b4]"
      unfolding utf8_def using 4 b1(1) b2(1) b3(1) b4(1) by (simp del: of_int_add)
    have q: "0 \<le> c div 262144" "c div 262144 < 5" "c div 262144 = 0 \<Longrightarrow> 16 \<le> c div 4096 mod 64" using 4 r by auto
    have v: "((c div 262144 * 64 + c div 4096 mod 64) * 64 + c div 64 mod 64) * 64 + c mod 64 = c"
      by (simp only: div_64 div_mult_mod_eq)
    have "0 \<le> c mod 64" "c mod 64 < 64" "0 \<le> c div 64 mod 64" "c div 64 mod 64 < 64" "0 \<le> c div 4096 mod 64" "c div 4096 mod 64 < 64"
      by simp_all
    from dec_4 [OF d b1(2) b2(2) b3(2) b4(2) q(1,2) this(5,6,3,4,1,2), OF _ v [symmetric]] q(3) r
    show ?thesis unfolding bs by simp
  qed
qed

section \<open>Surrogates\<close>

definition is_high :: "int \<Rightarrow> bool" where
  "is_high c = (0xD800 \<le> c \<and> c < 0xDC00)"

definition is_low :: "int \<Rightarrow> bool" where
  "is_low c = (0xDC00 \<le> c \<and> c < 0xE000)"

lemma and_high: "x AND (2 ^ n * (2 ^ m - 1)) = 2 ^ n * (x div 2 ^ n mod 2 ^ m)" for x :: int
proof -
  have "x AND push_bit n (mask m) = push_bit n (take_bit m (drop_bit n x))"
    by (auto simp: bit_eq_iff bit_simps)
  then show ?thesis by (simp add: take_bit_eq_mod drop_bit_eq_div push_bit_eq_mult mask_eq_exp_minus_1 mult.commute)
qed

lemma unit_facts:
  assumes "0 \<le> x" "x < 0x10000"
  shows "x AND 0xF800 = 0xD800 \<longleftrightarrow> is_high x \<or> is_low x" "x AND 0xFC00 = 0xD800 \<longleftrightarrow> is_high x" "x AND 0xFC00 = 0xDC00 \<longleftrightarrow> is_low x"
proof -
  have "x AND 0xF800 = 2048 * (x div 2048 mod 32)" "x AND 0xFC00 = 1024 * (x div 1024 mod 64)"
    using and_high [of x 11 5] and_high [of x 10 6] by simp_all
  then show "x AND 0xF800 = 0xD800 \<longleftrightarrow> is_high x \<or> is_low x" "x AND 0xFC00 = 0xD800 \<longleftrightarrow> is_high x" "x AND 0xFC00 = 0xDC00 \<longleftrightarrow> is_low x"
    using assms by (auto simp: is_high_def is_low_def)
qed

lemma surrogate_facts:
  assumes "0xD800 \<le> x" "x \<le> 0xDFFF"
  shows "x AND 0xDC00 = 0xDC00 \<longleftrightarrow> is_low x" "x AND 0xDC00 = 0xD800 \<longleftrightarrow> is_high x"
proof -
  have "x AND 0xDC00 = (x AND 0xFC00) AND 0xDC00" by (simp add: and.assoc)
  moreover have "x AND 0xFC00 = 0xD800 \<or> x AND 0xFC00 = 0xDC00"
    using unit_facts [of x] assms by (auto simp: is_high_def is_low_def)
  ultimately show "x AND 0xDC00 = 0xDC00 \<longleftrightarrow> is_low x" "x AND 0xDC00 = 0xD800 \<longleftrightarrow> is_high x"
    using unit_facts [of x] assms by auto
qed

lemma surrogate_cases: "is_high c \<or> is_low c \<longleftrightarrow> 0xD800 \<le> c \<and> c \<le> 0xDFFF" "\<not> (is_high c \<and> is_low c)"
  by (auto simp: is_high_def is_low_def)

section \<open>Writing units\<close>

text \<open>
  What the decoder has put out: the units written and the surrogate that is held back. A buffer begins with the
  units written.
\<close>

definition written :: "dec \<Rightarrow> int list \<Rightarrow> bool" where
  "written d us =
     (us_pos d = int (length us) \<and>
      (case us_buf d of None \<Rightarrow> True | Some xs \<Rightarrow> length us \<le> length xs \<and> take (length us) xs = map word_of_int us))"

definition held :: "dec \<Rightarrow> int list" where
  "held d = (if pending_surrogate d = 0 then [] else [pending_surrogate d])"

definition room :: "dec \<Rightarrow> nat \<Rightarrow> bool" where
  "room d n = (case us_buf d of None \<Rightarrow> True | Some xs \<Rightarrow> n \<le> length xs)"

definition same_buffer :: "dec \<Rightarrow> dec \<Rightarrow> bool" where
  "same_buffer d d' = (map_option length (us_buf d') = map_option length (us_buf d) \<and>
     seq_state d' = seq_state d \<and> nextbits d' = nextbits d)"

lemma put_unit_ok:
  assumes "written d us" "room d (Suc (length us))"
  shows "\<exists>buf. put_unit (us_buf d) (us_pos d) (word_of_int v) = Inr buf \<and> map_option length buf = map_option length (us_buf d) \<and>
    written (d\<lparr>us_buf := buf, us_pos := us_pos d + 1\<rparr>) (us @ [v])"
proof (cases "us_buf d")
  case None
  then show ?thesis using assms by (simp add: put_unit_def written_def)
next
  case (Some xs)
  have l: "length us < length xs" using assms(2) Some by (simp add: room_def)
  have "take (Suc (length us)) (xs[length us := word_of_int v]) = take (length us) xs @ [word_of_int v]"
    using l by (simp add: take_Suc_conv_app_nth)
  then show ?thesis using assms Some l by (auto simp: put_unit_def written_def)
qed

lemma flush_ok:
  assumes "written d us" "room d (length (us @ held d))"
  shows "\<exists>d'. flush_pending d = Inr d' \<and> written d' (us @ held d) \<and> pending_surrogate d' = 0 \<and> same_buffer d d'"
proof (cases "pending_surrogate d = 0")
  case True
  then show ?thesis using assms by (simp add: flush_pending_def held_def same_buffer_def)
next
  case False
  obtain buf where b: "put_unit (us_buf d) (us_pos d) (word_of_int (pending_surrogate d)) = Inr buf"
    "map_option length buf = map_option length (us_buf d)"
    "written (d\<lparr>us_buf := buf, us_pos := us_pos d + 1\<rparr>) (us @ [pending_surrogate d])"
    using put_unit_ok [OF assms(1)] assms(2) False by (auto simp: held_def)
  then show ?thesis using False
    by (intro exI [of _ "d\<lparr>us_buf := buf, us_pos := us_pos d + 1, pending_surrogate := 0\<rparr>"])
      (simp add: flush_pending_def held_def same_buffer_def written_def)
qed

lemma written_frame [simp]:
  "written (d\<lparr>pending_surrogate := p\<rparr>) us = written d us" "room (d\<lparr>pending_surrogate := p\<rparr>) n = room d n"
  "written (d\<lparr>code := c\<rparr>) us = written d us" "room (d\<lparr>code := c\<rparr>) n = room d n" "held (d\<lparr>code := c\<rparr>) = held d"
  by (simp_all add: written_def room_def held_def)

lemma same_room: "same_buffer d d' \<Longrightarrow> room d' n = room d n"
  by (cases "us_buf d"; cases "us_buf d'") (auto simp: same_buffer_def room_def)

lemma out_unit_ok:
  assumes "written d us" "pending_surrogate d = 0" "room d (Suc (length us))"
  shows "\<exists>d'. out_unit v d = Inr d' \<and> written d' (us @ [v]) \<and> pending_surrogate d' = 0 \<and> same_buffer d d'"
proof -
  obtain buf where b: "put_unit (us_buf d) (us_pos d) (word_of_int v) = Inr buf"
    "map_option length buf = map_option length (us_buf d)" "written (d\<lparr>us_buf := buf, us_pos := us_pos d + 1\<rparr>) (us @ [v])"
    using put_unit_ok [OF assms(1,3)] by blast
  then show ?thesis using assms(2)
    by (intro exI [of _ "d\<lparr>us_buf := buf, us_pos := us_pos d + 1\<rparr>"]) (simp add: out_unit_def same_buffer_def)
qed

lemma out_code_ok:
  assumes w: "written d us" and c: "valid_code c" and p: "\<not> (pending_surrogate d \<noteq> 0 \<and> is_low c)"
    and r: "room d (length (us @ held d @ units c))"
  shows "\<exists>d' us'. out_code c d = Inr d' \<and> written d' us' \<and> us' @ held d' = us @ held d @ units c \<and>
    (pending_surrogate d' \<noteq> 0 \<longleftrightarrow> is_high c) \<and> same_buffer d d'"
proof -
  have "room d (length (us @ held d))" using r by (auto simp: room_def split: option.splits)
  then obtain d1 where d1: "flush_pending d = Inr d1" "written d1 (us @ held d)" "pending_surrogate d1 = 0" "same_buffer d d1"
    using flush_ok [OF w] by blast
  have r1: "room d1 (length (us @ held d @ units c))" using r same_room [OF d1(4)] by simp
  show ?thesis
  proof (cases "c > 0xFFFF")
    case True
    let ?hi = "0xD800 OR (drop_bit 10 (c - 0x10000) AND 0x3FF)" and ?lo = "0xDC00 OR ((c - 0x10000) AND 0x3FF)"
    have m: "(c - 65536) mod 1024 = c mod 1024" using mod_mult_self2 [of c 1024 "- 64"] by simp
    have q: "(c - 65536) div 1024 mod 1024 = (c - 65536) div 1024" "(c - 65536) div 1024 < 1024" "0 \<le> (c - 65536) div 1024"
      using c True by (auto simp: valid_code_def)
    have u: "?hi = 0xD800 + (c - 0x10000) div 1024" "?lo = 0xDC00 + c mod 1024"
      using q unfolding and_masks drop_bits m by (simp_all add: or_tops)
    have un: "units c = [?hi, ?lo]" unfolding u using True by (simp add: units_def)
    have "room d1 (Suc (length (us @ held d)))" using r1 un by (auto simp: room_def split: option.splits)
    then obtain b1 where b1: "put_unit (us_buf d1) (us_pos d1) (word_of_int ?hi) = Inr b1"
      "map_option length b1 = map_option length (us_buf d1)"
      "written (d1\<lparr>us_buf := b1, us_pos := us_pos d1 + 1\<rparr>) ((us @ held d) @ [?hi])"
      using put_unit_ok [OF d1(2), of ?hi] by blast
    let ?d2 = "d1\<lparr>us_buf := b1, us_pos := us_pos d1 + 1\<rparr>"
    have "room ?d2 (Suc (length ((us @ held d) @ [?hi])))"
      using r1 un b1(2) by (cases b1; cases "us_buf d1") (auto simp: room_def)
    then obtain b2 where b2: "put_unit b1 (us_pos d1 + 1) (word_of_int ?lo) = Inr b2" "map_option length b2 = map_option length b1"
      "written (?d2\<lparr>us_buf := b2, us_pos := us_pos d1 + 1 + 1\<rparr>) (((us @ held d) @ [?hi]) @ [?lo])"
      using put_unit_ok [OF b1(3), of ?lo] by auto
    let ?d3 = "d1\<lparr>us_buf := b2, us_pos := us_pos d1 + 2\<rparr>"
    have "out_code c d = Inr ?d3" using True d1(1) b1(1) b2(1) by (simp add: out_code_def Let_def del: or_numerals)
    moreover have "written ?d3 (us @ held d @ units c)" using b2(3) un by (simp add: written_def)
    moreover have "\<not> is_high c" using True by (simp add: is_high_def)
    ultimately show ?thesis using d1(3,4) b1(2) b2(2) by (auto simp: held_def same_buffer_def)
  next
    case False
    have un: "units c = [c]" using False by (simp add: units_def)
    show ?thesis
    proof (cases "is_high c")
      case True
      then have s: "0xD800 \<le> c" "c \<le> 0xDFFF" "c \<noteq> 0" "\<not> is_low c" by (auto simp: is_high_def is_low_def)
      have "out_code c d = Inr (d1\<lparr>pending_surrogate := c\<rparr>)"
        using False s True d1(1) surrogate_facts [OF s(1,2)] by (simp add: out_code_def out_unit_def)
      then show ?thesis using d1 s True un
        by (intro exI [of _ "d1\<lparr>pending_surrogate := c\<rparr>"] exI [of _ "us @ held d"]) (simp add: held_def same_buffer_def)
    next
      case nh: False
      obtain d2 where d2: "out_unit c d1 = Inr d2" "written d2 ((us @ held d) @ [c])" "pending_surrogate d2 = 0" "same_buffer d1 d2"
        using out_unit_ok [OF d1(2,3)] r1 un by auto
      have d1': "d1\<lparr>pending_surrogate := 0\<rparr> = d1" using d1(3) by (cases d1) simp
      have "out_code c d = Inr d2"
      proof (cases "is_low c")
        case True
        then have s: "0xD800 \<le> c" "c \<le> 0xDFFF" by (auto simp: is_low_def)
        then show ?thesis using False True nh p d1(1) d1' d2(1) surrogate_facts [OF s] by (simp add: out_code_def)
      next
        case nl: False
        then have "\<not> (0xD800 \<le> c \<and> c \<le> 0xDFFF)" using nh surrogate_cases(1) by blast
        then show ?thesis using False d1(1) d2(1) by (auto simp: out_code_def)
      qed
      then show ?thesis using d1(4) d2 nh un by (auto simp: held_def same_buffer_def)
    qed
  qed
qed

lemma out_code_inv:
  assumes "out_code c d = Inr d'" "valid_code c"
  shows "seq_state d' = seq_state d \<and> nextbits d' = nextbits d \<and> \<not> (pending_surrogate d \<noteq> 0 \<and> is_low c) \<and>
    (pending_surrogate d' \<noteq> 0 \<longleftrightarrow> is_high c)"
proof -
  have fl: "seq_state e' = seq_state e \<and> nextbits e' = nextbits e \<and> pending_surrogate e' = 0" if "flush_pending e = Inr e'" for e e'
    using that by (auto simp: flush_pending_def rbind_eq_Inr_iff split: if_splits)
  have ou: "seq_state e' = seq_state e \<and> nextbits e' = nextbits e \<and> pending_surrogate e' = pending_surrogate e"
    if "out_unit v e = Inr e'" for v e e'
    using that by (auto simp: out_unit_def rbind_eq_Inr_iff split: if_splits)
  consider "c > 0xFFFF" | "c \<le> 0xFFFF" "0xD800 \<le> c" "c \<le> 0xDFFF" | "c \<le> 0xFFFF" "\<not> (0xD800 \<le> c \<and> c \<le> 0xDFFF)" by linarith
  then show ?thesis
  proof cases
    case 1
    then have "\<not> is_high c" "\<not> is_low c" by (auto simp: is_high_def is_low_def)
    then show ?thesis using assms(1) 1 fl by (auto simp: out_code_def Let_def rbind_eq_Inr_iff)
  next
    case 2
    note sf = surrogate_facts [OF 2(2,3)]
    have hl: "is_high c \<longleftrightarrow> \<not> is_low c" "c \<noteq> 0" using surrogate_cases [of c] 2 by auto
    show ?thesis using assms(1) 2 hl
      unfolding out_code_def sf by (auto simp: rbind_eq_Inr_iff dest!: fl ou split: if_splits)
  next
    case 3
    then have "\<not> is_high c" "\<not> is_low c" by (auto simp: is_high_def is_low_def)
    then show ?thesis using assms(1) 3 fl ou by (auto simp: out_code_def rbind_eq_Inr_iff)
  qed
qed

section \<open>Sequences of code points\<close>

text \<open>No low surrogate directly after a high one; \<open>p\<close> says whether a high one comes before.\<close>

fun unpaired :: "bool \<Rightarrow> int list \<Rightarrow> bool" where
  "unpaired p [] = True"
| "unpaired p (c # cs) = (valid_code c \<and> \<not> (p \<and> is_low c) \<and> unpaired (is_high c) cs)"

definition codes_utf8 :: "int list \<Rightarrow> 8 word list" where
  "codes_utf8 cs = map word_of_int (concat (map utf8 cs))"

lemma codes_utf8_simps [simp]:
  "codes_utf8 [] = []" "codes_utf8 (c # cs) = map word_of_int (utf8 c) @ codes_utf8 cs"
  by (simp_all add: codes_utf8_def)

lemma dec_codes:
  assumes "written d us" "seq_state d = 0" "nextbits d = 0" "unpaired (pending_surrogate d \<noteq> 0) cs"
    and "room d (length (us @ held d @ concat (map units cs)))"
  shows "\<exists>d' us'. dec_loop (codes_utf8 cs) d = Inr d' \<and> written d' us' \<and>
    us' @ held d' = us @ held d @ concat (map units cs) \<and> same_buffer d d'"
  using assms
proof (induction cs arbitrary: d us)
  case Nil
  then show ?case by (auto simp: same_buffer_def)
next
  case (Cons c cs)
  let ?d = "d\<lparr>code := c\<rparr>"
  have c: "valid_code c" "\<not> (pending_surrogate ?d \<noteq> 0 \<and> is_low c)" "unpaired (is_high c) cs" using Cons.prems(4) by auto
  have r: "room ?d (length (us @ held ?d @ units c))"
    using Cons.prems(5) by (auto simp: room_def split: option.splits)
  have w: "written ?d us" using Cons.prems(1) by simp
  obtain d1 us1 where d1: "out_code c ?d = Inr d1" "written d1 us1" "us1 @ held d1 = us @ held d @ units c"
    "pending_surrogate d1 \<noteq> 0 \<longleftrightarrow> is_high c" "same_buffer ?d d1"
    using out_code_ok [OF w c(1,2) r] by auto
  have sb: "same_buffer d d1" using d1(5) by (simp add: same_buffer_def)
  have len: "length (us1 @ held d1 @ concat (map units cs)) = length (us @ held d @ concat (map units (c # cs)))"
    using arg_cong [OF d1(3), of length] by simp
  have "room d1 (length (us1 @ held d1 @ concat (map units cs)))" unfolding len same_room [OF sb] by (rule Cons.prems(5))
  moreover have "seq_state d1 = 0" "nextbits d1 = 0" using sb Cons.prems(2,3) by (auto simp: same_buffer_def)
  moreover have "unpaired (pending_surrogate d1 \<noteq> 0) cs" using c(3) d1(4) by simp
  ultimately obtain d2 us2 where d2: "dec_loop (codes_utf8 cs) d1 = Inr d2" "written d2 us2"
    "us2 @ held d2 = us1 @ held d1 @ concat (map units cs)" "same_buffer d1 d2"
    using Cons.IH [OF d1(2)] by blast
  have "us2 @ held d2 = us @ held d @ concat (map units (c # cs))" using d2(3) d1(3) by (metis append.assoc concat.simps(2) list.simps(9))
  moreover have "same_buffer d d2" using sb d2(4) by (simp add: same_buffer_def)
  moreover have "dec_loop (codes_utf8 (c # cs)) d = Inr d2"
    using dec_utf8 [OF Cons.prems(2,3) c(1), of "codes_utf8 cs"] d1(1) d2(1) by simp
  ultimately show ?case using d2(2) by blast
qed

section \<open>Accepted byte sequences\<close>

lemma payload:
  fixes x1 x2 x3 x4 :: int
  assumes "0 \<le> x2" "x2 < 64" "0 \<le> x3" "x3 < 64" "0 \<le> x4" "x4 < 64"
  shows "(x1 * 64 + x2) div 64 = x1" "(x1 * 64 + x2) mod 64 = x2"
    "((x1 * 64 + x2) * 64 + x3) div 4096 = x1" "((x1 * 64 + x2) * 64 + x3) div 64 mod 64 = x2" "((x1 * 64 + x2) * 64 + x3) mod 64 = x3"
    "(((x1 * 64 + x2) * 64 + x3) * 64 + x4) div 262144 = x1" "(((x1 * 64 + x2) * 64 + x3) * 64 + x4) div 4096 mod 64 = x2"
    "(((x1 * 64 + x2) * 64 + x3) * 64 + x4) div 64 mod 64 = x3" "(((x1 * 64 + x2) * 64 + x3) * 64 + x4) mod 64 = x4"
proof -
  have dm: "(a * 64 + x) div 64 = a" "(a * 64 + x) mod 64 = x" if "0 \<le> x" "x < 64" for a x :: int
    using that by (auto simp: mod_pos_pos_trivial)
  show "(x1 * 64 + x2) div 64 = x1" "(x1 * 64 + x2) mod 64 = x2"
    "((x1 * 64 + x2) * 64 + x3) div 4096 = x1" "((x1 * 64 + x2) * 64 + x3) div 64 mod 64 = x2" "((x1 * 64 + x2) * 64 + x3) mod 64 = x3"
    "(((x1 * 64 + x2) * 64 + x3) * 64 + x4) div 262144 = x1" "(((x1 * 64 + x2) * 64 + x3) * 64 + x4) div 4096 mod 64 = x2"
    "(((x1 * 64 + x2) * 64 + x3) * 64 + x4) div 64 mod 64 = x3" "(((x1 * 64 + x2) * 64 + x3) * 64 + x4) mod 64 = x4"
    using assms by (simp_all only: div_64 dm)
qed

lemma utf8_payload:
  assumes "0 \<le> x2" "x2 < 64" "0 \<le> x3" "x3 < 64" "0 \<le> x4" "x4 < 64"
  shows "2 \<le> x1 \<Longrightarrow> x1 < 32 \<Longrightarrow> utf8 (x1 * 64 + x2) = [192 + x1, 128 + x2]"
    "0 \<le> x1 \<Longrightarrow> x1 < 16 \<Longrightarrow> (x1 = 0 \<longrightarrow> 32 \<le> x2) \<Longrightarrow> utf8 ((x1 * 64 + x2) * 64 + x3) = [224 + x1, 128 + x2, 128 + x3]"
    "0 \<le> x1 \<Longrightarrow> (x1 = 0 \<longrightarrow> 16 \<le> x2) \<Longrightarrow>
       utf8 (((x1 * 64 + x2) * 64 + x3) * 64 + x4) = [240 + x1, 128 + x2, 128 + x3, 128 + x4]"
  using assms unfolding utf8_def payload [OF assms] by auto

lemma dec_more:
  assumes "seq_state d = Suc n" "dec_loop bs d = Inr d'" "seq_state d' = 0"
  obtains b bs' x where "bs = b # bs'" "uint b = 128 + x" "0 \<le> x" "x < 64" "nextbits d = 0 \<or> uint b AND nextbits d \<noteq> 0"
    "n \<noteq> 0 \<longrightarrow> dec_loop bs' (d\<lparr>code := code d * 64 + x, nextbits := 0, seq_state := n\<rparr>) = Inr d'"
proof (cases bs)
  case Nil
  then show thesis using assms by simp
next
  case (Cons b bs')
  have c: "128 \<le> uint b" "uint b < 192" "nextbits d = 0 \<or> uint b AND nextbits d \<noteq> 0"
    using assms(2) Cons dec_cont [OF assms(1), of b] by (auto split: if_splits)
  have "n \<noteq> 0 \<longrightarrow> dec_loop bs' (d\<lparr>code := code d * 64 + (uint b - 128), nextbits := 0, seq_state := n\<rparr>) = Inr d'"
    using assms(2) Cons c dec_cont [OF assms(1), of b] by (auto simp: Let_def)
  then show thesis using that [OF Cons, of "uint b - 128"] c by simp
qed

lemma word_of_uint: "uint b = x \<Longrightarrow> word_of_int x = b" for b :: "8 word"
  by auto

lemma dec_parse:
  assumes "dec_loop bs d = Inr d'" "seq_state d = 0" "nextbits d = 0" "seq_state d' = 0"
  shows "\<exists>cs. bs = codes_utf8 cs \<and> unpaired (pending_surrogate d \<noteq> 0) cs"
  using assms
proof (induction "length bs" arbitrary: bs d rule: less_induct)
  case less
  have step: ?case
    if v: "valid_code c" and bs: "bs = map word_of_int (utf8 c) @ bs'"
      and run: "dec_loop bs d = rbind (out_code c (d\<lparr>code := c\<rparr>)) (dec_loop bs')" for c bs'
  proof -
    obtain d1 where d1: "out_code c (d\<lparr>code := c\<rparr>) = Inr d1" "dec_loop bs' d1 = Inr d'"
      using less.prems(1) run by (auto simp: rbind_eq_Inr_iff)
    have i: "seq_state d1 = 0" "nextbits d1 = 0" "\<not> (pending_surrogate d \<noteq> 0 \<and> is_low c)" "pending_surrogate d1 \<noteq> 0 \<longleftrightarrow> is_high c"
      using out_code_inv [OF d1(1) v] less.prems(2,3) by auto
    have "utf8 c \<noteq> []" by (simp add: utf8_def)
    then have "length bs' < length bs" using bs by simp
    then obtain cs where "bs' = codes_utf8 cs" "unpaired (is_high c) cs"
      using less.hyps [OF _ d1(2) i(1,2) less.prems(4)] i(4) by auto
    then show ?thesis using bs v i(3) by (intro exI [of _ "c # cs"]) simp
  qed
  show ?case
  proof (cases bs)
    case Nil
    then show ?thesis by (intro exI [of _ "[]"]) simp
  next
    case (Cons b bs1)
    consider "uint b < 128" | "128 \<le> uint b" "uint b < 194" | "194 \<le> uint b" "uint b < 224"
      | "224 \<le> uint b" "uint b < 240" | "240 \<le> uint b" "uint b < 245" | "245 \<le> uint b" by linarith
    then show ?thesis
    proof cases
      case 1
      have "utf8 (uint b) = [uint b]" using 1 by (simp add: utf8_def)
      then show ?thesis using 1 Cons byte_range [of b] dec_ascii [OF less.prems(2) 1]
        by (intro step [of "uint b" bs1]) (auto simp: valid_code_def)
    next
      case 2
      then show ?thesis using less.prems(1) Cons dec_lead(1) [OF less.prems(2) 2] by simp
    next
      case 3
      let ?x1 = "uint b - 192"
      have "dec_loop bs1 (d\<lparr>seq_state := 1, code := ?x1\<rparr>) = Inr d'"
        using less.prems(1) Cons dec_lead(2) [OF less.prems(2) 3] by simp
      then obtain b2 bs2 x2 where b2: "bs1 = b2 # bs2" "uint b2 = 128 + x2" "0 \<le> x2" "x2 < 64"
        by (rule dec_more [where n = 0, rotated]) (use less.prems(4) in auto)
      have b1: "uint b = 192 + ?x1" "2 \<le> ?x1" "?x1 < 32" using 3 by auto
      have u: "utf8 (?x1 * 64 + x2) = [192 + ?x1, 128 + x2]" using utf8_payload(1) [OF b2(3,4) b2(3,4) b2(3,4) b1(2,3)] .
      show ?thesis
      proof (rule step [of "?x1 * 64 + x2" bs2])
        show "valid_code (?x1 * 64 + x2)" using b1 b2 by (simp add: valid_code_def)
        show "bs = map word_of_int (utf8 (?x1 * 64 + x2)) @ bs2"
          unfolding u using Cons b2(1) word_of_uint [OF b1(1)] word_of_uint [OF b2(2)] by (simp del: of_int_add)
        show "dec_loop bs d = rbind (out_code (?x1 * 64 + x2) (d\<lparr>code := ?x1 * 64 + x2\<rparr>)) (dec_loop bs2)"
          unfolding Cons b2(1) by (rule dec_2 [OF less.prems(2,3) b1(1) b2(2) b1(2,3) b2(3,4)])
      qed
    next
      case 4
      let ?x1 = "uint b - 224"
      let ?d1 = "d\<lparr>seq_state := 2, code := ?x1, nextbits := (if uint b = 224 then 0x20 else nextbits d)\<rparr>"
      have l1: "dec_loop bs1 ?d1 = Inr d'"
        using less.prems(1) Cons dec_lead(3) [OF less.prems(2) 4] by simp
      have s1: "seq_state ?d1 = Suc (Suc 0)" by simp
      obtain b2 bs2 x2 where b2: "bs1 = b2 # bs2" "uint b2 = 128 + x2" "0 \<le> x2" "x2 < 64"
        "nextbits ?d1 = 0 \<or> uint b2 AND nextbits ?d1 \<noteq> 0"
        "Suc 0 \<noteq> 0 \<longrightarrow> dec_loop bs2 (?d1\<lparr>code := code ?d1 * 64 + x2, nextbits := 0, seq_state := Suc 0\<rparr>) = Inr d'"
        using dec_more [OF s1 l1 less.prems(4)] .
      have l2: "dec_loop bs2 (?d1\<lparr>code := code ?d1 * 64 + x2, nextbits := 0, seq_state := Suc 0\<rparr>) = Inr d'" by (rule b2(6) [THEN mp]) simp
      from l2 obtain b3 bs3 x3 where b3: "bs2 = b3 # bs3" "uint b3 = 128 + x3" "0 \<le> x3" "x3 < 64"
        by (rule dec_more [where n = 0, rotated]) (use less.prems(4) in auto)
      have b1: "uint b = 224 + ?x1" "0 \<le> ?x1" "?x1 < 16" using 4 by auto
      have nb: "?x1 = 0 \<longrightarrow> 32 \<le> x2" using b2(2-5) byte_facts(9) [of b2] by (auto split: if_splits)
      have u: "utf8 ((?x1 * 64 + x2) * 64 + x3) = [224 + ?x1, 128 + x2, 128 + x3]"
        using utf8_payload(2) [OF b2(3,4) b3(3,4) b3(3,4) b1(2,3) nb] .
      show ?thesis
      proof (rule step [of "(?x1 * 64 + x2) * 64 + x3" bs3])
        show "valid_code ((?x1 * 64 + x2) * 64 + x3)" using b1 b2 b3 by (simp add: valid_code_def)
        show "bs = map word_of_int (utf8 ((?x1 * 64 + x2) * 64 + x3)) @ bs3"
          unfolding u using Cons b2(1) b3(1) word_of_uint [OF b1(1)] word_of_uint [OF b2(2)] word_of_uint [OF b3(2)]
          by (simp del: of_int_add)
        show "dec_loop bs d = rbind (out_code ((?x1 * 64 + x2) * 64 + x3) (d\<lparr>code := (?x1 * 64 + x2) * 64 + x3\<rparr>)) (dec_loop bs3)"
          unfolding Cons b2(1) b3(1) by (rule dec_3 [OF less.prems(2,3) b1(1) b2(2) b3(2) b1(2,3) b2(3,4) b3(3,4) nb])
      qed
    next
      case 5
      let ?x1 = "uint b - 240"
      let ?d1 = "d\<lparr>seq_state := 3, code := ?x1, nextbits := (if uint b = 240 then 0x30 else nextbits d)\<rparr>"
      have l1: "dec_loop bs1 ?d1 = Inr d'"
        using less.prems(1) Cons dec_lead(4) [OF less.prems(2) 5] by simp
      have s1: "seq_state ?d1 = Suc (Suc (Suc 0))" by simp
      obtain b2 bs2 x2 where b2: "bs1 = b2 # bs2" "uint b2 = 128 + x2" "0 \<le> x2" "x2 < 64"
        "nextbits ?d1 = 0 \<or> uint b2 AND nextbits ?d1 \<noteq> 0"
        "Suc (Suc 0) \<noteq> 0 \<longrightarrow> dec_loop bs2 (?d1\<lparr>code := code ?d1 * 64 + x2, nextbits := 0, seq_state := Suc (Suc 0)\<rparr>) = Inr d'"
        using dec_more [OF s1 l1 less.prems(4)] .
      let ?d2 = "?d1\<lparr>code := code ?d1 * 64 + x2, nextbits := 0, seq_state := Suc (Suc 0)\<rparr>"
      have l2: "dec_loop bs2 ?d2 = Inr d'" by (rule b2(6) [THEN mp]) simp
      have s2: "seq_state ?d2 = Suc (Suc 0)" by simp
      obtain b3 bs3 x3 where b3: "bs2 = b3 # bs3" "uint b3 = 128 + x3" "0 \<le> x3" "x3 < 64"
        "nextbits ?d2 = 0 \<or> uint b3 AND nextbits ?d2 \<noteq> 0"
        "Suc 0 \<noteq> 0 \<longrightarrow> dec_loop bs3 (?d2\<lparr>code := code ?d2 * 64 + x3, nextbits := 0, seq_state := Suc 0\<rparr>) = Inr d'"
        using dec_more [OF s2 l2 less.prems(4)] .
      have l3: "dec_loop bs3 (?d2\<lparr>code := code ?d2 * 64 + x3, nextbits := 0, seq_state := Suc 0\<rparr>) = Inr d'" by (rule b3(6) [THEN mp]) simp
      from l3 obtain b4 bs4 x4 where b4: "bs3 = b4 # bs4" "uint b4 = 128 + x4" "0 \<le> x4" "x4 < 64"
        by (rule dec_more [where n = 0, rotated]) (use less.prems(4) in auto)
      have b1: "uint b = 240 + ?x1" "0 \<le> ?x1" "?x1 < 5" using 5 by auto
      have nb: "?x1 = 0 \<longrightarrow> 16 \<le> x2" using b2(2-5) byte_facts(10) [of b2] by (auto split: if_splits)
      let ?v = "((?x1 * 64 + x2) * 64 + x3) * 64 + x4"
      have u: "utf8 ?v = [240 + ?x1, 128 + x2, 128 + x3, 128 + x4]"
        using utf8_payload(3) [OF b2(3,4) b3(3,4) b4(3,4) b1(2) nb] .
      have run: "dec_loop bs d = (if ?v < 0x110000 then rbind (out_code ?v (d\<lparr>code := ?v\<rparr>)) (dec_loop bs4) else Inl Invalid)"
        unfolding Cons b2(1) b3(1) b4(1)
        by (rule dec_4 [OF less.prems(2,3) b1(1) b2(2) b3(2) b4(2) b1(2,3) b2(3,4) b3(3,4) b4(3,4) nb refl])
      then have "?v < 0x110000" using less.prems(1) by (metis Inl_Inr_False)
      moreover have "0 \<le> ?v" using b1(2) b2(3) b3(3) b4(3) by simp
      ultimately have "valid_code ?v" by (simp add: valid_code_def)
      moreover have "bs = map word_of_int (utf8 ?v) @ bs4"
        unfolding u using Cons b2(1) b3(1) b4(1) word_of_uint [OF b1(1)] word_of_uint [OF b2(2)] word_of_uint [OF b3(2)] word_of_uint [OF b4(2)]
        by (simp del: of_int_add)
      ultimately show ?thesis using run \<open>?v < 0x110000\<close> by (intro step [of ?v bs4]) (simp_all only: if_True)
    next
      case 6
      then show ?thesis using less.prems(1) Cons dec_lead(5) [OF less.prems(2) 6] by simp
    qed
  qed
qed

lemma decode_codes:
  assumes "unpaired False cs" "case buf of None \<Rightarrow> True | Some xs \<Rightarrow> length (concat (map units cs)) \<le> length xs"
  shows "\<exists>buf'. utf8ish_to_utf16ish (codes_utf8 cs) buf = Inr (int (length (concat (map units cs))), buf') \<and>
    map_option length buf' = map_option length buf \<and>
    (\<forall>ys. buf' = Some ys \<longrightarrow> take (length (concat (map units cs))) ys = map word_of_int (concat (map units cs)))"
proof -
  let ?d = "\<lparr>seq_state = 0, nextbits = 0, code = 0, pending_surrogate = 0, us_pos = 0, us_buf = buf\<rparr>"
  have w: "written ?d []" "held ?d = []" by (auto simp: written_def held_def split: option.splits)
  have r: "room ?d (length ([] @ held ?d @ concat (map units cs)))" using assms(2) w(2) by (simp add: room_def)
  obtain d1 us1 where d1: "dec_loop (codes_utf8 cs) ?d = Inr d1" "written d1 us1"
    "us1 @ held d1 = concat (map units cs)" "same_buffer ?d d1"
    using dec_codes [OF w(1) _ _ _ r] assms(1) w(2) by auto
  have "room d1 (length (us1 @ held d1))" using r w(2) same_room [OF d1(4)] d1(3) by simp
  then obtain d2 where d2: "flush_pending d1 = Inr d2" "written d2 (us1 @ held d1)" "pending_surrogate d2 = 0" "same_buffer d1 d2"
    using flush_ok [OF d1(2)] by blast
  have sb: "seq_state d2 = 0" "map_option length (us_buf d2) = map_option length buf"
    using d1(4) d2(4) by (auto simp: same_buffer_def)
  have w2: "written d2 (concat (map units cs))" using d2(2) d1(3) by simp
  have "utf8ish_to_utf16ish (codes_utf8 cs) buf = Inr (int (length (concat (map units cs))), us_buf d2)"
    using d1(1) d2(1) sb(1) w2 by (simp add: utf8ish_to_utf16ish_def written_def)
  then show ?thesis using sb(2) w2 by (auto simp: written_def)
qed

lemma decode_parse:
  assumes "utf8ish_to_utf16ish bs buf = Inr r"
  shows "\<exists>cs. bs = codes_utf8 cs \<and> unpaired False cs"
proof -
  let ?d = "\<lparr>seq_state = 0, nextbits = 0, code = 0, pending_surrogate = 0, us_pos = 0, us_buf = buf\<rparr>"
  obtain d1 d2 where d: "dec_loop bs ?d = Inr d1" "flush_pending d1 = Inr d2" "seq_state d2 = 0"
    using assms by (auto simp: utf8ish_to_utf16ish_def rbind_eq_Inr_iff split: if_splits)
  have "seq_state d1 = 0" using d(2,3) by (auto simp: flush_pending_def rbind_eq_Inr_iff split: if_splits)
  then show ?thesis using dec_parse [OF d(1)] by simp
qed

section \<open>Encoding\<close>

function codes_of :: "16 word list \<Rightarrow> int list" where
  "codes_of [] = []"
| "codes_of (u # us) = fst (take_code u us) # codes_of (snd (take_code u us))"
  by pat_completeness auto

termination codes_of
  by (relation "measure length") (auto simp: less_Suc_eq_le take_code_length simp del: take_code.simps)

lemma unit_range: "0 \<le> uint (u :: 16 word)" "uint (u :: 16 word) < 0x10000"
  using unsigned_greater_eq [of u] unsigned_less [of u] by simp_all

lemma pair_code:
  assumes "is_high h" "is_low l"
  defines "c \<equiv> push_bit 10 (h AND 0x3FF) + (l AND 0x3FF) + 0x10000"
  shows "valid_code c" "0x10000 \<le> c" "units c = [h, l]"
proof -
  have m: "h mod 1024 = h - 0xD800" "l mod 1024 = l - 0xDC00"
    using assms(1,2) mod_mult_self2 [of h 1024 "- 54"] mod_mult_self2 [of l 1024 "- 55"]
    by (simp_all add: is_high_def is_low_def)
  have c: "c = (h - 0xD800) * 1024 + (l - 0xDC00) + 0x10000"
    unfolding c_def and_masks m by (simp add: push_bit_eq_mult)
  have b: "0 \<le> h - 0xD800" "h - 0xD800 < 1024" "0 \<le> l - 0xDC00" "l - 0xDC00 < 1024"
    using assms(1,2) by (auto simp: is_high_def is_low_def)
  show "valid_code c" "0x10000 \<le> c" using b unfolding c by (auto simp: valid_code_def)
  have "(c - 0x10000) div 1024 = h - 0xD800" using b unfolding c by simp
  moreover have "c = (h - 0xD800 + 64) * 1024 + (l - 0xDC00)" unfolding c by simp
  then have "c mod 1024 = l - 0xDC00" using b by (metis mod_mult_self3 mod_pos_pos_trivial)
  ultimately show "units c = [h, l]" using \<open>0x10000 \<le> c\<close> by (simp add: units_def)
qed

lemma code_pair:
  assumes "valid_code c" "0x10000 \<le> c"
  shows "\<exists>h l. units c = [h, l] \<and> is_high h \<and> is_low l \<and> push_bit 10 (h AND 0x3FF) + (l AND 0x3FF) + 0x10000 = c"
proof -
  let ?h = "0xD800 + (c - 0x10000) div 1024" and ?l = "0xDC00 + c mod 1024"
  have q: "0 \<le> (c - 0x10000) div 1024" "(c - 0x10000) div 1024 < 1024" using assms by (auto simp: valid_code_def)
  have h: "is_high ?h" "is_low ?l" using q by (auto simp: is_high_def is_low_def)
  have top: "(k * 1024 + x) mod 1024 = x" if "0 \<le> x" "x < 1024" for k x :: int
    unfolding mod_mult_self3 using that by (rule mod_pos_pos_trivial)
  have surr: "(0xD800 + x) mod 1024 = x" "(0xDC00 + x) mod 1024 = x" if "0 \<le> x" "x < 1024" for x :: int
    using top [OF that, of 54] top [OF that, of 55] by simp_all
  have m: "?h mod 1024 = (c - 0x10000) div 1024" "?l mod 1024 = c mod 1024"
    by (rule surr(1) [OF q], rule surr(2)) simp_all
  have "(c - 0x10000) mod 1024 = c mod 1024" using mod_mult_self2 [of c 1024 "- 64"] by simp
  then have "(c - 0x10000) div 1024 * 1024 + c mod 1024 = c - 0x10000" by (metis div_mult_mod_eq)
  then have "push_bit 10 (?h AND 0x3FF) + (?l AND 0x3FF) + 0x10000 = c"
    unfolding and_masks m by (simp add: push_bit_eq_mult)
  moreover have "units c = [?h, ?l]" using assms(2) by (simp add: units_def)
  ultimately show ?thesis using h by blast
qed

lemma take_code_cases:
  fixes u :: "16 word"
  obtains "take_code u us = (uint u, us)" "is_high (uint u) \<longrightarrow> us = [] \<or> \<not> is_low (uint (hd us))"
  | u2 us2 where "us = u2 # us2" "is_high (uint u)" "is_low (uint u2)"
      "take_code u us = (push_bit 10 (uint u AND 0x3FF) + (uint u2 AND 0x3FF) + 0x10000, us2)"
proof (cases "is_high (uint u) \<and> us \<noteq> [] \<and> is_low (uint (hd us))")
  case True
  then obtain u2 us2 where us: "us = u2 # us2" by (cases us) auto
  show thesis using that(2) [OF us] True us unit_facts [OF unit_range] by (simp add: Let_def)
next
  case False
  then have "take_code u us = (uint u, us)"
    using unit_facts [OF unit_range, of u] unit_facts [OF unit_range, of "hd us"] by (cases us) (auto simp: Let_def)
  then show thesis using that(1) False by blast
qed

declare take_code.simps [simp del]

lemma codes_of_units: "concat (map units (codes_of us)) = map uint us"
proof (induction us rule: codes_of.induct)
  case (2 u us)
  have small: "units (uint u) = [uint u]" using unit_range [of u] by (simp add: units_def)
  show ?case using 2 small pair_code(3) [of "uint u"] by (cases rule: take_code_cases [of u us]) auto
qed simp

lemma low_unit: "valid_code c \<Longrightarrow> is_low c \<Longrightarrow> units c = [c]"
  by (simp add: is_low_def units_def)

lemma codes_of_unpaired: "(p \<longrightarrow> us = [] \<or> \<not> is_low (uint (hd us))) \<Longrightarrow> unpaired p (codes_of us)"
proof (induction us arbitrary: p rule: codes_of.induct)
  case (2 u us)
  have v: "valid_code (uint u)" using unit_range [of u] by (simp add: valid_code_def)
  show ?case
  proof (cases rule: take_code_cases [of u us])
    case 1
    then show ?thesis using 2 v by simp
  next
    case (2 u2 us2)
    note c = pair_code [OF 2(2,3)]
    have "0x10000 \<le> fst (take_code u us)" "valid_code (fst (take_code u us))" using c(2,1) unfolding 2(4) fst_conv .
    moreover from this(1) have "\<not> is_low (fst (take_code u us))" "\<not> is_high (fst (take_code u us))"
      by (simp_all add: is_low_def is_high_def)
    ultimately show ?thesis using "2.IH" [of False] by simp
  qed
qed simp

lemma codes_of_inverse:
  "unpaired p cs \<Longrightarrow> map uint us = concat (map units cs) \<Longrightarrow> codes_of us = cs"
proof (induction cs arbitrary: p us)
  case (Cons c cs)
  have v: "valid_code c" "unpaired (is_high c) cs" using Cons.prems(1) by auto
  show ?case
  proof (cases "c < 0x10000")
    case True
    then obtain u us1 where us: "us = u # us1" "uint u = c" "map uint us1 = concat (map units cs)"
      using Cons.prems(2) by (cases us) (auto simp: units_def [of c])
    have "us1 = [] \<or> \<not> is_low (uint (hd us1))" if h: "is_high c"
    proof (cases cs)
      case Nil
      then show ?thesis using us(3) by simp
    next
      case (Cons c2 cs2)
      then have c2: "valid_code c2" "\<not> is_low c2" using v(2) h by auto
      have "\<not> is_low (hd (units c2)) \<and> units c2 \<noteq> []"
      proof (cases "c2 < 0x10000")
        case False
        then show ?thesis using code_pair [OF c2(1)] surrogate_cases(2) by fastforce
      qed (use c2 in \<open>simp add: units_def\<close>)
      moreover have "us1 \<noteq> [] \<and> uint (hd us1) = hd (units c2)"
        using us(3) Cons calculation by (cases us1; cases "units c2") auto
      ultimately show ?thesis by simp
    qed
    then have "take_code u us1 = (c, us1)"
      using us(2) surrogate_cases(2) by (cases rule: take_code_cases [of u us1]) auto
    then show ?thesis using Cons.IH [OF v(2) us(3)] us(1) by simp
  next
    case False
    then obtain h l where hl: "units c = [h, l]" "is_high h" "is_low l" "push_bit 10 (h AND 0x3FF) + (l AND 0x3FF) + 0x10000 = c"
      using code_pair [OF v(1)] by auto
    then obtain u u2 us2 where us: "us = u # u2 # us2" "uint u = h" "uint u2 = l" "map uint us2 = concat (map units cs)"
      using Cons.prems(2) by (cases us; cases "tl us") auto
    have "take_code u (u2 # us2) = (c, us2)"
      using hl us(2,3) by (cases rule: take_code_cases [of u "u2 # us2"]) auto
    then show ?thesis using Cons.IH [OF v(2) us(4)] us(1) by simp
  qed
qed simp

lemma codes_of_valid: "c \<in> set (codes_of us) \<Longrightarrow> valid_code c"
proof -
  have "c \<in> set cs \<Longrightarrow> unpaired p cs \<Longrightarrow> valid_code c" for p cs by (induction cs arbitrary: p) auto
  then show "c \<in> set (codes_of us) \<Longrightarrow> valid_code c" using codes_of_unpaired [of False us] by blast
qed

lemma put_bytes_ok:
  "length pre + length cs \<le> length xs \<Longrightarrow> take (length pre) xs = pre \<Longrightarrow>
    \<exists>ys. put_bytes (Some xs) (int (length pre)) cs = Inr (Some ys, int (length pre + length cs)) \<and> length ys = length xs \<and>
      take (length pre + length cs) ys = pre @ map word_of_int cs"
proof (induction cs arbitrary: pre xs)
  case (Cons c cs)
  let ?xs = "xs[length pre := word_of_int c]"
  have l: "length pre < length xs" using Cons.prems(1) by simp
  have t: "take (length (pre @ [word_of_int c])) ?xs = pre @ [word_of_int c]"
    using l Cons.prems(2) by (simp add: take_Suc_conv_app_nth)
  obtain ys where "put_bytes (Some ?xs) (int (length (pre @ [word_of_int c]))) cs =
      Inr (Some ys, int (length (pre @ [word_of_int c]) + length cs))" "length ys = length ?xs"
    "take (length (pre @ [word_of_int c]) + length cs) ys = (pre @ [word_of_int c]) @ map word_of_int cs"
    using Cons.IH [OF _ t] Cons.prems(1) by auto
  then show ?case using l by (simp add: put_unit_def add.commute)
qed simp

lemma enc_length: "enc_loop us None j = Inr (j + int (length (codes_utf8 (codes_of us))), None)"
proof (induction us arbitrary: j rule: codes_of.induct)
  case (2 u us)
  have "valid_code (fst (take_code u us))" using codes_of_valid [of _ "u # us"] by simp
  then show ?case using 2 code_bytes_utf8(2) by (simp add: Let_def)
qed simp

lemma enc_ok:
  "length pre + length (codes_utf8 (codes_of us)) \<le> length xs \<Longrightarrow> take (length pre) xs = pre \<Longrightarrow>
    \<exists>ys. enc_loop us (Some xs) (int (length pre)) = Inr (int (length pre + length (codes_utf8 (codes_of us))), Some ys) \<and>
      length ys = length xs \<and> take (length pre + length (codes_utf8 (codes_of us))) ys = pre @ codes_utf8 (codes_of us)"
proof (induction us arbitrary: pre xs rule: codes_of.induct)
  case (2 u us)
  let ?c = "fst (take_code u us)" and ?us = "snd (take_code u us)"
  have v: "code_bytes ?c = utf8 ?c" using codes_of_valid [of _ "u # us"] code_bytes_utf8(1) by simp
  obtain ys where ys: "put_bytes (Some xs) (int (length pre)) (utf8 ?c) = Inr (Some ys, int (length pre + length (utf8 ?c)))"
    "length ys = length xs" "take (length pre + length (utf8 ?c)) ys = pre @ map word_of_int (utf8 ?c)"
    using put_bytes_ok [of pre "utf8 ?c" xs] 2(2,3) by auto
  let ?pre = "pre @ map word_of_int (utf8 ?c)"
  obtain zs where "enc_loop ?us (Some ys) (int (length ?pre)) = Inr (int (length ?pre + length (codes_utf8 (codes_of ?us))), Some zs)"
    "length zs = length ys" "take (length ?pre + length (codes_utf8 (codes_of ?us))) zs = ?pre @ codes_utf8 (codes_of ?us)"
    using 2(1) [of ?pre ys] 2(2) ys(2,3) by auto
  then show ?case using ys v by (simp add: Let_def add.assoc)
qed simp

lemma encode_units:
  "utf16ish_to_utf8ish us None = Inr (int (length (codes_utf8 (codes_of us))), None)"
  "length xs = length (codes_utf8 (codes_of us)) \<Longrightarrow>
     utf16ish_to_utf8ish us (Some xs) = Inr (int (length xs), Some (codes_utf8 (codes_of us)))"
  using enc_length [of us 0] enc_ok [of "[]" us xs] by (auto simp: utf16ish_to_utf8ish_def)

section \<open>Terminated strings\<close>

lemma unpaired_append_zero: "unpaired p cs \<Longrightarrow> unpaired p (cs @ [0])"
  by (induction cs arbitrary: p) (auto simp: valid_code_def is_low_def)

lemma zero_code: "valid_code c \<Longrightarrow> 0 \<in> set (utf8 c) \<longleftrightarrow> c = 0" "valid_code c \<Longrightarrow> 0 \<in> set (units c) \<longleftrightarrow> c = 0"
  by (auto simp: utf8_def units_def valid_code_def split: if_splits)

lemma unpaired_valid: "unpaired p cs \<Longrightarrow> c \<in> set cs \<Longrightarrow> valid_code c"
  by (induction cs arbitrary: p) auto

lemma c_string_append: "0 \<notin> set xs \<Longrightarrow> c_string (xs @ 0 # ys) = xs @ [0]" for xs :: "'a::zero list"
  by (auto simp: c_string_def takeWhile_append)

lemma codes_of_c_string:
  obtains cs0 where "codes_of (c_string ws) = cs0 @ [0]" "0 \<notin> set cs0" "unpaired False (cs0 @ [0])"
proof -
  let ?w = "takeWhile (\<lambda>c. c \<noteq> 0) ws" and ?cs = "codes_of (takeWhile (\<lambda>c. c \<noteq> 0) ws)"
  have u: "unpaired False (?cs @ [0])" using codes_of_unpaired [of False ?w] unpaired_append_zero by simp
  moreover have "map uint (c_string ws) = concat (map units (?cs @ [0]))"
    using codes_of_units [of ?w] by (simp add: c_string_def units_def)
  ultimately have "codes_of (c_string ws) = ?cs @ [0]" by (rule codes_of_inverse)
  moreover have "0 \<notin> set ?cs"
  proof
    assume "0 \<in> set ?cs"
    then have "0 \<in> set (concat (map units ?cs))" by (force simp: units_def)
    then show False unfolding codes_of_units by (auto simp: uint_0_iff dest: set_takeWhileD)
  qed
  ultimately show thesis using that u by blast
qed

lemma codes_utf8_append [simp]: "codes_utf8 (cs @ cs') = codes_utf8 cs @ codes_utf8 cs'"
  by (simp add: codes_utf8_def)

lemma byte_zero: "valid_code c \<Longrightarrow> x \<in> set (utf8 c) \<Longrightarrow> (word_of_int x :: 8 word) = 0 \<longleftrightarrow> x = 0"
  using utf8_range [of c x] uint_byte [of x] by (metis uint_0_iff of_int_0)

lemma unit_zero: "valid_code c \<Longrightarrow> x \<in> set (units c) \<Longrightarrow> (word_of_int x :: 16 word) = 0 \<longleftrightarrow> x = 0"
  using units_range [of c x] uint_unit [of x] by (metis uint_0_iff of_int_0)

lemma codes_utf8_nonzero:
  assumes "unpaired p cs"
  shows "0 \<in> set (codes_utf8 cs) \<longleftrightarrow> 0 \<in> set cs"
proof -
  have "0 \<in> set (codes_utf8 cs) \<longleftrightarrow> (\<exists>c \<in> set cs. 0 \<in> set (utf8 c))"
    using byte_zero unpaired_valid [OF assms] unfolding codes_utf8_def by (auto simp: image_iff) (metis)+
  also have "\<dots> \<longleftrightarrow> 0 \<in> set cs" using zero_code(1) unpaired_valid [OF assms] by blast
  finally show ?thesis .
qed

lemma units_nonzero:
  assumes "unpaired p cs"
  shows "0 \<in> set (map word_of_int (concat (map units cs)) :: 16 word list) \<longleftrightarrow> 0 \<in> set cs"
proof -
  have "0 \<in> set (map word_of_int (concat (map units cs)) :: 16 word list) \<longleftrightarrow> (\<exists>c \<in> set cs. 0 \<in> set (units c))"
    using unit_zero unpaired_valid [OF assms] by (auto simp: image_iff) (metis)+
  also have "\<dots> \<longleftrightarrow> 0 \<in> set cs" using zero_code(2) unpaired_valid [OF assms] by blast
  finally show ?thesis .
qed

lemma unpaired_prefix: "unpaired p (cs @ cs') \<Longrightarrow> unpaired p cs"
  by (induction cs arbitrary: p) auto

lemma c_string_codes:
  assumes "unpaired False (cs0 @ [0])" "0 \<notin> set cs0"
  shows "c_string (codes_utf8 (cs0 @ [0])) = codes_utf8 (cs0 @ [0])"
  using c_string_append [of "codes_utf8 cs0" "[]"] codes_utf8_nonzero [OF unpaired_prefix [OF assms(1)]] assms(2)
  by (simp add: utf8_def)

lemma c_string_units:
  fixes ws :: "16 word list"
  assumes "unpaired False (cs0 @ [0])" "0 \<notin> set cs0"
    and "take (length (concat (map units (cs0 @ [0])))) ws = map word_of_int (concat (map units (cs0 @ [0])))"
  shows "c_string ws = map word_of_int (concat (map units (cs0 @ [0])))"
proof -
  let ?u = "map word_of_int (concat (map units cs0)) :: 16 word list"
  have "take (length (concat (map units (cs0 @ [0])))) ws = ?u @ [0]" using assms(3) by (simp add: units_def [of 0])
  then have "ws = ?u @ 0 # drop (length (concat (map units (cs0 @ [0])))) ws"
    by (metis append.assoc append_Cons append_Nil append_take_drop_id)
  then have "c_string ws = ?u @ [0]"
    using c_string_append units_nonzero [OF unpaired_prefix [OF assms(1)]] assms(2) by metis
  then show ?thesis by (simp add: units_def [of 0])
qed

lemma c_string_parse:
  assumes "c_string s = codes_utf8 cs" "unpaired False cs"
  obtains cs0 where "cs = cs0 @ [0]" "0 \<notin> set cs0"
proof -
  let ?s = "takeWhile (\<lambda>c. c \<noteq> 0) s"
  have s: "codes_utf8 cs = ?s @ [0]" using assms(1) by (simp add: c_string_def)
  then have "cs \<noteq> []" by auto
  then obtain cs0 c where cs: "cs = cs0 @ [c]" by (metis rev_exhaust)
  have v: "valid_code c" using unpaired_valid [OF assms(2)] cs by simp
  have ne: "utf8 c \<noteq> []" by (simp add: utf8_def)
  have sp: "codes_utf8 cs0 @ map word_of_int (utf8 c) = ?s @ [0]" using s cs by simp
  have "last (codes_utf8 cs0 @ map word_of_int (utf8 c)) = (0 :: 8 word)" unfolding sp by simp
  then have "word_of_int (last (utf8 c)) = (0 :: 8 word)" using ne by (simp add: last_append last_map)
  then have "last (utf8 c) = 0" using byte_zero [OF v, of "last (utf8 c)"] ne by simp
  then have "0 \<in> set (utf8 c)" using ne last_in_set by metis
  then have c: "c = 0" using zero_code(1) [OF v] by simp
  then have "codes_utf8 cs0 = ?s" using sp by (simp add: utf8_def)
  then have "0 \<notin> set (codes_utf8 cs0)" by (auto dest: set_takeWhileD)
  then have "0 \<notin> set cs0" using codes_utf8_nonzero unpaired_prefix assms(2) cs by blast
  then show thesis using that cs c by blast
qed

section \<open>The conversions of strings\<close>

definition wide_ok :: "wide_state \<Rightarrow> bool" where
  "wide_ok st = (wide_buffer_size st = int (length (wide_buffer st)))"

lemma wide_room_ok:
  assumes "wide_ok st" "0 \<le> len"
  shows "\<exists>ws st'. wide_room junk do_copy len st = (ws, st') \<and> nat len \<le> length ws \<and> (\<not> do_copy \<longrightarrow> length (wide_buffer st') = length ws) \<and> wide_ok st'"
  using assms by (auto simp: wide_room_def wide_ok_def RKTIO_MAX_IDEAL_BUFFER_SIZE_def)

lemma to_wchar_codes:
  assumes "wide_ok st" "c_string s = codes_utf8 cs" "unpaired False cs"
  shows "\<exists>ws st'. rktio_convert_to_wchar junk s do_copy st = Inr (ws, st') \<and> wide_ok st' \<and>
    take (length (concat (map units cs))) ws = map word_of_int (concat (map units cs))"
proof -
  let ?n = "length (concat (map units cs))"
  have d1: "utf8ish_to_utf16ish (c_string s) None = Inr (int ?n, None)"
    using decode_codes [OF assms(3), of None] assms(2) by auto
  obtain ws st1 where w: "wide_room junk do_copy (int ?n) st = (ws, st1)" "?n \<le> length ws"
    "\<not> do_copy \<longrightarrow> length (wide_buffer st1) = length ws" "wide_ok st1"
    using wide_room_ok [OF assms(1), of "int ?n" junk do_copy] by auto
  obtain ys where "utf8ish_to_utf16ish (c_string s) (Some ws) = Inr (int ?n, Some ys)" "length ys = length ws"
    "take ?n ys = map word_of_int (concat (map units cs))"
    using decode_codes [OF assms(3), of "Some ws"] assms(2) w(2) by auto
  then show ?thesis using d1 w by (auto simp: rktio_convert_to_wchar_def wide_ok_def)
qed

lemma from_wchar_codes: "rktio_convert_from_wchar junk ws = Inr (codes_utf8 (codes_of (c_string ws)))"
  using encode_units(1) [of "c_string ws"] encode_units(2) [of _ "c_string ws"] by (simp add: rktio_convert_from_wchar_def)

text \<open>
  C9: every 16-bit string survives the way to bytes and back, unpaired surrogates included. The
  conversion to bytes never fails, its two passes agree on the length, and no pass writes outside of its
  buffer, be it new or the shared one.
\<close>

theorem wide_round_trip:
  assumes "wide_ok st"
  shows "\<exists>s ws' st'. rktio_convert_from_wchar junk ws = Inr s \<and> rktio_convert_to_wchar junk' s do_copy st = Inr (ws', st') \<and>
    wide_ok st' \<and> c_string ws' = c_string ws"
proof -
  obtain cs0 where cs: "codes_of (c_string ws) = cs0 @ [0]" "0 \<notin> set cs0" "unpaired False (cs0 @ [0])"
    by (rule codes_of_c_string)
  let ?s = "codes_utf8 (cs0 @ [0])"
  obtain ws' st' where w: "rktio_convert_to_wchar junk' ?s do_copy st = Inr (ws', st')" "wide_ok st'"
    "take (length (concat (map units (cs0 @ [0])))) ws' = map word_of_int (concat (map units (cs0 @ [0])))"
    using to_wchar_codes [OF assms c_string_codes [OF cs(3,2)] cs(3)] by blast
  have "c_string ws' = map word_of_int (concat (map units (cs0 @ [0])))" by (rule c_string_units [OF cs(3,2) w(3)])
  also have "\<dots> = map word_of_int (map uint (c_string ws))" using codes_of_units [of "c_string ws"] cs(1) by simp
  finally have "c_string ws' = c_string ws" by (simp add: comp_def)
  then show ?thesis using from_wchar_codes [of junk ws] cs(1) w(1,2) by auto
qed

theorem wide_round_trip_witness:
  "\<exists>s ws' st'. rktio_convert_from_wchar 1 [0x41, 0xDC00, 0xD800, 0xD83D, 0xDE00] = Inr s \<and>
    rktio_convert_to_wchar 7 s False \<lparr>wide_buffer = [], wide_buffer_size = 0\<rparr> = Inr (ws', st') \<and>
    c_string ws' = [0x41, 0xDC00, 0xD800, 0xD83D, 0xDE00, 0]"
proof -
  have "wide_ok \<lparr>wide_buffer = [], wide_buffer_size = 0\<rparr>" by (simp add: wide_ok_def)
  from wide_round_trip [OF this, of 1 "[0x41, 0xDC00, 0xD800, 0xD83D, 0xDE00]" 7 False] show ?thesis
    by (auto simp: c_string_def)
qed

text \<open>
  C10: encodings are canonical. A byte string that the conversion to 16-bit units accepts is the one
  that its result is converted to, so no two byte strings have the same result.
\<close>

theorem wide_canonical:
  assumes "wide_ok st" "rktio_convert_to_wchar junk s do_copy st = Inr (ws, st')"
  shows "rktio_convert_from_wchar junk' ws = Inr (c_string s)"
proof -
  obtain r where "utf8ish_to_utf16ish (c_string s) None = Inr r"
    using assms(2) by (auto simp: rktio_convert_to_wchar_def rbind_eq_Inr_iff)
  then obtain cs where cs: "c_string s = codes_utf8 cs" "unpaired False cs" using decode_parse by blast
  obtain cs0 where c0: "cs = cs0 @ [0]" "0 \<notin> set cs0" using c_string_parse [OF cs] .
  have t: "take (length (concat (map units cs))) ws = map word_of_int (concat (map units cs))"
    using to_wchar_codes [OF assms(1) cs, of junk do_copy] assms(2) by auto
  have ws: "c_string ws = map word_of_int (concat (map units cs))"
    using c_string_units [of cs0 ws] t cs(2) c0 by simp
  have "x \<in> set (concat (map units cs)) \<Longrightarrow> 0 \<le> x \<and> x < 0x10000" for x
    using units_range unpaired_valid [OF cs(2)] by auto
  then have "map uint (c_string ws) = concat (map units cs)" unfolding ws map_map
    by (intro map_idI) (simp add: uint_unit)
  then have "codes_of (c_string ws) = cs" by (rule codes_of_inverse [OF cs(2)])
  then show ?thesis using from_wchar_codes cs(1) by simp
qed

theorem wide_canonical_witness:
  "\<exists>ws st'. rktio_convert_to_wchar 7 [0x41, 0xED, 0xA0, 0x80] True \<lparr>wide_buffer = [], wide_buffer_size = 0\<rparr> = Inr (ws, st') \<and>
    rktio_convert_from_wchar 1 ws = Inr [0x41, 0xED, 0xA0, 0x80, 0]"
proof -
  let ?st = "\<lparr>wide_buffer = [], wide_buffer_size = 0\<rparr>"
  have "rktio_convert_to_wchar 7 [0x41, 0xED, 0xA0, 0x80] True ?st = Inr ([0x41, 0xD800, 0], ?st)" by code_simp
  moreover have "wide_ok ?st" by (simp add: wide_ok_def)
  ultimately show ?thesis using wide_canonical [of ?st 7 "[0x41, 0xED, 0xA0, 0x80]" True] by (simp add: c_string_def)
qed

end
