(* ===== verification/Spec2Isabelle.thy ===== *)
theory Spec2Isabelle
  imports Zuo_Round_Trip Zuo_Eval Zuo_Modules Zuo_Cleanup Zuo_Main Zuo_Sha256_Spec Zuo_Image Rktio_Ltps_Spec Rktio_Wide_Round_Trip
begin

text \<open>
  A verification of Zuo, the small language implementation in
  \<^verbatim>\<open>src/racket/src/zuo/zuo.c\<close> that drives the build of Racket, and of the parts of
  \<^verbatim>\<open>src/racket/src/rktio\<close>, Racket's portable operating system layer, that are algorithms rather than
  calls into the system.

  \<^bold>\<open>The program.\<close> Zuo is one C file. A memory manager allocates objects of a dozen layouts and
  collects garbage by copying. Symbols are interned in a trie; the same tries are the
  persistent hash tables of the language and the initial environment. A reader turns text
  into objects, a printer turns objects into text, and an abstract machine with explicit
  registers and continuations evaluates the kernel language. The machine applies
  primitives, C functions registered with an arity mask, through small dispatchers. On top lie
  paths, module paths, command lines, and the calls into the operating system. The memory can be
  dumped into an image and restored from it, by another process or on a machine of the other
  byte order. In rktio, a long-term poll set keeps the descriptors that a client waits for in an
  open-addressing hash table and queues the handles whose events have arrived; on Windows,
  paths cross between byte strings and 16-bit strings.

  \<^bold>\<open>Theories and code.\<close> Each definition carries the name of the C function it translates, helper
  functions the name of the loop or branch they stand for.
  \<^item> \<open>Zuo_Prelude\<close>: machine integers (64-bit and 32-bit words for \<^verbatim>\<open>zuo_int_t\<close> and
    \<^verbatim>\<open>zuo_int32_t\<close>), results of fallible operations (\<^term>\<open>Inl\<close> an error), the C character classes
    and \<^verbatim>\<open>strcmp\<close>.
  \<^item> \<open>Zuo_Heap\<close>, \<open>Zuo_Collect\<close>: the memory manager (\<^verbatim>\<open>malloc_or_recycle\<close> to
    \<^verbatim>\<open>zuo_replace_heap\<close>) over blocks, byte offsets and object layouts; the correctness of
    allocation and collection.
  \<^item> \<open>Zuo_Trie\<close>, \<open>Zuo_Symbols\<close>: \<^verbatim>\<open>zuo_trie_lookup\<close> to \<^verbatim>\<open>zuo_trie_keys_subset_p\<close>; the symbol table and
    the merge sort of keys.
  \<^item> \<open>Zuo_Value\<close>: the values as the primitives see them, and one error constructor for each way the
    program stops.
  \<^item> \<open>Zuo_Print\<close>, \<open>Zuo_Read\<close>, \<open>Zuo_Round_Trip\<close>: \<^verbatim>\<open>zuo_out\<close> and \<^verbatim>\<open>zuo_in\<close>, both machines with an explicit
    stack in the source, and their composition.
  \<^item> \<open>Zuo_Prims\<close>: the object primitives, from \<^verbatim>\<open>pair?\<close> to \<^verbatim>\<open>arity-error\<close>.
  \<^item> \<open>Zuo_Interp\<close>, \<open>Zuo_Safety\<close>: \<^verbatim>\<open>check_syntax\<close>, environments, \<^verbatim>\<open>interp_step\<close>, \<^verbatim>\<open>continue_step\<close> and
    the loop \<^verbatim>\<open>zuo_kernel_eval\<close>; type safety of the machine for any safe primitives.
  \<^item> \<open>Zuo_Path\<close>, \<open>Zuo_Shell\<close>: paths and module paths, quoting and splitting of command lines.
  \<^item> \<open>Zuo_Prim_Safety\<close>, \<open>Zuo_Dispatch\<close>: every primitive keeps values well-formed; the dispatchers, the
    table of all primitives, start-up, and the safety of reading and evaluating text.
  \<^item> \<open>Zuo_Eval\<close>: an evaluator for the kernel language by recursion on expressions, and that the machine
    returns what it returns.
  \<^item> \<open>Zuo_Streams\<close>, \<open>Zuo_Channel\<close>: \<^verbatim>\<open>zuo_drain\<close>, \<^verbatim>\<open>zuo_fill\<close> and the descriptor primitives, from
    \<^verbatim>\<open>fd-open-input\<close> to \<^verbatim>\<open>fd-poll\<close>, over a record of system calls; what a pipe returns.
  \<^item> \<open>Zuo_Process\<close>, \<open>Zuo_Children\<close>, \<open>Zuo_Cleanup\<close>: suspending signals, the table of cleanables and
    \<^verbatim>\<open>zuo_clean_all\<close>, \<^verbatim>\<open>zuo_process\<close> with its options and the calls of the new process, and \<^verbatim>\<open>zuo_process_wait\<close>; the
    descriptors of a new process, waiting, and what an exit cleans up.
  \<^item> \<open>Zuo_Files\<close>: \<^verbatim>\<open>zuo_stat\<close> to \<^verbatim>\<open>zuo_current_time\<close>, files, directories and links; what \<^verbatim>\<open>cp\<close> copies.
  \<^item> \<open>Zuo_Main\<close>: \<^verbatim>\<open>zuo_main\<close>, from the command line to the module to run, and the runtime environment.
  \<^item> \<open>Zuo_Sha256\<close>, \<open>Zuo_Sha256_Spec\<close>: \<^verbatim>\<open>string-sha256\<close> and the code under it; the standard FIPS 180, and
    that the code computes it.
  \<^item> \<open>Zuo_Modules\<close>: the module registry, from \<^verbatim>\<open>zuo_declare_kernel_module\<close> to \<^verbatim>\<open>zuo_get_read_and_eval\<close>.
  \<^item> \<open>Zuo_Fasl\<close>, \<open>Zuo_Image\<close>: the table of registered primitives and \<^verbatim>\<open>zuo_fasl_dump\<close> and
    \<^verbatim>\<open>zuo_fasl_restore\<close> with their streams, over the memory of \<open>Zuo_Heap\<close>; the round trip.
  \<^item> \<open>Rktio_Hash\<close>, \<open>Rktio_Hash_Map\<close>: \<^verbatim>\<open>rktio_hash.c\<close>, an array of buckets probed with two hash
    codes; that it implements a finite map.
  \<^item> \<open>Rktio_Ltps\<close>, \<open>Rktio_Ltps_Spec\<close>: \<^verbatim>\<open>rktio_ltps.c\<close> in the epoll configuration, over a store of
    pairs and linked handles, with the system's answers as arguments; an abstract poll set and
    the refinement.
  \<^item> \<open>Rktio_Wide\<close>, \<open>Rktio_Wide_Round_Trip\<close>: \<^verbatim>\<open>rktio_wide.c\<close> in the Windows configuration; the decoder
    as the state machine of the source, the encoder, and the two passes over a buffer.

  \<^bold>\<open>Interfaces.\<close> \<open>symbol_map\<close> (what a table promises, interpreted on the tries), \<open>interner\<close> (the
  symbol table), \<open>path_joiner\<close> (the two ways of joining paths), \<open>safe_primitives\<close> (what the machine
  needs of primitives), \<open>os_interface\<close> (what the operating system's primitives must keep; it
  gives \<open>safe_primitives\<close> for the whole table), \<open>direct_machine\<close> (that primitives see of the stack of
  prompts only its tags), \<open>heap_client\<close> (what code that uses memory must
  keep, interpreted on allocation, stores and collection), \<open>byte_channel\<close> (what the system promises of a
  descriptor that is written and read again, interpreted on a pipe whose transfers are partial), \<open>keyed_table\<close> (what a poll set
  needs of a table, interpreted on the open-addressing hash table).

  \<^bold>\<open>What is shown.\<close>
  \<^item> Safety: reading and evaluating any kernel-language text from the start-up state never
    reaches undefined behaviour, apart from three named defects (\<^verbatim>\<open>string-ref\<close> near the largest
    integer, a command line that ends in a backslash, and \<^verbatim>\<open>string-sha256\<close> of anything but a string).
  \<^item> Evaluation: for expressions that capture no continuation, the machine returns what a recursive
    evaluator of the kernel language returns, and returns whenever that does.
  \<^item> Memory: a collection ends, touches only memory that holds objects, and leaves an isomorphic copy
    of the reachable part; allocation never overlaps; any use of memory keeps this true.
  \<^item> Data: tries implement finite maps; interning identifies symbols by name; sorting is
    sorting; lists, strings, integers and variables behave as documented, with the wrap-around of
    64-bit arithmetic.
  \<^item> Text: the printer's machine prints the recursive form, the reader always ends, and reading
    what was written gives the datum back; command lines are split into the words that were
    quoted; joined paths resolve to the concatenation of their elements.
  \<^item> Streams: whatever the sizes of the transfers, what \<^verbatim>\<open>fd-write\<close> sent is what \<^verbatim>\<open>fd-read\<close> receives, in order
    and complete; a closed handle stays closed.
  \<^item> Processes: a new process has the standard descriptors that were asked for; waiting ends, and every exit is
    recorded for the handle of its own process; an exit closes, waits for and deletes exactly what is due, each once.
  \<^item> Files: \<^verbatim>\<open>cp\<close> copies a file if writes are complete, and what arrives otherwise.
  \<^item> Start: switches on the command line and the library that they choose; environment variables that are given to a
    process are the ones that it sees.
  \<^item> Digests: messages in pieces of any sizes have the digest of the standard, as long as the 32-bit lengths of
    the pieces suffice; the two configurations of the block function agree.
  \<^item> Modules: a module is loaded at most once, its result never changes, and cycles are reported.
  \<^item> Images: restoring a dumped image, in either byte order, gives an isomorphic copy of the objects
    its roots reach, up to two fields that the format does not carry; every primitive of start-up fits
    into the table and is found again by its number.
  \<^item> Poll sets: for callers that keep to the contract of the hash table, its searches end and agree
    with a finite map; a poll set returns what its specification returns, for any history and any
    answers of the system, and closing it frees everything it owns once.
  \<^item> Wide strings: 16-bit strings of any contents survive the way to bytes and back, and accepted
    byte strings are canonical, so that the decoder refuses overlong forms and encoded pairs.
  \<^item> Divergences: theorems that exhibit inputs on which the code departs from its documentation.

  \<^bold>\<open>Bounds.\<close> The evaluation loop need not end, so \<open>kernel_run\<close> takes fuel; the safety theorem holds
  for every amount, and \<open>Zuo_Eval\<close> shows that some amount is enough whenever evaluation is
  finite. Reading from and
  writing to a descriptor take a number of rounds, since the system may never finish a transfer;
  as many rounds as there are bytes, and one more, are shown to be enough for a channel. Waiting for
  processes takes fuel too, and one round more than there are children is enough. The printer, the reader and the scan of the collector are partial
  functions and proved to return. Symbol ids, handle ids and object sizes are unbounded numbers where the code
  has 32 or 64 bits: reaching the bounds takes more memory than the bounds can address. An image
  is shown to round-trip for memories of less than \<^term>\<open>2 ^ 30 :: nat\<close> bytes, which its 32-bit word offsets can
  name. A rehash of the hash table inserts into a table with room, so that its own insertions do not
  rehash again; two levels are enough and proved so.

  \<^bold>\<open>What is not modelled.\<close> In the table of primitives, those that call the operating system are a parameter,
  also the primitives that \<open>Zuo_Streams\<close>, \<open>Zuo_Process\<close> and \<open>Zuo_Files\<close> define, whose state has handles and a world
  besides; \<^verbatim>\<open>eq?\<close> on values without an identity of their own is a parameter too, since values are modelled
  by their contents. The procedure \<^verbatim>\<open>module->hash\<close> contains itself, so what it does is a relation
  (\<open>loads\<close>), in which running the body of a module may change anything outside the registry. A signal arrives only between operations.
  The embedding interface calls the parts modelled here. Stack
  traces, terminals, probes and terminal colours only print.
  The Windows configuration of Zuo is left out, as are the kqueue, poll
  and select variants of poll sets. The rest of rktio calls the operating system. The other parts of the
  repository (the BC runtime, Chez Scheme and its libraries) are listed in the manifest.
\<close>

section \<open>Primitives and images\<close>

text \<open>
  Start-up registers each primitive in the table that images refer to: those of the initial
  environment, in order, and four private ones. The table holds procedures; here a procedure goes
  by the name it is bound to, which is different for different procedures.
\<close>

fun register_all :: "(string \<times> zuo_int32) list \<Rightarrow> prim_table \<Rightarrow> fasl_error + prim_table" where
  "register_all [] prims = Inr prims"
| "register_all ((proc, am) # ps) prims = rbind (zuo_register_primitive proc am prims) (register_all ps)"

definition startup_primitives :: "(zval \<Rightarrow> zval \<Rightarrow> bool) \<Rightarrow> prim_impl \<Rightarrow> (string \<times> zuo_int32) list" where
  "startup_primitives same os =
     map (\<lambda>e. (pe_name e, pe_mask e)) (Zuo_Dispatch.prim_table same os) @
     [(''o_kernel_read_string'', arity_bit 1), (''o_module_to_hash_star'', arity_bit 1),
      (''o_get_read_and_eval'', arity_bit 2), (''o_register_module'', arity_bit 2)]"

lemma register_all_ok:
  "length prims + length ps \<le> ZUO_MAX_PRIMITIVE_COUNT \<Longrightarrow> register_all ps prims = Inr (prims @ ps)"
  by (induction ps prims rule: register_all.induct) (auto simp: zuo_register_primitive_def)

lemma startup_names:
  "map fst (startup_primitives same os) =
     prim_names @ [''o_kernel_read_string'', ''o_module_to_hash_star'', ''o_get_read_and_eval'', ''o_register_module'']"
  using prim_table_names [of same os] by (simp add: startup_primitives_def comp_def)

lemma startup_distinct: "distinct (map fst (startup_primitives same os))"
  unfolding startup_names using prim_names_distinct by (simp add: prim_names_def)

text \<open>
  C40: the table of primitives is large enough for all primitives of start-up, and every one of
  them, and nothing else, is found again by its number: an image that refers to a primitive by
  number is restored with that primitive's procedure and arity mask.
\<close>

theorem startup_primitives_registered:
  "\<exists>t. register_all (startup_primitives same os) [] = Inr t \<and> length t = 111 \<and>
     ((\<exists>i. zuo_primitive_to_id t p = Inr i \<and> zuo_id_to_primitive t i = Inr (p, m)) \<longleftrightarrow>
      (p, m) \<in> set (startup_primitives same os))"
proof -
  let ?t = "startup_primitives same os"
  have len: "length ?t = 111"
    using arg_cong [OF startup_names, of length same os] by (simp add: prim_names_def)
  have "(\<exists>i. zuo_primitive_to_id ?t p = Inr i \<and> zuo_id_to_primitive ?t i = Inr (p, m))" if "(p, m) \<in> set ?t"
  proof -
    have "map_of ?t p = Some m" using that startup_distinct [of same os] by simp
    then show ?thesis
      using prim_index_takeWhile [of ?t p m 0] fasl_prim_reads [of ?t p m] len
      by (simp add: zuo_primitive_to_id_def)
  qed
  moreover have "(p, m) \<in> set ?t" if "zuo_id_to_primitive ?t i = Inr (p, m)" for i
    using that by (auto simp: zuo_id_to_primitive_def in_set_conv_nth split: if_splits)
  ultimately show ?thesis using register_all_ok [of "[]" ?t] len by auto
qed

end
